(* ===== verification/Prelude.thy ===== *)
theory Prelude
  imports Main "HOL-Library.Word" "HOL-Library.Multiset" "HOL-Library.Sublist"
begin

text \<open>
  Shared vocabulary of the development: the C integer types as machine words, results of
  code that may fault, and the generic facts on sums, lists and words that the component
  theories use.
\<close>

unbundle bit_operations_syntax

section \<open>Integer types of the C sources\<close>

type_synonym u8 = "8 word"
type_synonym u16 = "16 word"
type_synonym u32 = "32 word"
type_synonym u64 = "64 word"

section \<open>Results that may fault\<close>

text \<open>
  A computation that may fault returns \<open>'e + 'a\<close>: \<open>Inl\<close> is the fault, \<open>Inr\<close> the value.
  \<open>bindS\<close> runs the rest of the code when there was no fault.
\<close>

definition bindS :: "'e + 'a \<Rightarrow> ('a \<Rightarrow> 'e + 'b) \<Rightarrow> 'e + 'b" where
  "bindS m f = (case m of Inl e \<Rightarrow> Inl e | Inr x \<Rightarrow> f x)"

lemma bindS_simps [simp]:
  "bindS (Inl e) f = Inl e"
  "bindS (Inr x) f = f x"
  by (simp_all add: bindS_def)

lemma bindS_eq_Inr_iff: "bindS m f = Inr y \<longleftrightarrow> (\<exists>x. m = Inr x \<and> f x = Inr y)"
  by (cases m) auto

lemma bindS_eq_Inl_iff:
  "bindS m f = Inl e \<longleftrightarrow> m = Inl e \<or> (\<exists>x. m = Inr x \<and> f x = Inl e)"
  by (cases m) auto

lemma bindS_cong [cong, fundef_cong]:
  "m = m' \<Longrightarrow> (\<And>x. m' = Inr x \<Longrightarrow> f x = g x) \<Longrightarrow> bindS m f = bindS m' g"
  by (cases m') auto

section \<open>Words\<close>

lemma unat_bound: "unat (w :: 'a::len word) < 2 ^ LENGTH('a)"
  by (rule unsigned_less)

lemma unat_ucast_up:
  assumes "LENGTH('a) \<le> LENGTH('b)"
  shows "unat (ucast (w :: 'a::len word) :: 'b::len word) = unat w"
proof -
  have "unat w < 2 ^ LENGTH('b)"
    by (rule order.strict_trans2 [OF unat_bound power_increasing]) (use assms in simp_all)
  then show ?thesis by (simp add: unsigned_ucast_eq take_bit_nat_eq_self)
qed

lemma unat_add_no_overflow:
  "\<not> a + b < a \<Longrightarrow> unat (a + b :: 'a::len word) = unat a + unat b"
  by (simp add: not_less no_olen_add_nat unat_word_ariths)

lemma of_nat_u32_small [simp]: "n < 2 ^ 32 \<Longrightarrow> unat (of_nat n :: u32) = n"
  by (simp add: unat_of_nat)

lemma sint_of_int_64: "- (2 ^ 63) \<le> n \<Longrightarrow> n < 2 ^ 63 \<Longrightarrow> sint (of_int n :: u64) = n"
  by (simp add: signed_of_int signed_take_bit_int_eq_self)

text \<open>A fact about bytes, by going through them all.\<close>

lemma u8_all:
  assumes "list_all (\<lambda>k. P (word_of_int k :: u8)) [0..255]"
  shows "P b"
proof -
  have "uint b \<in> set [0..255]" using uint_lt2p [of b] by simp
  then have "P (word_of_int (uint b))" using assms by (simp only: list_all_iff)
  then show ?thesis by simp
qed

end
