(* ===== verification/BPF_Filter.thy ===== *)
theory BPF_Filter
  imports Prelude
begin

text \<open>
  The Berkeley packet filter machine of the kernel, \<^verbatim>\<open>xnu bsd/net/bpf_filter.c\<close>: reading
  packet bytes out of a chain of mbufs, the interpreter \<open>bpf_filter\<close> and the checker
  \<open>bpf_validate\<close> that runs before a program supplied by a process is installed.
\<close>

section \<open>Instruction encoding (bpf.h)\<close>

abbreviation (input) BPF_LD :: u16 where "BPF_LD \<equiv> 0x00"
abbreviation (input) BPF_LDX :: u16 where "BPF_LDX \<equiv> 0x01"
abbreviation (input) BPF_ST :: u16 where "BPF_ST \<equiv> 0x02"
abbreviation (input) BPF_STX :: u16 where "BPF_STX \<equiv> 0x03"
abbreviation (input) BPF_ALU :: u16 where "BPF_ALU \<equiv> 0x04"
abbreviation (input) BPF_JMP :: u16 where "BPF_JMP \<equiv> 0x05"
abbreviation (input) BPF_RET :: u16 where "BPF_RET \<equiv> 0x06"
abbreviation (input) BPF_MISC :: u16 where "BPF_MISC \<equiv> 0x07"
abbreviation (input) BPF_W :: u16 where "BPF_W \<equiv> 0x00"
abbreviation (input) BPF_H :: u16 where "BPF_H \<equiv> 0x08"
abbreviation (input) BPF_B :: u16 where "BPF_B \<equiv> 0x10"
abbreviation (input) BPF_IMM :: u16 where "BPF_IMM \<equiv> 0x00"
abbreviation (input) BPF_ABS :: u16 where "BPF_ABS \<equiv> 0x20"
abbreviation (input) BPF_IND :: u16 where "BPF_IND \<equiv> 0x40"
abbreviation (input) BPF_MEM :: u16 where "BPF_MEM \<equiv> 0x60"
abbreviation (input) BPF_LEN :: u16 where "BPF_LEN \<equiv> 0x80"
abbreviation (input) BPF_MSH :: u16 where "BPF_MSH \<equiv> 0xa0"
abbreviation (input) BPF_ADD :: u16 where "BPF_ADD \<equiv> 0x00"
abbreviation (input) BPF_SUB :: u16 where "BPF_SUB \<equiv> 0x10"
abbreviation (input) BPF_MUL :: u16 where "BPF_MUL \<equiv> 0x20"
abbreviation (input) BPF_DIV :: u16 where "BPF_DIV \<equiv> 0x30"
abbreviation (input) BPF_OR :: u16 where "BPF_OR \<equiv> 0x40"
abbreviation (input) BPF_AND :: u16 where "BPF_AND \<equiv> 0x50"
abbreviation (input) BPF_LSH :: u16 where "BPF_LSH \<equiv> 0x60"
abbreviation (input) BPF_RSH :: u16 where "BPF_RSH \<equiv> 0x70"
abbreviation (input) BPF_NEG :: u16 where "BPF_NEG \<equiv> 0x80"
abbreviation (input) BPF_JA :: u16 where "BPF_JA \<equiv> 0x00"
abbreviation (input) BPF_JEQ :: u16 where "BPF_JEQ \<equiv> 0x10"
abbreviation (input) BPF_JGT :: u16 where "BPF_JGT \<equiv> 0x20"
abbreviation (input) BPF_JGE :: u16 where "BPF_JGE \<equiv> 0x30"
abbreviation (input) BPF_JSET :: u16 where "BPF_JSET \<equiv> 0x40"
abbreviation (input) BPF_K :: u16 where "BPF_K \<equiv> 0x00"
abbreviation (input) BPF_X :: u16 where "BPF_X \<equiv> 0x08"
abbreviation (input) BPF_A :: u16 where "BPF_A \<equiv> 0x10"
abbreviation (input) BPF_TAX :: u16 where "BPF_TAX \<equiv> 0x00"
abbreviation (input) BPF_TXA :: u16 where "BPF_TXA \<equiv> 0x80"

definition BPF_CLASS :: "u16 \<Rightarrow> u16" where "BPF_CLASS c = c AND 0x07"
definition BPF_MODE :: "u16 \<Rightarrow> u16" where "BPF_MODE c = c AND 0xe0"
definition BPF_OP :: "u16 \<Rightarrow> u16" where "BPF_OP c = c AND 0xf0"
definition BPF_SRC :: "u16 \<Rightarrow> u16" where "BPF_SRC c = c AND 0x08"

abbreviation (input) BPF_MEMWORDS :: u32 where "BPF_MEMWORDS \<equiv> 16"
abbreviation (input) BPF_MAXINSNS :: nat where "BPF_MAXINSNS \<equiv> 512"

record bpf_insn =
  i_code :: u16
  i_jt :: u8
  i_jf :: u8
  i_k :: u32

section \<open>Faults\<close>

text \<open>
  What the C code would do wrong: leave the program text, dereference a null mbuf, read
  outside a buffer, access a cell outside the scratch memory, divide by zero, or shift a 32-bit
  value by 32 or more (undefined in C).
\<close>

datatype bpf_fault = BadPC | NullDeref | OutOfBounds | BadMem | DivByZero | ShiftUB

section \<open>Packet bytes\<close>

text \<open>
  A pointer into a buffer is the list of the bytes from there to the buffer's end. An mbuf
  is the list of its \<open>m_len\<close> data bytes, a chain the list of its mbufs (the null pointer is
  the empty list).
\<close>

type_synonym mbuf = "u8 list"

definition rd :: "u8 list \<Rightarrow> nat \<Rightarrow> bpf_fault + u8" where
  "rd cp i = (if i < length cp then Inr (cp ! i) else Inl OutOfBounds)"

definition be32 :: "u8 \<Rightarrow> u8 \<Rightarrow> u8 \<Rightarrow> u8 \<Rightarrow> u32" where
  "be32 a b c d = push_bit 24 (ucast a) OR push_bit 16 (ucast b) OR push_bit 8 (ucast c) OR ucast d"

definition be16 :: "u8 \<Rightarrow> u8 \<Rightarrow> u16" where
  "be16 a b = push_bit 8 (ucast a) OR ucast b"

definition EXTRACT_LONG :: "u8 list \<Rightarrow> bpf_fault + u32" where
  "EXTRACT_LONG p = bindS (rd p 0) (\<lambda>a. bindS (rd p 1) (\<lambda>b. bindS (rd p 2) (\<lambda>c.
     bindS (rd p 3) (\<lambda>d. Inr (be32 a b c d)))))"

definition EXTRACT_SHORT :: "u8 list \<Rightarrow> bpf_fault + u16" where
  "EXTRACT_SHORT p = bindS (rd p 0) (\<lambda>a. bindS (rd p 1) (\<lambda>b. Inr (be16 a b)))"

definition get_word_from_buffers :: "u8 list \<Rightarrow> u8 list \<Rightarrow> nat \<Rightarrow> bpf_fault + u32" where
  "get_word_from_buffers cp np num_from_cp =
     (if num_from_cp = 1 then
        bindS (rd cp 0) (\<lambda>a. bindS (rd np 0) (\<lambda>b. bindS (rd np 1) (\<lambda>c. bindS (rd np 2) (\<lambda>d.
          Inr (be32 a b c d)))))
      else if num_from_cp = 2 then
        bindS (rd cp 0) (\<lambda>a. bindS (rd cp 1) (\<lambda>b. bindS (rd np 0) (\<lambda>c. bindS (rd np 1) (\<lambda>d.
          Inr (be32 a b c d)))))
      else
        bindS (rd cp 0) (\<lambda>a. bindS (rd cp 1) (\<lambda>b. bindS (rd cp 2) (\<lambda>c. bindS (rd np 0) (\<lambda>d.
          Inr (be32 a b c d))))))"

text \<open>
  The loop of \<open>m_hdr_offset\<close>: \<open>m_walk m ms k\<close> stands on the mbuf \<open>m\<close> with the rest of the
  chain \<open>ms\<close>. The result is the pointer, the next mbuf, the offset in the buffer and the
  buffer's length; \<open>None\<close> is the null pointer.
\<close>

fun m_walk :: "mbuf \<Rightarrow> mbuf list \<Rightarrow> nat \<Rightarrow> (u8 list \<times> mbuf list \<times> nat \<times> nat) option" where
  "m_walk m [] k =
     (if k \<ge> length m then None else Some (drop k m, [], k, length m))"
| "m_walk m (m' # ms) k =
     (if k \<ge> length m then m_walk m' ms (k - length m) else Some (drop k m, m' # ms, k, length m))"

definition m_hdr_offset ::
    "mbuf list \<Rightarrow> u8 list \<Rightarrow> nat \<Rightarrow> u32 \<Rightarrow> bpf_fault + (u8 list \<times> mbuf list \<times> nat \<times> nat) option" where
  "m_hdr_offset m hdr hdrlen k =
     (if unat k \<ge> hdrlen
      then (case m of [] \<Rightarrow> Inl NullDeref | m0 # ms \<Rightarrow> Inr (m_walk m0 ms (unat k - hdrlen)))
      else Inr (Some (drop (unat k) hdr, m, unat k, hdrlen)))"

text \<open>The readers return the value, or \<open>None\<close> when they set \<open>*err\<close> to 1.\<close>

definition m_xword :: "mbuf list \<Rightarrow> u8 list \<Rightarrow> nat \<Rightarrow> u32 \<Rightarrow> bpf_fault + u32 option" where
  "m_xword m0 hdr hdrlen k0 = bindS (m_hdr_offset m0 hdr hdrlen k0) (\<lambda>r.
     case r of
       None \<Rightarrow> Inr None
     | Some (cp, m, k, len) \<Rightarrow>
         if len - k \<ge> 4 then bindS (EXTRACT_LONG cp) (\<lambda>v. Inr (Some v))
         else (case m of
             [] \<Rightarrow> Inr None
           | np # _ \<Rightarrow>
               if length np + len - k < 4 then Inr None
               else bindS (get_word_from_buffers cp np (len - k)) (\<lambda>v. Inr (Some v))))"

definition m_xhalf :: "mbuf list \<Rightarrow> u8 list \<Rightarrow> nat \<Rightarrow> u32 \<Rightarrow> bpf_fault + u16 option" where
  "m_xhalf m0 hdr hdrlen k0 = bindS (m_hdr_offset m0 hdr hdrlen k0) (\<lambda>r.
     case r of
       None \<Rightarrow> Inr None
     | Some (cp, m, k, len) \<Rightarrow>
         if len - k \<ge> 2 then bindS (EXTRACT_SHORT cp) (\<lambda>v. Inr (Some v))
         else (case m of
             [] \<Rightarrow> Inr None
           | np # _ \<Rightarrow> bindS (rd cp 0) (\<lambda>a. bindS (rd np 0) (\<lambda>b. Inr (Some (be16 a b))))))"

definition m_xbyte :: "mbuf list \<Rightarrow> u8 list \<Rightarrow> nat \<Rightarrow> u32 \<Rightarrow> bpf_fault + u8 option" where
  "m_xbyte m0 hdr hdrlen k0 = bindS (m_hdr_offset m0 hdr hdrlen k0) (\<lambda>r.
     case r of
       None \<Rightarrow> Inr None
     | Some (cp, m, k, len) \<Rightarrow> bindS (rd cp 0) (\<lambda>v. Inr (Some v)))"

record bpf_packet =
  bpfp_type :: int
  bpfp_header :: "u8 list"
  bpfp_header_length :: nat
  bpfp_mbuf :: "mbuf list"

abbreviation (input) BPF_PACKET_TYPE_MBUF :: int where "BPF_PACKET_TYPE_MBUF \<equiv> 0"

definition bp_xword :: "bpf_packet \<Rightarrow> u32 \<Rightarrow> bpf_fault + u32 option" where
  "bp_xword bp k =
     (if bpfp_type bp = BPF_PACKET_TYPE_MBUF
      then m_xword (bpfp_mbuf bp) (bpfp_header bp) (bpfp_header_length bp) k
      else Inr None)"

definition bp_xhalf :: "bpf_packet \<Rightarrow> u32 \<Rightarrow> bpf_fault + u16 option" where
  "bp_xhalf bp k =
     (if bpfp_type bp = BPF_PACKET_TYPE_MBUF
      then m_xhalf (bpfp_mbuf bp) (bpfp_header bp) (bpfp_header_length bp) k
      else Inr None)"

definition bp_xbyte :: "bpf_packet \<Rightarrow> u32 \<Rightarrow> bpf_fault + u8 option" where
  "bp_xbyte bp k =
     (if bpfp_type bp = BPF_PACKET_TYPE_MBUF
      then m_xbyte (bpfp_mbuf bp) (bpfp_header bp) (bpfp_header_length bp) k
      else Inr None)"

section \<open>The machine\<close>

record bpf_regs =
  r_A :: u32
  r_X :: u32
  r_mem :: "u32 list"

text \<open>
  One pass of the interpreter's loop: \<open>Go r off\<close> continues with the registers \<open>r\<close> at the
  instruction \<open>off\<close> after the next one, \<open>Stop v\<close> returns \<open>v\<close>.
\<close>

datatype bpf_next = Go bpf_regs nat | Stop u32

text \<open>
  What a packet load does with the value read: \<open>None\<close> (the reader's \<open>merr\<close>) returns 0.
\<close>

definition load_result :: "'a option \<Rightarrow> ('a \<Rightarrow> bpf_regs) \<Rightarrow> bpf_next" where
  "load_result v upd = (case v of None \<Rightarrow> Stop 0 | Some x \<Rightarrow> Go (upd x) 0)"

text \<open>
  The packet: \<open>p\<close> is the contiguous buffer, used up to \<open>buflen\<close>; when \<open>buflen\<close> is 0 the same
  argument points to a packet descriptor, here \<open>bp\<close>.
\<close>

record bpf_input =
  in_p :: "u8 list"
  in_bp :: bpf_packet
  in_wirelen :: u32
  in_buflen :: u32

text \<open>Packet loads: \<open>None\<close> when the code is none of the cases of this group.\<close>

definition bpf_exec_ld ::
    "bpf_input \<Rightarrow> bpf_insn \<Rightarrow> bpf_regs \<Rightarrow> (bpf_fault + bpf_next) option" where
  "bpf_exec_ld inp pc r =
     (let c = i_code pc; X = r_X r; buflen = in_buflen inp; p = in_p inp; bp = in_bp inp in
      if c = BPF_LD OR BPF_W OR BPF_ABS then
        (let k = i_k pc in
         Some (if k > buflen \<or> 4 > buflen - k then
                 (if buflen \<noteq> 0 then Inr (Stop 0)
                  else bindS (bp_xword bp k) (\<lambda>v. Inr (load_result v (\<lambda>w. r\<lparr>r_A := w\<rparr>))))
               else bindS (EXTRACT_LONG (drop (unat k) p)) (\<lambda>w. Inr (Go (r\<lparr>r_A := w\<rparr>) 0))))
      else if c = BPF_LD OR BPF_H OR BPF_ABS then
        (let k = i_k pc in
         Some (if k > buflen \<or> 2 > buflen - k then
                 (if buflen \<noteq> 0 then Inr (Stop 0)
                  else bindS (bp_xhalf bp k) (\<lambda>v. Inr (load_result v (\<lambda>h. r\<lparr>r_A := ucast h\<rparr>))))
               else bindS (EXTRACT_SHORT (drop (unat k) p)) (\<lambda>h. Inr (Go (r\<lparr>r_A := ucast h\<rparr>) 0))))
      else if c = BPF_LD OR BPF_B OR BPF_ABS then
        (let k = i_k pc in
         Some (if k \<ge> buflen then
                 (if buflen \<noteq> 0 then Inr (Stop 0)
                  else bindS (bp_xbyte bp k) (\<lambda>v. Inr (load_result v (\<lambda>b. r\<lparr>r_A := ucast b\<rparr>))))
               else bindS (rd p (unat k)) (\<lambda>b. Inr (Go (r\<lparr>r_A := ucast b\<rparr>) 0))))
      else if c = BPF_LD OR BPF_W OR BPF_LEN then Some (Inr (Go (r\<lparr>r_A := in_wirelen inp\<rparr>) 0))
      else if c = BPF_LDX OR BPF_W OR BPF_LEN then Some (Inr (Go (r\<lparr>r_X := in_wirelen inp\<rparr>) 0))
      else if c = BPF_LD OR BPF_W OR BPF_IND then
        (let k = X + i_k pc in
         Some (if i_k pc > buflen \<or> X > buflen - i_k pc \<or> 4 > buflen - k then
                 (if buflen \<noteq> 0 then Inr (Stop 0)
                  else bindS (bp_xword bp k) (\<lambda>v. Inr (load_result v (\<lambda>w. r\<lparr>r_A := w\<rparr>))))
               else bindS (EXTRACT_LONG (drop (unat k) p)) (\<lambda>w. Inr (Go (r\<lparr>r_A := w\<rparr>) 0))))
      else if c = BPF_LD OR BPF_H OR BPF_IND then
        (let k = X + i_k pc in
         Some (if X > buflen \<or> i_k pc > buflen - X \<or> 2 > buflen - k then
                 (if buflen \<noteq> 0 then Inr (Stop 0)
                  else bindS (bp_xhalf bp k) (\<lambda>v. Inr (load_result v (\<lambda>h. r\<lparr>r_A := ucast h\<rparr>))))
               else bindS (EXTRACT_SHORT (drop (unat k) p)) (\<lambda>h. Inr (Go (r\<lparr>r_A := ucast h\<rparr>) 0))))
      else if c = BPF_LD OR BPF_B OR BPF_IND then
        (let k = X + i_k pc in
         Some (if i_k pc \<ge> buflen \<or> X \<ge> buflen - i_k pc then
                 (if buflen \<noteq> 0 then Inr (Stop 0)
                  else bindS (bp_xbyte bp k) (\<lambda>v. Inr (load_result v (\<lambda>b. r\<lparr>r_A := ucast b\<rparr>))))
               else bindS (rd p (unat k)) (\<lambda>b. Inr (Go (r\<lparr>r_A := ucast b\<rparr>) 0))))
      else None)"

text \<open>The accesses to \<open>mem\<close>.\<close>

definition mem_load :: "bpf_regs \<Rightarrow> u32 \<Rightarrow> bpf_fault + u32" where
  "mem_load r k = (if unat k < length (r_mem r) then Inr (r_mem r ! unat k) else Inl BadMem)"

definition mem_store :: "bpf_regs \<Rightarrow> u32 \<Rightarrow> u32 \<Rightarrow> bpf_fault + bpf_regs" where
  "mem_store r k v =
     (if unat k < length (r_mem r) then Inr (r\<lparr>r_mem := (r_mem r)[unat k := v]\<rparr>) else Inl BadMem)"

definition bpf_exec_ldx_mem ::
    "bpf_input \<Rightarrow> bpf_insn \<Rightarrow> bpf_regs \<Rightarrow> (bpf_fault + bpf_next) option" where
  "bpf_exec_ldx_mem inp pc r =
     (let c = i_code pc; k = i_k pc; buflen = in_buflen inp in
      if c = BPF_LDX OR BPF_MSH OR BPF_B then
        Some (if k \<ge> buflen then
                (if buflen \<noteq> 0 then Inr (Stop 0)
                 else bindS (bp_xbyte (in_bp inp) k) (\<lambda>v.
                   Inr (load_result v (\<lambda>b. r\<lparr>r_X := push_bit 2 (ucast b AND 0xf)\<rparr>))))
              else bindS (rd (in_p inp) (unat k)) (\<lambda>b.
                Inr (Go (r\<lparr>r_X := push_bit 2 (ucast b AND 0xf)\<rparr>) 0)))
      else if c = BPF_LD OR BPF_IMM then Some (Inr (Go (r\<lparr>r_A := k\<rparr>) 0))
      else if c = BPF_LDX OR BPF_IMM then Some (Inr (Go (r\<lparr>r_X := k\<rparr>) 0))
      else if c = BPF_LD OR BPF_MEM then
        Some (if k \<ge> BPF_MEMWORDS then Inr (Stop 0)
              else bindS (mem_load r k) (\<lambda>v. Inr (Go (r\<lparr>r_A := v\<rparr>) 0)))
      else if c = BPF_LDX OR BPF_MEM then
        Some (if k \<ge> BPF_MEMWORDS then Inr (Stop 0)
              else bindS (mem_load r k) (\<lambda>v. Inr (Go (r\<lparr>r_X := v\<rparr>) 0)))
      else if c = BPF_ST then
        Some (if k \<ge> BPF_MEMWORDS then Inr (Stop 0)
              else bindS (mem_store r k (r_A r)) (\<lambda>r. Inr (Go r 0)))
      else if c = BPF_STX then
        Some (if k \<ge> BPF_MEMWORDS then Inr (Stop 0)
              else bindS (mem_store r k (r_X r)) (\<lambda>r. Inr (Go r 0)))
      else None)"

definition jump :: "bpf_insn \<Rightarrow> bpf_regs \<Rightarrow> bool \<Rightarrow> (bpf_fault + bpf_next) option" where
  "jump pc r b = Some (Inr (Go r (if b then unat (i_jt pc) else unat (i_jf pc))))"

definition bpf_exec_jmp :: "bpf_insn \<Rightarrow> bpf_regs \<Rightarrow> (bpf_fault + bpf_next) option" where
  "bpf_exec_jmp pc r =
     (let c = i_code pc; k = i_k pc; A = r_A r; X = r_X r in
      if c = BPF_JMP OR BPF_JA then Some (Inr (Go r (unat k)))
      else if c = BPF_JMP OR BPF_JGT OR BPF_K then jump pc r (A > k)
      else if c = BPF_JMP OR BPF_JGE OR BPF_K then jump pc r (A \<ge> k)
      else if c = BPF_JMP OR BPF_JEQ OR BPF_K then jump pc r (A = k)
      else if c = BPF_JMP OR BPF_JSET OR BPF_K then jump pc r (A AND k \<noteq> 0)
      else if c = BPF_JMP OR BPF_JGT OR BPF_X then jump pc r (A > X)
      else if c = BPF_JMP OR BPF_JGE OR BPF_X then jump pc r (A \<ge> X)
      else if c = BPF_JMP OR BPF_JEQ OR BPF_X then jump pc r (A = X)
      else if c = BPF_JMP OR BPF_JSET OR BPF_X then jump pc r (A AND X \<noteq> 0)
      else None)"

definition alu :: "bpf_regs \<Rightarrow> u32 \<Rightarrow> (bpf_fault + bpf_next) option" where
  "alu r v = Some (Inr (Go (r\<lparr>r_A := v\<rparr>) 0))"

text \<open>C leaves a shift of a 32-bit value by 32 or more undefined.\<close>

definition shl32 :: "u32 \<Rightarrow> u32 \<Rightarrow> bpf_fault + u32" where
  "shl32 a n = (if n < 32 then Inr (push_bit (unat n) a) else Inl ShiftUB)"

definition shr32 :: "u32 \<Rightarrow> u32 \<Rightarrow> bpf_fault + u32" where
  "shr32 a n = (if n < 32 then Inr (drop_bit (unat n) a) else Inl ShiftUB)"

definition div32 :: "u32 \<Rightarrow> u32 \<Rightarrow> bpf_fault + u32" where
  "div32 a b = (if b = 0 then Inl DivByZero else Inr (a div b))"

definition alu_f :: "bpf_regs \<Rightarrow> bpf_fault + u32 \<Rightarrow> (bpf_fault + bpf_next) option" where
  "alu_f r m = Some (bindS m (\<lambda>v. Inr (Go (r\<lparr>r_A := v\<rparr>) 0)))"

definition bpf_exec_alu :: "bpf_insn \<Rightarrow> bpf_regs \<Rightarrow> (bpf_fault + bpf_next) option" where
  "bpf_exec_alu pc r =
     (let c = i_code pc; k = i_k pc; A = r_A r; X = r_X r in
      if c = BPF_ALU OR BPF_ADD OR BPF_X then alu r (A + X)
      else if c = BPF_ALU OR BPF_SUB OR BPF_X then alu r (A - X)
      else if c = BPF_ALU OR BPF_MUL OR BPF_X then alu r (A * X)
      else if c = BPF_ALU OR BPF_DIV OR BPF_X then
        (if X = 0 then Some (Inr (Stop 0)) else alu_f r (div32 A X))
      else if c = BPF_ALU OR BPF_AND OR BPF_X then alu r (A AND X)
      else if c = BPF_ALU OR BPF_OR OR BPF_X then alu r (A OR X)
      else if c = BPF_ALU OR BPF_LSH OR BPF_X then alu_f r (shl32 A X)
      else if c = BPF_ALU OR BPF_RSH OR BPF_X then alu_f r (shr32 A X)
      else if c = BPF_ALU OR BPF_ADD OR BPF_K then alu r (A + k)
      else if c = BPF_ALU OR BPF_SUB OR BPF_K then alu r (A - k)
      else if c = BPF_ALU OR BPF_MUL OR BPF_K then alu r (A * k)
      else if c = BPF_ALU OR BPF_DIV OR BPF_K then alu_f r (div32 A k)
      else if c = BPF_ALU OR BPF_AND OR BPF_K then alu r (A AND k)
      else if c = BPF_ALU OR BPF_OR OR BPF_K then alu r (A OR k)
      else if c = BPF_ALU OR BPF_LSH OR BPF_K then alu_f r (shl32 A k)
      else if c = BPF_ALU OR BPF_RSH OR BPF_K then alu_f r (shr32 A k)
      else if c = BPF_ALU OR BPF_NEG then alu r (- A)
      else None)"

definition bpf_exec_misc :: "bpf_insn \<Rightarrow> bpf_regs \<Rightarrow> (bpf_fault + bpf_next) option" where
  "bpf_exec_misc pc r =
     (if i_code pc = BPF_MISC OR BPF_TAX then Some (Inr (Go (r\<lparr>r_X := r_A r\<rparr>) 0))
      else if i_code pc = BPF_MISC OR BPF_TXA then Some (Inr (Go (r\<lparr>r_A := r_X r\<rparr>) 0))
      else None)"

definition bpf_exec_ret :: "bpf_insn \<Rightarrow> bpf_regs \<Rightarrow> (bpf_fault + bpf_next) option" where
  "bpf_exec_ret pc r =
     (if i_code pc = BPF_RET OR BPF_K then Some (Inr (Stop (i_k pc)))
      else if i_code pc = BPF_RET OR BPF_A then Some (Inr (Stop (r_A r)))
      else None)"

text \<open>The switch: the first group that knows the code, else the default case.\<close>

definition orelse :: "'a option \<Rightarrow> 'a option \<Rightarrow> 'a option" where
  "orelse a b = (case a of None \<Rightarrow> b | Some x \<Rightarrow> Some x)"

definition bpf_step :: "bpf_input \<Rightarrow> bpf_insn \<Rightarrow> bpf_regs \<Rightarrow> bpf_fault + bpf_next" where
  "bpf_step inp pc r =
     (case orelse (bpf_exec_ret pc r) (orelse (bpf_exec_ld inp pc r)
           (orelse (bpf_exec_ldx_mem inp pc r) (orelse (bpf_exec_jmp pc r)
           (orelse (bpf_exec_alu pc r) (bpf_exec_misc pc r))))) of
        None \<Rightarrow> Inr (Stop 0)
      | Some s \<Rightarrow> s)"

function bpf_loop :: "bpf_insn list \<Rightarrow> bpf_input \<Rightarrow> nat \<Rightarrow> bpf_regs \<Rightarrow> bpf_fault + u32" where
  "bpf_loop prog inp pc r =
     (if pc < length prog then
        (case bpf_step inp (prog ! pc) r of
           Inl e \<Rightarrow> Inl e
         | Inr (Stop v) \<Rightarrow> Inr v
         | Inr (Go r' off) \<Rightarrow> bpf_loop prog inp (pc + 1 + off) r')
      else Inl BadPC)"
  by pat_completeness auto
termination
  by (relation "measure (\<lambda>(prog, inp, pc, r). length prog - pc)") auto

declare bpf_loop.simps [simp del]

definition bpf_filter :: "bpf_insn list option \<Rightarrow> bpf_input \<Rightarrow> bpf_fault + u32" where
  "bpf_filter pc inp =
     (case pc of
        None \<Rightarrow> Inr (- 1)
      | Some prog \<Rightarrow> bpf_loop prog inp 0 \<lparr>r_A = 0, r_X = 0, r_mem = replicate 16 0\<rparr>)"

section \<open>The validator\<close>

text \<open>The loop body: is the instruction \<open>p\<close> at index \<open>i\<close> of a program of \<open>len\<close> instructions acceptable?\<close>

definition bpf_validate_insn :: "u32 \<Rightarrow> u32 \<Rightarrow> u32 \<Rightarrow> bpf_insn \<Rightarrow> bool" where
  "bpf_validate_insn bpf_maxbufsize len i p =
     (let c = BPF_CLASS (i_code p); k = i_k p in
      if c = BPF_LD \<or> c = BPF_LDX then
        (let m = BPF_MODE (i_code p) in
         if m = BPF_IMM then True
         else if m = BPF_ABS \<or> m = BPF_IND \<or> m = BPF_MSH then \<not> (k \<ge> bpf_maxbufsize)
         else if m = BPF_MEM then \<not> (k \<ge> BPF_MEMWORDS)
         else if m = BPF_LEN then True
         else False)
      else if c = BPF_ST \<or> c = BPF_STX then \<not> (k \<ge> BPF_MEMWORDS)
      else if c = BPF_ALU then
        (let op = BPF_OP (i_code p) in
         if op = BPF_ADD \<or> op = BPF_SUB \<or> op = BPF_MUL \<or> op = BPF_OR \<or> op = BPF_AND
            \<or> op = BPF_LSH \<or> op = BPF_RSH \<or> op = BPF_NEG then True
         else if op = BPF_DIV then \<not> (BPF_SRC (i_code p) = BPF_K \<and> k = 0)
         else False)
      else if c = BPF_JMP then
        (let from = i + 1; op = BPF_OP (i_code p) in
         if op = BPF_JA then \<not> (from + k < from \<or> from + k \<ge> len)
         else if op = BPF_JEQ \<or> op = BPF_JGT \<or> op = BPF_JGE \<or> op = BPF_JSET then
           \<not> (from + ucast (i_jt p) \<ge> len \<or> from + ucast (i_jf p) \<ge> len)
         else False)
      else if c = BPF_RET then True
      else if c = BPF_MISC then True
      else False)"

fun bpf_validate_from :: "u32 \<Rightarrow> u32 \<Rightarrow> nat \<Rightarrow> bpf_insn list \<Rightarrow> bool" where
  "bpf_validate_from bmax len i [] = True"
| "bpf_validate_from bmax len i (p # ps) =
     (if bpf_validate_insn bmax len (of_nat i) p then bpf_validate_from bmax len (Suc i) ps else False)"

definition bpf_validate :: "u32 \<Rightarrow> bpf_insn list \<Rightarrow> bool" where
  "bpf_validate bpf_maxbufsize f =
     (if length f < 1 \<or> length f > BPF_MAXINSNS then False
      else if bpf_validate_from bpf_maxbufsize (of_nat (length f)) 0 f
      then BPF_CLASS (i_code (f ! (length f - 1))) = BPF_RET
      else False)"

section \<open>Reading packet bytes\<close>

lemma m_walk_spec:
  "(case m_walk m ms k of
      None \<Rightarrow> length (concat (m # ms)) \<le> k
    | Some (cp, m', k', len) \<Rightarrow>
        k' < len \<and> length cp = len - k' \<and> suffix m' ms \<and> drop k (concat (m # ms)) = cp @ concat m')"
proof (induction m ms k rule: m_walk.induct)
  case (2 m m' ms k)
  show ?case
  proof (cases "k \<ge> length m")
    case True
    then show ?thesis
      using 2 by (auto split: option.splits intro: suffix_ConsI)
  qed auto
qed auto

definition pkt_bytes :: "u8 list \<Rightarrow> mbuf list \<Rightarrow> u8 list" where
  "pkt_bytes hdr ms = hdr @ concat ms"

lemma m_hdr_offset_spec:
  assumes "ms \<noteq> []"
  obtains (none) "m_hdr_offset ms hdr (length hdr) k = Inr None" "length (pkt_bytes hdr ms) \<le> unat k"
  | (some) cp m' k' len where
      "m_hdr_offset ms hdr (length hdr) k = Inr (Some (cp, m', k', len))"
      "k' < len" "length cp = len - k'" "suffix m' ms"
      "drop (unat k) (pkt_bytes hdr ms) = cp @ concat m'"
proof (cases "unat k \<ge> length hdr")
  case True
  obtain m0 ms' where ms: "ms = m0 # ms'" using assms by (cases ms) auto
  have *: "m_hdr_offset ms hdr (length hdr) k = Inr (m_walk m0 ms' (unat k - length hdr))"
    using True by (simp add: m_hdr_offset_def ms)
  show ?thesis
  proof (cases "m_walk m0 ms' (unat k - length hdr)")
    case None
    then show ?thesis using none * True m_walk_spec [of m0 ms' "unat k - length hdr"]
      by (simp add: pkt_bytes_def ms le_diff_conv2 add.commute add.left_commute)
  next
    case (Some t)
    obtain cp m' k' len where t: "t = (cp, m', k', len)" by (cases t)
    show ?thesis
      using some [of cp m' k' len] * Some t m_walk_spec [of m0 ms' "unat k - length hdr"] True
      by (simp add: pkt_bytes_def ms suffix_ConsI)
  qed
next
  case False
  then show ?thesis
    using some [of "drop (unat k) hdr" ms "unat k" "length hdr"]
    by (simp add: m_hdr_offset_def pkt_bytes_def)
qed

text \<open>What the readers return, over the bytes from the requested offset on.\<close>

fun flat8 :: "u8 list \<Rightarrow> u8 option" where
  "flat8 (a # _) = Some a"
| "flat8 _ = None"

fun flat16 :: "u8 list \<Rightarrow> u16 option" where
  "flat16 (a # b # _) = Some (be16 a b)"
| "flat16 _ = None"

fun flat32 :: "u8 list \<Rightarrow> u32 option" where
  "flat32 (a # b # c # d # _) = Some (be32 a b c d)"
| "flat32 _ = None"

lemma flat8_None_iff [simp]: "flat8 xs = None \<longleftrightarrow> length xs < 1"
  by (cases xs) simp_all

lemma flat16_None_iff [simp]: "flat16 xs = None \<longleftrightarrow> length xs < 2"
  by (cases xs rule: flat16.cases) simp_all

lemma flat32_None_iff [simp]: "flat32 xs = None \<longleftrightarrow> length xs < 4"
  by (cases xs rule: flat32.cases) simp_all

lemma None_flat32_iff [simp]: "None = flat32 xs \<longleftrightarrow> length xs < 4"
  by (metis flat32_None_iff)

lemma rd_simps [simp]:
  "rd (a # xs) 0 = Inr a" "rd (a # xs) (Suc n) = rd xs n" "rd [] n = Inl OutOfBounds"
  by (simp_all add: rd_def)

lemma EXTRACT_SHORT_flat:
  "EXTRACT_SHORT xs = (case flat16 xs of None \<Rightarrow> Inl OutOfBounds | Some v \<Rightarrow> Inr v)"
  by (cases xs rule: flat16.cases) (simp_all add: EXTRACT_SHORT_def)

lemma EXTRACT_LONG_flat:
  "EXTRACT_LONG xs = (case flat32 xs of None \<Rightarrow> Inl OutOfBounds | Some v \<Rightarrow> Inr v)"
  by (cases xs rule: flat32.cases) (simp_all add: EXTRACT_LONG_def numeral_2_eq_2 numeral_3_eq_3)

lemma m_xbyte_flat:
  assumes "ms \<noteq> []"
  shows "m_xbyte ms hdr (length hdr) k = Inr (flat8 (drop (unat k) (pkt_bytes hdr ms)))"
proof (cases rule: m_hdr_offset_spec [OF assms, of hdr k, case_names none some])
  case none
  then show ?thesis by (simp add: m_xbyte_def)
next
  case (some cp m' k' len)
  then obtain a cp' where "cp = a # cp'" by (cases cp) auto
  with some show ?thesis by (simp add: m_xbyte_def)
qed

lemma m_xhalf_flat:
  assumes "ms \<noteq> []" and ne: "\<forall>m \<in> set ms. m \<noteq> []"
  shows "m_xhalf ms hdr (length hdr) k = Inr (flat16 (drop (unat k) (pkt_bytes hdr ms)))"
proof (cases rule: m_hdr_offset_spec [OF assms(1), of hdr k, case_names none some])
  case none
  then show ?thesis by (simp add: m_xhalf_def)
next
  case (some cp m' k' len)
  have "hd m' \<noteq> []" if "m' \<noteq> []"
    using that ne set_mono_suffix [OF some(4)] by (auto dest: hd_in_set)
  with some show ?thesis
    by (cases cp rule: flat16.cases; cases m'; cases "hd m'")
       (auto simp: m_xhalf_def EXTRACT_SHORT_flat)
qed

lemma get_word_from_buffers_flat:
  assumes "0 < length cp" "length cp < 4" "4 \<le> length cp + length np"
  shows "get_word_from_buffers cp np (length cp) =
    (case flat32 (cp @ np) of None \<Rightarrow> Inl OutOfBounds | Some v \<Rightarrow> Inr v)"
  using assms
  by (cases cp rule: flat32.cases; cases np rule: flat32.cases)
     (auto simp: get_word_from_buffers_def numeral_2_eq_2 numeral_3_eq_3)

lemma flat32_append: "4 \<le> length xs \<Longrightarrow> flat32 (xs @ ys) = flat32 xs"
  by (cases xs rule: flat32.cases) auto

lemma m_xword_flat_gen:
  assumes "ms \<noteq> []"
  shows "\<exists>v. m_xword ms hdr (length hdr) k = Inr v \<and>
    (v = flat32 (drop (unat k) (pkt_bytes hdr ms)) \<or> v = None)"
proof (cases rule: m_hdr_offset_spec [OF assms, of hdr k, case_names none some])
  case none
  then show ?thesis by (simp add: m_xword_def)
next
  case (some cp m' k' len)
  show ?thesis
  proof (cases "4 \<le> len - k'")
    case True
    with some show ?thesis
      by (auto simp: m_xword_def EXTRACT_LONG_flat flat32_append split: option.splits)
  next
    case False
    show ?thesis
    proof (cases m')
      case Nil
      with some False show ?thesis by (auto simp: m_xword_def)
    next
      case (Cons np ms')
      with some False show ?thesis
        using get_word_from_buffers_flat [of cp np] flat32_append [of "cp @ np" "concat ms'"]
        by (cases "length np + len - k' < 4") (auto simp: m_xword_def split: option.splits)
    qed
  qed
qed

text \<open>
  Every mbuf but the last holds at least three bytes and none is empty: then a 32-bit read
  never touches more than two buffers.
\<close>

fun bufs_ok :: "mbuf list \<Rightarrow> bool" where
  "bufs_ok [] = True"
| "bufs_ok [m] = (m \<noteq> [])"
| "bufs_ok (m # ms) = (3 \<le> length m \<and> bufs_ok ms)"

lemma bufs_ok_suffix: "bufs_ok ms \<Longrightarrow> suffix ms' ms \<Longrightarrow> bufs_ok ms'"
  by (induction ms rule: bufs_ok.induct) (auto simp: suffix_Cons)

lemma bufs_ok_nonempty: "bufs_ok ms \<Longrightarrow> m \<in> set ms \<Longrightarrow> m \<noteq> []"
  by (induction ms rule: bufs_ok.induct) auto

lemma m_xword_flat:
  assumes "ms \<noteq> []" and ok: "bufs_ok ms"
  shows "m_xword ms hdr (length hdr) k = Inr (flat32 (drop (unat k) (pkt_bytes hdr ms)))"
proof (cases rule: m_hdr_offset_spec [OF assms(1), of hdr k, case_names none some])
  case none
  then show ?thesis by (simp add: m_xword_def)
next
  case (some cp m' k' len)
  show ?thesis
  proof (cases "4 \<le> len - k'")
    case True
    with some show ?thesis
      by (auto simp: m_xword_def EXTRACT_LONG_flat flat32_append split: option.splits)
  next
    case False
    show ?thesis
    proof (cases m')
      case Nil
      with some False show ?thesis by (auto simp: m_xword_def)
    next
      case (Cons np ms')
      have "3 \<le> length np \<or> ms' = []"
        using bufs_ok_suffix [OF ok some(4)] Cons by (cases ms') auto
      with Cons some False show ?thesis
        using get_word_from_buffers_flat [of cp np] flat32_append [of "cp @ np" "concat ms'"]
        by (cases "length np + len - k' < 4") (auto simp: m_xword_def split: option.splits)
    qed
  qed
qed


section \<open>The interface of the packet readers\<close>

text \<open>
  What the interpreter relies on when it reads a packet through a descriptor: a read returns
  the big-endian value of the packet's bytes at the offset, or reports that they are not there.
\<close>

locale packet_reader =
  fixes ok :: "'p \<Rightarrow> bool"
    and bytes :: "'p \<Rightarrow> u8 list"
    and xword :: "'p \<Rightarrow> u32 \<Rightarrow> bpf_fault + u32 option"
    and xhalf :: "'p \<Rightarrow> u32 \<Rightarrow> bpf_fault + u16 option"
    and xbyte :: "'p \<Rightarrow> u32 \<Rightarrow> bpf_fault + u8 option"
  assumes xword: "ok p \<Longrightarrow> xword p k = Inr (flat32 (drop (unat k) (bytes p)))"
    and xhalf: "ok p \<Longrightarrow> xhalf p k = Inr (flat16 (drop (unat k) (bytes p)))"
    and xbyte: "ok p \<Longrightarrow> xbyte p k = Inr (flat8 (drop (unat k) (bytes p)))"
begin

lemma read_fails_iff:
  assumes "ok p"
  shows "xword p k = Inr None \<longleftrightarrow> length (bytes p) < unat k + 4"
    and "xhalf p k = Inr None \<longleftrightarrow> length (bytes p) < unat k + 2"
    and "xbyte p k = Inr None \<longleftrightarrow> length (bytes p) < unat k + 1"
  using assms by (auto simp: xword xhalf xbyte)

lemma same_bytes_same_reads:
  assumes "ok p" "ok q" "bytes p = bytes q"
  shows "xword p k = xword q k" "xhalf p k = xhalf q k" "xbyte p k = xbyte q k"
  using assms by (simp_all add: xword xhalf xbyte)

end

definition packet_ok3 :: "bpf_packet \<Rightarrow> bool" where
  "packet_ok3 bp \<longleftrightarrow> bpfp_type bp = BPF_PACKET_TYPE_MBUF \<and> bpfp_mbuf bp \<noteq> [] \<and>
     bufs_ok (bpfp_mbuf bp) \<and> bpfp_header_length bp = length (bpfp_header bp)"

definition packet_bytes :: "bpf_packet \<Rightarrow> u8 list" where
  "packet_bytes bp = pkt_bytes (bpfp_header bp) (bpfp_mbuf bp)"

interpretation bp: packet_reader packet_ok3 packet_bytes bp_xword bp_xhalf bp_xbyte
  by unfold_locales
     (auto simp: packet_ok3_def packet_bytes_def bp_xword_def bp_xhalf_def bp_xbyte_def
       m_xword_flat m_xhalf_flat m_xbyte_flat bufs_ok_nonempty)

section \<open>Safety of validated programs\<close>

text \<open>
  What the callers provide: at least \<open>buflen\<close> bytes at \<open>p\<close>, or with \<open>buflen = 0\<close> a descriptor
  with its header and a chain of non-empty mbufs.
\<close>

definition bpf_packet_ok :: "bpf_packet \<Rightarrow> bool" where
  "bpf_packet_ok bp \<longleftrightarrow> bpfp_type bp = BPF_PACKET_TYPE_MBUF \<longrightarrow>
     bpfp_mbuf bp \<noteq> [] \<and> (\<forall>m \<in> set (bpfp_mbuf bp). m \<noteq> []) \<and>
     bpfp_header_length bp = length (bpfp_header bp)"

definition bpf_input_ok :: "bpf_input \<Rightarrow> bool" where
  "bpf_input_ok inp \<longleftrightarrow>
     (if in_buflen inp = 0 then bpf_packet_ok (in_bp inp)
      else unat (in_buflen inp) \<le> length (in_p inp))"

lemma bp_readers_total:
  assumes "bpf_packet_ok bp"
  shows "\<exists>v. bp_xword bp k = Inr v" "\<exists>v. bp_xhalf bp k = Inr v" "\<exists>v. bp_xbyte bp k = Inr v"
  using assms m_xword_flat_gen [of "bpfp_mbuf bp" "bpfp_header bp" k]
  by (auto simp: bpf_packet_ok_def bp_xword_def bp_xhalf_def bp_xbyte_def m_xhalf_flat m_xbyte_flat)

lemma fits_abs:
  "k \<le> b \<Longrightarrow> n \<le> b - k \<Longrightarrow> unat k + unat n \<le> unat (b :: u32)"
  by (simp add: word_le_nat_alt unat_sub)

lemma fits_ind:
  assumes "k \<le> b" "x \<le> b - k"
  shows "unat (x + k) = unat x + unat k" "x + k \<le> (b :: u32)"
proof -
  have le: "unat k + unat x \<le> unat b" using fits_abs [OF assms] .
  then show eq: "unat (x + k) = unat x + unat k"
    using unat_bound [of b] by (simp add: unat_word_ariths)
  show "x + k \<le> b" using le eq by (simp add: word_le_nat_alt)
qed

text \<open>
  A step of one of the groups without jumps goes on to the next instruction; the flag says
  whether it may be an undefined shift.
\<close>

definition straight :: "bool \<Rightarrow> bpf_regs \<Rightarrow> bpf_fault + bpf_next \<Rightarrow> bool" where
  "straight f r s \<longleftrightarrow> (case s of
       Inl e \<Rightarrow> f \<and> e = ShiftUB
     | Inr (Stop v) \<Rightarrow> True
     | Inr (Go r' off) \<Rightarrow> off = 0 \<and> length (r_mem r') = length (r_mem r))"

definition unbounded_shift :: "bpf_insn \<Rightarrow> bool" where
  "unbounded_shift p \<longleftrightarrow> BPF_CLASS (i_code p) = BPF_ALU \<and>
     (BPF_OP (i_code p) = BPF_LSH \<or> BPF_OP (i_code p) = BPF_RSH) \<and>
     (BPF_SRC (i_code p) = BPF_X \<or> i_k p \<ge> 32)"

lemma straight_simps [simp]:
  "straight f r (Inr (Stop v))" "straight f r (Inl e) \<longleftrightarrow> f \<and> e = ShiftUB"
  "straight f r (Inr (Go r' off)) \<longleftrightarrow> off = 0 \<and> length (r_mem r') = length (r_mem r)"
  by (simp_all add: straight_def)

lemma straight_mono: "straight False r s \<Longrightarrow> straight f r s"
  by (auto simp: straight_def split: sum.splits)

lemma straight_load_result [simp]:
  "(\<And>x. length (r_mem (g x)) = length (r_mem r)) \<Longrightarrow> straight f r (Inr (load_result v g))"
  by (simp add: load_result_def split: option.splits)

lemma straight_bp_read:
  assumes "\<exists>v. m = Inr v" "\<And>x. length (r_mem (g x)) = length (r_mem r)"
  shows "straight f r (bindS m (\<lambda>v. Inr (load_result v g)))"
  using assms by auto

lemma straight_long:
  "unat k + 4 \<le> length p \<Longrightarrow> (\<And>x. length (r_mem (g x)) = length (r_mem r)) \<Longrightarrow>
   straight f r (bindS (EXTRACT_LONG (drop (unat k) p)) (\<lambda>w. Inr (Go (g w) 0)))"
  by (auto simp: EXTRACT_LONG_flat split: option.splits)

lemma straight_short:
  "unat k + 2 \<le> length p \<Longrightarrow> (\<And>x. length (r_mem (g x)) = length (r_mem r)) \<Longrightarrow>
   straight f r (bindS (EXTRACT_SHORT (drop (unat k) p)) (\<lambda>w. Inr (Go (g w) 0)))"
  by (auto simp: EXTRACT_SHORT_flat split: option.splits)

lemma straight_byte:
  "unat k < length p \<Longrightarrow> (\<And>x. length (r_mem (g x)) = length (r_mem r)) \<Longrightarrow>
   straight f r (bindS (rd p (unat k)) (\<lambda>w. Inr (Go (g w) 0)))"
  by (auto simp: rd_def)

text \<open>The bounds the interpreter checks before it reads the contiguous buffer.\<close>

lemma bpf_input_avail:
  "bpf_input_ok inp \<Longrightarrow> 0 < n \<Longrightarrow> unat k + n \<le> unat (in_buflen inp) \<Longrightarrow> unat k + n \<le> length (in_p inp)"
  by (auto simp: bpf_input_ok_def split: if_splits)

lemma avail_abs:
  assumes "bpf_input_ok inp" "\<not> in_buflen inp < k" "\<not> in_buflen inp - k < n" "n \<noteq> 0"
  shows "unat k + unat n \<le> length (in_p inp)"
  using assms fits_abs [of k "in_buflen inp" n]
  by (auto intro!: bpf_input_avail simp: not_less unat_gt_0)

lemma avail_ind:
  assumes "bpf_input_ok inp" "\<not> in_buflen inp < k" "\<not> in_buflen inp - k < x"
    "\<not> in_buflen inp - (x + k) < n" "n \<noteq> 0"
  shows "unat (x + k) + unat n \<le> length (in_p inp)"
  using assms fits_ind [of k "in_buflen inp" x]
  by (intro avail_abs) (auto simp: not_less)

lemma avail_byte_abs:
  "bpf_input_ok inp \<Longrightarrow> \<not> in_buflen inp \<le> k \<Longrightarrow> unat k < length (in_p inp)"
  using bpf_input_avail [of inp 1 k] by (simp add: word_le_nat_alt not_le Suc_le_eq)

lemma avail_byte_ind:
  assumes "bpf_input_ok inp" "\<not> in_buflen inp \<le> k" "\<not> in_buflen inp - k \<le> x"
  shows "unat (x + k) < length (in_p inp)"
proof -
  have "unat (x + k) = unat x + unat k" "unat x + unat k < unat (in_buflen inp)"
    using assms fits_ind(1) [of k "in_buflen inp" x]
    by (auto simp: word_le_nat_alt not_le unat_sub)
  then show ?thesis using assms(1) bpf_input_avail [of inp 1 "x + k"] by simp
qed

lemma bp_read_straight:
  assumes "bpf_input_ok inp" "in_buflen inp = 0" "\<And>x. length (r_mem (g x)) = length (r_mem r)"
  shows "straight f r (bindS (bp_xword (in_bp inp) k) (\<lambda>v. Inr (load_result v g)))"
  using assms bp_readers_total [of "in_bp inp" k] by (auto simp: bpf_input_ok_def)

lemma bp_half_straight:
  assumes "bpf_input_ok inp" "in_buflen inp = 0" "\<And>x. length (r_mem (g x)) = length (r_mem r)"
  shows "straight f r (bindS (bp_xhalf (in_bp inp) k) (\<lambda>v. Inr (load_result v g)))"
  using assms bp_readers_total [of "in_bp inp" k] by (auto simp: bpf_input_ok_def)

lemma bp_byte_straight:
  assumes "bpf_input_ok inp" "in_buflen inp = 0" "\<And>x. length (r_mem (g x)) = length (r_mem r)"
  shows "straight f r (bindS (bp_xbyte (in_bp inp) k) (\<lambda>v. Inr (load_result v g)))"
  using assms bp_readers_total [of "in_bp inp" k] by (auto simp: bpf_input_ok_def)

lemmas straight_loads =
  straight_long straight_short straight_byte bp_read_straight bp_half_straight bp_byte_straight

lemma bpf_exec_ld_straight:
  assumes ok: "bpf_input_ok inp" and ld: "bpf_exec_ld inp pc r = Some s"
  shows "straight False r s"
proof -
  let ?b = "in_buflen inp" and ?k = "i_k pc" and ?x = "r_X r"
  have "unat ?k + 4 \<le> length (in_p inp)" if "\<not> ?b < ?k" "\<not> ?b - ?k < 4"
    using avail_abs [OF ok that] by simp
  moreover have "unat ?k + 2 \<le> length (in_p inp)" if "\<not> ?b < ?k" "\<not> ?b - ?k < 2"
    using avail_abs [OF ok that] by simp
  moreover have "unat (?x + ?k) + 4 \<le> length (in_p inp)"
    if "\<not> ?b < ?k" "\<not> ?b - ?k < ?x" "\<not> ?b - (?x + ?k) < 4"
    using avail_ind [OF ok that] by simp
  moreover have "unat (?x + ?k) + 2 \<le> length (in_p inp)"
    if "\<not> ?b < ?x" "\<not> ?b - ?x < ?k" "\<not> ?b - (?x + ?k) < 2"
    using avail_ind [OF ok that(1,2), of 2] that(3) by (simp add: add.commute)
  ultimately show ?thesis
    using ld ok avail_byte_abs [OF ok, of ?k] avail_byte_ind [OF ok, of ?k ?x]
    by (auto simp: bpf_exec_ld_def Let_def split: if_splits intro!: straight_loads)
qed

text \<open>A cell below \<open>BPF_MEMWORDS\<close> is one of the sixteen that \<open>bpf_filter\<close> sets up.\<close>

lemma scratch_cell:
  assumes "\<not> BPF_MEMWORDS \<le> k" "length (r_mem r) = 16"
  shows "mem_load r k = Inr (r_mem r ! unat k)" "mem_store r k v = Inr (r\<lparr>r_mem := (r_mem r)[unat k := v]\<rparr>)"
  using assms by (simp_all add: mem_load_def mem_store_def word_le_nat_alt)

lemma bpf_exec_ldx_mem_straight:
  assumes "bpf_input_ok inp" "length (r_mem r) = 16" "bpf_exec_ldx_mem inp pc r = Some s"
  shows "straight False r s"
  using assms avail_byte_abs [of inp "i_k pc"]
  by (auto simp: bpf_exec_ldx_mem_def Let_def scratch_cell split: if_splits intro!: straight_loads)

lemma straight_alu_f [simp]:
  "straight f r (bindS m (\<lambda>v. Inr (Go (r\<lparr>r_A := v\<rparr>) 0))) \<longleftrightarrow> (\<forall>e. m = Inl e \<longrightarrow> f \<and> e = ShiftUB)"
  by (cases m) auto

lemma bpf_exec_alu_straight:
  assumes "bpf_validate_insn bmax len i pc" "bpf_exec_alu pc r = Some s"
  shows "straight (unbounded_shift pc) r s"
  using assms
  by (auto simp: bpf_exec_alu_def Let_def alu_def alu_f_def div32_def shl32_def shr32_def
      bpf_validate_insn_def unbounded_shift_def BPF_CLASS_def BPF_OP_def BPF_SRC_def split: if_splits)

lemma bpf_exec_misc_straight: "bpf_exec_misc pc r = Some s \<Longrightarrow> straight False r s"
  by (auto simp: bpf_exec_misc_def split: if_splits)

lemma bpf_exec_ret_straight: "bpf_exec_ret pc r = Some s \<Longrightarrow> straight False r s"
  by (auto simp: bpf_exec_ret_def split: if_splits)

lemma bpf_exec_jmp_forward:
  assumes val: "bpf_validate_insn bmax (of_nat n) (of_nat i) pc"
    and jmp: "bpf_exec_jmp pc r = Some s" and n: "n \<le> BPF_MAXINSNS" "i < n"
  shows "\<exists>off. s = Inr (Go r off) \<and> i + 1 + off < n"
proof -
  have small: "unat (of_nat i + 1 + x :: u32) = i + 1 + unat x" if "unat x < 2 ^ 31" for x
    using that n by (simp add: unat_word_ariths)
  have frm: "unat (of_nat i + 1 :: u32) = i + 1"
    using n by (simp add: unat_word_ariths)
  have ja: "Suc (i + unat k) < n"
    if "\<not> of_nat i + 1 + k < (of_nat i + 1 :: u32)" "\<not> (of_nat n :: u32) \<le> of_nat i + 1 + k" for k
  proof -
    have "unat (of_nat i + 1 + k :: u32) < n" using that(2) n by (simp add: word_le_nat_alt)
    moreover have "unat (of_nat i + 1 + k :: u32) = i + 1 + unat k"
      using that(1) frm unat_add_no_overflow [of "of_nat i + 1 :: u32" k] by simp
    ultimately show ?thesis by simp
  qed
  have br: "Suc (i + unat j) < n" if "\<not> (of_nat n :: u32) \<le> of_nat i + 1 + ucast (j :: u8)" for j
  proof -
    have "unat (ucast j :: u32) = unat j" by (simp add: unat_ucast_up)
    then show ?thesis using that n small [of "ucast j"] unat_bound [of j] by (simp add: word_le_nat_alt)
  qed
  show ?thesis
    using val jmp
    by (auto simp: bpf_exec_jmp_def Let_def jump_def bpf_validate_insn_def BPF_CLASS_def BPF_OP_def
        split: if_splits intro!: ja br)
qed

lemma bpf_class_ret_none:
  assumes "BPF_CLASS (i_code pc) = BPF_RET"
  shows "bpf_exec_ld inp pc r = None" "bpf_exec_ldx_mem inp pc r = None"
    "bpf_exec_jmp pc r = None" "bpf_exec_alu pc r = None" "bpf_exec_misc pc r = None"
proof -
  have c: "i_code pc \<noteq> x" if "x AND 7 \<noteq> 6" for x
    using assms that by (auto simp: BPF_CLASS_def)
  show "bpf_exec_ld inp pc r = None" "bpf_exec_ldx_mem inp pc r = None"
    "bpf_exec_jmp pc r = None" "bpf_exec_alu pc r = None" "bpf_exec_misc pc r = None"
    by (simp_all add: c bpf_exec_ld_def bpf_exec_ldx_mem_def bpf_exec_jmp_def bpf_exec_alu_def
        bpf_exec_misc_def Let_def)
qed

lemma bpf_step_class_ret:
  assumes "BPF_CLASS (i_code pc) = BPF_RET"
  shows "\<exists>v. bpf_step inp pc r = Inr (Stop v)"
  by (simp add: bpf_step_def orelse_def bpf_exec_ret_def bpf_class_ret_none [OF assms])

lemma bpf_step_cases:
  "bpf_step inp pc r = Inr (Stop 0) \<or> bpf_exec_jmp pc r = Some (bpf_step inp pc r)
   \<or> bpf_exec_ret pc r = Some (bpf_step inp pc r) \<or> bpf_exec_ld inp pc r = Some (bpf_step inp pc r)
   \<or> bpf_exec_ldx_mem inp pc r = Some (bpf_step inp pc r)
   \<or> bpf_exec_alu pc r = Some (bpf_step inp pc r) \<or> bpf_exec_misc pc r = Some (bpf_step inp pc r)"
  by (cases "bpf_exec_ret pc r"; cases "bpf_exec_ld inp pc r"; cases "bpf_exec_ldx_mem inp pc r";
      cases "bpf_exec_jmp pc r"; cases "bpf_exec_alu pc r"; cases "bpf_exec_misc pc r")
     (simp_all add: bpf_step_def orelse_def)

lemma bpf_step_validated:
  assumes val: "bpf_validate_insn bmax (of_nat n) (of_nat i) pc"
    and n: "n \<le> BPF_MAXINSNS" "i < n" and ok: "bpf_input_ok inp" and mem: "length (r_mem r) = 16"
    and last: "BPF_CLASS (i_code pc) \<noteq> BPF_RET \<longrightarrow> i + 1 < n"
  shows "case bpf_step inp pc r of
           Inl e \<Rightarrow> unbounded_shift pc \<and> e = ShiftUB
         | Inr (Stop v) \<Rightarrow> True
         | Inr (Go r' off) \<Rightarrow> i + 1 + off < n \<and> length (r_mem r') = 16"
proof (cases "BPF_CLASS (i_code pc) = BPF_RET")
  case True
  then show ?thesis using bpf_step_class_ret [OF True, of inp r] by auto
next
  case False
  with last have i: "i + 1 < n" by simp
  consider (default) "bpf_step inp pc r = Inr (Stop 0)"
    | (jump) "bpf_exec_jmp pc r = Some (bpf_step inp pc r)"
    | (straight) "straight (unbounded_shift pc) r (bpf_step inp pc r)"
    using bpf_step_cases [of inp pc r] ok mem val bpf_exec_ret_straight bpf_exec_ld_straight
      bpf_exec_ldx_mem_straight bpf_exec_alu_straight bpf_exec_misc_straight straight_mono by metis
  then show ?thesis
  proof cases
    case jump
    then show ?thesis using bpf_exec_jmp_forward [OF val jump n] mem by (auto simp del: One_nat_def)
  next
    case straight
    then show ?thesis using i mem by (auto simp: straight_def split: sum.splits bpf_next.splits)
  qed simp
qed

lemma bpf_validate_from_nth:
  "bpf_validate_from bmax len i ps \<Longrightarrow> j < length ps \<Longrightarrow> bpf_validate_insn bmax len (of_nat (i + j)) (ps ! j)"
proof (induction ps arbitrary: i j)
  case (Cons p ps)
  then show ?case
    using Cons.IH [of "Suc i" "j - 1"] by (cases j) (auto split: if_splits simp: ac_simps)
qed simp

lemma bpf_validate_nth:
  assumes "bpf_validate bmax prog" "i < length prog"
  shows "bpf_validate_insn bmax (of_nat (length prog)) (of_nat i) (prog ! i)"
    and "BPF_CLASS (i_code (prog ! i)) \<noteq> BPF_RET \<longrightarrow> i + 1 < length prog"
    and "length prog \<le> BPF_MAXINSNS"
proof -
  show "bpf_validate_insn bmax (of_nat (length prog)) (of_nat i) (prog ! i)"
    using assms bpf_validate_from_nth [of bmax "of_nat (length prog)" 0 prog i]
    by (simp add: bpf_validate_def split: if_splits)
  have "i = length prog - 1" if "\<not> i + 1 < length prog"
    using that assms(2) by linarith
  then show "BPF_CLASS (i_code (prog ! i)) \<noteq> BPF_RET \<longrightarrow> i + 1 < length prog"
    using assms by (auto simp: bpf_validate_def split: if_splits)
  show "length prog \<le> BPF_MAXINSNS"
    using assms by (simp add: bpf_validate_def split: if_splits)
qed

lemma bpf_loop_validated:
  assumes "bpf_validate bmax prog" "bpf_input_ok inp" "pc < length prog" "length (r_mem r) = 16" "bpf_loop prog inp pc r = Inl e"
  shows "e = ShiftUB \<and> (\<exists>p \<in> set prog. unbounded_shift p)"
  using assms
proof (induction prog inp pc r rule: bpf_loop.induct)
  case (1 prog inp pc r)
  note v = bpf_validate_nth [OF "1.prems"(1,3)]
  have step: "case bpf_step inp (prog ! pc) r of
           Inl e \<Rightarrow> unbounded_shift (prog ! pc) \<and> e = ShiftUB
         | Inr (Stop v) \<Rightarrow> True
         | Inr (Go r' off) \<Rightarrow> pc + 1 + off < length prog \<and> length (r_mem r') = 16"
    by (rule bpf_step_validated [OF v(1,3) "1.prems"(3,2,4) v(2)])
  show ?case
  proof (cases "bpf_step inp (prog ! pc) r")
    case (Inl e')
    then show ?thesis
      using step "1.prems" nth_mem [of pc prog] by (auto simp: bpf_loop.simps [of prog inp pc r])
  next
    case (Inr s)
    show ?thesis
    proof (cases s)
      case (Go r' off)
      then show ?thesis
        using step Inr "1.prems" "1.IH" [OF _ Inr Go]
        by (simp add: bpf_loop.simps [of prog inp pc r])
    next
      case (Stop v)
      then show ?thesis using Inr "1.prems" by (simp add: bpf_loop.simps [of prog inp pc r])
    qed
  qed
qed

section \<open>Chained and contiguous packets\<close>

text \<open>
  The offset of an indirect load, X plus a constant, is computed in 32 bits. Over a contiguous buffer
  a sum that wraps around is out of range; over a chain the load reads at the wrapped offset. A run
  wraps nowhere when the loads it executes do not.
\<close>

definition indirect_fits :: "bpf_insn \<Rightarrow> bpf_regs \<Rightarrow> bool" where
  "indirect_fits p r \<longleftrightarrow>
     BPF_CLASS (i_code p) = BPF_LD \<and> BPF_MODE (i_code p) = BPF_IND \<longrightarrow> uint (r_X r) + uint (i_k p) < 2 ^ 32"

function indirect_fits_run :: "bpf_insn list \<Rightarrow> bpf_input \<Rightarrow> nat \<Rightarrow> bpf_regs \<Rightarrow> bool" where
  "indirect_fits_run prog inp pc r =
     (if pc < length prog then
        indirect_fits (prog ! pc) r \<and>
        (case bpf_step inp (prog ! pc) r of
           Inl e \<Rightarrow> True
         | Inr (Stop v) \<Rightarrow> True
         | Inr (Go r' off) \<Rightarrow> indirect_fits_run prog inp (pc + 1 + off) r')
      else True)"
  by pat_completeness auto
termination
  by (relation "measure (\<lambda>(prog, inp, pc, r). length prog - pc)") auto

declare indirect_fits_run.simps [simp del]

definition bpf_filter_fits :: "bpf_insn list \<Rightarrow> bpf_input \<Rightarrow> bool" where
  "bpf_filter_fits prog inp = indirect_fits_run prog inp 0 \<lparr>r_A = 0, r_X = 0, r_mem = replicate 16 0\<rparr>"

definition chain_input :: "u8 list \<Rightarrow> mbuf list \<Rightarrow> u32 \<Rightarrow> bpf_input" where
  "chain_input hdr ms wirelen =
     \<lparr>in_p = [], in_bp = \<lparr>bpfp_type = BPF_PACKET_TYPE_MBUF, bpfp_header = hdr,
        bpfp_header_length = length hdr, bpfp_mbuf = ms\<rparr>, in_wirelen = wirelen, in_buflen = 0\<rparr>"

definition flat_input :: "bpf_packet \<Rightarrow> u8 list \<Rightarrow> u32 \<Rightarrow> bpf_input" where
  "flat_input bp p wirelen =
     \<lparr>in_p = p, in_bp = bp, in_wirelen = wirelen, in_buflen = of_nat (length p)\<rparr>"

lemma flat_abs_iff:
  assumes "length p < 2 ^ 32" "n \<noteq> 0"
  shows "(of_nat (length p) < k \<or> of_nat (length p) - k < n) \<longleftrightarrow> length (drop (unat k) p) < unat (n :: u32)"
proof (cases "(of_nat (length p) :: u32) < k")
  case True
  then show ?thesis using assms by (simp add: word_less_nat_alt unat_gt_0)
next
  case False
  then have "unat (of_nat (length p) - k :: u32) = length p - unat k"
    using assms by (simp add: unat_sub not_less)
  then show ?thesis using False by (simp add: word_less_nat_alt)
qed

lemma flat_ind_iff:
  assumes len: "length p < 2 ^ 32" and n: "n \<noteq> 0" and fits: "unat x + unat k < 2 ^ 32"
  shows "(of_nat (length p) < k \<or> of_nat (length p) - k < x \<or> of_nat (length p) - (x + k) < n) \<longleftrightarrow>
    length (drop (unat (x + k)) p) < unat (n :: u32)"
proof -
  have sum: "unat (x + k) = unat x + unat k" using fits by (simp add: unat_word_ariths)
  show ?thesis
  proof (cases "unat x + unat k \<le> length p")
    case True
    then have "\<not> (of_nat (length p) :: u32) < k" using len by (simp add: word_less_nat_alt)
    moreover from this have "unat (of_nat (length p) - k :: u32) = length p - unat k"
      using len by (simp add: unat_sub not_less)
    then have "\<not> (of_nat (length p) - k :: u32) < x" using True by (simp add: word_less_nat_alt)
    moreover have "\<not> (of_nat (length p) :: u32) < x + k" using True sum len by (simp add: word_less_nat_alt)
    ultimately show ?thesis using flat_abs_iff [OF len n, of "x + k"] by simp
  next
    case False
    then have "0 < unat n" "length (drop (unat (x + k)) p) = 0" using n sum by (simp_all add: unat_gt_0)
    moreover have "of_nat (length p) < k \<or> of_nat (length p) - k < x"
    proof (rule disjCI)
      assume "\<not> of_nat (length p) - k < x"
      show "of_nat (length p) < k"
      proof (rule ccontr)
        assume "\<not> of_nat (length p) < k"
        then have "unat x + unat k \<le> unat (of_nat (length p) :: u32)"
          using \<open>\<not> of_nat (length p) - k < x\<close> fits_abs [of k "of_nat (length p)" x] by (simp add: not_less add.commute)
        then show False using False len by simp
      qed
    qed
    ultimately show ?thesis by fastforce
  qed
qed

lemma flat_ind_byte_iff:
  assumes len: "length p < 2 ^ 32" and fits: "unat x + unat k < 2 ^ 32"
  shows "(of_nat (length p) \<le> k \<or> of_nat (length p) - k \<le> x) \<longleftrightarrow> length (drop (unat (x + k :: u32)) p) < 1"
proof -
  have sum: "unat (x + k) = unat x + unat k" using fits by (simp add: unat_word_ariths)
  show ?thesis
  proof (cases "(of_nat (length p) :: u32) \<le> k")
    case False
    then have "unat (of_nat (length p) - k :: u32) = length p - unat k" using len by (simp add: unat_sub)
    then show ?thesis using False len sum by (auto simp: word_le_nat_alt)
  qed (use len sum in \<open>simp add: word_le_nat_alt\<close>)
qed

text \<open>With no contiguous bytes, every bounds check sends the load to the descriptor.\<close>

lemma empty_buffer_checks:
  "0 < k \<or> - k < (4 :: u32)" "0 < k \<or> - k < (2 :: u32)"
  "0 < k \<or> - k < x \<or> - x - k < (4 :: u32)" "0 < x \<or> - x < k \<or> - x - k < (2 :: u32)"
  by (cases "k = 0"; cases "x = 0"; simp add: word_gt_0)+

lemma flat_step_eq:
  assumes ms: "ms \<noteq> []" "bufs_ok ms" and len: "length (pkt_bytes hdr ms) < 2 ^ 32" "pkt_bytes hdr ms \<noteq> []"
    and fits: "indirect_fits p r"
  shows "bpf_step (chain_input hdr ms w) p r = bpf_step (flat_input bp (pkt_bytes hdr ms) w) p r"
proof -
  let ?B = "pkt_bytes hdr ms" and ?c = "chain_input hdr ms w" and ?f = "flat_input bp (pkt_bytes hdr ms) w"
  have nz: "(of_nat (length ?B) :: u32) \<noteq> 0"
    using len by (metis length_0_conv of_nat_u32_small unat_0)
  have w4: "(of_nat (length ?B) < k \<or> of_nat (length ?B) - k < (4 :: u32)) \<longleftrightarrow> flat32 (drop (unat k) ?B) = None"
    and w2: "(of_nat (length ?B) < k \<or> of_nat (length ?B) - k < (2 :: u32)) \<longleftrightarrow> flat16 (drop (unat k) ?B) = None" for k
    using flat_abs_iff [OF len(1), of 4 k] flat_abs_iff [OF len(1), of 2 k] by simp_all
  have w1: "of_nat (length ?B) \<le> (k :: u32) \<longleftrightarrow> flat8 (drop (unat k) ?B) = None" for k
    using len by (simp add: word_le_nat_alt)
  have "packet_ok3 (in_bp ?c)" "packet_bytes (in_bp ?c) = ?B"
    using ms by (simp_all add: chain_input_def packet_ok3_def packet_bytes_def)
  note bp = bp.xword [OF this(1), unfolded this(2)] bp.xhalf [OF this(1), unfolded this(2)]
    bp.xbyte [OF this(1), unfolded this(2)]
  have rd: "rd ?B (unat k) = (case flat8 (drop (unat k) ?B) of None \<Rightarrow> Inl OutOfBounds | Some v \<Rightarrow> Inr v)"
    for k :: u32
    by (cases "unat k < length ?B") (simp_all add: rd_def Cons_nth_drop_Suc [symmetric])
  have sel: "in_buflen ?c = 0" "in_wirelen ?c = w" "in_buflen ?f = of_nat (length ?B)" "in_p ?f = ?B"
    "in_wirelen ?f = w"
    by (simp_all add: chain_input_def flat_input_def)
  let ?D = "drop (unat (i_k p)) ?B" and ?I = "drop (unat (r_X r + i_k p)) ?B"
  note loads = sel nz bp empty_buffer_checks rd load_result_def EXTRACT_LONG_flat EXTRACT_SHORT_flat
  have "bpf_exec_ld ?c p r = bpf_exec_ld ?f p r"
  proof (cases "i_code p \<in> {0x40, 0x48, 0x50}")
    case True
    then have "BPF_CLASS (i_code p) = BPF_LD" "BPF_MODE (i_code p) = BPF_IND" by (auto simp: BPF_MODE_def BPF_CLASS_def)
    then have "int (unat (r_X r)) + int (unat (i_k p)) < 2 ^ 32" using fits by (simp only: indirect_fits_def uint_nat simp_thms)
    then have "int (unat (r_X r) + unat (i_k p)) < int (2 ^ 32)" by simp
    then have no_wrap: "unat (r_X r) + unat (i_k p) < 2 ^ 32" by (simp only: of_nat_less_iff)
    note ind = flat_ind_iff [OF len(1) _ no_wrap, of 4]
      flat_ind_iff [OF len(1) _ no_wrap [unfolded add.commute [of "unat (r_X r)"]], of 2]
      flat_ind_byte_iff [OF len(1) no_wrap]
    have i4: "(of_nat (length ?B) < i_k p \<or> of_nat (length ?B) - i_k p < r_X r \<or>
        of_nat (length ?B) - (r_X r + i_k p) < 4) \<longleftrightarrow> flat32 ?I = None"
      and i2: "(of_nat (length ?B) < r_X r \<or> of_nat (length ?B) - r_X r < i_k p \<or>
        of_nat (length ?B) - (r_X r + i_k p) < 2) \<longleftrightarrow> flat16 ?I = None"
      and i1: "(of_nat (length ?B) \<le> i_k p \<or> of_nat (length ?B) - i_k p \<le> r_X r) \<longleftrightarrow> flat8 ?I = None"
      using ind by (simp_all add: add.commute [of "i_k p"])
    note del = flat32_None_iff flat16_None_iff flat8_None_iff
    from True consider "i_code p = 0x40" | "i_code p = 0x48" | "i_code p = 0x50" by auto
    then show ?thesis
    proof cases
      case 1
      then show ?thesis by (cases "flat32 ?I") (simp_all add: bpf_exec_ld_def Let_def loads i4 del: del)
    next
      case 2
      then show ?thesis by (cases "flat16 ?I") (simp_all add: bpf_exec_ld_def Let_def loads i2 del: del)
    next
      case 3
      then show ?thesis by (cases "flat8 ?I") (simp_all add: bpf_exec_ld_def Let_def loads i1 del: del)
    qed
  next
    case False
    then show ?thesis
      by (cases "flat32 ?D"; cases "flat16 ?D"; cases "flat8 ?D")
         (simp_all add: bpf_exec_ld_def Let_def loads w4 w2 w1
          del: flat32_None_iff flat16_None_iff flat8_None_iff)
  qed
  moreover have "bpf_exec_ldx_mem ?c p r = bpf_exec_ldx_mem ?f p r"
    by (cases "flat8 ?D") (simp_all add: bpf_exec_ldx_mem_def Let_def loads w1 del: flat8_None_iff)
  ultimately show ?thesis by (simp add: bpf_step_def)
qed

lemma bpf_loop_step_cong:
  assumes "\<And>p r. p \<in> set prog \<Longrightarrow> indirect_fits p r \<Longrightarrow> bpf_step inp p r = bpf_step inp' p r"
    and "indirect_fits_run prog inp pc r"
  shows "bpf_loop prog inp pc r = bpf_loop prog inp' pc r"
  using assms
proof (induction prog inp pc r rule: bpf_loop.induct)
  case (1 prog inp pc r)
  show ?case
  proof (cases "pc < length prog")
    case True
    then have "bpf_step inp (prog ! pc) r = bpf_step inp' (prog ! pc) r"
      using "1.prems" nth_mem [OF True] by (simp add: indirect_fits_run.simps [of prog inp pc r])
    then show ?thesis
      using True "1.prems" "1.IH" [OF True]
      by (auto simp: bpf_loop.simps [of prog inp pc r] bpf_loop.simps [of prog inp' pc r]
          indirect_fits_run.simps [of prog inp pc r] split: sum.splits bpf_next.splits)
  qed (simp add: bpf_loop.simps [of prog inp pc r] bpf_loop.simps [of prog inp' pc r])
qed

section \<open>Properties\<close>

definition ip_only :: "bpf_insn list" where
  "ip_only = [\<lparr>i_code = 0x28, i_jt = 0, i_jf = 0, i_k = 12\<rparr>, \<lparr>i_code = 0x15, i_jt = 0, i_jf = 1, i_k = 0x800\<rparr>,
    \<lparr>i_code = 0x06, i_jt = 0, i_jf = 0, i_k = 0xffff\<rparr>, \<lparr>i_code = 0x06, i_jt = 0, i_jf = 0, i_k = 0\<rparr>]"

definition ip_frame :: "u8 list list" where
  "ip_frame = [[1, 2, 3, 4, 5, 6, 7, 8, 9, 10, 11, 12, 8], [0, 69]]"

text \<open>
  C1. A program that \<open>bpf_validate\<close> accepts always returns a value on every packet the kernel
  hands it: it never leaves the program, never reads outside the packet, never accesses a cell
  outside the scratch memory, never divides by zero. The one exception is an undefined shift,
  and then the program contains a shift by a constant of 32 or more or a shift by the register
  X: the validator bounds neither.
\<close>

theorem bpf_validated_safe:
  assumes "bpf_validate bmax prog" "bpf_input_ok inp"
  shows "(\<exists>v. bpf_filter (Some prog) inp = Inr v) \<or>
    (bpf_filter (Some prog) inp = Inl ShiftUB \<and> (\<exists>p \<in> set prog. unbounded_shift p))"
proof -
  have "0 < length prog" using assms(1) by (simp add: bpf_validate_def split: if_splits)
  then show ?thesis
    using bpf_loop_validated [OF assms, of 0 "\<lparr>r_A = 0, r_X = 0, r_mem = replicate 16 0\<rparr>"]
    by (cases "bpf_filter (Some prog) inp") (fastforce simp: bpf_filter_def)+
qed

theorem bpf_validated_safe_witness:
  "bpf_validate 0x80000 ip_only \<and> bpf_input_ok (chain_input [] ip_frame 15) \<and>
   ((\<exists>v. bpf_filter (Some ip_only) (chain_input [] ip_frame 15) = Inr v) \<or>
    bpf_filter (Some ip_only) (chain_input [] ip_frame 15) = Inl ShiftUB \<and>
    (\<exists>p \<in> set ip_only. unbounded_shift p))"
proof -
  have v: "bpf_validate 0x80000 ip_only"
    by (simp add: bpf_validate_def ip_only_def bpf_validate_insn_def BPF_CLASS_def BPF_MODE_def
        BPF_OP_def Let_def)
  have i: "bpf_input_ok (chain_input [] ip_frame 15)"
    by (simp add: bpf_input_ok_def chain_input_def bpf_packet_ok_def ip_frame_def)
  show ?thesis using v i bpf_validated_safe [OF v i] by blast
qed

text \<open>
  C2. The filter's verdict does not depend on how the packet is stored: running over a header and an
  mbuf chain gives the same result as running over the same bytes in one contiguous buffer. The
  packet has between one and \<open>2 ^ 32 - 1\<close> bytes; every mbuf but the last holds at least three bytes (the
  32-bit reader joins at most two buffers) and none is empty; and no indirect load that the run
  executes computes an offset that wraps around. The code differs in each excluded case.
\<close>

theorem bpf_filter_chain_flat:
  assumes "ms \<noteq> []" "bufs_ok ms" "hdr @ concat ms \<noteq> []" "length (hdr @ concat ms) < 2 ^ 32"
    "bpf_filter_fits prog (chain_input hdr ms w)"
  shows "bpf_filter (Some prog) (chain_input hdr ms w) =
    bpf_filter (Some prog) (flat_input bp (hdr @ concat ms) w)"
  using assms
  by (auto simp: bpf_filter_def bpf_filter_fits_def pkt_bytes_def [symmetric]
      intro!: bpf_loop_step_cong flat_step_eq)

text \<open>A filter on a port of a UDP datagram, past an IP header of any length: its second load is indirect.\<close>

definition udp_port :: "bpf_insn list" where
  "udp_port = [\<lparr>i_code = 0xb1, i_jt = 0, i_jf = 0, i_k = 14\<rparr>, \<lparr>i_code = 0x48, i_jt = 0, i_jf = 0, i_k = 16\<rparr>,
    \<lparr>i_code = 0x15, i_jt = 0, i_jf = 1, i_k = 53\<rparr>, \<lparr>i_code = 0x06, i_jt = 0, i_jf = 0, i_k = 0xffff\<rparr>,
    \<lparr>i_code = 0x06, i_jt = 0, i_jf = 0, i_k = 0\<rparr>]"

definition udp_frame :: "u8 list list" where
  "udp_frame = [[0, 0, 0, 0, 0, 0, 0, 0, 0, 0, 0, 0, 8, 0, 0x45, 0, 0, 0, 0, 0], [0, 0, 0, 17, 0, 0, 1, 2, 3, 4, 5, 6, 7, 8, 9, 10, 0], [53, 0, 8]]"

theorem bpf_filter_chain_flat_witness:
  "bpf_filter (Some udp_port) (flat_input (in_bp (chain_input [] [] 0)) (concat udp_frame) 40) = Inr 0xffff \<and>
   bpf_filter (Some udp_port) (chain_input [] udp_frame 40) =
     bpf_filter (Some udp_port) (flat_input (in_bp (chain_input [] [] 0)) ([] @ concat udp_frame) 40)"
proof -
  have "bpf_filter_fits udp_port (chain_input [] udp_frame 40)" by code_simp
  then have "bpf_filter (Some udp_port) (chain_input [] udp_frame 40) =
     bpf_filter (Some udp_port) (flat_input (in_bp (chain_input [] [] 0)) ([] @ concat udp_frame) 40)"
    by (intro bpf_filter_chain_flat) (simp_all add: udp_frame_def)
  moreover have "bpf_filter (Some udp_port) (chain_input [] udp_frame 40) = Inr 0xffff"
    by code_simp
  ultimately show ?thesis by simp
qed

text \<open>
  What the validator misses: it accepts a left shift by any constant, and when that
  constant is 32 or more the accepted program performs the undefined shift on every packet.
\<close>

theorem bpf_validate_accepts_wide_shift:
  "bpf_validate bmax [\<lparr>i_code = 0x00, i_jt = 0, i_jf = 0, i_k = a\<rparr>,
      \<lparr>i_code = 0x64, i_jt = 0, i_jf = 0, i_k = n\<rparr>, \<lparr>i_code = 0x16, i_jt = 0, i_jf = 0, i_k = 0\<rparr>] \<and>
   bpf_filter (Some [\<lparr>i_code = 0x00, i_jt = 0, i_jf = 0, i_k = a\<rparr>,
      \<lparr>i_code = 0x64, i_jt = 0, i_jf = 0, i_k = n\<rparr>, \<lparr>i_code = 0x16, i_jt = 0, i_jf = 0, i_k = 0\<rparr>]) inp =
     (if n < 32 then Inr (push_bit (unat n) a) else Inl ShiftUB)"
  by (simp add: bpf_validate_def bpf_validate_insn_def BPF_CLASS_def BPF_MODE_def BPF_OP_def Let_def
      bpf_filter_def bpf_loop.simps bpf_step_def orelse_def bpf_exec_ret_def bpf_exec_ld_def
      bpf_exec_ldx_mem_def bpf_exec_jmp_def bpf_exec_alu_def alu_f_def shl32_def)

text \<open>
  An indirect load whose offset wraps around: over a contiguous buffer the filter stops and returns 0,
  over a chain it reads the byte at the wrapped offset.
\<close>

theorem bpf_indirect_load_wraps:
  assumes k: "k \<noteq> 0"
    and prog: "prog = [\<lparr>i_code = 0x01, i_jt = 0, i_jf = 0, i_k = - k\<rparr>, \<lparr>i_code = 0x50, i_jt = 0, i_jf = 0, i_k = k\<rparr>,
      \<lparr>i_code = 0x16, i_jt = 0, i_jf = 0, i_k = 0\<rparr>]" and len: "length (b # m) < 2 ^ 32"
  shows "bpf_filter (Some prog) (chain_input [] [b # m] w) = Inr (ucast b)"
    "bpf_filter (Some prog) (flat_input bp (b # m) w) = Inr 0"
proof -
  have rd: "bp_xbyte (in_bp (chain_input [] [b # m] w)) 0 = Inr (Some b)"
    by (simp add: chain_input_def bp_xbyte_def m_xbyte_def m_hdr_offset_def rd_def)
  have "in_buflen (chain_input [] [b # m] w) = 0" by (simp add: chain_input_def)
  then show "bpf_filter (Some prog) (chain_input [] [b # m] w) = Inr (ucast b)"
    using rd by (simp add: prog bpf_filter_def bpf_loop.simps bpf_step_def orelse_def bpf_exec_ret_def bpf_exec_ld_def
        bpf_exec_ldx_mem_def bpf_exec_jmp_def load_result_def)
  let ?L = "of_nat (length (b # m)) :: u32"
  have nz: "?L \<noteq> 0" using len by (metis length_greater_0_conv list.distinct(1) nat_neq_iff of_nat_u32_small unat_0)
  have out: "?L \<le> k \<or> ?L - k \<le> - k"
  proof (rule disjCI)
    assume "\<not> ?L - k \<le> - k"
    show "?L \<le> k"
    proof (rule ccontr)
      assume "\<not> ?L \<le> k"
      then have "unat (?L - k) = unat ?L - unat k" by (simp add: unat_sub)
      moreover have "unat (- k) = 2 ^ 32 - unat k" using k unat_sub_if_size [of 0 k] unat_gt_0 [of k] by (simp add: word_size)
      ultimately show False using \<open>\<not> ?L - k \<le> - k\<close> unat_bound [of ?L] by (simp add: word_le_nat_alt)
    qed
  qed
  show "bpf_filter (Some prog) (flat_input bp (b # m) w) = Inr 0"
    using out nz by (simp add: prog flat_input_def bpf_filter_def bpf_loop.simps bpf_step_def orelse_def bpf_exec_ret_def bpf_exec_ld_def
        bpf_exec_ldx_mem_def bpf_exec_jmp_def)
qed

text \<open>
  The 16-bit reader takes the second byte from the next mbuf without looking at its
  length: when the first byte ends its mbuf and the next mbuf is empty, it reads past that
  mbuf's data, while the packet's next byte is in the mbuf after it.
\<close>

theorem m_xhalf_empty_mbuf_overread:
  assumes "unat k + 1 = length hdr + length m" "m \<noteq> []"
  shows "m_xhalf (m # [] # ms) hdr (length hdr) k = Inl OutOfBounds"
  using assms by (cases m) (auto simp: m_xhalf_def m_hdr_offset_def rd_def)

theorem m_xhalf_empty_mbuf_overread_witness:
  "m_xhalf [[1], [], [2]] [] (length ([] :: u8 list)) 0 = Inl OutOfBounds"
  by (rule m_xhalf_empty_mbuf_overread) simp_all

end
