(* ===== verification/CF_BinaryHeap.thy ===== *)
theory CF_BinaryHeap
  imports Prelude
begin

text \<open>
  CoreFoundation's binary heap, \<^verbatim>\<open>CFBinaryHeap.c\<close>: an array-based min-heap of pointers with
  client callbacks for comparing, retaining and releasing the values.
\<close>

section \<open>Data\<close>

text \<open>Values are pointers.\<close>

type_synonym ptr = u64

datatype CFComparisonResult = kCFCompareLessThan | kCFCompareEqualTo | kCFCompareGreaterThan

record CFBinaryHeapCallBacks =
  cb_retain :: "(ptr \<Rightarrow> ptr) option"
  cb_release :: bool
  cb_compare :: "(ptr \<Rightarrow> ptr \<Rightarrow> ptr \<Rightarrow> CFComparisonResult) option"

text \<open>
  The heap object. \<open>h_buckets\<close> is the bucket array, of which the first \<open>h_capacity\<close> entries are
  allocated; \<open>h_retained\<close> and \<open>h_released\<close> record the values passed through the retain
  and release callbacks, the client-visible effect of the operations.
\<close>

record CFBinaryHeap =
  h_count :: nat
  h_capacity :: int
  h_callbacks :: CFBinaryHeapCallBacks
  h_info :: ptr
  h_buckets :: "nat \<Rightarrow> ptr"
  h_variety :: nat
  h_retained :: "ptr list"
  h_released :: "ptr list"

abbreviation (input) kCFBinaryHeapMutable :: nat where "kCFBinaryHeapMutable \<equiv> 1"

section \<open>Operations\<close>

text \<open>\<open>flsl\<close>: the position, from 1, of the most significant set bit.\<close>

fun flsl :: "nat \<Rightarrow> nat" where
  "flsl m = (if m = 0 then 0 else Suc (flsl (m div 2)))"

declare flsl.simps [simp del]

text \<open>The shift \<open>1 << flsl(capacity)\<close> is done on a 32-bit \<open>int\<close> and then widened.\<close>

definition CFBinaryHeapRoundUpCapacity :: "nat \<Rightarrow> int" where
  "CFBinaryHeapRoundUpCapacity capacity =
     (if capacity < 4 then 4 else sint (push_bit (flsl capacity) 1 :: u32))"

definition CFBinaryHeapGetCount :: "CFBinaryHeap \<Rightarrow> nat" where
  "CFBinaryHeapGetCount heap = h_count heap"

text \<open>The comparison all operations make: \<open>item\<close> is not greater than \<open>value\<close>.\<close>

definition not_greater :: "CFBinaryHeap \<Rightarrow> ptr \<Rightarrow> ptr \<Rightarrow> bool" where
  "not_greater heap item value =
     (case cb_compare (h_callbacks heap) of
        None \<Rightarrow> item \<le> value
      | Some compare \<Rightarrow> compare item value (h_info heap) \<noteq> kCFCompareGreaterThan)"

definition CFBinaryHeapValueMatches :: "CFBinaryHeap \<Rightarrow> ptr \<Rightarrow> ptr \<Rightarrow> bool" where
  "CFBinaryHeapValueMatches heap value item =
     (value = item \<or> (case cb_compare (h_callbacks heap) of
        None \<Rightarrow> False
      | Some compare \<Rightarrow> compare value item (h_info heap) = kCFCompareEqualTo))"

definition CFBinaryHeapGetCountOfValue :: "CFBinaryHeap \<Rightarrow> ptr \<Rightarrow> nat" where
  "CFBinaryHeapGetCountOfValue heap value =
     foldl (\<lambda>cnt idx. if CFBinaryHeapValueMatches heap value (h_buckets heap idx) then Suc cnt else cnt)
       0 [0..<h_count heap]"

fun contains_from :: "CFBinaryHeap \<Rightarrow> ptr \<Rightarrow> nat list \<Rightarrow> bool" where
  "contains_from heap value [] = False"
| "contains_from heap value (idx # rest) =
     (if CFBinaryHeapValueMatches heap value (h_buckets heap idx) then True
      else contains_from heap value rest)"

definition CFBinaryHeapContainsValue :: "CFBinaryHeap \<Rightarrow> ptr \<Rightarrow> bool" where
  "CFBinaryHeapContainsValue heap value = contains_from heap value [0..<h_count heap]"

text \<open>The null pointer when the heap is empty.\<close>

definition CFBinaryHeapGetMinimum :: "CFBinaryHeap \<Rightarrow> ptr" where
  "CFBinaryHeapGetMinimum heap = (if 0 < h_count heap then h_buckets heap 0 else 0)"

definition CFBinaryHeapGetMinimumIfPresent :: "CFBinaryHeap \<Rightarrow> ptr option" where
  "CFBinaryHeapGetMinimumIfPresent heap = (if h_count heap = 0 then None else Some (h_buckets heap 0))"

text \<open>
  Growing asks the allocator, here the predicate \<open>alloc\<close> on the number of buckets; when it
  fails the code halts the process, \<open>None\<close>.
\<close>

definition CFBinaryHeapGrow :: "(int \<Rightarrow> bool) \<Rightarrow> CFBinaryHeap \<Rightarrow> nat \<Rightarrow> CFBinaryHeap option" where
  "CFBinaryHeapGrow alloc heap numNewValues =
     (let capacity = CFBinaryHeapRoundUpCapacity (h_count heap + numNewValues)
      in if alloc capacity then Some (heap\<lparr>h_capacity := capacity\<rparr>) else None)"

text \<open>The loop of \<open>CFBinaryHeapAddValue\<close>: moves parents down until \<open>value\<close> fits at \<open>idx\<close>.\<close>

fun sift_up :: "(ptr \<Rightarrow> ptr \<Rightarrow> bool) \<Rightarrow> (nat \<Rightarrow> ptr) \<Rightarrow> nat \<Rightarrow> ptr \<Rightarrow> (nat \<Rightarrow> ptr) \<times> nat" where
  "sift_up le b idx value =
     (if 0 < idx then
        (let pidx = (idx - 1) div 2; item = b pidx in
         if le item value then (b, idx) else sift_up le (b(idx := item)) pidx value)
      else (b, idx))"

declare sift_up.simps [simp del]

definition CFBinaryHeapAddValue :: "(int \<Rightarrow> bool) \<Rightarrow> CFBinaryHeap \<Rightarrow> ptr \<Rightarrow> CFBinaryHeap option" where
  "CFBinaryHeapAddValue alloc heap0 value =
     (case (if h_variety heap0 = kCFBinaryHeapMutable \<and> int (h_count heap0) = h_capacity heap0
            then CFBinaryHeapGrow alloc heap0 1 else Some heap0) of
        None \<Rightarrow> None
      | Some heap \<Rightarrow>
          (let cnt = h_count heap;
               (b, idx) = sift_up (not_greater heap) (h_buckets heap) cnt value
           in case cb_retain (h_callbacks heap) of
                Some retain \<Rightarrow> Some (heap\<lparr>h_count := cnt + 1, h_buckets := b(idx := retain value),
                                        h_retained := h_retained heap @ [retain value]\<rparr>)
              | None \<Rightarrow> Some (heap\<lparr>h_count := cnt + 1, h_buckets := b(idx := value)\<rparr>)))"

text \<open>The loop of \<open>CFBinaryHeapRemoveMinimumValue\<close>: moves the smaller child up until \<open>val\<close> fits.\<close>

function sift_down :: "(ptr \<Rightarrow> ptr \<Rightarrow> bool) \<Rightarrow> nat \<Rightarrow> (nat \<Rightarrow> ptr) \<Rightarrow> nat \<Rightarrow> ptr \<Rightarrow> (nat \<Rightarrow> ptr) \<times> nat" where
  "sift_down le cnt b idx val =
     (let cidx = 2 * idx + 1 in
      if cidx < cnt then
        (let item = b cidx;
             (cidx, item) = (if cidx + 1 < cnt then
                               (let item2 = b (cidx + 1) in
                                if \<not> le item item2 then (cidx + 1, item2) else (cidx, item))
                             else (cidx, item))
         in if \<not> le item val then (b, idx) else sift_down le cnt (b(idx := item)) cidx val)
      else (b, idx))"
  by pat_completeness auto
termination
  by (relation "measure (\<lambda>(le, cnt, b, idx, val). cnt - idx)") (auto split: if_splits simp: Let_def)

declare sift_down.simps [simp del]

definition CFBinaryHeapRemoveMinimumValue :: "CFBinaryHeap \<Rightarrow> CFBinaryHeap" where
  "CFBinaryHeapRemoveMinimumValue heap =
     (let cnt = h_count heap in
      if cnt = 0 then heap
      else
        (let released = (if cb_release (h_callbacks heap)
                         then h_released heap @ [h_buckets heap 0] else h_released heap);
             val = h_buckets heap (cnt - 1);
             (b, idx) = sift_down (not_greater heap) (cnt - 1) (h_buckets heap) 0 val
         in heap\<lparr>h_count := cnt - 1, h_buckets := b(idx := val), h_released := released\<rparr>))"

definition CFBinaryHeapRemoveAllValues :: "CFBinaryHeap \<Rightarrow> CFBinaryHeap" where
  "CFBinaryHeapRemoveAllValues heap =
     heap\<lparr>h_count := 0,
          h_released := (if cb_release (h_callbacks heap)
                         then h_released heap @ map (h_buckets heap) [0..<h_count heap]
                         else h_released heap)\<rparr>"

fun add_all :: "(int \<Rightarrow> bool) \<Rightarrow> CFBinaryHeap \<Rightarrow> ptr list \<Rightarrow> CFBinaryHeap option" where
  "add_all alloc heap [] = Some heap"
| "add_all alloc heap (v # vs) =
     (case CFBinaryHeapAddValue alloc heap v of None \<Rightarrow> None | Some heap' \<Rightarrow> add_all alloc heap' vs)"

definition no_callbacks :: CFBinaryHeapCallBacks where
  "no_callbacks = \<lparr>cb_retain = None, cb_release = False, cb_compare = None\<rparr>"

text \<open>The bucket array of a new heap is uninitialised memory, \<open>mem\<close>.\<close>

definition CFBinaryHeapInit ::
    "(int \<Rightarrow> bool) \<Rightarrow> (nat \<Rightarrow> ptr) \<Rightarrow> nat \<Rightarrow> ptr list \<Rightarrow> CFBinaryHeapCallBacks option \<Rightarrow> ptr \<Rightarrow> CFBinaryHeap option" where
  "CFBinaryHeapInit alloc mem flags values callBacks info =
     (let capacity = CFBinaryHeapRoundUpCapacity 1 in
      if \<not> alloc capacity then None
      else
        (case add_all alloc
            \<lparr>h_count = 0, h_capacity = capacity,
             h_callbacks = (case callBacks of None \<Rightarrow> no_callbacks | Some cb \<Rightarrow> cb),
             h_info = info, h_buckets = mem, h_variety = kCFBinaryHeapMutable,
             h_retained = [], h_released = []\<rparr> values of
           None \<Rightarrow> None
         | Some heap \<Rightarrow> Some (heap\<lparr>h_variety := flags mod 4\<rparr>)))"

definition CFBinaryHeapCreate ::
    "(int \<Rightarrow> bool) \<Rightarrow> (nat \<Rightarrow> ptr) \<Rightarrow> CFBinaryHeapCallBacks option \<Rightarrow> ptr \<Rightarrow> CFBinaryHeap option" where
  "CFBinaryHeapCreate alloc mem callBacks info =
     CFBinaryHeapInit alloc mem kCFBinaryHeapMutable [] callBacks info"

definition CFBinaryHeapCreateCopy ::
    "(int \<Rightarrow> bool) \<Rightarrow> (nat \<Rightarrow> ptr) \<Rightarrow> CFBinaryHeap \<Rightarrow> CFBinaryHeap option" where
  "CFBinaryHeapCreateCopy alloc mem heap =
     CFBinaryHeapInit alloc mem kCFBinaryHeapMutable (map (h_buckets heap) [0..<h_count heap])
       (Some (h_callbacks heap)) (h_info heap)"

lemma RemoveMinimum_count:
  "h_count (CFBinaryHeapRemoveMinimumValue heap) = h_count heap - 1"
  by (simp add: CFBinaryHeapRemoveMinimumValue_def Let_def split: prod.splits)

text \<open>The loop that empties the copy, taking each minimum.\<close>

function drain :: "CFBinaryHeap \<Rightarrow> ptr list" where
  "drain heapCopy =
     (if 0 < h_count heapCopy
      then CFBinaryHeapGetMinimum heapCopy # drain (CFBinaryHeapRemoveMinimumValue heapCopy)
      else [])"
  by pat_completeness auto
termination
  by (relation "measure h_count") (auto simp: RemoveMinimum_count)

declare drain.simps [simp del]

text \<open>\<open>None\<close> when the copy cannot be made.\<close>

definition CFBinaryHeapGetValues ::
    "(int \<Rightarrow> bool) \<Rightarrow> (nat \<Rightarrow> ptr) \<Rightarrow> CFBinaryHeap \<Rightarrow> ptr list option" where
  "CFBinaryHeapGetValues alloc mem heap =
     (if h_count heap = 0 then Some []
      else (case CFBinaryHeapCreateCopy alloc mem heap of
              None \<Rightarrow> None
            | Some heapCopy \<Rightarrow> Some (drain heapCopy)))"

text \<open>The applier is called on the values in the order of the draining loop; \<open>acc\<close> is its state.\<close>

definition CFBinaryHeapApplyFunction ::
    "(int \<Rightarrow> bool) \<Rightarrow> (nat \<Rightarrow> ptr) \<Rightarrow> CFBinaryHeap \<Rightarrow> (ptr \<Rightarrow> 's \<Rightarrow> 's) \<Rightarrow> 's \<Rightarrow> 's option" where
  "CFBinaryHeapApplyFunction alloc mem heap applier acc =
     (if h_count heap = 0 then Some acc
      else (case CFBinaryHeapCreateCopy alloc mem heap of
              None \<Rightarrow> None
            | Some heapCopy \<Rightarrow> Some (fold applier (drain heapCopy) acc)))"

text \<open>
  Equality of two heaps, over their values in order. The condition on the comparison is the
  code's \<open>if (!compare(val1, val2, info)) return false\<close>, in which the result 0 of \<open>compare\<close>
  is \<open>kCFCompareEqualTo\<close>. Comparing the function pointers is the argument \<open>same_compare\<close>.
\<close>

fun equal_values :: "CFBinaryHeap \<Rightarrow> ptr list \<Rightarrow> ptr list \<Rightarrow> bool" where
  "equal_values heap1 (val1 # list1) (val2 # list2) =
     (if val1 \<noteq> val2 then
        (case cb_compare (h_callbacks heap1) of
           None \<Rightarrow> False
         | Some compare \<Rightarrow>
             if compare val1 val2 (h_info heap1) = kCFCompareEqualTo then False
             else equal_values heap1 list1 list2)
      else equal_values heap1 list1 list2)"
| "equal_values heap1 _ _ = True"

definition CFBinaryHeapEqual ::
    "(int \<Rightarrow> bool) \<Rightarrow> (nat \<Rightarrow> ptr) \<Rightarrow> bool \<Rightarrow> CFBinaryHeap \<Rightarrow> CFBinaryHeap \<Rightarrow> bool option" where
  "CFBinaryHeapEqual alloc mem same_compare heap1 heap2 =
     (if h_count heap1 \<noteq> h_count heap2 then Some False
      else if \<not> same_compare then Some False
      else if h_count heap1 = 0 then Some True
      else (case (CFBinaryHeapGetValues alloc mem heap1, CFBinaryHeapGetValues alloc mem heap2) of
              (Some list1, Some list2) \<Rightarrow> Some (equal_values heap1 list1 list2)
            | _ \<Rightarrow> None))"

definition CFBinaryHeapHash :: "CFBinaryHeap \<Rightarrow> nat" where
  "CFBinaryHeapHash heap = h_count heap"

definition CFBinaryHeapDeallocate :: "CFBinaryHeap \<Rightarrow> CFBinaryHeap" where
  "CFBinaryHeapDeallocate heap = CFBinaryHeapRemoveAllValues heap"



section \<open>Arrays as functions\<close>

definition arr_mset :: "(nat \<Rightarrow> 'a) \<Rightarrow> nat \<Rightarrow> 'a multiset" where
  "arr_mset f n = mset (map f [0..<n])"

lemma arr_mset_Suc: "arr_mset f (Suc n) = add_mset (f n) (arr_mset f n)"
  by (simp add: arr_mset_def)

lemma arr_mset_cong: "(\<And>i. i < n \<Longrightarrow> f i = g i) \<Longrightarrow> arr_mset f n = arr_mset g n"
  unfolding arr_mset_def by (intro arg_cong [of _ _ mset] map_cong) auto

lemma set_arr_mset: "x \<in># arr_mset f n \<longleftrightarrow> (\<exists>i < n. x = f i)"
  by (auto simp: arr_mset_def)

lemma size_arr_mset [simp]: "size (arr_mset f n) = n"
  by (simp add: arr_mset_def)

lemma arr_mset_upd:
  assumes "i < n"
  shows "add_mset (f i) (arr_mset (f(i := x)) n) = add_mset x (arr_mset f n)"
proof -
  have "[0..<n] = [0..<i] @ i # [Suc i..<n]"
    using assms by (metis less_imp_le_nat upt_add_eq_append upt_conv_Cons le_add_diff_inverse zero_le)
  then show ?thesis by (simp add: arr_mset_def)
qed

lemma arr_mset_move:
  assumes "i < n" "j < n" "i \<noteq> j"
  shows "arr_mset (f(i := f j, j := x)) n = arr_mset (f(i := x)) n"
proof -
  have 1: "add_mset (f j) (arr_mset (f(i := f j, j := x)) n) = add_mset x (arr_mset (f(i := f j)) n)"
    using arr_mset_upd [OF assms(2), of "f(i := f j)" x] assms by simp
  have 2: "add_mset (f i) (arr_mset (f(i := f j)) n) = add_mset (f j) (arr_mset f n)"
    using arr_mset_upd [OF assms(1), of f "f j"] .
  have 3: "add_mset (f i) (arr_mset (f(i := x)) n) = add_mset x (arr_mset f n)"
    using arr_mset_upd [OF assms(1), of f x] .
  have "add_mset (f i) (add_mset (f j) (arr_mset (f(i := f j, j := x)) n)) =
    add_mset (f i) (add_mset (f j) (arr_mset (f(i := x)) n))"
    unfolding 1 by (simp only: add_mset_commute [of "f i" x] 2 add_mset_commute [of "f i" "f j"] 3)
       (simp only: add_mset_commute [of x "f j"])
  then show ?thesis by simp
qed

section \<open>The heap order\<close>

definition par :: "nat \<Rightarrow> nat" where
  "par i = (i - 1) div 2"

lemma par_less: "0 < i \<Longrightarrow> par i < i"
  by (simp add: par_def)

lemma par_children: "0 < i \<Longrightarrow> par i = idx \<longleftrightarrow> i = 2 * idx + 1 \<or> i = 2 * idx + 2"
  by (auto simp: par_def)

definition heap_on :: "('a \<Rightarrow> 'a \<Rightarrow> bool) \<Rightarrow> (nat \<Rightarrow> 'a) \<Rightarrow> nat \<Rightarrow> bool" where
  "heap_on le b n \<longleftrightarrow> (\<forall>i. 0 < i \<and> i < n \<longrightarrow> le (b (par i)) (b i))"

definition total_order_on_values :: "('a \<Rightarrow> 'a \<Rightarrow> bool) \<Rightarrow> bool" where
  "total_order_on_values le \<longleftrightarrow>
     (\<forall>x y z. le x y \<longrightarrow> le y z \<longrightarrow> le x z) \<and> (\<forall>x y. le x y \<or> le y x)"

lemma tov_trans: "total_order_on_values le \<Longrightarrow> le x y \<Longrightarrow> le y z \<Longrightarrow> le x z"
  unfolding total_order_on_values_def by blast

lemma tov_total: "total_order_on_values le \<Longrightarrow> \<not> le x y \<Longrightarrow> le y x"
  by (auto simp: total_order_on_values_def)

lemma tov_refl: "total_order_on_values le \<Longrightarrow> le x x"
  by (auto simp: total_order_on_values_def)

text \<open>The array is a heap but for a hole at \<open>idx\<close>.\<close>

definition hole :: "('a \<Rightarrow> 'a \<Rightarrow> bool) \<Rightarrow> (nat \<Rightarrow> 'a) \<Rightarrow> nat \<Rightarrow> nat \<Rightarrow> bool" where
  "hole le b idx n \<longleftrightarrow>
     (\<forall>i. 0 < i \<longrightarrow> i < n \<longrightarrow> i \<noteq> idx \<longrightarrow>
        (if par i = idx then 0 < idx \<longrightarrow> le (b (par idx)) (b i) else le (b (par i)) (b i)))"

lemma hole_fill:
  assumes h: "hole le b idx n"
    and c: "\<And>i. 0 < i \<Longrightarrow> i < n \<Longrightarrow> par i = idx \<Longrightarrow> le v (b i)"
    and p: "0 < idx \<Longrightarrow> idx < n \<Longrightarrow> le (b (par idx)) v"
  shows "heap_on le (b(idx := v)) n"
  unfolding heap_on_def
proof (intro allI impI, elim conjE)
  fix i assume i: "0 < i" "i < n"
  then have "par i \<noteq> i" using par_less [OF i(1)] by simp
  then show "le ((b(idx := v)) (par i)) ((b(idx := v)) i)"
    using h c [OF i] p i by (cases "i = idx"; cases "par i = idx") (auto simp: hole_def)
qed

lemma hole_up:
  assumes ord: "total_order_on_values le" and h: "hole le b idx n" and idx: "0 < idx" "idx < n"
  shows "hole le (b(idx := b (par idx))) (par idx) n"
  unfolding hole_def
proof (intro allI impI)
  let ?p = "par idx" and ?c = "b(idx := b (par idx))"
  have p: "?p < idx" by (rule par_less [OF idx(1)])
  fix i assume i: "0 < i" "i < n" "i \<noteq> ?p"
  have hi: "if par i = idx then le (b ?p) (b i) else le (b (par i)) (b i)" if "i \<noteq> idx"
    using h i that idx by (simp add: hole_def split: if_splits)
  show "if par i = ?p then 0 < ?p \<longrightarrow> le (?c (par ?p)) (?c i) else le (?c (par i)) (?c i)"
  proof (cases "par i = ?p")
    case True
    have "le (b (par ?p)) (b ?p)" if "0 < ?p"
      using h that p idx par_less [OF that] by (simp add: hole_def split: if_splits)
    moreover have "par ?p \<noteq> idx" using p par_less [of ?p] by (cases "0 < ?p") (auto simp: par_def)
    ultimately show ?thesis
      using True hi p tov_trans [OF ord] by (cases "i = idx") auto
  next
    case False
    then have "i \<noteq> idx" by auto
    then show ?thesis using hi False by (auto split: if_splits)
  qed
qed

lemma hole_down:
  assumes ord: "total_order_on_values le" and h: "hole le b idx n" and c: "0 < c" "c < n" "par c = idx"
    and min: "\<And>i. 0 < i \<Longrightarrow> i < n \<Longrightarrow> par i = idx \<Longrightarrow> le (b c) (b i)"
  shows "hole le (b(idx := b c)) c n"
  unfolding hole_def
proof (intro allI impI)
  let ?b = "b(idx := b c)"
  have idx: "idx < c" using c par_less [OF c(1)] by simp
  fix i assume i: "0 < i" "i < n" "i \<noteq> c"
  have pi: "par i < i" by (rule par_less [OF i(1)])
  show "if par i = c then 0 < c \<longrightarrow> le (?b (par c)) (?b i) else le (?b (par i)) (?b i)"
  proof (cases "i = idx")
    case True
    then have "le (b (par idx)) (b c)" using h c i by (auto simp: hole_def split: if_splits)
    then show ?thesis using True idx pi by auto
  next
    case False
    then have "if par i = idx then True else le (b (par i)) (b i)"
      using h i by (simp add: hole_def split: if_splits)
    then show ?thesis using False min [OF i(1,2)] c by (auto split: if_splits)
  qed
qed

lemma sift_up_correct:
  assumes ord: "total_order_on_values le"
    and "hole le b idx n" "idx < n"
    and "\<And>i. 0 < i \<Longrightarrow> i < n \<Longrightarrow> par i = idx \<Longrightarrow> le v (b i)"
    and "sift_up le b idx v = (b', idx')"
  shows "idx' < n \<and> heap_on le (b'(idx' := v)) n \<and>
    arr_mset (b'(idx' := v)) n = arr_mset (b(idx := v)) n"
  using assms(2-)
proof (induction idx arbitrary: b rule: less_induct)
  case (less idx b)
  have step: "sift_up le b idx v =
      (if 0 < idx \<and> \<not> le (b (par idx)) v then sift_up le (b(idx := b (par idx))) (par idx) v else (b, idx))"
    by (simp add: sift_up.simps [of le b idx v] par_def Let_def)
  show ?case
  proof (cases "0 < idx \<and> \<not> le (b (par idx)) v")
    case False
    then have *: "b' = b" "idx' = idx" using less.prems(4) step by (auto split: if_splits)
    have "heap_on le (b(idx := v)) n"
      by (rule hole_fill [OF less.prems(1)]) (use False less.prems(3) in auto)
    then show ?thesis unfolding * using less.prems(2) by blast
  next
    case True
    let ?p = "par idx" and ?b = "b(idx := b (par idx))"
    have p: "?p < idx" using True par_less by simp
    have v: "le v (b ?p)" using True tov_total [OF ord] by blast
    have ch: "le v (?b i)" if i: "0 < i" "i < n" "par i = ?p" for i
    proof (cases "i = idx")
      case False
      then have "le (b ?p) (b i)"
        using less.prems(1) [unfolded hole_def, rule_format, OF i(1,2) False] i(3) p by (simp split: if_splits)
      then show ?thesis using v tov_trans [OF ord] False by auto
    qed (use v in simp)
    have rec: "sift_up le ?b ?p v = (b', idx')" using True less.prems(4) step by simp
    have "idx' < n \<and> heap_on le (b'(idx' := v)) n \<and>
      arr_mset (b'(idx' := v)) n = arr_mset (?b(?p := v)) n"
      by (rule less.IH [OF p hole_up [OF ord less.prems(1)] _ ch rec]) (use True p less.prems(2) in auto)
    moreover have "arr_mset (?b(?p := v)) n = arr_mset (b(idx := v)) n"
      by (rule arr_mset_move) (use p less.prems(2) in auto)
    ultimately show ?thesis by metis
  qed
qed

lemma sift_down_correct:
  assumes ord: "total_order_on_values le"
    and "hole le b idx n" "idx < n"
    and "0 < idx \<Longrightarrow> le (b (par idx)) val"
    and "sift_down le n b idx val = (b', idx')"
  shows "idx' < n \<and> heap_on le (b'(idx' := val)) n \<and>
    arr_mset (b'(idx' := val)) n = arr_mset (b(idx := val)) n"
  using assms(2-)
proof (induction "n - idx" arbitrary: b idx rule: less_induct)
  case (less idx b)
  define c where "c = (if 2 * idx + 2 < n \<and> \<not> le (b (2 * idx + 1)) (b (2 * idx + 2)) then 2 * idx + 2 else 2 * idx + 1)"
  have step: "sift_down le n b idx val =
      (if 2 * idx + 1 < n then if \<not> le (b c) val then (b, idx) else sift_down le n (b(idx := b c)) c val
       else (b, idx))"
    by (simp add: sift_down.simps [of le n b idx val] c_def Let_def)
  show ?case
  proof (cases "2 * idx + 1 < n")
    case False
    then have *: "b' = b" "idx' = idx" using less.prems(4) step by auto
    have "heap_on le (b(idx := val)) n"
      by (rule hole_fill [OF less.prems(1)]) (use False less.prems(3) in \<open>auto simp: par_children\<close>)
    then show ?thesis unfolding * using less.prems(2) by blast
  next
    case True
    have c: "0 < c" "c < n" "par c = idx" using True by (auto simp: c_def par_def)
    have min: "le (b c) (b i)" if "0 < i" "i < n" "par i = idx" for i
      using that tov_total [OF ord] tov_refl [OF ord] by (auto simp: par_children c_def)
    show ?thesis
    proof (cases "le (b c) val")
      case False
      then have *: "b' = b" "idx' = idx" using less.prems(4) step True by auto
      have "le val (b c)" using False tov_total [OF ord] by blast
      then have "heap_on le (b(idx := val)) n"
        by (intro hole_fill [OF less.prems(1)]) (use min less.prems(3) tov_trans [OF ord] in blast)+
      then show ?thesis unfolding * using less.prems(2) by blast
    next
      case le: True
      have rec: "sift_down le n (b(idx := b c)) c val = (b', idx')" using le less.prems(4) step True by simp
      have ic: "idx < c" using par_less [OF c(1)] c(3) by simp
      have "idx' < n \<and> heap_on le (b'(idx' := val)) n \<and>
        arr_mset (b'(idx' := val)) n = arr_mset (b(idx := b c, c := val)) n"
        by (rule less.hyps [OF _ hole_down [OF ord less.prems(1) c min] c(2) _ rec])
           (use ic c le in auto)
      moreover have "arr_mset (b(idx := b c, c := val)) n = arr_mset (b(idx := val)) n"
        by (rule arr_mset_move) (use ic c(2) less.prems(2) in auto)
      ultimately show ?thesis by metis
    qed
  qed
qed

section \<open>The heap as a priority queue\<close>

definition order_ok :: "CFBinaryHeap \<Rightarrow> bool" where
  "order_ok heap \<longleftrightarrow> total_order_on_values (not_greater heap) \<and>
     (\<forall>retain v x. cb_retain (h_callbacks heap) = Some retain \<longrightarrow>
        not_greater heap x (retain v) = not_greater heap x v \<and>
        not_greater heap (retain v) x = not_greater heap v x)"

definition heap_inv :: "CFBinaryHeap \<Rightarrow> bool" where
  "heap_inv heap \<longleftrightarrow> order_ok heap \<and> heap_on (not_greater heap) (h_buckets heap) (h_count heap) \<and>
     int (h_count heap) \<le> h_capacity heap \<and> h_variety heap = kCFBinaryHeapMutable"

definition contents :: "CFBinaryHeap \<Rightarrow> ptr multiset" where
  "contents heap = arr_mset (h_buckets heap) (h_count heap)"

definition stored :: "CFBinaryHeap \<Rightarrow> ptr \<Rightarrow> ptr" where
  "stored heap v = (case cb_retain (h_callbacks heap) of None \<Rightarrow> v | Some retain \<Rightarrow> retain v)"

lemma not_greater_upd [simp]:
  "not_greater (heap\<lparr>h_count := n\<rparr>) = not_greater heap"
  "not_greater (heap\<lparr>h_capacity := c\<rparr>) = not_greater heap"
  "not_greater (heap\<lparr>h_buckets := b\<rparr>) = not_greater heap"
  "not_greater (heap\<lparr>h_retained := l\<rparr>) = not_greater heap"
  "not_greater (heap\<lparr>h_released := l\<rparr>) = not_greater heap"
  "not_greater (heap\<lparr>h_variety := m\<rparr>) = not_greater heap"
  by (simp_all add: not_greater_def fun_eq_iff split: option.splits)

lemma order_ok_upd [simp]:
  "order_ok (heap\<lparr>h_count := n\<rparr>) = order_ok heap"
  "order_ok (heap\<lparr>h_capacity := c\<rparr>) = order_ok heap"
  "order_ok (heap\<lparr>h_buckets := b\<rparr>) = order_ok heap"
  "order_ok (heap\<lparr>h_retained := l\<rparr>) = order_ok heap"
  "order_ok (heap\<lparr>h_released := l\<rparr>) = order_ok heap"
  "order_ok (heap\<lparr>h_variety := m\<rparr>) = order_ok heap"
  by (simp_all add: order_ok_def)

lemma heap_on_root:
  assumes "total_order_on_values le" "heap_on le b n" "i < n"
  shows "le (b 0) (b i)"
  using assms(3)
proof (induction i rule: less_induct)
  case (less i)
  show ?case
  proof (cases "i = 0")
    case False
    then have "par i < i" using par_less by simp
    then show ?thesis
      using less False assms(2) tov_trans [OF assms(1)] unfolding heap_on_def by (metis gr0I less_trans)
  qed (simp add: tov_refl [OF assms(1)])
qed

lemma heap_on_equiv:
  assumes "heap_on le (b(idx := v)) n" "\<And>x. le x w = le x v" "\<And>x. le w x = le v x"
  shows "heap_on le (b(idx := w)) n"
  using assms unfolding heap_on_def by (auto simp: fun_upd_def)

lemma flsl_gt: "n < 2 ^ flsl n"
proof (induction n rule: flsl.induct)
  case (1 m)
  show ?case
  proof (cases "m = 0")
    case True
    then show ?thesis by (simp add: flsl.simps)
  next
    case False
    then have "m div 2 < 2 ^ flsl (m div 2)" using 1 by blast
    then have "m < 2 * 2 ^ flsl (m div 2)" by linarith
    then show ?thesis using False by (simp add: flsl.simps [of m])
  qed
qed

lemma flsl_le: "n < 2 ^ k \<Longrightarrow> flsl n \<le> k"
proof (induction n arbitrary: k rule: flsl.induct)
  case (1 m)
  show ?case
  proof (cases "m = 0")
    case False
    then obtain k' where k: "k = Suc k'" using "1.prems" by (cases k) auto
    then show ?thesis using 1 False by (simp add: flsl.simps [of m])
  qed (simp add: flsl.simps)
qed

lemma sint_power2:
  assumes "k < 31"
  shows "sint (2 ^ k :: u32) = 2 ^ k"
proof -
  have "(2 ^ k :: int) < 2 ^ 31" using assms by (intro power_strict_increasing) auto
  then have "signed_take_bit 31 (2 ^ k :: int) = 2 ^ k"
    using zero_less_power [of "2 :: int" k] by (intro signed_take_bit_int_eq_self) linarith+
  then have "sint (word_of_int (2 ^ k) :: u32) = 2 ^ k"
    by (simp add: signed_of_int del: of_int_power)
  then show ?thesis by simp
qed

lemma CFBinaryHeapRoundUpCapacity_gt:
  assumes "n < 2 ^ 30"
  shows "int n < CFBinaryHeapRoundUpCapacity n"
proof -
  have "int n < 2 ^ flsl n" using flsl_gt [of n] by (metis of_nat_less_iff of_nat_numeral of_nat_power)
  moreover have "flsl n < 31" using flsl_le [OF assms] by simp
  ultimately show ?thesis by (simp add: CFBinaryHeapRoundUpCapacity_def sint_power2)
qed

lemma AddValue_eq:
  assumes "CFBinaryHeapAddValue alloc heap v = Some heap'"
  obtains b idx cap where
    "sift_up (not_greater heap) (h_buckets heap) (h_count heap) v = (b, idx)"
    "heap' = heap\<lparr>h_capacity := cap, h_count := Suc (h_count heap), h_buckets := b(idx := stored heap v),
       h_retained := h_retained heap @ (case cb_retain (h_callbacks heap) of None \<Rightarrow> [] | Some r \<Rightarrow> [r v])\<rparr>"
    "cap = (if h_variety heap = kCFBinaryHeapMutable \<and> int (h_count heap) = h_capacity heap
            then CFBinaryHeapRoundUpCapacity (h_count heap + 1) else h_capacity heap)"
  using assms
  by (fastforce simp: CFBinaryHeapAddValue_def CFBinaryHeapGrow_def stored_def Let_def
      split: if_splits option.splits prod.splits)

lemma AddValue_correct:
  assumes inv: "heap_inv heap" and add: "CFBinaryHeapAddValue alloc heap v = Some heap'"
    and small: "h_count heap < 2 ^ 30 - 1"
  shows "heap_inv heap' \<and> contents heap' = add_mset (stored heap v) (contents heap)"
proof -
  let ?n = "h_count heap" and ?le = "not_greater heap"
  from AddValue_eq [OF add] obtain b idx cap where s: "sift_up ?le (h_buckets heap) ?n v = (b, idx)"
    and h': "heap' = heap\<lparr>h_capacity := cap, h_count := Suc ?n, h_buckets := b(idx := stored heap v),
       h_retained := h_retained heap @ (case cb_retain (h_callbacks heap) of None \<Rightarrow> [] | Some r \<Rightarrow> [r v])\<rparr>"
    and cap: "cap = (if h_variety heap = kCFBinaryHeapMutable \<and> int ?n = h_capacity heap
            then CFBinaryHeapRoundUpCapacity (?n + 1) else h_capacity heap)" .
  have ord: "total_order_on_values ?le" using inv by (simp add: heap_inv_def order_ok_def)
  have "hole ?le (h_buckets heap) ?n (Suc ?n)"
    using inv by (auto simp: heap_inv_def hole_def heap_on_def less_Suc_eq dest: par_less)
  then have c: "idx < Suc ?n \<and> heap_on ?le (b(idx := v)) (Suc ?n) \<and>
    arr_mset (b(idx := v)) (Suc ?n) = arr_mset ((h_buckets heap)(?n := v)) (Suc ?n)"
    by (rule sift_up_correct [OF ord _ _ _ s]) (auto simp: par_children)
  have st: "?le x (stored heap v) = ?le x v" "?le (stored heap v) x = ?le v x" for x
    using inv by (auto simp: heap_inv_def order_ok_def stored_def split: option.splits)
  have "heap_on ?le (b(idx := stored heap v)) (Suc ?n)"
    using heap_on_equiv [of ?le b idx v "Suc ?n" "stored heap v"] c st by blast
  moreover have "int (Suc ?n) \<le> cap"
    using inv small CFBinaryHeapRoundUpCapacity_gt [of "?n + 1"] by (auto simp: heap_inv_def cap)
  moreover have "arr_mset (b(idx := stored heap v)) (Suc ?n) = add_mset (stored heap v) (contents heap)"
  proof -
    have "add_mset v (arr_mset (b(idx := stored heap v)) (Suc ?n)) =
      add_mset (stored heap v) (arr_mset (b(idx := v)) (Suc ?n))"
      using arr_mset_upd [of idx "Suc ?n" "b(idx := v)" "stored heap v"] c by simp
    also have "arr_mset (b(idx := v)) (Suc ?n) = add_mset v (contents heap)"
      using c arr_mset_cong [of ?n "(h_buckets heap)(?n := v)" "h_buckets heap"]
      by (simp add: contents_def arr_mset_Suc)
    finally have "add_mset v (arr_mset (b(idx := stored heap v)) (Suc ?n)) =
      add_mset v (add_mset (stored heap v) (contents heap))"
      by (simp only: add_mset_commute)
    then show ?thesis by (simp only: add_mset_add_mset_same_iff)
  qed
  ultimately show ?thesis
    using inv by (simp add: heap_inv_def contents_def h')
qed

lemma RemoveMinimum_correct:
  assumes inv: "heap_inv heap" and ne: "0 < h_count heap"
  shows "heap_inv (CFBinaryHeapRemoveMinimumValue heap) \<and>
    add_mset (h_buckets heap 0) (contents (CFBinaryHeapRemoveMinimumValue heap)) = contents heap"
proof -
  let ?n = "h_count heap - 1" and ?le = "not_greater heap" and ?b = "h_buckets heap"
  let ?val = "?b ?n"
  obtain b idx where s: "sift_down ?le ?n ?b 0 ?val = (b, idx)" by fastforce
  have ord: "total_order_on_values ?le" using inv by (simp add: heap_inv_def order_ok_def)
  have n: "h_count heap = Suc ?n" using ne by simp
  have "heap_on ?le (b(idx := ?val)) ?n \<and> add_mset (?b 0) (arr_mset (b(idx := ?val)) ?n) = contents heap"
  proof (cases "?n = 0")
    case True
    then show ?thesis using n by (simp add: heap_on_def contents_def arr_mset_def)
  next
    case False
    have "hole ?le ?b 0 ?n" using inv n by (auto simp: heap_inv_def hole_def heap_on_def)
    then have c: "heap_on ?le (b(idx := ?val)) ?n"
      "arr_mset (b(idx := ?val)) ?n = arr_mset (?b(0 := ?val)) ?n"
      using sift_down_correct [OF ord _ _ _ s] False by auto
    have "add_mset (?b 0) (arr_mset (?b(0 := ?val)) ?n) = add_mset ?val (arr_mset ?b ?n)"
      by (rule arr_mset_upd) (use False in simp)
    also have "\<dots> = contents heap"
      using arr_mset_Suc [of ?b ?n] by (simp only: contents_def n [symmetric])
    finally show ?thesis using c by simp
  qed
  then show ?thesis
    using inv ne s by (simp add: CFBinaryHeapRemoveMinimumValue_def Let_def heap_inv_def contents_def)
qed

lemma RemoveMinimum_frame [simp]:
  "not_greater (CFBinaryHeapRemoveMinimumValue heap) = not_greater heap"
  by (simp add: CFBinaryHeapRemoveMinimumValue_def Let_def split: prod.splits)

lemma GetMinimum_correct:
  assumes inv: "heap_inv heap" and ne: "0 < h_count heap"
  shows "CFBinaryHeapGetMinimum heap \<in># contents heap \<and>
    (\<forall>x \<in># contents heap. not_greater heap (CFBinaryHeapGetMinimum heap) x)"
  using assms heap_on_root [of "not_greater heap" "h_buckets heap" "h_count heap"]
  by (auto simp: CFBinaryHeapGetMinimum_def contents_def set_arr_mset heap_inv_def order_ok_def)

text \<open>The contract of a priority queue, over any order, and what it gives: draining sorts.\<close>

fun drain_n :: "('q \<Rightarrow> 'a) \<Rightarrow> ('q \<Rightarrow> 'q) \<Rightarrow> nat \<Rightarrow> 'q \<Rightarrow> 'a list" where
  "drain_n get_min del_min 0 q = []"
| "drain_n get_min del_min (Suc n) q = get_min q # drain_n get_min del_min n (del_min q)"

locale prio_queue =
  fixes invar :: "'q \<Rightarrow> bool"
    and bag :: "'q \<Rightarrow> 'a multiset"
    and le :: "'q \<Rightarrow> 'a \<Rightarrow> 'a \<Rightarrow> bool"
    and get_min :: "'q \<Rightarrow> 'a"
    and del_min :: "'q \<Rightarrow> 'q"
  assumes min_in: "invar q \<Longrightarrow> bag q \<noteq> {#} \<Longrightarrow> get_min q \<in># bag q"
    and min_le: "invar q \<Longrightarrow> x \<in># bag q \<Longrightarrow> le q (get_min q) x"
    and bag_del: "invar q \<Longrightarrow> bag q \<noteq> {#} \<Longrightarrow> bag (del_min q) = bag q - {#get_min q#}"
    and invar_del: "invar q \<Longrightarrow> bag q \<noteq> {#} \<Longrightarrow> invar (del_min q)"
    and le_del: "invar q \<Longrightarrow> bag q \<noteq> {#} \<Longrightarrow> le (del_min q) = le q"
begin

lemma drain_n_mset: "invar q \<Longrightarrow> size (bag q) = n \<Longrightarrow> mset (drain_n get_min del_min n q) = bag q"
proof (induction n arbitrary: q)
  case (Suc n)
  then have ne: "bag q \<noteq> {#}" by auto
  have "size (bag (del_min q)) = n"
    using Suc.prems ne min_in bag_del by (simp add: size_Diff_singleton)
  then show ?case using Suc ne min_in [of q] bag_del invar_del by simp
qed simp

lemma drain_n_sorted: "invar q \<Longrightarrow> size (bag q) = n \<Longrightarrow> sorted_wrt (le q) (drain_n get_min del_min n q)"
proof (induction n arbitrary: q)
  case (Suc n)
  then have ne: "bag q \<noteq> {#}" by auto
  have sz: "size (bag (del_min q)) = n"
    using Suc.prems ne min_in bag_del by (simp add: size_Diff_singleton)
  have inv: "invar (del_min q)" using Suc.prems ne invar_del by blast
  have "set (drain_n get_min del_min n (del_min q)) = set_mset (bag (del_min q))"
    using drain_n_mset [OF inv sz] by (metis set_mset_mset)
  then show ?case
    using Suc.IH [OF inv sz] Suc.prems ne min_le bag_del le_del
    by (auto dest: in_diffD)
qed simp

end

interpretation bh: prio_queue heap_inv contents not_greater CFBinaryHeapGetMinimum CFBinaryHeapRemoveMinimumValue
proof unfold_locales
  fix q :: CFBinaryHeap and x
  have ne: "0 < h_count q" if "contents q \<noteq> {#}" using that by (auto simp: contents_def arr_mset_def)
  { assume "heap_inv q" "contents q \<noteq> {#}"
    then have c: "heap_inv (CFBinaryHeapRemoveMinimumValue q)"
      "add_mset (h_buckets q 0) (contents (CFBinaryHeapRemoveMinimumValue q)) = contents q"
      using RemoveMinimum_correct ne by auto
    show "CFBinaryHeapGetMinimum q \<in># contents q"
      using GetMinimum_correct \<open>heap_inv q\<close> ne [OF \<open>contents q \<noteq> {#}\<close>] by blast
    show "contents (CFBinaryHeapRemoveMinimumValue q) = contents q - {#CFBinaryHeapGetMinimum q#}"
      using c(2) ne [OF \<open>contents q \<noteq> {#}\<close>] by (metis CFBinaryHeapGetMinimum_def add_mset_remove_trivial)
    show "heap_inv (CFBinaryHeapRemoveMinimumValue q)" by (rule c(1))
    show "not_greater (CFBinaryHeapRemoveMinimumValue q) = not_greater q" by simp
  }
  assume "heap_inv q" "x \<in># contents q"
  then show "not_greater q (CFBinaryHeapGetMinimum q) x"
    using GetMinimum_correct ne by (metis empty_iff set_mset_empty)
qed


section \<open>Draining and copying\<close>

lemma drain_eq_drain_n:
  "drain heap = drain_n CFBinaryHeapGetMinimum CFBinaryHeapRemoveMinimumValue (h_count heap) heap"
proof (induction heap rule: drain.induct)
  case (1 heap)
  then show ?case
    by (cases "h_count heap") (auto simp: drain.simps [of heap] RemoveMinimum_count)
qed

lemma size_contents [simp]: "size (contents heap) = h_count heap"
  by (simp add: contents_def size_arr_mset)

lemma drain_correct:
  assumes "heap_inv heap"
  shows "mset (drain heap) = contents heap \<and> sorted_wrt (not_greater heap) (drain heap)"
  using assms bh.drain_n_mset bh.drain_n_sorted by (simp add: drain_eq_drain_n)

lemma AddValue_frame:
  assumes "CFBinaryHeapAddValue alloc heap v = Some heap'"
  shows "h_callbacks heap' = h_callbacks heap" "h_info heap' = h_info heap"
    "h_count heap' = Suc (h_count heap)" "h_variety heap' = h_variety heap"
    "h_released heap' = h_released heap"
    "h_retained heap' = h_retained heap @ (case cb_retain (h_callbacks heap) of None \<Rightarrow> [] | Some r \<Rightarrow> [r v])"
  by (rule AddValue_eq [OF assms]; simp)+

lemma AddValue_total: "(\<And>c. alloc c) \<Longrightarrow> \<exists>heap'. CFBinaryHeapAddValue alloc heap v = Some heap'"
  by (simp add: CFBinaryHeapAddValue_def CFBinaryHeapGrow_def Let_def split: prod.splits option.splits)

lemma stored_cong: "h_callbacks heap' = h_callbacks heap \<Longrightarrow> stored heap' = stored heap"
  by (auto simp: stored_def fun_eq_iff)

lemma not_greater_cong:
  "h_callbacks heap' = h_callbacks heap \<Longrightarrow> h_info heap' = h_info heap \<Longrightarrow> not_greater heap' = not_greater heap"
  by (simp add: not_greater_def fun_eq_iff cong: option.case_cong)

lemma order_ok_cong:
  assumes "h_callbacks heap' = h_callbacks heap" "h_info heap' = h_info heap"
  shows "order_ok heap' = order_ok heap"
  unfolding order_ok_def not_greater_cong [OF assms] assms ..

lemma heap_inv_empty:
  assumes "order_ok heap" "h_count heap = 0" "0 \<le> h_capacity heap" "h_variety heap = kCFBinaryHeapMutable"
  shows "heap_inv heap"
  using assms by (simp add: heap_inv_def heap_on_def del: One_nat_def)

lemma add_all_correct:
  assumes "heap_inv heap" "\<And>c. alloc c" "h_count heap + length vs < 2 ^ 30"
  shows "\<exists>heap'. add_all alloc heap vs = Some heap' \<and> heap_inv heap' \<and>
    contents heap' = mset (map (stored heap) vs) + contents heap \<and>
    h_callbacks heap' = h_callbacks heap \<and> h_info heap' = h_info heap"
  using assms(1,3)
proof (induction vs arbitrary: heap)
  case (Cons v vs)
  obtain heap1 where a: "CFBinaryHeapAddValue alloc heap v = Some heap1"
    using AddValue_total assms(2) by blast
  have c: "heap_inv heap1 \<and> contents heap1 = add_mset (stored heap v) (contents heap)"
    using AddValue_correct [OF Cons.prems(1) a] Cons.prems(2) by simp
  have s: "stored heap1 = stored heap" using AddValue_frame(1) [OF a] by (rule stored_cong)
  have "h_count heap1 + length vs < 2 ^ 30" using Cons.prems(2) AddValue_frame(3) [OF a] by simp
  from Cons.IH [OF conjunct1 [OF c] this] show ?case
    using a c AddValue_frame [OF a] s by auto
qed simp

lemma CreateCopy_correct:
  assumes "heap_inv heap" "\<And>c. alloc c" "h_count heap < 2 ^ 30"
  shows "\<exists>heap'. CFBinaryHeapCreateCopy alloc mem heap = Some heap' \<and> heap_inv heap' \<and>
    contents heap' = image_mset (stored heap) (contents heap) \<and>
    h_callbacks heap' = h_callbacks heap \<and> h_info heap' = h_info heap"
proof -
  define h0 where "h0 = \<lparr>h_count = 0, h_capacity = CFBinaryHeapRoundUpCapacity 1, h_callbacks = h_callbacks heap,
             h_info = h_info heap, h_buckets = mem, h_variety = kCFBinaryHeapMutable,
             h_retained = [], h_released = []\<rparr>"
  define vs where "vs = map (h_buckets heap) [0..<h_count heap]"
  have ng: "not_greater h0 = not_greater heap" by (rule not_greater_cong) (simp_all add: h0_def)
  have st: "stored h0 = stored heap" by (rule stored_cong) (simp add: h0_def)
  have vs: "mset vs = contents heap" by (simp add: vs_def contents_def arr_mset_def)
  have "order_ok heap" using assms(1) by (simp only: heap_inv_def)
  then have "order_ok h0" by (subst order_ok_cong [of _ heap]) (simp_all add: h0_def)
  then have i: "heap_inv h0"
    by (rule heap_inv_empty) (simp_all add: h0_def CFBinaryHeapRoundUpCapacity_def)
  have "h_count h0 + length vs < 2 ^ 30" using assms(3) by (simp add: h0_def vs_def)
  from add_all_correct [where alloc = alloc, OF i assms(2) this, unfolded st] obtain heap' where h: "add_all alloc h0 vs = Some heap'"
    "heap_inv heap'" "h_callbacks heap' = h_callbacks h0" "h_info heap' = h_info h0"
    "contents heap' = mset (map (stored heap) vs) + contents h0"
    by blast
  have "contents h0 = {#}" by (simp add: h0_def contents_def arr_mset_def)
  then have "contents heap' = image_mset (stored heap) (contents heap)"
    by (simp add: h(5) vs)
  moreover have "h_variety heap' = kCFBinaryHeapMutable" using h(2) by (simp add: heap_inv_def)
  then have "heap'\<lparr>h_variety := kCFBinaryHeapMutable mod 4\<rparr> = heap'" by simp
  moreover have "CFBinaryHeapCreateCopy alloc mem heap =
      (case add_all alloc h0 vs of None \<Rightarrow> None | Some heap \<Rightarrow> Some (heap\<lparr>h_variety := kCFBinaryHeapMutable mod 4\<rparr>))"
    unfolding CFBinaryHeapCreateCopy_def CFBinaryHeapInit_def Let_def h0_def vs_def
    by (simp only: assms(2) not_True_eq_False if_False option.case)
  ultimately show ?thesis
    using h(1-4) by (simp add: h0_def)
qed

text \<open>
  When its allocations succeed, \<open>CFBinaryHeapGetValues\<close> returns exactly the values of the heap, as
  the copy retained them, in the order of the comparison.
\<close>

theorem CFBinaryHeapGetValues_sorts:
  assumes "heap_inv heap" "\<And>c. alloc c" "h_count heap < 2 ^ 30"
  shows "\<exists>vs. CFBinaryHeapGetValues alloc mem heap = Some vs \<and>
    mset vs = image_mset (stored heap) (contents heap) \<and> sorted_wrt (not_greater heap) vs"
proof (cases "h_count heap = 0")
  case True
  then show ?thesis by (simp add: CFBinaryHeapGetValues_def contents_def arr_mset_def)
next
  case False
  from CreateCopy_correct [where alloc = alloc and mem = mem, OF assms] obtain heap' where
    "CFBinaryHeapCreateCopy alloc mem heap = Some heap'" "heap_inv heap'"
    "contents heap' = image_mset (stored heap) (contents heap)"
    "not_greater heap' = not_greater heap" using not_greater_cong by blast
  then show ?thesis using False drain_correct [of heap'] by (simp add: CFBinaryHeapGetValues_def)
qed

section \<open>Histories\<close>

inductive heap_reach :: "(int \<Rightarrow> bool) \<Rightarrow> CFBinaryHeapCallBacks option \<Rightarrow> ptr \<Rightarrow> CFBinaryHeap \<Rightarrow> bool"
  for alloc cbs info where
  create: "CFBinaryHeapCreate alloc mem cbs info = Some heap \<Longrightarrow> heap_reach alloc cbs info heap"
| add: "heap_reach alloc cbs info heap \<Longrightarrow> h_count heap < 2 ^ 30 - 1 \<Longrightarrow>
    CFBinaryHeapAddValue alloc heap v = Some heap' \<Longrightarrow> heap_reach alloc cbs info heap'"
| remove_min: "heap_reach alloc cbs info heap \<Longrightarrow>
    heap_reach alloc cbs info (CFBinaryHeapRemoveMinimumValue heap)"
| remove_all: "heap_reach alloc cbs info heap \<Longrightarrow>
    heap_reach alloc cbs info (CFBinaryHeapRemoveAllValues heap)"

definition order_of :: "CFBinaryHeapCallBacks option \<Rightarrow> ptr \<Rightarrow> ptr \<Rightarrow> ptr \<Rightarrow> bool" where
  "order_of cbs info x y =
     (case cbs of None \<Rightarrow> x \<le> y
      | Some cb \<Rightarrow> (case cb_compare cb of None \<Rightarrow> x \<le> y
                   | Some compare \<Rightarrow> compare x y info \<noteq> kCFCompareGreaterThan))"

definition callbacks_ok :: "CFBinaryHeapCallBacks option \<Rightarrow> ptr \<Rightarrow> bool" where
  "callbacks_ok cbs info \<longleftrightarrow> total_order_on_values (order_of cbs info) \<and>
     (\<forall>cb retain v x. cbs = Some cb \<longrightarrow> cb_retain cb = Some retain \<longrightarrow>
        order_of cbs info x (retain v) = order_of cbs info x v \<and>
        order_of cbs info (retain v) x = order_of cbs info v x)"

lemma heap_inv_create:
  assumes "callbacks_ok cbs info" "CFBinaryHeapCreate alloc mem cbs info = Some heap"
  shows "heap_inv heap \<and> contents heap = {#}"
proof -
  have h: "heap = \<lparr>h_count = 0, h_capacity = 4, h_callbacks = (case cbs of None \<Rightarrow> no_callbacks | Some cb \<Rightarrow> cb),
      h_info = info, h_buckets = mem, h_variety = 1, h_retained = [], h_released = []\<rparr>"
    using assms(2)
    by (auto simp: CFBinaryHeapCreate_def CFBinaryHeapInit_def CFBinaryHeapRoundUpCapacity_def Let_def
        split: if_splits)
  have ng: "not_greater heap = order_of cbs info"
    by (auto simp: h not_greater_def order_of_def no_callbacks_def fun_eq_iff split: option.splits)
  have "order_ok heap"
  proof (cases cbs)
    case None
    then have "cb_retain (h_callbacks heap) = None" by (simp add: h no_callbacks_def)
    moreover have "total_order_on_values (order_of cbs info)"
      using assms(1) unfolding callbacks_ok_def by blast
    ultimately show ?thesis unfolding order_ok_def ng by simp
  next
    case (Some cb)
    then have "h_callbacks heap = cb" by (simp add: h)
    then show ?thesis using assms(1) Some unfolding order_ok_def ng callbacks_ok_def by blast
  qed
  then have "heap_inv heap" by (rule heap_inv_empty) (simp_all add: h)
  then show ?thesis by (simp add: h contents_def arr_mset_def)
qed

lemma heap_inv_remove_min: "heap_inv heap \<Longrightarrow> heap_inv (CFBinaryHeapRemoveMinimumValue heap)"
  using RemoveMinimum_correct by (cases "h_count heap = 0") (auto simp: CFBinaryHeapRemoveMinimumValue_def)

lemma heap_inv_remove_all:
  "heap_inv heap \<Longrightarrow> heap_inv (CFBinaryHeapRemoveAllValues heap) \<and> contents (CFBinaryHeapRemoveAllValues heap) = {#}"
  by (simp add: heap_inv_def CFBinaryHeapRemoveAllValues_def heap_on_def contents_def arr_mset_def)

lemma heap_reach_inv:
  assumes "heap_reach alloc cbs info heap" "callbacks_ok cbs info"
  shows "heap_inv heap"
  using assms
proof (induction rule: heap_reach.induct)
  case (create mem heap)
  then show ?case using heap_inv_create by blast
next
  case (add heap v heap')
  then show ?case using AddValue_correct by blast
qed (simp_all add: heap_inv_remove_min heap_inv_remove_all)

text \<open>
  C3: every heap reached from \<open>CFBinaryHeapCreate\<close> by adding and removing values, with a comparison
  that is a total order and a retain callback that keeps it, behaves as a priority queue over the
  multiset of its values: adding a value adds it, the minimum reported is an element not greater than
  any other, removing the minimum removes exactly one occurrence of it, and no minimum is reported only
  for the empty heap.
\<close>

theorem CFBinaryHeap_is_priority_queue:
  assumes "heap_reach alloc cbs info heap" "callbacks_ok cbs info"
  shows "(\<forall>v heap'. CFBinaryHeapAddValue alloc heap v = Some heap' \<and> h_count heap < 2 ^ 30 - 1 \<longrightarrow>
      contents heap' = add_mset (stored heap v) (contents heap)) \<and>
    (\<forall>m. CFBinaryHeapGetMinimumIfPresent heap = Some m \<longrightarrow>
      m \<in># contents heap \<and> (\<forall>x \<in># contents heap. not_greater heap m x) \<and>
      add_mset m (contents (CFBinaryHeapRemoveMinimumValue heap)) = contents heap) \<and>
    (CFBinaryHeapGetMinimumIfPresent heap = None \<longleftrightarrow> contents heap = {#})"
proof -
  note inv = heap_reach_inv [OF assms]
  have m: "0 < h_count heap \<and> m = h_buckets heap 0 \<and> m = CFBinaryHeapGetMinimum heap"
    if "CFBinaryHeapGetMinimumIfPresent heap = Some m" for m
    using that by (simp add: CFBinaryHeapGetMinimumIfPresent_def CFBinaryHeapGetMinimum_def split: if_splits)
  have "CFBinaryHeapGetMinimumIfPresent heap = None \<longleftrightarrow> h_count heap = 0"
    by (simp add: CFBinaryHeapGetMinimumIfPresent_def)
  then have "CFBinaryHeapGetMinimumIfPresent heap = None \<longleftrightarrow> contents heap = {#}"
    by (metis size_contents size_eq_0_iff_empty)
  moreover have "contents heap' = add_mset (stored heap v) (contents heap)"
    if "CFBinaryHeapAddValue alloc heap v = Some heap' \<and> h_count heap < 2 ^ 30 - 1" for v heap'
    using AddValue_correct [OF inv conjunct1 [OF that] conjunct2 [OF that]] by (rule conjunct2)
  moreover have "m \<in># contents heap \<and> (\<forall>x \<in># contents heap. not_greater heap m x) \<and>
      add_mset m (contents (CFBinaryHeapRemoveMinimumValue heap)) = contents heap"
    if "CFBinaryHeapGetMinimumIfPresent heap = Some m" for m
    using GetMinimum_correct [OF inv] RemoveMinimum_correct [OF inv] m [OF that] by metis
  ultimately show ?thesis by (intro conjI allI impI; blast)
qed

lemma heap_reach_callbacks:
  "heap_reach alloc cbs info heap \<Longrightarrow> h_callbacks heap = (case cbs of None \<Rightarrow> no_callbacks | Some cb \<Rightarrow> cb)"
proof (induction rule: heap_reach.induct)
  case (create mem heap)
  then show ?case
    by (auto simp: CFBinaryHeapCreate_def CFBinaryHeapInit_def Let_def split: if_splits)
next
  case (add heap v heap')
  then show ?case using AddValue_frame(1) by simp
next
  case (remove_min heap)
  then show ?case by (simp add: CFBinaryHeapRemoveMinimumValue_def Let_def split: prod.splits)
qed (simp add: CFBinaryHeapRemoveAllValues_def)

lemma heap_reach_balance:
  assumes "heap_reach alloc cbs info heap" "callbacks_ok cbs info"
    and "cbs = Some cb" "cb_retain cb \<noteq> None" "cb_release cb"
  shows "mset (h_retained heap) = mset (h_released heap) + contents heap"
  using assms(1)
proof (induction rule: heap_reach.induct)
  case (create mem heap)
  then show ?case
    by (auto simp: CFBinaryHeapCreate_def CFBinaryHeapInit_def Let_def contents_def arr_mset_def split: if_splits)
next
  case (add heap v heap')
  have cb: "h_callbacks heap = cb" using heap_reach_callbacks [OF add(1)] assms(3) by simp
  have "contents heap' = add_mset (stored heap v) (contents heap)"
    using AddValue_correct [OF heap_reach_inv [OF add(1) assms(2)] add(3)] add(2) by simp
  then show ?case
    using add.IH AddValue_frame [OF add(3)] assms(4) by (auto simp: cb stored_def)
next
  case (remove_min heap)
  have cb: "h_callbacks heap = cb" using heap_reach_callbacks [OF remove_min(1)] assms(3) by simp
  show ?case
  proof (cases "h_count heap = 0")
    case True
    then show ?thesis using remove_min.IH by (simp add: CFBinaryHeapRemoveMinimumValue_def)
  next
    case False
    then have "add_mset (h_buckets heap 0) (contents (CFBinaryHeapRemoveMinimumValue heap)) = contents heap"
      using RemoveMinimum_correct heap_reach_inv [OF remove_min(1) assms(2)] by simp
    moreover have "h_released (CFBinaryHeapRemoveMinimumValue heap) = h_released heap @ [h_buckets heap 0]"
      "h_retained (CFBinaryHeapRemoveMinimumValue heap) = h_retained heap"
      using False assms(5) by (simp_all add: CFBinaryHeapRemoveMinimumValue_def Let_def cb split: prod.splits)
    ultimately show ?thesis using remove_min.IH by (simp flip: union_mset_add_mset_right)
  qed
next
  case (remove_all heap)
  have cb: "h_callbacks heap = cb" using heap_reach_callbacks [OF remove_all(1)] assms(3) by simp
  show ?case
    using remove_all.IH assms(5) heap_inv_remove_all [OF heap_reach_inv [OF remove_all(1) assms(2)]]
    by (simp add: CFBinaryHeapRemoveAllValues_def cb contents_def arr_mset_def)
qed

text \<open>
  C4: over the life of a heap whose callbacks both retain and release, every value retained is
  released as often as it was retained once the heap is deallocated.
\<close>

theorem CFBinaryHeap_retain_release_balance:
  assumes "heap_reach alloc (Some cb) info heap" "callbacks_ok (Some cb) info"
    and "cb_retain cb \<noteq> None" "cb_release cb"
  shows "mset (h_retained (CFBinaryHeapDeallocate heap)) = mset (h_released (CFBinaryHeapDeallocate heap))"
  using heap_reach_balance [OF heap_reach.remove_all [OF assms(1)] assms(2) refl assms(3,4)]
    heap_inv_remove_all [OF heap_reach_inv [OF assms(1,2)]]
  by (simp add: CFBinaryHeapDeallocate_def)

lemma add_all_reach:
  "heap_reach alloc cbs info heap \<Longrightarrow> add_all alloc heap vs = Some heap' \<Longrightarrow> h_count heap + length vs < 2 ^ 30 \<Longrightarrow>
   heap_reach alloc cbs info heap'"
proof (induction vs arbitrary: heap)
  case (Cons v vs)
  then obtain heap1 where a: "CFBinaryHeapAddValue alloc heap v = Some heap1" "add_all alloc heap1 vs = Some heap'"
    by (auto split: option.splits)
  have "heap_reach alloc cbs info heap1" by (rule heap_reach.add [OF Cons.prems(1) _ a(1)]) (use Cons.prems(3) in simp)
  then show ?case by (rule Cons.IH [OF _ a(2)]) (use Cons.prems(3) AddValue_frame(3) [OF a(1)] in simp)
qed simp

text \<open>A heap of counted objects: retaining returns its argument, comparison is by address.\<close>

definition counted_cbs :: CFBinaryHeapCallBacks where
  "counted_cbs = \<lparr>cb_retain = Some (\<lambda>v. v), cb_release = True, cb_compare = None\<rparr>"

definition heap_531 :: CFBinaryHeap where
  "heap_531 = the (CFBinaryHeapInit (\<lambda>_. True) (\<lambda>_. 0) kCFBinaryHeapMutable [5, 3, 1] (Some counted_cbs) 0)"

lemma counted_ok: "callbacks_ok (Some counted_cbs) 0"
  by (auto simp: callbacks_ok_def order_of_def counted_cbs_def total_order_on_values_def)

lemma heap_531_reach: "heap_reach (\<lambda>_. True) (Some counted_cbs) 0 heap_531"
proof -
  let ?h0 = "the (CFBinaryHeapCreate (\<lambda>_. True) (\<lambda>_. 0) (Some counted_cbs) 0)"
  have r: "heap_reach (\<lambda>_. True) (Some counted_cbs) 0 ?h0"
    by (rule heap_reach.create [where mem = "\<lambda>_. 0"])
      (simp add: CFBinaryHeapCreate_def CFBinaryHeapInit_def Let_def)
  have a: "add_all (\<lambda>_. True) ?h0 [5, 3, 1] = Some heap_531"
    by (simp add: heap_531_def CFBinaryHeapInit_def CFBinaryHeapCreate_def Let_def CFBinaryHeapAddValue_def
       CFBinaryHeapRoundUpCapacity_def counted_cbs_def sift_up.simps not_greater_def split: prod.splits)
  have "h_count ?h0 = 0" by (simp add: CFBinaryHeapCreate_def CFBinaryHeapInit_def Let_def)
  then have "h_count ?h0 + length [5, 3, 1 :: ptr] < 2 ^ 30" by (simp only:) simp
  then show ?thesis by (rule add_all_reach [OF r a])
qed

lemma heap_531_contents: "contents heap_531 = {#1, 3, 5#}"
proof -
  have "h_count heap_531 = 3" "map (h_buckets heap_531) [0..<3] = [1, 5, 3]" by code_simp+
  then show ?thesis by (simp only: contents_def arr_mset_def) (simp add: add_mset_commute)
qed

theorem CFBinaryHeap_is_priority_queue_witness:
  "heap_reach (\<lambda>_. True) (Some counted_cbs) 0 heap_531 \<and> callbacks_ok (Some counted_cbs) 0 \<and>
   CFBinaryHeapGetMinimumIfPresent heap_531 = Some 1 \<and>
   contents (CFBinaryHeapRemoveMinimumValue heap_531) = {#3, 5#}"
proof -
  have m: "CFBinaryHeapGetMinimumIfPresent heap_531 = Some 1" by code_simp
  then have "add_mset 1 (contents (CFBinaryHeapRemoveMinimumValue heap_531)) = {#1, 3, 5#}"
    using CFBinaryHeap_is_priority_queue [OF heap_531_reach counted_ok] unfolding heap_531_contents by blast
  then show ?thesis using m heap_531_reach counted_ok by simp
qed

theorem CFBinaryHeap_retain_release_balance_witness:
  "heap_reach (\<lambda>_. True) (Some counted_cbs) 0 heap_531 \<and> callbacks_ok (Some counted_cbs) 0 \<and>
   mset (h_released (CFBinaryHeapDeallocate heap_531)) = {#5, 3, 1#}"
proof -
  have r: "h_retained (CFBinaryHeapDeallocate heap_531) = [5, 3, 1]" by code_simp
  have "mset (h_retained (CFBinaryHeapDeallocate heap_531)) = mset (h_released (CFBinaryHeapDeallocate heap_531))"
    by (rule CFBinaryHeap_retain_release_balance [OF heap_531_reach counted_ok]) (simp_all add: counted_cbs_def)
  then show ?thesis using heap_531_reach counted_ok unfolding r by simp
qed

theorem CFBinaryHeapGetValues_sorts_witness:
  "heap_inv heap_531 \<and> h_count heap_531 < 2 ^ 30 \<and>
   (\<exists>vs. CFBinaryHeapGetValues (\<lambda>_. True) (\<lambda>_. 0) heap_531 = Some vs \<and>
     mset vs = image_mset (stored heap_531) (contents heap_531) \<and> sorted_wrt (not_greater heap_531) vs)"
proof -
  have inv: "heap_inv heap_531" by (rule heap_reach_inv [OF heap_531_reach counted_ok])
  have c: "h_count heap_531 < 2 ^ 30" using heap_531_contents size_contents [of heap_531] by simp
  show ?thesis
    using CFBinaryHeapGetValues_sorts [where alloc = "\<lambda>_. True" and mem = "\<lambda>_. 0", OF inv TrueI c] inv c by blast
qed

section \<open>Equality\<close>

definition by_low_byte :: "ptr \<Rightarrow> ptr \<Rightarrow> ptr \<Rightarrow> CFComparisonResult" where
  "by_low_byte x y info =
     (if x AND 255 < y AND 255 then kCFCompareLessThan
      else if x AND 255 = y AND 255 then kCFCompareEqualTo else kCFCompareGreaterThan)"

definition cbs1 :: CFBinaryHeapCallBacks where
  "cbs1 = \<lparr>cb_retain = None, cb_release = False, cb_compare = Some by_low_byte\<rparr>"

definition heap_of :: "ptr list \<Rightarrow> CFBinaryHeap option" where
  "heap_of vs = CFBinaryHeapInit (\<lambda>_. True) (\<lambda>_. 0) 1 vs (Some cbs1) 0"

text \<open>
  \<open>__CFBinaryHeapEqual\<close> has its comparison inverted: with values compared by their low byte, the
  heaps of 257 and of 1, whose values compare equal, are found unequal, and the heaps of 2 and of 1,
  whose values differ, are found equal.
\<close>

theorem CFBinaryHeapEqual_inverted:
  "map_option (\<lambda>h. CFBinaryHeapEqual (\<lambda>_. True) (\<lambda>_. 0) True h (the (heap_of [1]))) (heap_of [257]) = Some (Some False) \<and>
   map_option (\<lambda>h. CFBinaryHeapEqual (\<lambda>_. True) (\<lambda>_. 0) True h (the (heap_of [1]))) (heap_of [2]) = Some (Some True)"
  by code_simp

end
