(* ===== verification/Bitarray.thy ===== *)
theory Bitarray
  imports Prelude
begin

text \<open>
  libmalloc's \<^verbatim>\<open>bitarray.c\<close>: a bit array of \<open>2 ^ log_size\<close> bits with up to four tiers of summary
  bits above it, each summarising 512 bits of the tier below, so that the first set bit is found by
  descending from the top. A bit array is the memory \<open>nat \<Rightarrow> u64\<close> from its start on, without
  an end: an access past the words allocated is not a fault of the model, and that there is none that matters
  is proved instead. A pointer into it is an offset in words.
  Sizes and indices are natural numbers: an index is below \<open>2 ^ log_size\<close> and \<open>log_size\<close> below 31, so that
  nothing the code computes leaves the 32 bits of its \<open>unsigned\<close>, but for the level that
  \<open>bitarray_zap_first_set\<close> computes from \<open>log_size - 1\<close>, which is taken at its width.
\<close>

section \<open>Words\<close>

type_synonym bitarray = "nat \<Rightarrow> u64"

text \<open>\<open>__builtin_ffsl\<close>: the position, from 1, of the least significant set bit, or 0.\<close>

definition ffsll :: "u64 \<Rightarrow> nat" where
  "ffsll xx = (case find (bit xx) [0..<64] of None \<Rightarrow> 0 | Some i \<Rightarrow> i + 1)"

definition BIT_SET :: "u64 \<Rightarrow> nat \<Rightarrow> u64" where
  "BIT_SET old b = old OR push_bit b 1"

definition BIT_GET :: "u64 \<Rightarrow> nat \<Rightarrow> u64" where
  "BIT_GET old b = old AND push_bit b 1"

definition BIT_ZAP :: "u64 \<Rightarrow> nat \<Rightarrow> u64" where
  "BIT_ZAP old b = old AND NOT (push_bit b 1)"

definition word_get_bit_simple :: "bitarray \<Rightarrow> nat \<Rightarrow> nat \<Rightarrow> bool" where
  "word_get_bit_simple m w b = (BIT_GET (m w) b \<noteq> 0)"

definition word_set_bit_simple :: "bitarray \<Rightarrow> nat \<Rightarrow> nat \<Rightarrow> bitarray" where
  "word_set_bit_simple m w b = m(w := BIT_SET (m w) b)"

text \<open>The variants return the memory, whether the word changed, and where asked for, what it says
  about the word having been or being zero.\<close>

definition word_set_bit_changed :: "bitarray \<Rightarrow> nat \<Rightarrow> nat \<Rightarrow> bitarray \<times> bool" where
  "word_set_bit_changed m w b =
     (let old = m w; new = BIT_SET old b
      in if old = new then (m, False) else (m(w := new), True))"

text \<open>The third component is \<open>was_non_zero\<close>, which the code leaves unset when nothing changed.\<close>

definition word_set_bit_changed_go_down :: "bitarray \<Rightarrow> nat \<Rightarrow> nat \<Rightarrow> bitarray \<times> bool \<times> bool option" where
  "word_set_bit_changed_go_down m w b =
     (let old = m w; new = BIT_SET old b
      in if old = new then (m, False, None) else (m(w := new), True, Some (old \<noteq> 0)))"

definition word_set_bit_go_down :: "bitarray \<Rightarrow> nat \<Rightarrow> nat \<Rightarrow> bitarray \<times> bool" where
  "word_set_bit_go_down m w b =
     (let old = m w; new = BIT_SET old b
      in if old = new then (m, False) else (m(w := new), old = 0))"

definition word_zap_bit_simple :: "bitarray \<Rightarrow> nat \<Rightarrow> nat \<Rightarrow> bitarray" where
  "word_zap_bit_simple m w b = m(w := BIT_ZAP (m w) b)"

definition word_zap_bit_changed :: "bitarray \<Rightarrow> nat \<Rightarrow> nat \<Rightarrow> bitarray \<times> bool" where
  "word_zap_bit_changed m w b =
     (let old = m w; new = BIT_ZAP old b
      in if old = new then (m, False) else (m(w := new), True))"

definition word_zap_bit_changed_go_down :: "bitarray \<Rightarrow> nat \<Rightarrow> nat \<Rightarrow> bitarray \<times> bool \<times> bool option" where
  "word_zap_bit_changed_go_down m w b =
     (let old = m w; new = BIT_ZAP old b
      in if old = new then (m, False, None) else (m(w := new), True, Some (new = 0)))"

definition word_zap_bit_go_down :: "bitarray \<Rightarrow> nat \<Rightarrow> nat \<Rightarrow> bitarray \<times> bool" where
  "word_zap_bit_go_down m w b =
     (let old = m w; new = BIT_ZAP old b
      in if old = new then (m, False) else (m(w := new), new = 0))"

section \<open>Groups of 512 bits\<close>

abbreviation (input) NB :: nat where "NB \<equiv> 9"
abbreviation (input) NUM_64b :: nat where "NUM_64b \<equiv> 8"
abbreviation (input) MAX_LEVEL :: nat where "MAX_LEVEL \<equiv> 5"

text \<open>\<open>LEVEL0\<close> to \<open>LEVEL3\<close>: the number of words of the summaries above the tier that starts there.\<close>

fun levels_num_words :: "nat \<Rightarrow> nat" where
  "levels_num_words 0 = NUM_64b"
| "levels_num_words (Suc l) = levels_num_words l + 2 ^ (NB * Suc l) * NUM_64b"

definition GET_SIMPLE :: "bitarray \<Rightarrow> nat \<Rightarrow> nat \<Rightarrow> bool" where
  "GET_SIMPLE m p b = word_get_bit_simple m (p + drop_bit 6 b) (take_bit 6 b)"

definition SET_SIMPLE :: "bitarray \<Rightarrow> nat \<Rightarrow> nat \<Rightarrow> bitarray" where
  "SET_SIMPLE m p b = word_set_bit_simple m (p + drop_bit 6 b) (take_bit 6 b)"

definition SET_CHANGED :: "bitarray \<Rightarrow> nat \<Rightarrow> nat \<Rightarrow> bitarray \<times> bool" where
  "SET_CHANGED m p b = word_set_bit_changed m (p + drop_bit 6 b) (take_bit 6 b)"

definition SET_CHANGED_GO_DOWN :: "bitarray \<Rightarrow> nat \<Rightarrow> nat \<Rightarrow> bitarray \<times> bool \<times> bool option" where
  "SET_CHANGED_GO_DOWN m p b = word_set_bit_changed_go_down m (p + drop_bit 6 b) (take_bit 6 b)"

definition SET_GO_DOWN :: "bitarray \<Rightarrow> nat \<Rightarrow> nat \<Rightarrow> bitarray \<times> bool" where
  "SET_GO_DOWN m p b = word_set_bit_go_down m (p + drop_bit 6 b) (take_bit 6 b)"

definition ZAP_SIMPLE :: "bitarray \<Rightarrow> nat \<Rightarrow> nat \<Rightarrow> bitarray" where
  "ZAP_SIMPLE m p b = word_zap_bit_simple m (p + drop_bit 6 b) (take_bit 6 b)"

definition ZAP_CHANGED :: "bitarray \<Rightarrow> nat \<Rightarrow> nat \<Rightarrow> bitarray \<times> bool" where
  "ZAP_CHANGED m p b = word_zap_bit_changed m (p + drop_bit 6 b) (take_bit 6 b)"

definition all_zeros :: "bitarray \<Rightarrow> nat \<Rightarrow> bool" where
  "all_zeros m p = list_all (\<lambda>w. m (p + w) = 0) [0..<NUM_64b]"

definition ZAP_CHANGED_GO_DOWN :: "bitarray \<Rightarrow> nat \<Rightarrow> nat \<Rightarrow> bitarray \<times> bool \<times> bool option" where
  "ZAP_CHANGED_GO_DOWN m p b =
     (let (m', changed, is_now_zero) = word_zap_bit_changed_go_down m (p + drop_bit 6 b) (take_bit 6 b)
      in if changed \<and> \<not> all_zeros m' p then (m', changed, Some False) else (m', changed, is_now_zero))"

definition ZAP_GO_DOWN :: "bitarray \<Rightarrow> nat \<Rightarrow> nat \<Rightarrow> bitarray \<times> bool" where
  "ZAP_GO_DOWN m p b =
     (let (m', changed) = word_zap_bit_go_down m (p + drop_bit 6 b) (take_bit 6 b)
      in if changed \<and> \<not> all_zeros m' p then (m', False) else (m', changed))"

fun FFS_from :: "bitarray \<Rightarrow> nat \<Rightarrow> nat list \<Rightarrow> nat" where
  "FFS_from m p [] = 0"
| "FFS_from m p (w # ws) = (let f = ffsll (m (p + w)) in if f \<noteq> 0 then f + push_bit 6 w else FFS_from m p ws)"

definition FFS :: "bitarray \<Rightarrow> nat \<Rightarrow> nat" where
  "FFS m p = FFS_from m p [0..<NUM_64b]"

section \<open>Entry points\<close>

definition bitarray_size :: "nat \<Rightarrow> nat" where
  "bitarray_size log_size =
     (if log_size > NB then (levels_num_words ((log_size - NB - 1) div NB) + 2 ^ (log_size - 6)) * 8
      else NUM_64b * 8)"

text \<open>The new array is zeroed by \<open>calloc\<close>; \<open>None\<close> when it cannot be allocated.\<close>

definition bitarray_create :: "(nat \<Rightarrow> bool) \<Rightarrow> nat \<Rightarrow> bitarray option" where
  "bitarray_create alloc log_size = (if alloc (bitarray_size log_size) then Some (\<lambda>_. 0) else None)"

text \<open>
  The assertions on the arguments. \<open>1 << log_size\<close> is an \<open>int\<close>, defined for \<open>log_size\<close> below 31.
  \<open>None\<close> is a failed assertion or the fatal error on an invalid level.
\<close>

definition size_asserted :: "nat \<Rightarrow> bool" where
  "size_asserted log_size = (log_size \<le> MAX_LEVEL * NB)"

definition index_asserted :: "nat \<Rightarrow> nat \<Rightarrow> bool" where
  "index_asserted log_size index = (log_size < 31 \<and> index < 2 ^ log_size)"

definition bitarray_get :: "bitarray \<Rightarrow> nat \<Rightarrow> nat \<Rightarrow> bool option" where
  "bitarray_get bits log_size index =
     (if \<not> (size_asserted log_size \<and> index_asserted log_size index) then None
      else if log_size \<le> NB then Some (GET_SIMPLE bits 0 index)
      else
        (let level = (log_size - NB - 1) div NB; b = take_bit NB index; index = drop_bit NB index
         in Some (GET_SIMPLE bits (levels_num_words level + index * NUM_64b) b)))"

text \<open>
  The \<open>switch (level)\<close> of \<open>bitarray_set\<close>, whose cases fall through from \<open>level\<close> to 0: case \<open>l + 1\<close>
  works on the summary that starts at \<open>levels_num_words[l]\<close>.
\<close>

fun set_summaries :: "bitarray \<Rightarrow> nat \<Rightarrow> nat \<Rightarrow> bitarray" where
  "set_summaries bits 0 index = SET_SIMPLE bits 0 (take_bit NB index)"
| "set_summaries bits (Suc l) index =
     (let b = take_bit NB index; index = drop_bit NB index;
          (bits, go_down) = SET_GO_DOWN bits (levels_num_words l + index * NUM_64b) b
      in if \<not> go_down then bits else set_summaries bits l index)"

definition bitarray_set :: "bitarray \<Rightarrow> nat \<Rightarrow> nat \<Rightarrow> (bitarray \<times> bool) option" where
  "bitarray_set bits log_size index =
     (if \<not> (size_asserted log_size \<and> index_asserted log_size index) then None
      else if log_size \<le> NB then Some (SET_CHANGED bits 0 index)
      else
        (let level = (log_size - NB - 1) div NB; b = take_bit NB index; index = drop_bit NB index;
             (bits, changed, was_non_zero) =
               SET_CHANGED_GO_DOWN bits (levels_num_words level + index * NUM_64b) b
         in if \<not> changed then Some (bits, False)
            else if was_non_zero = Some True then Some (bits, True)
            else if level \<le> 3 then Some (set_summaries bits level index, True)
            else None))"

text \<open>The \<open>switch (level)\<close> of \<open>bitarray_zap\<close>, and the macro \<open>ZAP_SUMMARIES\<close>, which is the same.\<close>

fun zap_summaries :: "bitarray \<Rightarrow> nat \<Rightarrow> nat \<Rightarrow> bitarray" where
  "zap_summaries bits 0 index = ZAP_SIMPLE bits 0 (take_bit NB index)"
| "zap_summaries bits (Suc l) index =
     (let b = take_bit NB index; index = drop_bit NB index;
          (bits, go_down) = ZAP_GO_DOWN bits (levels_num_words l + index * NUM_64b) b
      in if \<not> go_down then bits else zap_summaries bits l index)"

definition ZAP_SUMMARIES :: "bitarray \<Rightarrow> nat \<Rightarrow> nat \<Rightarrow> bitarray option" where
  "ZAP_SUMMARIES bits ix level = (if level \<le> 3 then Some (zap_summaries bits level ix) else None)"

definition bitarray_zap :: "bitarray \<Rightarrow> nat \<Rightarrow> nat \<Rightarrow> (bitarray \<times> bool) option" where
  "bitarray_zap bits log_size index =
     (if \<not> (size_asserted log_size \<and> index_asserted log_size index) then None
      else if log_size \<le> NB then Some (ZAP_CHANGED bits 0 index)
      else
        (let level = (log_size - NB - 1) div NB; b = take_bit NB index; index = drop_bit NB index;
             (bits, changed, is_now_zero) =
               ZAP_CHANGED_GO_DOWN bits (levels_num_words level + index * NUM_64b) b
         in if \<not> changed then Some (bits, False)
            else if is_now_zero = Some False then Some (bits, True)
            else if level \<le> 3 then Some (zap_summaries bits level index, True)
            else None))"

text \<open>\<open>words\<close> and \<open>base\<close> are the variables the macros write.\<close>

definition ADJUST_OFFSET_FOR_FFS :: "bitarray \<Rightarrow> nat \<Rightarrow> nat \<times> nat \<Rightarrow> nat \<times> nat" where
  "ADJUST_OFFSET_FOR_FFS bits current_level wb =
     (case wb of (words, base) \<Rightarrow>
        (let words = words + 2 ^ (NB * current_level) * NUM_64b
         in (words, push_bit NB base + FFS bits (words + base * NUM_64b) - 1)))"

definition ADJUST_OFFSET_FOR_FFS_ACROSS_SUMMARIES ::
    "bitarray \<Rightarrow> nat \<Rightarrow> nat \<times> nat \<Rightarrow> (nat \<times> nat) option" where
  "ADJUST_OFFSET_FOR_FFS_ACROSS_SUMMARIES bits level wb =
     (if level = 4 then Some (fold (ADJUST_OFFSET_FOR_FFS bits) [0, 1, 2] wb)
      else if level = 3 then Some (fold (ADJUST_OFFSET_FOR_FFS bits) [0, 1] wb)
      else if level = 2 then Some (ADJUST_OFFSET_FOR_FFS bits 0 wb)
      else if level = 1 then Some wb
      else None)"

definition bitarray_first_set :: "bitarray \<Rightarrow> nat \<Rightarrow> nat option" where
  "bitarray_first_set bits log_size =
     (if \<not> size_asserted log_size then None
      else
        (let b = FFS bits 0
         in if log_size \<le> NB then Some b
            else if b = 0 then Some 0
            else
              (let level = (log_size - 1) div NB
               in case ADJUST_OFFSET_FOR_FFS_ACROSS_SUMMARIES bits level (0, b - 1) of
                    None \<Rightarrow> None
                  | Some (words, base) \<Rightarrow>
                      (let words = words + 2 ^ (NB * (level - 1)) * NUM_64b;
                           base = push_bit NB base + FFS bits (words + base * NUM_64b) - 1
                       in Some (base + 1)))))"

text \<open>
  \<open>(log_size - 1) / NB\<close> on \<open>unsigned\<close>. The other two functions that compute it have returned by then
  when \<open>log_size\<close> is at most \<open>NB\<close>; \<open>bitarray_zap_first_set\<close> has not, and 0 wraps around.
\<close>

definition unsigned_level :: "nat \<Rightarrow> nat" where
  "unsigned_level log_size = unat ((of_nat log_size - 1 :: u32) div 9)"

text \<open>The result is the index of the bit zapped, or \<open>None\<close> when none was set.\<close>

definition bitarray_zap_first_set :: "bitarray \<Rightarrow> nat \<Rightarrow> (bitarray \<times> nat option) option" where
  "bitarray_zap_first_set bits log_size =
     (if \<not> size_asserted log_size then None
      else
        (let ix = FFS bits 0
         in if ix = 0 then Some (bits, None)
            else
              (let level = unsigned_level log_size
               in if level = 0 then Some (ZAP_SIMPLE bits 0 (ix - 1), Some (ix - 1))
                  else case ADJUST_OFFSET_FOR_FFS_ACROSS_SUMMARIES bits level (0, ix - 1) of
                    None \<Rightarrow> None
                  | Some (words, base) \<Rightarrow>
                      (let words = words + 2 ^ (NB * (level - 1)) * NUM_64b;
                           index = push_bit NB base + FFS bits (words + base * NUM_64b) - 1
                       in if \<not> index_asserted log_size index then None
                          else
                            (let level = level - 1; b = take_bit NB index; ix = drop_bit NB index;
                                 (bits, changed, is_now_zero) =
                                   ZAP_CHANGED_GO_DOWN bits (levels_num_words level + ix * NUM_64b) b
                             in if \<not> changed then Some (bits, Some index)
                                else if is_now_zero = Some False then Some (bits, Some index)
                                else map_option (\<lambda>bits. (bits, Some index)) (ZAP_SUMMARIES bits ix level))))))"

text \<open>
  The inner loop of \<open>FFS_and_zap_word\<close>: zaps the bits of \<open>word\<close>, appending their indices, until
  the word is zero or \<open>mx\<close> indices have been written; \<open>zapped\<close> is the length of \<open>indices\<close>.
\<close>

lemma BIT_ZAP_card:
  assumes "word \<noteq> 0"
  shows "card {i. bit (BIT_ZAP word (ffsll word - 1)) i} < card {i. bit word i}"
proof -
  have sub: "{i. bit word i} \<subseteq> {..<64}" using bit_imp_le_length [of word] by auto
  obtain i where i: "bit word i" using assms by (metis bit_0_eq bit_eqI bot_fun_def bot_bool_def)
  then have "i < 64" using sub by auto
  then have "find (bit word) [0..<64] \<noteq> None" using i by (auto simp: find_None_iff)
  then obtain f where f: "find (bit word) [0..<64] = Some f" by auto
  then have "bit word f" by (auto simp: find_Some_iff)
  then have "{i. bit (BIT_ZAP word (ffsll word - 1)) i} \<subset> {i. bit word i}"
    using f sub by (auto simp: ffsll_def BIT_ZAP_def bit_simps)
  then show ?thesis using sub by (meson finite_lessThan finite_subset psubset_card_mono)
qed

function zap_word :: "u64 \<Rightarrow> nat \<Rightarrow> nat \<Rightarrow> nat list \<Rightarrow> nat list \<times> u64" where
  "zap_word word mx base indices =
     (if word = 0 then (indices, word)
      else
        (let f = ffsll word - 1; indices = indices @ [f + base]; word = BIT_ZAP word f
         in if word = 0 then (indices, word)
            else if length indices \<ge> mx then (indices, word)
            else zap_word word mx base indices))"
  by pat_completeness auto
termination
  by (relation "measure (\<lambda>(word, _). card {i. bit word i})") (use BIT_ZAP_card in auto)

declare zap_word.simps [simp del]

fun zap_words :: "bitarray \<Rightarrow> nat \<Rightarrow> nat \<Rightarrow> nat \<Rightarrow> nat list \<Rightarrow> nat list \<Rightarrow> bitarray \<times> nat list" where
  "zap_words m p mx to_be_added [] indices = (m, indices)"
| "zap_words m p mx to_be_added (w # ws) indices =
     (if m (p + w) = 0 then zap_words m p mx to_be_added ws indices
      else
        (let (indices, word) = zap_word (m (p + w)) mx (push_bit 6 w + to_be_added) indices;
             m = m(p + w := word)
         in if length indices \<ge> mx then (m, indices)
            else zap_words m p mx to_be_added ws indices))"

text \<open>Returns the memory and the indices written, whose number is the code's result.\<close>

definition FFS_and_zap_word :: "bitarray \<Rightarrow> nat \<Rightarrow> nat \<Rightarrow> nat \<Rightarrow> bitarray \<times> nat list" where
  "FFS_and_zap_word m p mx to_be_added = zap_words m p mx to_be_added [0..<NUM_64b] []"

function zap_multiple_loop :: "bitarray \<Rightarrow> nat \<Rightarrow> nat \<Rightarrow> nat list \<Rightarrow> (bitarray \<times> nat list) option" where
  "zap_multiple_loop bits level mx indices =
     (if \<not> length indices < mx then Some (bits, indices)
      else
        (let ix = FFS bits 0
         in if ix = 0 then Some (bits, indices)
            else case ADJUST_OFFSET_FOR_FFS_ACROSS_SUMMARIES bits level (0, ix - 1) of
              None \<Rightarrow> None
            | Some (words, base) \<Rightarrow>
                (let words = words + 2 ^ (NB * (level - 1)) * NUM_64b;
                     word = words + base * NUM_64b;
                     (bits, zapped) = FFS_and_zap_word bits word (mx - length indices) (push_bit NB base)
                 in if zapped = [] then None
                    else if length (indices @ zapped) < mx \<or> all_zeros bits word
                    then (case ZAP_SUMMARIES bits base (level - 1) of
                            None \<Rightarrow> None
                          | Some bits \<Rightarrow> zap_multiple_loop bits level mx (indices @ zapped))
                    else zap_multiple_loop bits level mx (indices @ zapped))))"
  by pat_completeness auto
termination
  by (relation "measure (\<lambda>(_, _, mx, indices). mx - length indices)") (auto simp: neq_Nil_conv)

declare zap_multiple_loop.simps [simp del]

definition bitarray_zap_first_set_multiple :: "bitarray \<Rightarrow> nat \<Rightarrow> nat \<Rightarrow> (bitarray \<times> nat list) option" where
  "bitarray_zap_first_set_multiple bits log_size mx =
     (if \<not> size_asserted log_size then None
      else if log_size \<le> NB then Some (FFS_and_zap_word bits 0 mx 0)
      else zap_multiple_loop bits ((log_size - 1) div NB) mx [])"

section \<open>Tiers\<close>

text \<open>Tier 0 starts at the first word, tier \<open>t + 1\<close> at \<open>levels_num_words[t]\<close>.\<close>

definition tier_start :: "nat \<Rightarrow> nat" where
  "tier_start t = (case t of 0 \<Rightarrow> 0 | Suc l \<Rightarrow> levels_num_words l)"

definition tier_bit :: "bitarray \<Rightarrow> nat \<Rightarrow> nat \<Rightarrow> bool" where
  "tier_bit m t i = bit (m (tier_start t + i div 64)) (i mod 64)"

lemma tier_start_simps [simp]: "tier_start 0 = 0" "tier_start (Suc l) = levels_num_words l"
  by (simp_all add: tier_start_def)

lemma tier_start_Suc: "tier_start (Suc t) = tier_start t + 512 ^ t * 8"
  by (cases t) (simp_all add: power_mult power_add)

lemma tier_start_mono: "t < t' \<Longrightarrow> tier_start t + 512 ^ t * 8 \<le> tier_start t'"
proof (induction t')
  case (Suc t')
  then show ?case by (cases "t = t'") (simp_all add: tier_start_Suc del: tier_start_simps)
qed simp

lemma tier_word_less: "i < 512 ^ Suc t \<Longrightarrow> i div 64 < 512 ^ t * (8 :: nat)"
  by (simp add: less_mult_imp_div_less)

lemma tier_word_inj:
  assumes "i < 512 ^ Suc t" "j < 512 ^ Suc t'"
  shows "tier_start t + i div 64 = tier_start t' + j div 64 \<longleftrightarrow> t = t' \<and> i div 64 = j div 64"
proof (cases t t' rule: linorder_cases)
  case less
  then show ?thesis using tier_start_mono [OF less] tier_word_less [OF assms(1)] by auto
next
  case greater
  then show ?thesis using tier_start_mono [OF greater] tier_word_less [OF assms(2)] by auto
qed simp

lemma bit_BIT_SET: "b < 64 \<Longrightarrow> bit (BIT_SET w b) j \<longleftrightarrow> bit w j \<or> j = b"
  by (auto simp: BIT_SET_def bit_simps)

lemma bit_BIT_ZAP: "bit (BIT_ZAP w b) j \<longleftrightarrow> bit w j \<and> j \<noteq> b"
  by (auto simp: BIT_ZAP_def bit_simps dest: bit_imp_le_length)

lemma BIT_SET_eq: "b < 64 \<Longrightarrow> BIT_SET w b = w \<longleftrightarrow> bit w b"
  by (metis bit_BIT_SET bit_eqI)

lemma BIT_ZAP_eq: "BIT_ZAP w b = w \<longleftrightarrow> \<not> bit w b"
  by (metis bit_BIT_ZAP bit_eqI)

lemma BIT_GET_iff: "b < 64 \<Longrightarrow> BIT_GET w b \<noteq> 0 \<longleftrightarrow> bit w b"
  by (metis (no_types) BIT_GET_def and_exp_eq_0_iff_not_bit push_bit_of_1)

definition set_tier :: "bitarray \<Rightarrow> nat \<Rightarrow> nat \<Rightarrow> bitarray" where
  "set_tier m t i = m(tier_start t + i div 64 := BIT_SET (m (tier_start t + i div 64)) (i mod 64))"

definition zap_tier :: "bitarray \<Rightarrow> nat \<Rightarrow> nat \<Rightarrow> bitarray" where
  "zap_tier m t i = m(tier_start t + i div 64 := BIT_ZAP (m (tier_start t + i div 64)) (i mod 64))"

lemma same_bit: "i div 64 = j div 64 \<Longrightarrow> i mod 64 = j mod 64 \<longleftrightarrow> i = (j :: nat)"
  by (metis div_mult_mod_eq)

lemma tier_bit_set_tier:
  assumes "i < 512 ^ Suc t" "j < 512 ^ Suc t'"
  shows "tier_bit (set_tier m t i) t' j \<longleftrightarrow> tier_bit m t' j \<or> t' = t \<and> j = i"
proof (cases "tier_start t + i div 64 = tier_start t' + j div 64")
  case True
  then have "t = t'" "i div 64 = j div 64" using tier_word_inj [OF assms] by simp_all
  then show ?thesis using same_bit [of i j] by (simp add: tier_bit_def set_tier_def bit_BIT_SET) metis
next
  case False
  then show ?thesis by (auto simp: tier_bit_def set_tier_def)
qed

lemma tier_bit_zap_tier:
  assumes "i < 512 ^ Suc t" "j < 512 ^ Suc t'"
  shows "tier_bit (zap_tier m t i) t' j \<longleftrightarrow> tier_bit m t' j \<and> \<not> (t' = t \<and> j = i)"
proof (cases "tier_start t + i div 64 = tier_start t' + j div 64")
  case True
  then have "t = t'" "i div 64 = j div 64" using tier_word_inj [OF assms] by simp_all
  then show ?thesis using same_bit [of i j] by (simp add: tier_bit_def zap_tier_def bit_BIT_ZAP) metis
next
  case False
  then show ?thesis by (auto simp: tier_bit_def zap_tier_def)
qed

lemma set_tier_id: "tier_bit m t i \<Longrightarrow> set_tier m t i = m"
  unfolding set_tier_def by (rule fun_upd_idem) (simp add: tier_bit_def BIT_SET_eq [symmetric])

lemma zap_tier_id: "\<not> tier_bit m t i \<Longrightarrow> zap_tier m t i = m"
  unfolding zap_tier_def by (rule fun_upd_idem) (simp add: tier_bit_def BIT_ZAP_eq [symmetric])

lemma group_div: "(g * 512 + j) div 64 = g * 8 + j div (64 :: nat)"
  using div_mult_self3 [of 64 "g * 8" j] by simp

lemma group_mod: "(g * 512 + j) mod 64 = j mod (64 :: nat)"
  using mod_mult_self3 [of "g * 8" 64 j] by (simp add: mult.commute)

text \<open>The word of a tier bit, addressed the way the code does: group, word in group, bit in word.\<close>

lemma group_word: "p + i div 512 * 8 + take_bit 9 i div 64 = p + i div (64 :: nat)"
  using group_div [of "i div 512" "i mod 512"] by (simp add: take_bit_eq_mod)

lemma group_bit: "take_bit 9 i mod 64 = i mod (64 :: nat)"
  by (simp add: take_bit_eq_mod mod_mod_cancel)

lemmas addr = group_word group_bit drop_bit_eq_div take_bit_eq_mod [of 6]

definition group_nonzero :: "bitarray \<Rightarrow> nat \<Rightarrow> nat \<Rightarrow> bool" where
  "group_nonzero m t g \<longleftrightarrow> (\<exists>j < 512. tier_bit m t (g * 512 + j))"

lemma word_zero_iff: "(w :: u64) = 0 \<longleftrightarrow> (\<forall>j < 64. \<not> bit w j)"
  by (auto simp: bit_eq_iff)

lemma all_zeros_iff: "all_zeros m (tier_start t + g * 8) \<longleftrightarrow> \<not> group_nonzero m t g"
proof -
  have a: "tier_bit m t (g * 512 + j) = bit (m (tier_start t + g * 8 + j div 64)) (j mod 64)" for j
    by (simp only: tier_bit_def group_div group_mod add.assoc)
  have "all_zeros m (tier_start t + g * 8) \<longleftrightarrow> (\<forall>w < 8. \<forall>k < 64. \<not> bit (m (tier_start t + g * 8 + w)) k)"
    by (auto simp: all_zeros_def list_all_iff word_zero_iff)
  also have "\<dots> \<longleftrightarrow> (\<forall>j < 512. \<not> tier_bit m t (g * 512 + j))"
  proof (intro iffI allI impI)
    fix w k :: nat
    assume "\<forall>j < 512. \<not> tier_bit m t (g * 512 + j)" "w < 8" "k < 64"
    then show "\<not> bit (m (tier_start t + g * 8 + w)) k" using a [of "w * 64 + k"] by auto
  qed (simp add: a)
  finally show ?thesis by (auto simp: group_nonzero_def)
qed

section \<open>The invariant\<close>

text \<open>
  An array with data tier \<open>d\<close> has \<open>width d n t\<close> bits in use in tier \<open>t\<close>, \<open>n\<close> of them in the top tier:
  each summary bit says whether its group below is non-zero, and the rest of the top tier is unused.
\<close>

definition width :: "nat \<Rightarrow> nat \<Rightarrow> nat" where
  "width n t = n * 512 ^ t"

definition summary_ok :: "bitarray \<Rightarrow> nat \<Rightarrow> nat \<Rightarrow> bool" where
  "summary_ok m t i \<longleftrightarrow> tier_bit m t i = group_nonzero m (Suc t) i"

definition tiers_ok :: "nat \<Rightarrow> nat \<Rightarrow> bitarray \<Rightarrow> bool" where
  "tiers_ok d n m \<longleftrightarrow> n \<le> 512 \<and> (\<forall>t < d. \<forall>i < width n t. summary_ok m t i) \<and>
     (\<forall>i. n \<le> i \<and> i < 512 \<longrightarrow> \<not> tier_bit m 0 i)"

lemma width_0 [simp]: "width n 0 = n"
  by (simp add: width_def)

lemma width_Suc: "width n (Suc t) = width n t * 512"
  by (simp add: width_def)

lemma width_le: "n \<le> 512 \<Longrightarrow> width n t \<le> 512 ^ Suc t"
  by (simp add: width_def)

lemma width_less: "n \<le> 512 \<Longrightarrow> i < width n t \<Longrightarrow> i < 512 ^ Suc t"
  using width_le order.strict_trans2 by blast

lemma width_div: "i < width n (Suc t) \<Longrightarrow> i div 512 < width n t"
  by (simp add: width_Suc less_mult_imp_div_less)

lemma width_group: "g < width n t \<Longrightarrow> j < 512 \<Longrightarrow> g * 512 + j < width n (Suc t)"
proof -
  assume "g < width n t" "j < 512"
  then have "Suc g * 512 \<le> width n t * 512" by (intro mult_le_mono1) simp
  then show ?thesis using \<open>j < 512\<close> by (simp add: width_Suc)
qed

lemma group_nonzeroI: "tier_bit m t i \<Longrightarrow> group_nonzero m t (i div 512)"
  unfolding group_nonzero_def by (intro exI [of _ "i mod 512"]) simp

lemma summary_okD: "tiers_ok d n m \<Longrightarrow> t < d \<Longrightarrow> i < width n t \<Longrightarrow> tier_bit m t i = group_nonzero m (Suc t) i"
  by (simp add: tiers_ok_def summary_ok_def)

text \<open>The effect of setting or clearing one bit on the groups and summaries elsewhere.\<close>

lemma group_nonzero_set_tier:
  assumes "n \<le> 512" "i < width n t" "g < width n t'"
  shows "group_nonzero (set_tier m t i) (Suc t') g \<longleftrightarrow> group_nonzero m (Suc t') g \<or> t = Suc t' \<and> g = i div 512"
proof -
  have "tier_bit (set_tier m t i) (Suc t') (g * 512 + j) \<longleftrightarrow>
      tier_bit m (Suc t') (g * 512 + j) \<or> t = Suc t' \<and> g * 512 + j = i" if "j < 512" for j
    using tier_bit_set_tier [OF width_less [OF assms(1,2)] width_less [OF assms(1) width_group [OF assms(3) that]]]
    by blast
  moreover have "(\<exists>j < 512. g * 512 + j = i) \<longleftrightarrow> g = i div 512"
    by (auto intro!: exI [of _ "i mod 512"])
  ultimately show ?thesis unfolding group_nonzero_def by blast
qed

lemma group_nonzero_zap_tier_other:
  assumes "n \<le> 512" "i < width n t" "g < width n t'" "\<not> (t = Suc t' \<and> g = i div 512)"
  shows "group_nonzero (zap_tier m t i) (Suc t') g \<longleftrightarrow> group_nonzero m (Suc t') g"
proof -
  have "g * 512 + j = i \<Longrightarrow> g = i div 512" if "j < 512" for j using that by auto
  then have "tier_bit (zap_tier m t i) (Suc t') (g * 512 + j) \<longleftrightarrow> tier_bit m (Suc t') (g * 512 + j)" if "j < 512" for j
    using tier_bit_zap_tier [OF width_less [OF assms(1,2)] width_less [OF assms(1) width_group [OF assms(3) that]]]
      that assms(4) by blast
  then show ?thesis unfolding group_nonzero_def by blast
qed

text \<open>The invariant but for the summary bit \<open>i\<close> of tier \<open>t\<close>.\<close>

definition tiers_ok_but :: "nat \<Rightarrow> nat \<Rightarrow> bitarray \<Rightarrow> nat \<Rightarrow> nat \<Rightarrow> bool" where
  "tiers_ok_but d n m t i \<longleftrightarrow> n \<le> 512 \<and> t < d \<and> i < width n t \<and>
     (\<forall>t' < d. \<forall>i' < width n t'. (t', i') \<noteq> (t, i) \<longrightarrow> summary_ok m t' i') \<and>
     (\<forall>i'. n \<le> i' \<and> i' < 512 \<longrightarrow> \<not> tier_bit m 0 i')"

lemma tiers_ok_butD: "tiers_ok_but d n m t i \<Longrightarrow> summary_ok m t i \<Longrightarrow> tiers_ok d n m"
  unfolding tiers_ok_but_def tiers_ok_def by blast

lemma tiers_ok_but_set:
  assumes ok: "tiers_ok_but d n m t i" and nz: "group_nonzero m (Suc t) i"
  shows "(case t of 0 \<Rightarrow> tiers_ok d n (set_tier m t i)
    | Suc l \<Rightarrow> tiers_ok_but d n (set_tier m t i) l (i div 512) \<and> group_nonzero (set_tier m t i) t (i div 512))"
proof -
  note b = ok [unfolded tiers_ok_but_def]
  have n: "n \<le> 512" and i: "i < width n t" using b by blast+
  have T: "tier_bit (set_tier m t i) t' i' \<longleftrightarrow> tier_bit m t' i' \<or> t' = t \<and> i' = i" if "i' < 512 ^ Suc t'" for t' i'
    by (rule tier_bit_set_tier [OF width_less [OF n i] that])
  have S: "summary_ok (set_tier m t i) t' i'"
    if "t' < d" "i' < width n t'" "\<not> (t = Suc t' \<and> i' = i div 512)" for t' i'
    using that b nz group_nonzero_set_tier [OF n i that(2)] T [OF width_less [OF n that(2)]]
    unfolding summary_ok_def by (cases "(t', i') = (t, i)") auto
  have Z: "\<not> tier_bit (set_tier m t i) 0 i'" if "n \<le> i'" "i' < 512" for i'
    using b that T [of i' 0] i by auto
  show ?thesis
  proof (cases t)
    case 0
    then show ?thesis using S Z n by (simp add: tiers_ok_def)
  next
    case (Suc l)
    have "i div 512 < width n l" using i Suc width_div by blast
    moreover have "group_nonzero (set_tier m t i) t (i div 512)"
      by (rule group_nonzeroI) (use T [OF width_less [OF n i]] in simp)
    ultimately show ?thesis using S Z n b Suc by (simp add: tiers_ok_but_def)
  qed
qed

lemma drop_bit_9 [simp]: "drop_bit 9 (i :: nat) = i div 512"
  by (simp add: drop_bit_eq_div)

lemma drop_bit_6 [simp]: "drop_bit 6 (i :: nat) = i div 64"
  by (simp add: drop_bit_eq_div)

lemma tiers_ok_but_zap:
  assumes ok: "tiers_ok_but d n m t i" and z: "\<not> group_nonzero m (Suc t) i"
  shows "(case t of 0 \<Rightarrow> tiers_ok d n (zap_tier m t i)
    | Suc l \<Rightarrow> tiers_ok_but d n (zap_tier m t i) l (i div 512))"
proof -
  note b = ok [unfolded tiers_ok_but_def]
  have n: "n \<le> 512" and i: "i < width n t" using b by blast+
  have T: "tier_bit (zap_tier m t i) t' i' \<longleftrightarrow> tier_bit m t' i' \<and> \<not> (t' = t \<and> i' = i)" if "i' < 512 ^ Suc t'" for t' i'
    by (rule tier_bit_zap_tier [OF width_less [OF n i] that])
  have S: "summary_ok (zap_tier m t i) t' i'"
    if "t' < d" "i' < width n t'" "\<not> (t = Suc t' \<and> i' = i div 512)" for t' i'
    using that b z group_nonzero_zap_tier_other [OF n i that(2,3)] T [OF width_less [OF n that(2)]]
    unfolding summary_ok_def by (cases "(t', i') = (t, i)") auto
  have Z: "\<not> tier_bit (zap_tier m t i) 0 i'" if "n \<le> i'" "i' < 512" for i'
    using b that T [of i' 0] by auto
  show ?thesis
  proof (cases t)
    case 0
    then show ?thesis using S Z n by (simp add: tiers_ok_def)
  next
    case (Suc l)
    have "i div 512 < width n l" using i Suc width_div by blast
    then show ?thesis using S Z n b Suc by (simp add: tiers_ok_but_def)
  qed
qed

lemma SET_SIMPLE_tier: "i < 512 \<Longrightarrow> SET_SIMPLE m 0 (take_bit 9 i) = set_tier m 0 i"
  by (simp add: SET_SIMPLE_def word_set_bit_simple_def set_tier_def take_bit_eq_mod)

lemma ZAP_SIMPLE_tier: "i < 512 \<Longrightarrow> ZAP_SIMPLE m 0 (take_bit 9 i) = zap_tier m 0 i"
  by (simp add: ZAP_SIMPLE_def word_zap_bit_simple_def zap_tier_def take_bit_eq_mod)

definition word_at :: "bitarray \<Rightarrow> nat \<Rightarrow> nat \<Rightarrow> u64" where
  "word_at m t i = m (tier_start t + i div 64)"

lemma word_at_nonzero: "word_at m t i \<noteq> 0 \<Longrightarrow> group_nonzero m t (i div 512)"
proof -
  assume "word_at m t i \<noteq> 0"
  then obtain k where k: "k < 64" "bit (word_at m t i) k" by (auto simp: word_zero_iff)
  have "(i div 64 * 64 + k) div 64 = i div 64" "(i div 64 * 64 + k) mod 64 = k" using k by simp_all
  then have "tier_bit m t (i div 64 * 64 + k)" using k by (simp only: tier_bit_def word_at_def)
  moreover have "(i div 64 * 64 + k) div 512 = i div 512"
    using div_mult2_eq [of "i div 64 * 64 + k" 64 8] div_mult2_eq [of i 64 8] k by simp
  ultimately show ?thesis using group_nonzeroI by metis
qed

lemma SET_GO_DOWN_tier:
  "SET_GO_DOWN m (levels_num_words l + i div 512 * 8) (take_bit 9 i) =
    (set_tier m (Suc l) i, \<not> tier_bit m (Suc l) i \<and> word_at m (Suc l) i = 0)"
proof -
  have "BIT_SET (m (levels_num_words l + i div 64)) (i mod 64) = m (levels_num_words l + i div 64) \<longleftrightarrow> tier_bit m (Suc l) i"
    by (simp add: BIT_SET_eq tier_bit_def)
  then show ?thesis
    using set_tier_id [of m "Suc l" i]
    by (auto simp: SET_GO_DOWN_def word_set_bit_go_down_def addr Let_def set_tier_def word_at_def)
qed

lemma SET_CHANGED_GO_DOWN_tier:
  "SET_CHANGED_GO_DOWN m (levels_num_words l + i div 512 * 8) (take_bit 9 i) =
    (set_tier m (Suc l) i, \<not> tier_bit m (Suc l) i,
     if tier_bit m (Suc l) i then None else Some (word_at m (Suc l) i \<noteq> 0))"
proof -
  have "BIT_SET (m (levels_num_words l + i div 64)) (i mod 64) = m (levels_num_words l + i div 64) \<longleftrightarrow> tier_bit m (Suc l) i"
    by (simp add: BIT_SET_eq tier_bit_def)
  then show ?thesis
    using set_tier_id [of m "Suc l" i]
    by (auto simp: SET_CHANGED_GO_DOWN_def word_set_bit_changed_go_down_def addr Let_def set_tier_def word_at_def)
qed

lemma zap_word_zero:
  assumes "all_zeros m' (tier_start t + i div 512 * 8)"
  shows "word_at m' t i = 0"
  using assms word_at_nonzero all_zeros_iff by blast

lemma ZAP_CHANGED_GO_DOWN_tier:
  "ZAP_CHANGED_GO_DOWN m (levels_num_words l + i div 512 * 8) (take_bit 9 i) =
    (zap_tier m (Suc l) i, tier_bit m (Suc l) i,
     if tier_bit m (Suc l) i then Some (\<not> group_nonzero (zap_tier m (Suc l) i) (Suc l) (i div 512)) else None)"
proof (cases "tier_bit m (Suc l) i")
  case False
  then have "BIT_ZAP (m (levels_num_words l + i div 64)) (i mod 64) = m (levels_num_words l + i div 64)"
    by (simp add: BIT_ZAP_eq tier_bit_def)
  then show ?thesis using False zap_tier_id [OF False]
    by (simp add: ZAP_CHANGED_GO_DOWN_def word_zap_bit_changed_go_down_def addr Let_def)
next
  case True
  let ?m' = "zap_tier m (Suc l) i"
  have ne: "m (levels_num_words l + i div 64) \<noteq> BIT_ZAP (m (levels_num_words l + i div 64)) (i mod 64)"
    using True BIT_ZAP_eq [of "m (levels_num_words l + i div 64)" "i mod 64"] by (simp add: tier_bit_def)
  have "word_zap_bit_changed_go_down m (levels_num_words l + i div 64) (i mod 64) = (?m', True, Some (word_at ?m' (Suc l) i = 0))"
    using ne by (simp add: word_zap_bit_changed_go_down_def Let_def zap_tier_def word_at_def)
  moreover have "all_zeros ?m' (levels_num_words l + i div 512 * 8) \<longleftrightarrow> \<not> group_nonzero ?m' (Suc l) (i div 512)"
    using all_zeros_iff [of ?m' "Suc l" "i div 512"] by simp
  moreover have "group_nonzero ?m' (Suc l) (i div 512)" if "word_at ?m' (Suc l) i \<noteq> 0"
    by (rule word_at_nonzero [OF that])
  ultimately show ?thesis using True by (auto simp: ZAP_CHANGED_GO_DOWN_def addr simp del: levels_num_words.simps)
qed

lemma ZAP_GO_DOWN_tier:
  "ZAP_GO_DOWN m (levels_num_words l + i div 512 * 8) (take_bit 9 i) =
    (zap_tier m (Suc l) i, tier_bit m (Suc l) i \<and> \<not> group_nonzero (zap_tier m (Suc l) i) (Suc l) (i div 512))"
proof -
  let ?w = "levels_num_words l + i div 64"
  have "word_zap_bit_go_down m ?w (i mod 64) =
    (case word_zap_bit_changed_go_down m ?w (i mod 64) of (m', c, z) \<Rightarrow> (m', c \<and> z = Some True))"
    by (simp add: word_zap_bit_go_down_def word_zap_bit_changed_go_down_def Let_def)
  then show ?thesis using ZAP_CHANGED_GO_DOWN_tier [of m l i]
    by (auto simp: ZAP_GO_DOWN_def ZAP_CHANGED_GO_DOWN_def addr split: if_splits prod.splits)
qed

definition same_data :: "nat \<Rightarrow> nat \<Rightarrow> bitarray \<Rightarrow> bitarray \<Rightarrow> bool" where
  "same_data d n m m' \<longleftrightarrow> (\<forall>j < width n d. tier_bit m' d j = tier_bit m d j)"

lemma same_data_refl [simp]: "same_data d n m m"
  by (simp add: same_data_def)

lemma same_data_trans: "same_data d n m m' \<Longrightarrow> same_data d n m' m'' \<Longrightarrow> same_data d n m m''"
  by (simp add: same_data_def)

lemma same_data_tier:
  assumes "n \<le> 512" "i < width n t" "t < d"
  shows "same_data d n m (set_tier m t i)" "same_data d n m (zap_tier m t i)"
  using assms tier_bit_set_tier [OF width_less [OF assms(1,2)] width_less [OF assms(1)]]
    tier_bit_zap_tier [OF width_less [OF assms(1,2)] width_less [OF assms(1)]]
  by (auto simp: same_data_def)

lemma set_summaries_correct:
  "tiers_ok_but d n m t i \<Longrightarrow> group_nonzero m (Suc t) i \<Longrightarrow>
   tiers_ok d n (set_summaries m t i) \<and> same_data d n m (set_summaries m t i)"
proof (induction t arbitrary: m i)
  case 0
  then have "n \<le> 512" "i < n" "0 < d" by (auto simp: tiers_ok_but_def)
  then show ?case using tiers_ok_but_set [OF 0] same_data_tier(1) [of n i 0] by (simp add: SET_SIMPLE_tier)
next
  case (Suc l)
  let ?m' = "set_tier m (Suc l) i"
  note s = tiers_ok_but_set [OF Suc.prems, simplified]
  have b: "n \<le> 512" "i < width n (Suc l)" "Suc l < d" using Suc.prems(1) by (auto simp: tiers_ok_but_def)
  note d = same_data_tier(1) [OF b, of m]
  show ?case
  proof (cases "tier_bit m (Suc l) i")
    case True
    then have "tiers_ok d n m" using Suc.prems tiers_ok_butD by (auto simp: summary_ok_def)
    then show ?thesis using True set_tier_id [OF True] by (simp add: SET_GO_DOWN_tier)
  next
    case False
    show ?thesis
    proof (cases "word_at m (Suc l) i = 0")
      case True
      have "tiers_ok d n (set_summaries ?m' l (i div 512)) \<and> same_data d n m (set_summaries ?m' l (i div 512))"
        using Suc.IH [OF conjunct1 [OF s] conjunct2 [OF s]] same_data_trans [OF d] by blast
      then show ?thesis using False True by (simp add: SET_GO_DOWN_tier)
    next
      case w: False
      have "summary_ok m l (i div 512)"
        using Suc.prems(1) b width_div by (auto simp: tiers_ok_but_def)
      then have "tier_bit m l (i div 512)"
        using word_at_nonzero [OF w] by (simp add: summary_ok_def)
      then have "tier_bit ?m' l (i div 512)"
        using tier_bit_set_tier [OF width_less [OF b(1,2)] width_less [OF b(1) width_div [OF b(2)]]] by simp
      then have "tiers_ok d n ?m'" using s tiers_ok_butD by (auto simp: summary_ok_def)
      then show ?thesis using w d by (simp add: SET_GO_DOWN_tier)
    qed
  qed
qed

lemma zap_summaries_correct:
  "tiers_ok_but d n m t i \<Longrightarrow> \<not> group_nonzero m (Suc t) i \<Longrightarrow>
   tiers_ok d n (zap_summaries m t i) \<and> same_data d n m (zap_summaries m t i)"
proof (induction t arbitrary: m i)
  case 0
  then have "n \<le> 512" "i < n" "0 < d" by (auto simp: tiers_ok_but_def)
  then show ?case using tiers_ok_but_zap [OF 0] same_data_tier(2) [of n i 0] by (simp add: ZAP_SIMPLE_tier)
next
  case (Suc l)
  let ?m' = "zap_tier m (Suc l) i"
  note s = tiers_ok_but_zap [OF Suc.prems, simplified]
  have b: "n \<le> 512" "i < width n (Suc l)" "Suc l < d" using Suc.prems(1) by (auto simp: tiers_ok_but_def)
  note d = same_data_tier(2) [OF b, of m]
  show ?case
  proof (cases "tier_bit m (Suc l) i")
    case False
    then have "tiers_ok d n m" using Suc.prems tiers_ok_butD by (auto simp: summary_ok_def)
    then show ?thesis using False zap_tier_id [OF False] by (simp add: ZAP_GO_DOWN_tier)
  next
    case True
    show ?thesis
    proof (cases "group_nonzero ?m' (Suc l) (i div 512)")
      case False
      have "tiers_ok d n (zap_summaries ?m' l (i div 512)) \<and> same_data d n m (zap_summaries ?m' l (i div 512))"
        using Suc.IH [OF s False] same_data_trans [OF d] by blast
      then show ?thesis using False True by (simp add: ZAP_GO_DOWN_tier)
    next
      case w: True
      have "summary_ok m l (i div 512)"
        using Suc.prems(1) b width_div by (auto simp: tiers_ok_but_def)
      then have "tier_bit m l (i div 512)"
        using group_nonzeroI [OF True] by (simp add: summary_ok_def)
      then have "tier_bit ?m' l (i div 512)"
        using tier_bit_zap_tier [OF width_less [OF b(1,2)] width_less [OF b(1) width_div [OF b(2)]]] by simp
      then have "tiers_ok d n ?m'" using s w tiers_ok_butD by (auto simp: summary_ok_def)
      then show ?thesis using w d by (simp add: ZAP_GO_DOWN_tier)
    qed
  qed
qed

section \<open>Sizes\<close>

definition data_tier :: "nat \<Rightarrow> nat" where
  "data_tier log_size = (if log_size \<le> NB then 0 else (log_size - 1) div NB)"

definition top_width :: "nat \<Rightarrow> nat" where
  "top_width log_size = 2 ^ (log_size - NB * data_tier log_size)"

lemma data_tier_level: "log_size > NB \<Longrightarrow> data_tier log_size = Suc ((log_size - NB - 1) div NB)"
proof -
  assume "log_size > NB"
  then have "log_size - 1 = (log_size - NB - 1) + NB" by simp
  then have "(log_size - 1) div NB = Suc ((log_size - NB - 1) div NB)" by (metis div_add_self2 Suc_eq_plus1 zero_neq_numeral)
  then show ?thesis using \<open>log_size > NB\<close> by (simp add: data_tier_def)
qed

lemma data_tier_le: "NB * data_tier log_size \<le> log_size"
  by (simp add: data_tier_def) (meson div_times_less_eq_dividend diff_le_self order_trans times_div_less_eq_dividend)

lemma top_width_le: "top_width log_size \<le> 512"
proof -
  have "log_size - NB * data_tier log_size \<le> 9"
  proof (cases "log_size \<le> NB")
    case False
    have "log_size - 1 - 9 * ((log_size - 1) div 9) = (log_size - 1) mod 9" by (rule minus_mult_div_eq_mod)
    moreover have "(log_size - 1) mod 9 < 9" by simp
    ultimately show ?thesis using False by (simp add: data_tier_def)
  qed (simp add: data_tier_def)
  then have "(2 :: nat) ^ (log_size - NB * data_tier log_size) \<le> 2 ^ 9" by (intro power_increasing) auto
  then show ?thesis by (simp add: top_width_def)
qed

lemma data_width: "width (top_width log_size) (data_tier log_size) = 2 ^ log_size"
proof -
  have "(2 :: nat) ^ (log_size - NB * data_tier log_size) * (2 ^ NB) ^ data_tier log_size = 2 ^ log_size"
    using data_tier_le [of log_size] by (simp only: power_mult [symmetric] power_add [symmetric]) simp
  then show ?thesis by (simp add: width_def top_width_def)
qed

lemma level_le: "log_size \<le> 45 \<Longrightarrow> log_size > NB \<Longrightarrow> (log_size - NB - 1) div NB \<le> 3"
  using div_le_mono [of "log_size - NB - 1" 35 9] by simp

section \<open>The set of indices a bit array holds\<close>

definition ba_inv :: "nat \<Rightarrow> bitarray \<Rightarrow> bool" where
  "ba_inv log_size m \<longleftrightarrow> tiers_ok (data_tier log_size) (top_width log_size) m"

definition elems :: "nat \<Rightarrow> bitarray \<Rightarrow> nat set" where
  "elems log_size m = {i. i < 2 ^ log_size \<and> tier_bit m (data_tier log_size) i}"

lemma elems_same_data:
  "same_data (data_tier log_size) (top_width log_size) m m' \<Longrightarrow> elems log_size m' = elems log_size m"
  by (auto simp: elems_def same_data_def data_width)

lemma index_less: "(i :: nat) < 2 ^ log_size \<Longrightarrow> i < 512 ^ Suc (data_tier log_size)"
  using width_less [OF top_width_le] data_width by metis

lemma elems_set_tier:
  "i < 2 ^ log_size \<Longrightarrow> elems log_size (set_tier m (data_tier log_size) i) = insert i (elems log_size m)"
  using tier_bit_set_tier [OF index_less index_less] by (auto simp: elems_def)

lemma elems_zap_tier:
  "i < 2 ^ log_size \<Longrightarrow> elems log_size (zap_tier m (data_tier log_size) i) = elems log_size m - {i}"
  using tier_bit_zap_tier [OF index_less index_less] by (auto simp: elems_def)

lemma set_data:
  assumes ok: "tiers_ok (Suc l) n m" and i: "i < width n (Suc l)"
  shows "tiers_ok_but (Suc l) n (set_tier m (Suc l) i) l (i div 512) \<and>
    group_nonzero (set_tier m (Suc l) i) (Suc l) (i div 512)"
proof -
  note b = ok [unfolded tiers_ok_def]
  have n: "n \<le> 512" using b by blast
  have T: "tier_bit (set_tier m (Suc l) i) t' i' \<longleftrightarrow> tier_bit m t' i' \<or> t' = Suc l \<and> i' = i" if "i' < 512 ^ Suc t'" for t' i'
    by (rule tier_bit_set_tier [OF width_less [OF n i] that])
  have "summary_ok (set_tier m (Suc l) i) t' i'" if "t' < Suc l" "i' < width n t'" "(t', i') \<noteq> (l, i div 512)" for t' i'
    using that b group_nonzero_set_tier [OF n i that(2)] T [OF width_less [OF n that(2)]]
    by (auto simp: summary_ok_def)
  moreover have "\<not> tier_bit (set_tier m (Suc l) i) 0 i'" if "n \<le> i'" "i' < 512" for i'
    using b that T [of i' 0] by simp
  moreover have "group_nonzero (set_tier m (Suc l) i) (Suc l) (i div 512)"
    by (rule group_nonzeroI) (use T [OF width_less [OF n i]] in simp)
  ultimately show ?thesis using n width_div [OF i] by (auto simp: tiers_ok_but_def)
qed

lemma zap_data:
  assumes ok: "tiers_ok (Suc l) n m" and i: "i < width n (Suc l)"
  shows "tiers_ok_but (Suc l) n (zap_tier m (Suc l) i) l (i div 512)"
proof -
  note b = ok [unfolded tiers_ok_def]
  have n: "n \<le> 512" using b by blast
  have T: "tier_bit (zap_tier m (Suc l) i) t' i' \<longleftrightarrow> tier_bit m t' i' \<and> \<not> (t' = Suc l \<and> i' = i)" if "i' < 512 ^ Suc t'" for t' i'
    by (rule tier_bit_zap_tier [OF width_less [OF n i] that])
  have "summary_ok (zap_tier m (Suc l) i) t' i'" if "t' < Suc l" "i' < width n t'" "(t', i') \<noteq> (l, i div 512)" for t' i'
  proof -
    have o: "\<not> (Suc l = Suc t' \<and> i' = i div 512)" using that(3) by auto
    show ?thesis
      using that b group_nonzero_zap_tier_other [OF n i that(2) o] T [OF width_less [OF n that(2)]]
      by (auto simp: summary_ok_def)
  qed
  moreover have "\<not> tier_bit (zap_tier m (Suc l) i) 0 i'" if "n \<le> i'" "i' < 512" for i'
    using b that T [of i' 0] by simp
  ultimately show ?thesis using n width_div [OF i] by (auto simp: tiers_ok_but_def)
qed

lemma set_and_summaries:
  assumes ok: "tiers_ok (Suc l) n m" and i: "i < width n (Suc l)"
  defines "m' \<equiv> set_tier m (Suc l) i"
  shows "word_at m (Suc l) i \<noteq> 0 \<Longrightarrow> tiers_ok (Suc l) n m'"
    and "tiers_ok (Suc l) n (set_summaries m' l (i div 512))"
    and "same_data (Suc l) n m' (set_summaries m' l (i div 512))"
proof -
  note s = set_data [OF ok i, folded m'_def]
  have n: "n \<le> 512" using ok by (simp add: tiers_ok_def)
  show "tiers_ok (Suc l) n m'" if "word_at m (Suc l) i \<noteq> 0"
  proof -
    have "tier_bit m l (i div 512)"
      using summary_okD [OF ok lessI width_div [OF i]] word_at_nonzero [OF that] by simp
    then have "tier_bit m' l (i div 512)"
      using tier_bit_set_tier [OF width_less [OF n i] width_less [OF n width_div [OF i]]] by (simp add: m'_def)
    then show ?thesis using s tiers_ok_butD by (auto simp: summary_ok_def)
  qed
  show "tiers_ok (Suc l) n (set_summaries m' l (i div 512))" "same_data (Suc l) n m' (set_summaries m' l (i div 512))"
    using set_summaries_correct s by blast+
qed

lemma zap_and_summaries:
  assumes ok: "tiers_ok (Suc l) n m" and i: "i < width n (Suc l)" and was: "tier_bit m (Suc l) i"
  defines "m' \<equiv> zap_tier m (Suc l) i"
  shows "group_nonzero m' (Suc l) (i div 512) \<Longrightarrow> tiers_ok (Suc l) n m'"
    and "\<not> group_nonzero m' (Suc l) (i div 512) \<Longrightarrow> tiers_ok (Suc l) n (zap_summaries m' l (i div 512))"
    and "\<not> group_nonzero m' (Suc l) (i div 512) \<Longrightarrow> same_data (Suc l) n m' (zap_summaries m' l (i div 512))"
proof -
  note s = zap_data [OF ok i, folded m'_def]
  have n: "n \<le> 512" using ok by (simp add: tiers_ok_def)
  show "tiers_ok (Suc l) n m'" if "group_nonzero m' (Suc l) (i div 512)"
  proof -
    have "tier_bit m l (i div 512)"
      using summary_okD [OF ok lessI width_div [OF i]] group_nonzeroI [OF was] by simp
    then have "tier_bit m' l (i div 512)"
      using tier_bit_zap_tier [OF width_less [OF n i] width_less [OF n width_div [OF i]]] by (simp add: m'_def)
    then show ?thesis using s that tiers_ok_butD by (auto simp: summary_ok_def)
  qed
  assume "\<not> group_nonzero m' (Suc l) (i div 512)"
  then show "tiers_ok (Suc l) n (zap_summaries m' l (i div 512))" "same_data (Suc l) n m' (zap_summaries m' l (i div 512))"
    using zap_summaries_correct s by blast+
qed

section \<open>The operations on the set\<close>

lemma small_tiers_ok:
  assumes "log_size \<le> NB" "ba_inv log_size m" "i < 2 ^ log_size"
  shows "ba_inv log_size (set_tier m 0 i)" "ba_inv log_size (zap_tier m 0 i)"
proof -
  have d: "data_tier log_size = 0" "top_width log_size = 2 ^ log_size"
    using assms(1) by (simp_all add: data_tier_def top_width_def)
  have "i < 512 ^ Suc 0" using index_less [OF assms(3)] d by simp
  then show "ba_inv log_size (set_tier m 0 i)" "ba_inv log_size (zap_tier m 0 i)"
    using assms(2,3) tier_bit_set_tier [of i 0 _ 0 m] tier_bit_zap_tier [of i 0 _ 0 m]
    by (auto simp: ba_inv_def tiers_ok_def d)
qed

lemma SET_CHANGED_tier: "SET_CHANGED m 0 i = (set_tier m 0 i, \<not> tier_bit m 0 i)"
  using set_tier_id [of m 0 i]
  by (auto simp: SET_CHANGED_def word_set_bit_changed_def Let_def set_tier_def tier_bit_def take_bit_eq_mod
      BIT_SET_eq eq_commute [of "m _"])

lemma ZAP_CHANGED_tier: "ZAP_CHANGED m 0 i = (zap_tier m 0 i, tier_bit m 0 i)"
  using zap_tier_id [of m 0 i]
  by (auto simp: ZAP_CHANGED_def word_zap_bit_changed_def Let_def zap_tier_def tier_bit_def take_bit_eq_mod
      BIT_ZAP_eq eq_commute [of "m _"])

lemma bitarray_get_correct:
  assumes "log_size < 31" "i < 2 ^ log_size"
  shows "bitarray_get m log_size i = Some (i \<in> elems log_size m)"
proof -
  have "GET_SIMPLE m (levels_num_words l + i div 512 * 8) (take_bit 9 i) = tier_bit m (Suc l) i" for l
    by (simp add: GET_SIMPLE_def word_get_bit_simple_def addr BIT_GET_iff tier_bit_def)
  moreover have "GET_SIMPLE m 0 i = tier_bit m 0 i"
    by (simp add: GET_SIMPLE_def word_get_bit_simple_def take_bit_eq_mod BIT_GET_iff tier_bit_def)
  ultimately show ?thesis
    using assms data_tier_level [of log_size]
    by (auto simp: bitarray_get_def size_asserted_def index_asserted_def Let_def elems_def data_tier_def)
qed

lemma bitarray_set_correct:
  assumes inv: "ba_inv log_size m" and l: "log_size < 31" and i: "i < 2 ^ log_size"
  shows "\<exists>m'. bitarray_set m log_size i = Some (m', i \<notin> elems log_size m) \<and>
    ba_inv log_size m' \<and> elems log_size m' = insert i (elems log_size m)"
proof (cases "log_size \<le> NB")
  case True
  then have "data_tier log_size = 0" by (simp add: data_tier_def)
  then show ?thesis
    using True l i small_tiers_ok(1) [OF True inv i] elems_set_tier [OF i, of m]
    by (simp add: bitarray_set_def size_asserted_def index_asserted_def SET_CHANGED_tier elems_def)
next
  case False
  let ?l = "(log_size - NB - 1) div NB" and ?n = "top_width log_size"
  let ?m' = "set_tier m (Suc ?l) i"
  have d: "data_tier log_size = Suc ?l" using data_tier_level False by simp
  have iw: "i < width ?n (Suc ?l)" using i data_width d by metis
  have ok: "tiers_ok (Suc ?l) ?n m" using inv d by (simp add: ba_inv_def)
  note s = set_and_summaries [OF ok iw]
  have e: "elems log_size ?m' = insert i (elems log_size m)" using elems_set_tier [OF i, of m] d by simp
  have mem: "i \<in> elems log_size m \<longleftrightarrow> tier_bit m (Suc ?l) i" using i d by (simp add: elems_def)
  have eq: "bitarray_set m log_size i =
    (if tier_bit m (Suc ?l) i then Some (?m', False)
     else if word_at m (Suc ?l) i \<noteq> 0 then Some (?m', True) else Some (set_summaries ?m' ?l (i div 512), True))"
    using False l i level_le [of log_size]
    by (simp add: bitarray_set_def size_asserted_def index_asserted_def SET_CHANGED_GO_DOWN_tier Let_def)
  consider (set) "tier_bit m (Suc ?l) i" | (word) "\<not> tier_bit m (Suc ?l) i" "word_at m (Suc ?l) i \<noteq> 0"
    | (down) "\<not> tier_bit m (Suc ?l) i" "word_at m (Suc ?l) i = 0" by blast
  then show ?thesis
  proof cases
    case set
    then show ?thesis using eq mem inv e set_tier_id [OF set] by simp
  next
    case word
    then show ?thesis using eq mem s(1) e d by (simp add: ba_inv_def)
  next
    case down
    then show ?thesis using eq mem s(2,3) e d elems_same_data by (simp add: ba_inv_def)
  qed
qed

lemma bitarray_zap_correct:
  assumes inv: "ba_inv log_size m" and l: "log_size < 31" and i: "i < 2 ^ log_size"
  shows "\<exists>m'. bitarray_zap m log_size i = Some (m', i \<in> elems log_size m) \<and>
    ba_inv log_size m' \<and> elems log_size m' = elems log_size m - {i}"
proof (cases "log_size \<le> NB")
  case True
  then have "data_tier log_size = 0" by (simp add: data_tier_def)
  then show ?thesis
    using True l i small_tiers_ok(2) [OF True inv i] elems_zap_tier [OF i, of m]
    by (simp add: bitarray_zap_def size_asserted_def index_asserted_def ZAP_CHANGED_tier elems_def)
next
  case False
  let ?l = "(log_size - NB - 1) div NB" and ?n = "top_width log_size"
  let ?m' = "zap_tier m (Suc ?l) i"
  have d: "data_tier log_size = Suc ?l" using data_tier_level False by simp
  have iw: "i < width ?n (Suc ?l)" using i data_width d by metis
  have ok: "tiers_ok (Suc ?l) ?n m" using inv d by (simp add: ba_inv_def)
  have e: "elems log_size ?m' = elems log_size m - {i}" using elems_zap_tier [OF i, of m] d by simp
  have mem: "i \<in> elems log_size m \<longleftrightarrow> tier_bit m (Suc ?l) i" using i d by (simp add: elems_def)
  have eq: "bitarray_zap m log_size i =
    (if \<not> tier_bit m (Suc ?l) i then Some (?m', False)
     else if group_nonzero ?m' (Suc ?l) (i div 512) then Some (?m', True)
     else Some (zap_summaries ?m' ?l (i div 512), True))"
    using False l i level_le [of log_size]
    by (simp add: bitarray_zap_def size_asserted_def index_asserted_def ZAP_CHANGED_GO_DOWN_tier Let_def)
  show ?thesis
  proof (cases "tier_bit m (Suc ?l) i")
    case False
    then show ?thesis using eq mem inv e zap_tier_id [OF False] by simp
  next
    case True
    note s = zap_and_summaries [OF ok iw True]
    show ?thesis
    proof (cases "group_nonzero ?m' (Suc ?l) (i div 512)")
      case g: True
      then show ?thesis using eq True mem s(1) e d by (simp add: ba_inv_def)
    next
      case g: False
      then show ?thesis using eq True mem s(2,3) [OF g] e d elems_same_data by (simp add: ba_inv_def)
    qed
  qed
qed

section \<open>Finding the first set bit\<close>

lemma ffsll_0: "ffsll w = 0 \<longleftrightarrow> w = 0"
  by (auto simp: ffsll_def find_None_iff find_Some_iff word_zero_iff split: option.splits)

lemma ffsll_least:
  assumes "w \<noteq> 0"
  shows "ffsll w - 1 < 64 \<and> bit w (ffsll w - 1) \<and> (\<forall>j < ffsll w - 1. \<not> bit w j)"
proof -
  obtain f where f: "find (bit w) [0..<64] = Some f"
    using assms by (auto simp: ffsll_0 [symmetric] ffsll_def split: option.splits)
  then have "ffsll w - 1 = f" by (simp add: ffsll_def)
  then show ?thesis using f by (auto simp: find_Some_iff)
qed

lemma FFS_from_least:
  assumes "FFS_from m p [k..<8] = f"
  shows "(f = 0 \<and> (\<forall>w. k \<le> w \<and> w < 8 \<longrightarrow> m (p + w) = 0)) \<or>
    (0 < f \<and> f - 1 < 512 \<and> bit (m (p + (f - 1) div 64)) ((f - 1) mod 64) \<and>
     (\<forall>j. k * 64 \<le> j \<and> j < f - 1 \<longrightarrow> \<not> bit (m (p + j div 64)) (j mod 64)))"
  using assms
proof (induction "8 - k" arbitrary: k)
  case 0
  then show ?case by auto
next
  case (Suc x)
  then have k: "[k..<8] = k # [Suc k..<8]" "k < 8" by (simp_all add: upt_conv_Cons)
  show ?case
  proof (cases "m (p + k) = 0")
    case True
    then have "FFS_from m p [Suc k..<8] = f" using Suc.prems k ffsll_0 [of 0] by simp
    moreover have "x = 8 - Suc k" using Suc.hyps(2) by simp
    ultimately have ih: "(f = 0 \<and> (\<forall>w. Suc k \<le> w \<and> w < 8 \<longrightarrow> m (p + w) = 0)) \<or>
      (0 < f \<and> f - 1 < 512 \<and> bit (m (p + (f - 1) div 64)) ((f - 1) mod 64) \<and>
       (\<forall>j. Suc k * 64 \<le> j \<and> j < f - 1 \<longrightarrow> \<not> bit (m (p + j div 64)) (j mod 64)))"
      by (intro Suc.hyps(1))
    have z: "\<not> bit (m (p + j div 64)) (j mod 64)" if "k * 64 \<le> j" "\<not> Suc k * 64 \<le> j" for j
    proof -
      have "j div 64 = k" using that by (intro div_nat_eqI) simp_all
      then show ?thesis using True by simp
    qed
    have "m (p + w) = 0" if "k \<le> w" "\<not> Suc k \<le> w" for w using that True by (metis not_less_eq_eq le_antisym)
    then show ?thesis using ih z by blast
  next
    case False
    note f = ffsll_least [OF False]
    let ?g = "ffsll (m (p + k)) - 1"
    have "ffsll (m (p + k)) \<noteq> 0" using False ffsll_0 by simp
    then have fe: "f - 1 = k * 64 + ?g" "0 < f"
      using Suc.prems k by (auto simp: push_bit_eq_mult)
    have "(k * 64 + ?g) div 64 = k" "(k * 64 + ?g) mod 64 = ?g" using f by simp_all
    moreover have "k * 64 + ?g < 512" using f k(2) by simp
    moreover have "\<not> bit (m (p + j div 64)) (j mod 64)" if "k * 64 \<le> j" "j < k * 64 + ?g" for j
    proof -
      have "j div 64 = k" using that f by (intro div_nat_eqI) simp_all
      moreover have "j mod 64 < ?g" using that \<open>j div 64 = k\<close> by (simp add: modulo_nat_def)
      ultimately show ?thesis using f by simp
    qed
    ultimately show ?thesis using f fe by (simp only:) simp
  qed
qed

lemma FFS_group:
  "if group_nonzero m t g
   then 0 < FFS m (tier_start t + g * 8) \<and> FFS m (tier_start t + g * 8) - 1 < 512 \<and>
     tier_bit m t (g * 512 + (FFS m (tier_start t + g * 8) - 1)) \<and>
     (\<forall>j < FFS m (tier_start t + g * 8) - 1. \<not> tier_bit m t (g * 512 + j))
   else FFS m (tier_start t + g * 8) = 0"
proof -
  have a: "tier_bit m t (g * 512 + j) = bit (m (tier_start t + g * 8 + j div 64)) (j mod 64)" for j
    by (simp only: tier_bit_def group_div group_mod add.assoc)
  have "all_zeros m (tier_start t + g * 8)" if "\<forall>w < 8. m (tier_start t + g * 8 + w) = 0"
    using that by (simp add: all_zeros_def list_all_iff)
  then show ?thesis
    using FFS_from_least [of m "tier_start t + g * 8" 0 "FFS m (tier_start t + g * 8)"]
    unfolding FFS_def group_nonzero_def a all_zeros_iff group_nonzero_def by auto
qed

definition least_at :: "bitarray \<Rightarrow> nat \<Rightarrow> nat \<Rightarrow> nat \<Rightarrow> bool" where
  "least_at m n t b \<longleftrightarrow> b < width n t \<and> tier_bit m t b \<and> (\<forall>b' < b. \<not> tier_bit m t b')"

lemma least_at_top:
  assumes "tiers_ok d n m"
  shows "if \<exists>i < n. tier_bit m 0 i then 0 < FFS m 0 \<and> least_at m n 0 (FFS m 0 - 1) else FFS m 0 = 0"
proof -
  have u: "tier_bit m 0 j \<Longrightarrow> j < 512 \<Longrightarrow> j < n" and n: "n \<le> 512" for j
    using assms by (auto simp: tiers_ok_def not_less [symmetric])
  have "group_nonzero m 0 0 \<longleftrightarrow> (\<exists>i < n. tier_bit m 0 i)"
    using u n by (auto simp: group_nonzero_def intro: less_le_trans)
  then show ?thesis using FFS_group [of m 0 0, simplified] u by (auto simp: least_at_def split: if_splits)
qed

lemma least_at_Suc:
  assumes ok: "tiers_ok d n m" and t: "t < d" and b: "least_at m n t b"
  defines "f \<equiv> FFS m (tier_start (Suc t) + b * 8)"
  shows "least_at m n (Suc t) (b * 512 + f - 1) \<and> 0 < f"
proof -
  have bw: "b < width n t" using b by (simp add: least_at_def)
  have g: "group_nonzero m (Suc t) b" using summary_okD [OF ok t bw] b by (simp add: least_at_def)
  then have f: "0 < f" "f - 1 < 512" "tier_bit m (Suc t) (b * 512 + (f - 1))"
    "\<And>j. j < f - 1 \<Longrightarrow> \<not> tier_bit m (Suc t) (b * 512 + j)"
    using FFS_group [of m "Suc t" b] unfolding f_def by (simp_all only: if_True not_False_eq_True)
  have "\<not> tier_bit m (Suc t) j" if "j < b * 512 + (f - 1)" for j
  proof (cases "j div 512 = b")
    case True
    then have "j = b * 512 + j mod 512" by auto
    then show ?thesis using f(4) [of "j mod 512"] that by (metis nat_add_left_cancel_less)
  next
    case False
    have "j < b * 512 + 512" using that f(2) by linarith
    then have "j div 512 < b" using False by (simp add: div_less_iff_less_mult)
    then have "\<not> tier_bit m t (j div 512)" "j div 512 < width n t" using b bw by (auto simp: least_at_def)
    then show ?thesis using summary_okD [OF ok t] group_nonzeroI by blast
  qed
  moreover have "b * 512 + (f - 1) < width n (Suc t)" using width_group [OF bw f(2)] .
  moreover have "b * 512 + f - 1 = b * 512 + (f - 1)" using f(1) by simp
  ultimately show ?thesis using f by (simp add: least_at_def)
qed

text \<open>Descending through the summaries: \<open>words\<close> is the start of the tier that \<open>base\<close> indexes.\<close>

lemma ADJUST_step:
  assumes "tiers_ok d n m" "t < d" "least_at m n t b"
  shows "\<exists>b'. ADJUST_OFFSET_FOR_FFS m t (tier_start t, b) = (tier_start (Suc t), b') \<and> least_at m n (Suc t) b'"
  using least_at_Suc [OF assms]
  by (simp add: ADJUST_OFFSET_FOR_FFS_def Let_def push_bit_eq_mult power_mult tier_start_Suc del: tier_start_simps)

lemma ADJUST_ACROSS:
  assumes ok: "tiers_ok d n m" and d: "1 \<le> d" "d \<le> 4" and b: "least_at m n 0 b"
  shows "\<exists>b'. ADJUST_OFFSET_FOR_FFS_ACROSS_SUMMARIES m d (0, b) = Some (tier_start (d - 1), b') \<and> least_at m n (d - 1) b'"
proof -
  have s0: "tier_start 0 = 0" by simp
  consider "d = 1" | "d = 2" | "d = 3" | "d = 4" using d by linarith
  then show ?thesis
  proof cases
    case 1
    then show ?thesis using b by (simp add: ADJUST_OFFSET_FOR_FFS_ACROSS_SUMMARIES_def)
  next
    case 2
    then show ?thesis using ADJUST_step [OF ok _ b]
      by (simp add: ADJUST_OFFSET_FOR_FFS_ACROSS_SUMMARIES_def)
  next
    case 3
    then obtain b1 where 1: "ADJUST_OFFSET_FOR_FFS m 0 (0, b) = (tier_start 1, b1)" "least_at m n 1 b1"
      using ADJUST_step [OF ok _ b] s0 by auto
    then obtain b2 where "ADJUST_OFFSET_FOR_FFS m 1 (tier_start 1, b1) = (tier_start 2, b2)" "least_at m n 2 b2"
      using ADJUST_step [OF ok _ 1(2)] 3 by (auto simp: numeral_2_eq_2)
    then show ?thesis using 1 3 by (simp add: ADJUST_OFFSET_FOR_FFS_ACROSS_SUMMARIES_def)
  next
    case 4
    then obtain b1 where 1: "ADJUST_OFFSET_FOR_FFS m 0 (0, b) = (tier_start 1, b1)" "least_at m n 1 b1"
      using ADJUST_step [OF ok _ b] s0 by auto
    then obtain b2 where 2: "ADJUST_OFFSET_FOR_FFS m 1 (tier_start 1, b1) = (tier_start 2, b2)" "least_at m n 2 b2"
      using ADJUST_step [OF ok _ 1(2)] 4 by (auto simp: numeral_2_eq_2)
    then obtain b3 where "ADJUST_OFFSET_FOR_FFS m 2 (tier_start 2, b2) = (tier_start 3, b3)" "least_at m n 3 b3"
      using ADJUST_step [OF ok _ 2(2)] 4 by (auto simp: numeral_3_eq_3 numeral_2_eq_2)
    then show ?thesis using 1 2 4 by (simp add: ADJUST_OFFSET_FOR_FFS_ACROSS_SUMMARIES_def)
  qed
qed

text \<open>Some bit of the data is set exactly when some bit of every tier is.\<close>

lemma tier_nonempty:
  assumes "tiers_ok d n m" "t \<le> d"
  shows "(\<exists>i < width n t. tier_bit m t i) \<longleftrightarrow> (\<exists>i < n. tier_bit m 0 i)"
  using assms(2)
proof (induction t)
  case (Suc t)
  have "(\<exists>i < width n (Suc t). tier_bit m (Suc t) i) \<longleftrightarrow> (\<exists>i < width n t. tier_bit m t i)"
  proof
    assume "\<exists>i < width n (Suc t). tier_bit m (Suc t) i"
    then show "\<exists>i < width n t. tier_bit m t i"
      using summary_okD [OF assms(1)] Suc.prems width_div group_nonzeroI Suc_le_lessD by metis
  next
    assume "\<exists>i < width n t. tier_bit m t i"
    then show "\<exists>i < width n (Suc t). tier_bit m (Suc t) i"
      using summary_okD [OF assms(1)] Suc.prems width_group Suc_le_lessD unfolding group_nonzero_def by metis
  qed
  then show ?case using Suc by simp
qed simp

lemma elems_empty_iff:
  "ba_inv log_size m \<Longrightarrow> elems log_size m = {} \<longleftrightarrow> \<not> (\<exists>i < top_width log_size. tier_bit m 0 i)"
  using tier_nonempty [of "data_tier log_size" "top_width log_size" m "data_tier log_size"]
  by (auto simp: ba_inv_def elems_def data_width)

lemma least_at_Min:
  assumes "least_at m (top_width log_size) (data_tier log_size) b"
  shows "b < 2 ^ log_size" "b \<in> elems log_size m" "Min (elems log_size m) = b"
proof -
  show b: "b < 2 ^ log_size" "b \<in> elems log_size m" using assms by (auto simp: least_at_def elems_def data_width)
  show "Min (elems log_size m) = b"
    using b assms by (intro Min_eqI) (auto simp: least_at_def elems_def not_less [symmetric])
qed

lemma top_found:
  assumes "ba_inv log_size m"
  shows "elems log_size m = {} \<Longrightarrow> FFS m 0 = 0"
    and "elems log_size m \<noteq> {} \<Longrightarrow> 0 < FFS m 0 \<and> least_at m (top_width log_size) 0 (FFS m 0 - 1)"
  using least_at_top [OF assms [unfolded ba_inv_def]] elems_empty_iff [OF assms] by (simp_all split: if_splits)

lemma locate:
  assumes inv: "ba_inv log_size m" and big: "NB < log_size" and l: "log_size \<le> 45"
    and ne: "elems log_size m \<noteq> {}"
  defines "d \<equiv> (log_size - 1) div NB"
  obtains b where "0 < FFS m 0"
    "ADJUST_OFFSET_FOR_FFS_ACROSS_SUMMARIES m d (0, FFS m 0 - 1) = Some (tier_start (d - 1), b)"
    "tier_start (d - 1) + 2 ^ (NB * (d - 1)) * NUM_64b = tier_start d"
    "least_at m (top_width log_size) (d - 1) b"
    "0 < FFS m (tier_start d + b * 8)"
    "b * 512 + FFS m (tier_start d + b * 8) - 1 = Min (elems log_size m)"
proof -
  let ?n = "top_width log_size"
  have dt: "data_tier log_size = d" using big by (simp add: d_def data_tier_def)
  have ok: "tiers_ok d ?n m" using inv dt by (simp add: ba_inv_def)
  have d: "1 \<le> d" "d \<le> 4"
    using big l div_le_mono [of 9 "log_size - 1" 9] div_le_mono [of "log_size - 1" 44 9] by (simp_all add: d_def)
  then have Suc: "d = Suc (d - 1)" "d - 1 < d" by simp_all
  have top: "0 < FFS m 0" "least_at m ?n 0 (FFS m 0 - 1)"
    using top_found(2) [OF inv ne] by blast+
  from ADJUST_ACROSS [OF ok d top(2)] obtain b where b:
    "ADJUST_OFFSET_FOR_FFS_ACROSS_SUMMARIES m d (0, FFS m 0 - 1) = Some (tier_start (d - 1), b)"
    "least_at m ?n (d - 1) b" by blast
  have ts: "tier_start (d - 1) + 2 ^ (NB * (d - 1)) * NUM_64b = tier_start d"
    by (subst (3) Suc(1), subst tier_start_Suc) (simp add: power_mult)
  have "least_at m ?n d (b * 512 + FFS m (tier_start d + b * 8) - 1) \<and> 0 < FFS m (tier_start d + b * 8)"
    using least_at_Suc [OF ok Suc(2) b(2)] Suc(1) by metis
  then show thesis using that [OF top(1) b(1) ts b(2)] least_at_Min(3) dt by metis
qed

lemma first_set_correct:
  assumes inv: "ba_inv log_size m" and l: "log_size \<le> 45"
  shows "bitarray_first_set m log_size =
    Some (if elems log_size m = {} then 0 else Min (elems log_size m) + 1)"
proof (cases "elems log_size m = {}")
  case True
  then have "FFS m 0 = 0" by (rule top_found(1) [OF inv])
  then show ?thesis using True l by (simp add: bitarray_first_set_def size_asserted_def)
next
  case ne: False
  show ?thesis
  proof (cases "log_size \<le> NB")
    case True
    then have d: "data_tier log_size = 0" by (simp add: data_tier_def)
    have "0 < FFS m 0 \<and> least_at m (top_width log_size) 0 (FFS m 0 - 1)"
      by (rule top_found(2) [OF inv ne])
    then show ?thesis using True ne d least_at_Min(3) [of m log_size "FFS m 0 - 1"]
      by (simp add: bitarray_first_set_def size_asserted_def)
  next
    case False
    let ?d = "(log_size - 1) div NB"
    have "NB < log_size" using False by simp
    then obtain b where b: "0 < FFS m 0" "0 < FFS m (tier_start ?d + b * 8)"
      "ADJUST_OFFSET_FOR_FFS_ACROSS_SUMMARIES m ?d (0, FFS m 0 - 1) = Some (tier_start (?d - 1), b)"
      "tier_start (?d - 1) + 2 ^ (NB * (?d - 1)) * NUM_64b = tier_start ?d"
      "b * 512 + FFS m (tier_start ?d + b * 8) - 1 = Min (elems log_size m)"
      using locate [OF inv _ l ne] by metis
    then show ?thesis
      using False ne l by (simp add: bitarray_first_set_def size_asserted_def Let_def push_bit_eq_mult)
  qed
qed

lemma unsigned_level:
  assumes "0 < log_size" "log_size < 31"
  shows "unsigned_level log_size = (log_size - 1) div NB"
proof -
  have "(of_nat log_size - 1 :: u32) = of_nat (log_size - 1)" using assms(1) by simp
  moreover have "unat (of_nat (log_size - 1) :: u32) = log_size - 1" using assms(2) by (intro of_nat_u32_small) simp
  ultimately show ?thesis by (simp add: unsigned_level_def unat_div)
qed

lemma zap_first_set_correct:
  assumes inv: "ba_inv log_size m" and l: "0 < log_size" "log_size < 31" and ne: "elems log_size m \<noteq> {}"
  shows "\<exists>m'. bitarray_zap_first_set m log_size = Some (m', Some (Min (elems log_size m))) \<and>
    ba_inv log_size m' \<and> elems log_size m' = elems log_size m - {Min (elems log_size m)}"
proof (cases "log_size \<le> NB")
  case True
  then have d: "data_tier log_size = 0" "(log_size - 1) div NB = 0" by (simp_all add: data_tier_def)
  have t: "0 < FFS m 0 \<and> least_at m (top_width log_size) 0 (FFS m 0 - 1)"
    by (rule top_found(2) [OF inv ne])
  then have i: "FFS m 0 - 1 < 2 ^ log_size" "Min (elems log_size m) = FFS m 0 - 1"
    using least_at_Min [of m log_size] d by metis+
  have "ZAP_SIMPLE m 0 (FFS m 0 - 1) = zap_tier m 0 (FFS m 0 - 1)"
    using index_less [OF i(1)] d ZAP_SIMPLE_tier [of "FFS m 0 - 1" m] by (simp add: take_bit_eq_mod)
  then show ?thesis
    using t d i l small_tiers_ok(2) [OF True inv i(1)] elems_zap_tier [OF i(1), of m]
    by (simp add: bitarray_zap_first_set_def size_asserted_def Let_def unsigned_level)
next
  case big: False
  define d where "d = (log_size - 1) div NB"
  define lv where "lv = (log_size - NB - 1) div NB"
  let ?i = "Min (elems log_size m)"
  have big': "NB < log_size" and l': "log_size \<le> 45" using big l by simp_all
  have dl: "d = Suc lv" using data_tier_level [of log_size] big by (simp add: data_tier_def d_def lv_def)
  obtain b where b: "0 < FFS m 0"
    "ADJUST_OFFSET_FOR_FFS_ACROSS_SUMMARIES m d (0, FFS m 0 - 1) = Some (tier_start (d - 1), b)"
    "tier_start (d - 1) + 2 ^ (NB * (d - 1)) * NUM_64b = tier_start d"
    "b * 512 + FFS m (tier_start d + b * 8) - 1 = ?i"
    using locate [OF inv big' l' ne] unfolding d_def by metis
  have mem: "?i \<in> elems log_size m" using ne by (intro Min_in) (simp_all add: elems_def)
  then have i: "?i < 2 ^ log_size" by (simp add: elems_def)
  obtain m1 c z where z: "ZAP_CHANGED_GO_DOWN m (levels_num_words lv + ?i div 512 * 8) (take_bit 9 ?i) = (m1, c, z)"
    using prod_cases3 by blast
  let ?r = "if \<not> c then m1 else if z = Some False then m1 else zap_summaries m1 lv (?i div 512)"
  have first: "bitarray_zap_first_set m log_size = Some (?r, Some ?i)"
    unfolding bitarray_zap_first_set_def unsigned_level [OF l] d_def [symmetric] Let_def
    using b l' l i level_le [OF l' big'] dl z
    by (simp add: size_asserted_def index_asserted_def push_bit_eq_mult ZAP_SUMMARIES_def lv_def)
  have "bitarray_zap m log_size ?i = Some (?r, c)"
    unfolding bitarray_zap_def lv_def [symmetric] Let_def
    using l' l i level_le [OF l' big'] z big
    by (simp add: size_asserted_def index_asserted_def lv_def)
  with bitarray_zap_correct [OF inv l(2) i]
  have "ba_inv log_size ?r \<and> elems log_size ?r = elems log_size m - {?i}" by (metis option.inject prod.inject)
  then show ?thesis using first by blast
qed

section \<open>Zapping several bits\<close>

definition word_bits :: "u64 \<Rightarrow> nat list" where
  "word_bits w = filter (bit w) [0..<64]"

lemma word_bits_zap:
  assumes "w \<noteq> 0"
  shows "word_bits w = (ffsll w - 1) # word_bits (BIT_ZAP w (ffsll w - 1))"
proof -
  let ?f = "ffsll w - 1"
  note f = ffsll_least [OF assms]
  have u: "[0..<64] = [0..<?f] @ ?f # [Suc ?f..<64]"
    using f by (metis (no_types, lifting) append_Cons less_imp_le_nat upt_add_eq_append upt_conv_Cons le_add_diff_inverse zero_le)
  have "filter (bit w) [0..<?f] = []" using f by (auto simp: filter_empty_conv)
  moreover have "filter (bit (BIT_ZAP w ?f)) [0..<?f] = []" using f by (auto simp: filter_empty_conv bit_BIT_ZAP)
  moreover have "filter (bit (BIT_ZAP w ?f)) [Suc ?f..<64] = filter (bit w) [Suc ?f..<64]"
    by (rule filter_cong) (auto simp: bit_BIT_ZAP)
  ultimately show ?thesis unfolding word_bits_def u using f by (simp add: bit_BIT_ZAP)
qed

lemma word_bits_nil: "word_bits w = [] \<longleftrightarrow> w = 0"
  by (auto simp: word_bits_def filter_empty_conv word_zero_iff)

lemma zap_word_correct:
  assumes "w \<noteq> 0" "length ix < mx" "zap_word w mx base ix = (ix', w')"
  shows "ix' = ix @ map (\<lambda>f. f + base) (take (mx - length ix) (word_bits w)) \<and>
    (\<forall>j. bit w' j \<longleftrightarrow> bit w j \<and> j \<notin> set (take (mx - length ix) (word_bits w)))"
  using assms
proof (induction w mx base ix rule: zap_word.induct)
  case (1 w mx base ix)
  let ?f = "ffsll w - 1"
  let ?w = "BIT_ZAP w ?f" and ?ix = "ix @ [?f + base]"
  have wb: "word_bits w = ?f # word_bits ?w" using word_bits_zap [OF 1(2)] .
  obtain k where k: "mx - length ix = Suc k" using 1(3) by (metis Suc_diff_Suc)
  then have k': "mx - length ?ix = k" by simp
  show ?case
  proof (cases "?w = 0 \<or> mx \<le> length ?ix")
    case True
    then have r: "ix' = ?ix" "w' = ?w" using 1(2,4) by (auto simp: zap_word.simps [of w] Let_def split: if_splits)
    have "k = 0 \<or> word_bits ?w = []" using True k' by (auto simp: word_bits_nil)
    then have "take (mx - length ix) (word_bits w) = [?f]" using wb k by auto
    then show ?thesis using r by (simp add: bit_BIT_ZAP)
  next
    case False
    then have "zap_word ?w mx base ?ix = (ix', w')" using 1(2,4) by (simp add: zap_word.simps [of w] Let_def)
    from 1(1) [OF 1(2) refl refl refl _ _ _ _ this] False
    show ?thesis using wb k k' by (auto simp: bit_BIT_ZAP)
  qed
qed

text \<open>The set bits of the words \<open>ws\<close> of the group at \<open>p\<close>, in order.\<close>

definition words_bits :: "bitarray \<Rightarrow> nat \<Rightarrow> nat list \<Rightarrow> nat list" where
  "words_bits m p ws = concat (map (\<lambda>w. map (\<lambda>f. w * 64 + f) (word_bits (m (p + w)))) ws)"

lemma same_slot:
  assumes "w * 64 + j = w' * 64 + j'" "j < 64" "j' < (64 :: nat)"
  shows "w = w'"
proof -
  have "(w * 64 + j) div 64 = w" "(w' * 64 + j') div 64 = w'" using assms(2,3) by simp_all
  then show ?thesis using assms(1) by simp
qed

lemma zap_words_correct:
  assumes "distinct ws" "length ix < mx" "zap_words m p mx base ws ix = (m', ix')"
  shows "ix' = ix @ map (\<lambda>f. f + base) (take (mx - length ix) (words_bits m p ws)) \<and>
    (\<forall>w. w \<notin> (+) p ` set ws \<longrightarrow> m' w = m w) \<and>
    (\<forall>w j. w \<in> set ws \<longrightarrow> j < 64 \<longrightarrow> (bit (m' (p + w)) j \<longleftrightarrow> bit (m (p + w)) j \<and>
       w * 64 + j \<notin> set (take (mx - length ix) (words_bits m p ws))))"
  using assms
proof (induction ws arbitrary: m ix)
  case Nil
  then show ?case by (simp add: words_bits_def)
next
  case (Cons w ws)
  have d: "distinct ws" "w \<notin> set ws" using Cons.prems(1) by simp_all
  have out: "p + w \<notin> (+) p ` set ws" using d(2) by auto
  show ?case
  proof (cases "m (p + w) = 0")
    case True
    have "words_bits m p (w # ws) = words_bits m p ws" using True by (simp add: words_bits_def word_bits_def)
    moreover have ih: "zap_words m p mx base ws ix = (m', ix')" using Cons.prems(3) True by simp
    moreover have "m' (p + w) = 0" using Cons.IH [OF d(1) Cons.prems(2) ih] True out by metis
    ultimately show ?thesis using True Cons.IH [OF d(1) Cons.prems(2) ih] by auto
  next
    case False
    obtain ix1 w1 where z: "zap_word (m (p + w)) mx (push_bit 6 w + base) ix = (ix1, w1)" by fastforce
    let ?m1 = "m(p + w := w1)" and ?B = "word_bits (m (p + w))" and ?k = "mx - length ix"
    have c: "ix1 = ix @ map (\<lambda>f. f + (w * 64 + base)) (take ?k ?B)"
      "\<And>j. bit w1 j \<longleftrightarrow> bit (m (p + w)) j \<and> j \<notin> set (take ?k ?B)"
      using zap_word_correct [OF False Cons.prems(2) z] by (simp_all add: push_bit_eq_mult)
    have fr: "words_bits ?m1 p ws = words_bits m p ws"
      unfolding words_bits_def using d(2) by (intro arg_cong [of _ _ concat] map_cong) auto
    have wb: "words_bits m p (w # ws) = map (\<lambda>f. w * 64 + f) ?B @ words_bits m p ws" by (simp add: words_bits_def)
    have other: "w * 64 + j \<notin> set (words_bits m p ws)" if "j < 64" for j
      using that d(2) by (auto simp: words_bits_def word_bits_def dest: same_slot)
    have here: "w' * 64 + j \<notin> set (map (\<lambda>f. w * 64 + f) ?B)" if "w' \<in> set ws" "j < 64" for w' j
      using that d(2) by (auto simp: word_bits_def dest: same_slot)
    have tk: "take ?k (words_bits m p (w # ws)) = map (\<lambda>f. w * 64 + f) (take ?k ?B) @ take (?k - length ?B) (words_bits m p ws)"
      by (simp add: wb take_map)
    have inB: "w * 64 + j \<in> set (take ?k (words_bits m p (w # ws))) \<longleftrightarrow> j \<in> set (take ?k ?B)" if "j < 64" for j
      using other [OF that] by (auto simp: tk dest: in_set_takeD)
    have ix1': "ix1 = ix @ map (\<lambda>f. f + base) (map (\<lambda>f. w * 64 + f) (take ?k ?B))"
      by (simp add: c(1) add.assoc add.left_commute)
    show ?thesis
    proof (cases "mx \<le> length ix1")
      case True
      then have r: "m' = ?m1" "ix' = ix1" using Cons.prems(3) False z by simp_all
      have "?k \<le> length ?B" using True c(1) by simp
      then have "take ?k (words_bits m p (w # ws)) = map (\<lambda>f. w * 64 + f) (take ?k ?B)" by (simp add: tk)
      moreover have "bit (m' (p + w')) j \<longleftrightarrow> bit (m (p + w')) j" "w' * 64 + j \<notin> set (take ?k (words_bits m p (w # ws)))"
        if "w' \<in> set ws" "j < 64" for w' j
        using that d(2) r here [OF that] calculation by (auto dest: in_set_takeD)
      ultimately show ?thesis using r ix1' c(2) inB by auto
    next
      case False2: False
      then have "zap_words ?m1 p mx base ws ix1 = (m', ix')" using Cons.prems(3) False z by simp
      from Cons.IH [OF d(1) _ this] False2 have ih:
        "ix' = ix1 @ map (\<lambda>f. f + base) (take (mx - length ix1) (words_bits m p ws))"
        "\<And>w. w \<notin> (+) p ` set ws \<Longrightarrow> m' w = ?m1 w"
        "\<And>w' j. w' \<in> set ws \<Longrightarrow> j < 64 \<Longrightarrow> bit (m' (p + w')) j \<longleftrightarrow> bit (?m1 (p + w')) j \<and>
          w' * 64 + j \<notin> set (take (mx - length ix1) (words_bits m p ws))"
        unfolding fr by auto
      have len: "length ?B < ?k" using False2 c(1) by (auto simp: min_def split: if_splits)
      then have k: "mx - length ix1 = ?k - length ?B" "take ?k ?B = ?B" using c(1) by simp_all
      have "ix' = ix @ map (\<lambda>f. f + base) (take ?k (words_bits m p (w # ws)))"
        using ih(1) ix1' by (simp add: tk k)
      moreover have "m' (p + w) = w1" using ih(2) [OF out] by simp
      moreover have "bit (m' (p + w')) j \<longleftrightarrow> bit (m (p + w')) j \<and> w' * 64 + j \<notin> set (take ?k (words_bits m p (w # ws)))"
        if "w' \<in> set ws" "j < 64" for w' j
        using ih(3) [OF that] here [OF that] d(2) that by (auto simp: tk k)
      ultimately show ?thesis using ih(2) c(2) inB by auto
    qed
  qed
qed

lemma words_bits_group:
  "words_bits m (tier_start t + g * 8) [0..<8] = filter (\<lambda>j. tier_bit m t (g * 512 + j)) [0..<512]"
proof -
  let ?p = "tier_start t + g * 8" and ?P = "\<lambda>j. bit (m (tier_start t + g * 8 + j div 64)) (j mod 64)"
  have a: "tier_bit m t (g * 512 + j) = ?P j" for j
    by (simp only: tier_bit_def group_div group_mod add.assoc)
  have w: "map (\<lambda>f. w * 64 + f) (word_bits (m (?p + w))) = filter ?P [w * 64..<Suc w * 64]" for w
  proof -
    have "[w * 64..<Suc w * 64] = map (\<lambda>f. w * 64 + f) [0..<64]"
      using map_add_upt [of "w * 64" 64] by (simp add: add.commute)
    moreover have "filter (bit (m (?p + w))) [0..<64] = filter (\<lambda>f. ?P (w * 64 + f)) [0..<64]"
      by (rule filter_cong) simp_all
    ultimately show ?thesis by (simp only: word_bits_def filter_map comp_def)
  qed
  have "words_bits m ?p [0..<k] = filter ?P [0..<k * 64]" for k
  proof (induction k)
    case (Suc k)
    have "[0..<Suc k * 64] = [0..<k * 64] @ [k * 64..<Suc k * 64]"
      using upt_add_eq_append [of 0 "k * 64" 64] by (simp add: add.commute)
    then show ?case using Suc w [of k] by (simp add: words_bits_def)
  qed (simp add: words_bits_def)
  from this [of 8] show ?thesis by (simp add: a)
qed

lemma FFS_and_zap_word_correct:
  assumes g: "g < 512 ^ t" and mx: "0 < mx"
    and z: "FFS_and_zap_word m (tier_start t + g * 8) mx (g * 512) = (m', ix)"
  defines "B \<equiv> take mx (filter (tier_bit m t) [g * 512..<g * 512 + 512])"
  shows "ix = B \<and> (\<forall>t' i. i < 512 ^ Suc t' \<longrightarrow> tier_bit m' t' i = (tier_bit m t' i \<and> \<not> (t' = t \<and> i \<in> set B)))"
proof -
  let ?p = "tier_start t + g * 8" and ?G = "take mx (filter (\<lambda>j. tier_bit m t (g * 512 + j)) [0..<512])"
  have c: "ix = map (\<lambda>f. f + g * 512) ?G"
    "\<And>w. w \<notin> (+) ?p ` set [0..<8] \<Longrightarrow> m' w = m w"
    "\<And>w j. w \<in> set [0..<8] \<Longrightarrow> j < 64 \<Longrightarrow> bit (m' (?p + w)) j \<longleftrightarrow> bit (m (?p + w)) j \<and> w * 64 + j \<notin> set ?G"
    using zap_words_correct [OF _ _ z [unfolded FFS_and_zap_word_def]] mx unfolding words_bits_group by auto
  have "[g * 512..<g * 512 + 512] = map (\<lambda>f. f + g * 512) [0..<512]"
    using map_add_upt [of "g * 512" 512] by (simp add: add.commute)
  then have B: "B = map (\<lambda>f. f + g * 512) ?G"
    unfolding B_def by (simp add: filter_map comp_def add.commute take_map)
  have "tier_bit m' t' i = (tier_bit m t' i \<and> \<not> (t' = t \<and> i \<in> set B))" if "i < 512 ^ Suc t'" for t' i
  proof (cases "t' = t \<and> i div 512 = g")
    case True
    then have "i = g * 512 + i mod 512" by auto
    then obtain j where j: "i = g * 512 + j" "j < 512" by (metis mod_less_divisor zero_less_numeral)
    have "tier_bit m' t i = bit (m' (?p + j div 64)) (j mod 64)" "tier_bit m t i = bit (m (?p + j div 64)) (j mod 64)"
      by (simp_all only: j(1) tier_bit_def group_div group_mod add.assoc)
    moreover have "j div 64 \<in> set [0..<8]" using j(2) by auto
    moreover have "i \<in> set B \<longleftrightarrow> j div 64 * 64 + j mod 64 \<in> set ?G" by (auto simp: B j(1))
    ultimately show ?thesis using c(3) [of "j div 64" "j mod 64"] True by simp
  next
    case False
    have "tier_start t' + i div 64 \<notin> (+) ?p ` set [0..<8]"
    proof
      assume "tier_start t' + i div 64 \<in> (+) ?p ` set [0..<8]"
      then obtain w where w': "w \<in> set [0..<8]" "tier_start t' + i div 64 = ?p + w" by (elim imageE)
      then have w: "w < 8" "tier_start t' + i div 64 = tier_start t + (g * 8 + w)" by (simp_all add: add.assoc)
      have "(g * 8 + w) * 64 < Suc g * 512" using w(1) by simp
      moreover have "Suc g * 512 \<le> 512 ^ t * 512" using g by (intro mult_le_mono1) simp
      ultimately have "(g * 8 + w) * 64 < 512 ^ Suc t" by simp
      from tier_word_inj [OF that this] w have "t' = t" "i div 64 = g * 8 + w" by simp_all
      then have "i div 512 = g" using w(1) div_mult2_eq [of i 64 8] by simp
      then show False using False \<open>t' = t\<close> by simp
    qed
    then have "m' (tier_start t' + i div 64) = m (tier_start t' + i div 64)" by (rule c(2))
    moreover have "i \<notin> set B" if "t' = t"
    proof
      assume "i \<in> set B"
      then have "g * 512 \<le> i" "i < g * 512 + 512" unfolding B_def by (auto dest: in_set_takeD)
      then have "i div 512 = g" by (intro div_nat_eqI) simp_all
      then show False using False that by simp
    qed
    ultimately show ?thesis unfolding tier_bit_def by auto
  qed
  then show ?thesis using c(1) B by simp
qed

definition elist :: "nat \<Rightarrow> bitarray \<Rightarrow> nat list" where
  "elist log_size m = filter (tier_bit m (data_tier log_size)) [0..<2 ^ log_size]"

lemma set_elist: "set (elist log_size m) = elems log_size m"
  by (auto simp: elist_def elems_def)

lemma elist_sorted: "elist log_size m = sorted_list_of_set (elems log_size m)"
  by (rule sorted_list_of_set.idem_if_sorted_distinct [symmetric, of "elist log_size m", unfolded set_elist])
    (simp_all add: elist_def sorted_wrt_filter)

lemma filter_notin_take: "distinct xs \<Longrightarrow> filter (\<lambda>x. x \<notin> set (take j xs)) xs = drop j xs"
proof -
  assume d: "distinct xs"
  have "filter (\<lambda>x. x \<notin> set (take j xs)) (take j xs @ drop j xs) = drop j xs"
    using d set_take_disj_set_drop_if_distinct [of xs j j]
    by (subst filter_append) (auto simp: filter_empty_conv filter_id_conv)
  then show ?thesis by simp
qed

lemma elist_drop:
  assumes "\<And>i. i < 2 ^ log_size \<Longrightarrow>
    tier_bit m' (data_tier log_size) i = (tier_bit m (data_tier log_size) i \<and> i \<notin> set (take j (elist log_size m)))"
  shows "elist log_size m' = drop j (elist log_size m)"
proof -
  have "elist log_size m' = filter (\<lambda>i. i \<notin> set (take j (elist log_size m))) (elist log_size m)"
    unfolding elist_def [of log_size m'] using assms
    by (subst elist_def [of log_size m]) (auto simp: filter_filter conj_commute intro!: filter_cong)
  then show ?thesis using filter_notin_take by (metis distinct_filter distinct_upt elist_def)
qed

lemma elist_split:
  assumes inv: "ba_inv log_size m" and d: "data_tier log_size = Suc t"
    and b: "least_at m (top_width log_size) t b"
  shows "\<exists>R. elist log_size m = filter (tier_bit m (Suc t)) [b * 512..<b * 512 + 512] @ R"
proof -
  have bw: "b < width (top_width log_size) t" using b by (simp add: least_at_def)
  have "b * 512 + 511 < 2 ^ log_size" using width_group [OF bw, of 511] data_width [of log_size] d by simp
  then have "[0..<2 ^ log_size] = [0..<b * 512] @ [b * 512..<b * 512 + 512] @ [b * 512 + 512..<2 ^ log_size]"
    using upt_add_eq_append [of 0 "b * 512" "2 ^ log_size - b * 512"]
      upt_add_eq_append [of "b * 512" "b * 512 + 512" "2 ^ log_size - (b * 512 + 512)"] by simp
  moreover have "\<not> tier_bit m (Suc t) i" if "i < b * 512" for i
  proof -
    have "i div 512 < b" using that by (simp add: div_less_iff_less_mult)
    then have "\<not> tier_bit m t (i div 512)" "i div 512 < width (top_width log_size) t"
      using b bw by (auto simp: least_at_def)
    then show ?thesis using summary_okD [of "Suc t"] inv d group_nonzeroI unfolding ba_inv_def by (metis lessI)
  qed
  then have "filter (tier_bit m (Suc t)) [0..<b * 512] = []" by (auto simp: filter_empty_conv)
  ultimately show ?thesis by (simp add: elist_def d)
qed

lemma zap_group_but:
  assumes ok: "tiers_ok (Suc t) n m" and b: "b < width n t"
    and T: "\<And>t' i. i < 512 ^ Suc t' \<Longrightarrow> tier_bit m' t' i = (tier_bit m t' i \<and> \<not> (t' = Suc t \<and> i \<in> S))"
    and S: "\<And>i. i \<in> S \<Longrightarrow> i div 512 = b"
  shows "tiers_ok_but (Suc t) n m' t b"
proof -
  have n: "n \<le> 512" using ok by (simp add: tiers_ok_def)
  have "summary_ok m' t' i'" if t': "t' < Suc t" "i' < width n t'" "(t', i') \<noteq> (t, b)" for t' i'
  proof -
    have "tier_bit m' (Suc t') (i' * 512 + j) = tier_bit m (Suc t') (i' * 512 + j)" if "j < 512" for j
    proof -
      have "(i' * 512 + j) div 512 = i'" using that by simp
      then have "\<not> (Suc t' = Suc t \<and> i' * 512 + j \<in> S)" using S [of "i' * 512 + j"] t'(3) by auto
      then show ?thesis using T [OF width_less [OF n width_group [OF t'(2) that]]] by blast
    qed
    then have "group_nonzero m' (Suc t') i' = group_nonzero m (Suc t') i'" by (auto simp: group_nonzero_def)
    moreover have "tier_bit m' t' i' = tier_bit m t' i'" using T [OF width_less [OF n t'(2)]] t'(1) by simp
    ultimately show ?thesis using ok t' by (simp add: tiers_ok_def summary_ok_def)
  qed
  moreover have "\<not> tier_bit m' 0 i'" if "n \<le> i'" "i' < 512" for i'
    using ok that T [of i' 0] by (simp add: tiers_ok_def)
  ultimately show ?thesis using n b by (auto simp: tiers_ok_but_def)
qed

text \<open>One round of the loop: the bits \<open>B\<close> of the first non-zero group are zapped.\<close>

lemma zap_round:
  assumes inv: "ba_inv log_size m" and d: "data_tier log_size = Suc t"
    and b: "least_at m (top_width log_size) t b" and k: "0 < k"
    and z: "FFS_and_zap_word m (tier_start (Suc t) + b * 8) k (b * 512) = (m1, B)"
    and m2: "m2 = (if length B < k \<or> all_zeros m1 (tier_start (Suc t) + b * 8) then zap_summaries m1 t b else m1)"
  shows "ba_inv log_size m2 \<and> 0 < length B \<and> length B \<le> k \<and> B = take (length B) (elist log_size m) \<and>
    elist log_size m2 = drop (length B) (elist log_size m)"
proof -
  let ?n = "top_width log_size" and ?G = "filter (tier_bit m (Suc t)) [b * 512..<b * 512 + 512]"
  have ok: "tiers_ok (Suc t) ?n m" using inv d by (simp add: ba_inv_def)
  have n: "?n \<le> 512" by (rule top_width_le)
  have bw: "b < width ?n t" using b by (simp add: least_at_def)
  have "b < 512 ^ Suc t" using width_less [OF n bw] .
  note c = FFS_and_zap_word_correct [OF this k z]
  have B: "B = take k ?G" using c by blast
  have T: "tier_bit m1 t' i = (tier_bit m t' i \<and> \<not> (t' = Suc t \<and> i \<in> set B))" if "i < 512 ^ Suc t'" for t' i
    using c that by simp
  have S: "i div 512 = b" if "i \<in> set B" for i
  proof -
    have "b * 512 \<le> i" "i < b * 512 + 512" using that unfolding B by (auto dest: in_set_takeD)
    then show ?thesis by (intro div_nat_eqI) simp_all
  qed
  note but = zap_group_but [OF ok bw T S]
  have nz: "group_nonzero m (Suc t) b" using summary_okD [OF ok lessI bw] b by (simp add: least_at_def)
  then obtain j where "j < 512" "tier_bit m (Suc t) (b * 512 + j)" by (auto simp: group_nonzero_def)
  then have "b * 512 + j \<in> set ?G" by simp
  then have ne: "0 < length ?G" by (metis length_pos_if_in_set)
  obtain R where R: "elist log_size m = ?G @ R" using elist_split [OF inv d b] by blast
  have len: "0 < length B" "length B \<le> k" "B = take (length B) (elist log_size m)"
    using ne k by (simp_all add: B R min_def)
  have e1: "elist log_size m1 = drop (length B) (elist log_size m)"
    using T index_less d len(3) by (intro elist_drop) (metis (full_types))
  have gz: "\<not> group_nonzero m1 (Suc t) b" if "length B < k"
  proof -
    have "set B = set ?G" using that by (simp add: B)
    then show ?thesis using T width_less [OF n width_group [OF bw]] by (auto simp: group_nonzero_def)
  qed
  show ?thesis
  proof (cases "length B < k \<or> all_zeros m1 (tier_start (Suc t) + b * 8)")
    case True
    then have "\<not> group_nonzero m1 (Suc t) b" using gz all_zeros_iff by blast
    note s = zap_summaries_correct [OF but this]
    have m2': "m2 = zap_summaries m1 t b" using m2 True by simp
    have "elist log_size m2 = elist log_size m1"
      unfolding elist_sorted using elems_same_data s d m2' by metis
    then show ?thesis using s len e1 d m2' by (simp add: ba_inv_def)
  next
    case False
    then have "group_nonzero m1 (Suc t) b" using all_zeros_iff by blast
    moreover have "tier_bit m1 t b" using T [OF width_less [OF n bw]] b by (simp add: least_at_def)
    ultimately have "tiers_ok (Suc t) ?n m1" using tiers_ok_butD [OF but] by (simp add: summary_ok_def)
    then show ?thesis using False len e1 d m2 by (simp add: ba_inv_def)
  qed
qed

section \<open>The words that are written\<close>

text \<open>
  An array has \<open>bitarray_size log_size div 8\<close> words. No operation changes a word from there on; what the
  memory holds there does not matter for any result, since the invariant and the set of indices only speak
  about the words before.
\<close>

definition words_of :: "nat \<Rightarrow> nat" where
  "words_of log_size = bitarray_size log_size div 8"

lemma words_of_eq:
  "words_of log_size = (if NB < log_size then tier_start (data_tier log_size) + 2 ^ (log_size - 6) else 8)"
  using data_tier_level [of log_size] by (simp add: words_of_def bitarray_size_def)

lemma data_word:
  assumes "i < 2 ^ log_size"
  shows "tier_start (data_tier log_size) + i div 64 < words_of log_size"
proof (cases "NB < log_size")
  case True
  then have "(2 :: nat) ^ log_size = 2 ^ (log_size - 6) * 64" using power_add [of "2 :: nat" "log_size - 6" 6] by simp
  then have "i div 64 < 2 ^ (log_size - 6)" using assms by (simp add: less_mult_imp_div_less)
  then show ?thesis using True by (simp add: words_of_eq)
next
  case False
  then have "i < 512" using index_less [OF assms] by (simp add: data_tier_def)
  then show ?thesis using False by (simp add: words_of_eq data_tier_def)
qed

lemma summary_words: "tier_start (data_tier log_size) \<le> words_of log_size"
  by (simp add: words_of_eq data_tier_def)

lemma tier_word:
  assumes "t \<le> data_tier log_size" "i < width (top_width log_size) t"
  shows "tier_start t + i div 64 < words_of log_size"
proof (cases "t = data_tier log_size")
  case True
  then show ?thesis using data_word [of i log_size] assms(2) data_width [of log_size] by simp
next
  case False
  then have "tier_start t + 512 ^ t * 8 \<le> tier_start (data_tier log_size)" using assms(1) by (intro tier_start_mono) simp
  then show ?thesis
    using tier_word_less [OF width_less [OF top_width_le assms(2)]] summary_words [of log_size] by linarith
qed

definition frame :: "nat \<Rightarrow> bitarray \<Rightarrow> bitarray \<Rightarrow> bool" where
  "frame n m m' \<longleftrightarrow> (\<forall>w. n \<le> w \<longrightarrow> m' w = m w)"

lemma frame_refl [simp]: "frame n m m"
  by (simp add: frame_def)

lemma frame_trans: "frame n m m' \<Longrightarrow> frame n m' m'' \<Longrightarrow> frame n m m''"
  by (simp add: frame_def)

lemma frame_mono: "frame n m m' \<Longrightarrow> n \<le> n' \<Longrightarrow> frame n' m m'"
  by (simp add: frame_def)

lemma frame_upd: "w < n \<Longrightarrow> frame n m (m(w := x))"
  by (simp add: frame_def)

lemma frame_tier:
  assumes "tier_start t + i div 64 < n"
  shows "frame n m (set_tier m t i)" "frame n m (zap_tier m t i)"
  using assms by (simp_all add: set_tier_def zap_tier_def frame_upd)

lemma tier_word_Suc: "i < 512 ^ Suc t \<Longrightarrow> tier_start t + i div 64 < tier_start (Suc t)"
  using tier_word_less [of i t] by (simp add: tier_start_Suc del: tier_start_simps)

lemma summaries_frame:
  assumes "i < 512 ^ Suc t"
  shows "frame (tier_start (Suc t)) m (set_summaries m t i)" "frame (tier_start (Suc t)) m (zap_summaries m t i)"
proof -
  have "frame (tier_start (Suc t)) m (set_summaries m t i) \<and> frame (tier_start (Suc t)) m (zap_summaries m t i)"
    using assms
  proof (induction t arbitrary: i m)
    case 0
    then show ?case using frame_tier [OF tier_word_Suc [OF 0]] by (simp add: SET_SIMPLE_tier ZAP_SIMPLE_tier)
  next
    case (Suc t)
    have i: "i div 512 < 512 ^ Suc t" using Suc.prems by (simp add: less_mult_imp_div_less mult.commute)
    have le: "tier_start (Suc t) \<le> tier_start (Suc (Suc t))" by (simp add: tier_start_Suc del: tier_start_simps)
    note h = frame_tier [OF tier_word_Suc [OF Suc.prems], of m]
    have "frame (tier_start (Suc (Suc t))) m' (set_summaries m' t (i div 512))"
      "frame (tier_start (Suc (Suc t))) m' (zap_summaries m' t (i div 512))" for m'
      using Suc.IH [OF i, of m'] le frame_mono by blast+
    then have "frame (tier_start (Suc (Suc t))) m (set_summaries (set_tier m (Suc t) i) t (i div 512))"
      "frame (tier_start (Suc (Suc t))) m (zap_summaries (zap_tier m (Suc t) i) t (i div 512))"
      using h frame_trans by blast+
    then show ?case using h
      by (simp add: SET_GO_DOWN_tier ZAP_GO_DOWN_tier Let_def del: tier_start_simps levels_num_words.simps)
  qed
  then show "frame (tier_start (Suc t)) m (set_summaries m t i)" "frame (tier_start (Suc t)) m (zap_summaries m t i)" by blast+
qed

lemma FFS_le: "FFS m p \<le> 512"
proof -
  have f: "ffsll w \<le> 64" for w by (auto simp: ffsll_def find_Some_iff split: option.splits)
  have "\<forall>w\<in>set ws. w < 8 \<Longrightarrow> FFS_from m p ws \<le> 512" for ws
  proof (induction ws)
    case (Cons w ws)
    then have "push_bit 6 w \<le> 448" by (simp add: push_bit_eq_mult)
    then show ?case using Cons f [of "m (p + w)"] by (auto simp: Let_def)
  qed simp
  then show ?thesis by (simp add: FFS_def)
qed

lemma zap_words_frame:
  "\<forall>w\<in>set ws. p + w < n \<Longrightarrow> zap_words m p mx a ws ix = (m', ix') \<Longrightarrow> frame n m m'"
proof (induction ws arbitrary: m ix)
  case (Cons w ws)
  obtain ks word where z: "zap_word (m (p + w)) mx (push_bit 6 w + a) ix = (ks, word)" by fastforce
  have u: "frame n m (m(p + w := word))" using Cons.prems(1) by (simp add: frame_upd)
  have "\<forall>w\<in>set ws. p + w < n" using Cons.prems(1) by simp
  note ih = Cons.IH [OF this]
  show ?case
  proof (cases "m (p + w) = 0")
    case True
    then show ?thesis using Cons.prems(2) ih by simp
  next
    case False
    then have "m' = m(p + w := word) \<or> zap_words (m(p + w := word)) p mx a ws ks = (m', ix')"
      using Cons.prems(2) z by (auto simp: Let_def split: if_splits)
    then show ?thesis using u ih frame_trans by blast
  qed
qed simp

lemma data_frame:
  assumes "NB < log_size" "i < 2 ^ log_size"
  defines "l \<equiv> (log_size - NB - 1) div NB"
  shows "frame (words_of log_size) m (set_tier m (Suc l) i)" "frame (words_of log_size) m (zap_tier m (Suc l) i)"
    "frame (words_of log_size) m (set_summaries (set_tier m (Suc l) i) l (i div 512))"
    "frame (words_of log_size) m (zap_summaries (zap_tier m (Suc l) i) l (i div 512))"
proof -
  have d: "data_tier log_size = Suc l" using data_tier_level [OF assms(1)] by (simp add: l_def)
  note h = frame_tier [OF data_word [OF assms(2), unfolded d], of m]
  have "i div 512 < 512 ^ Suc l" using index_less [OF assms(2)] d by (simp add: less_mult_imp_div_less mult.commute)
  note f = summaries_frame [OF this, THEN frame_mono [OF _ summary_words [of log_size, unfolded d]]]
  show "frame (words_of log_size) m (set_tier m (Suc l) i)" "frame (words_of log_size) m (zap_tier m (Suc l) i)"
    using h by blast+
  show "frame (words_of log_size) m (set_summaries (set_tier m (Suc l) i) l (i div 512))"
    "frame (words_of log_size) m (zap_summaries (zap_tier m (Suc l) i) l (i div 512))"
    using h f frame_trans by blast+
qed

lemma small_frame:
  assumes "log_size \<le> NB" "i < 512"
  shows "frame (words_of log_size) m (set_tier m 0 i)" "frame (words_of log_size) m (zap_tier m 0 i)"
  using assms by (simp_all add: frame_tier words_of_eq)

lemma small_index: "log_size \<le> NB \<Longrightarrow> i < 2 ^ log_size \<Longrightarrow> i < (512 :: nat)"
  using index_less [of i log_size] by (simp add: data_tier_def)

lemma set_frame:
  assumes "bitarray_set m log_size i = Some (m', r)"
  shows "frame (words_of log_size) m m'"
proof -
  have a: "size_asserted log_size" "index_asserted log_size i" using assms by (auto simp: bitarray_set_def split: if_splits)
  then have i: "i < 2 ^ log_size" by (simp add: index_asserted_def)
  show ?thesis
  proof (cases "log_size \<le> NB")
    case True
    then show ?thesis using assms a small_frame [OF True small_index [OF True i]] by (auto simp: bitarray_set_def SET_CHANGED_tier)
  next
    case False
    then show ?thesis using assms a data_frame [OF _ i, of m]
      by (auto simp: bitarray_set_def SET_CHANGED_GO_DOWN_tier Let_def split: if_splits)
  qed
qed

lemma zap_frame:
  assumes "bitarray_zap m log_size i = Some (m', r)"
  shows "frame (words_of log_size) m m'"
proof -
  have a: "size_asserted log_size" "index_asserted log_size i" using assms by (auto simp: bitarray_zap_def split: if_splits)
  then have i: "i < 2 ^ log_size" by (simp add: index_asserted_def)
  show ?thesis
  proof (cases "log_size \<le> NB")
    case True
    then show ?thesis using assms a small_frame [OF True small_index [OF True i]] by (auto simp: bitarray_zap_def ZAP_CHANGED_tier)
  next
    case False
    then show ?thesis using assms a data_frame [OF _ i, of m]
      by (auto simp: bitarray_zap_def ZAP_CHANGED_GO_DOWN_tier Let_def split: if_splits)
  qed
qed

lemma zap_first_set_frame:
  assumes "bitarray_zap_first_set m log_size = Some (m', r)" "0 < log_size" "log_size < 31"
  shows "frame (words_of log_size) m m'"
proof (cases "log_size \<le> NB")
  case True
  then have "(log_size - 1) div NB = 0" using assms(2) by simp
  then have "m' = m \<or> m' = ZAP_SIMPLE m 0 (FFS m 0 - 1)"
    using assms by (auto simp: bitarray_zap_first_set_def unsigned_level Let_def split: if_splits)
  moreover have i: "FFS m 0 - 1 < 512" using FFS_le [of m 0] by simp
  moreover have "ZAP_SIMPLE m 0 (FFS m 0 - 1) = zap_tier m 0 (FFS m 0 - 1)"
    using ZAP_SIMPLE_tier [OF i, of m] i by (simp add: take_bit_nat_eq_self)
  ultimately show ?thesis using small_frame(2) [OF True i, of m] by auto
next
  case False
  then have big: "NB < log_size" by simp
  define l where "l = (log_size - NB - 1) div NB"
  have u: "unsigned_level log_size = Suc l"
    using unsigned_level [OF assms(2,3)] data_tier_level [OF big] big by (simp add: data_tier_def l_def)
  note f = data_frame(2,4) [OF big, folded l_def, of _ m]
  show ?thesis using assms(1) f unfolding bitarray_zap_first_set_def u Let_def
    by (auto simp: index_asserted_def ZAP_CHANGED_GO_DOWN_tier ZAP_SUMMARIES_def Let_def split: if_splits option.splits)
qed

lemma zap_round_frame:
  assumes d: "data_tier log_size = Suc t" and b: "b < width (top_width log_size) t"
    and z: "FFS_and_zap_word m (tier_start (Suc t) + b * 8) k a = (m1, B)"
  shows "frame (words_of log_size) m m1" "frame (words_of log_size) m (zap_summaries m1 t b)"
proof -
  have w: "tier_start (Suc t) + b * 8 + w < words_of log_size" if "w < 8" for w
  proof -
    have "b * 512 + w * 64 < width (top_width log_size) (Suc t)" using that by (intro width_group [OF b]) simp
    moreover have "(b * 512 + w * 64) div 64 = b * 8 + w" by (simp add: group_div)
    ultimately show ?thesis using tier_word [of "Suc t" log_size "b * 512 + w * 64"] d by (simp add: add.assoc)
  qed
  then show f: "frame (words_of log_size) m m1"
    using zap_words_frame [of "[0..<8]" "tier_start (Suc t) + b * 8" "words_of log_size" m] z
    by (auto simp: FFS_and_zap_word_def)
  have "frame (words_of log_size) m1 (zap_summaries m1 t b)"
    using summaries_frame(2) [OF width_less [OF top_width_le b]] frame_mono summary_words [of log_size] d by metis
  then show "frame (words_of log_size) m (zap_summaries m1 t b)" by (rule frame_trans [OF f])
qed

subsection \<open>The loop over the groups\<close>

lemma zap_multiple_loop_correct:
  assumes inv: "ba_inv log_size m" and big: "NB < log_size" and l: "log_size \<le> 45"
  shows "\<exists>m'. zap_multiple_loop m ((log_size - 1) div NB) mx ix = Some (m', ix @ take (mx - length ix) (elist log_size m)) \<and>
    ba_inv log_size m' \<and> elist log_size m' = drop (mx - length ix) (elist log_size m) \<and> frame (words_of log_size) m m'"
  using inv
proof (induction "mx - length ix" arbitrary: m ix rule: less_induct)
  case less
  define d where "d = (log_size - 1) div NB"
  have dt: "data_tier log_size = d" using big by (simp add: d_def data_tier_def)
  define t where "t = d - 1"
  have ds: "d = Suc t" using data_tier_level [OF big] dt by (simp add: t_def)
  have t3: "t \<le> 3" using level_le [OF l big] data_tier_level [OF big] dt ds by simp
  consider (full) "mx \<le> length ix" | (none) "length ix < mx" "elems log_size m = {}"
    | (some) "length ix < mx" "elems log_size m \<noteq> {}" by linarith
  then show ?case
  proof cases
    case full
    then show ?thesis using less.prems by (simp add: zap_multiple_loop.simps)
  next
    case none
    then have "elist log_size m = []" using set_elist [of log_size m] by simp
    then show ?thesis using none less.prems top_found(1) [OF less.prems none(2)] by (simp add: zap_multiple_loop.simps)
  next
    case some
    obtain b where b: "0 < FFS m 0"
      "ADJUST_OFFSET_FOR_FFS_ACROSS_SUMMARIES m d (0, FFS m 0 - 1) = Some (tier_start (d - 1), b)"
      "tier_start (d - 1) + 2 ^ (NB * (d - 1)) * NUM_64b = tier_start d"
      "least_at m (top_width log_size) (d - 1) b"
      using locate [OF less.prems big l some(2)] unfolding d_def by metis
    obtain m1 B where z: "FFS_and_zap_word m (tier_start (Suc t) + b * 8) (mx - length ix) (b * 512) = (m1, B)" by fastforce
    define m2 where "m2 = (if length B < mx - length ix \<or> all_zeros m1 (tier_start (Suc t) + b * 8) then zap_summaries m1 t b else m1)"
    have k: "0 < mx - length ix" using some(1) by simp
    have bt: "least_at m (top_width log_size) t b" using b(4) by (simp add: t_def)
    note r = zap_round [OF less.prems dt [unfolded ds] bt k z m2_def]
    have "0 < length B" using r by blast
    then have "mx - length (ix @ B) < mx - length ix" using some(1) by (simp del: length_greater_0_conv)
    from less.hyps [OF this conjunct1 [OF r]] obtain m' where m':
      "zap_multiple_loop m2 d mx (ix @ B) = Some (m', (ix @ B) @ take (mx - length (ix @ B)) (elist log_size m2))"
      "ba_inv log_size m'" "elist log_size m' = drop (mx - length (ix @ B)) (elist log_size m2)"
      "frame (words_of log_size) m2 m'"
      unfolding d_def by blast
    have bw: "b < width (top_width log_size) t" using bt by (simp add: least_at_def)
    have "frame (words_of log_size) m m2"
      using zap_round_frame [OF dt [unfolded ds] bw z] by (simp add: m2_def)
    then have "frame (words_of log_size) m m'" using m'(4) frame_trans by blast
    moreover have "zap_multiple_loop m d mx ix = zap_multiple_loop m2 d mx (ix @ B)"
      using some(1) b(1-3) z r t3 unfolding zap_multiple_loop.simps [of m] m2_def
      by (auto simp: Let_def push_bit_eq_mult ds ZAP_SUMMARIES_def)
    moreover have "B @ take (mx - length (ix @ B)) (elist log_size m2) = take (mx - length ix) (elist log_size m)"
    proof -
      have "length B \<le> mx - length ix" using r by blast
      then have "take (mx - length ix) (elist log_size m) = take (length B + (mx - length ix - length B)) (elist log_size m)"
        by (simp only: le_add_diff_inverse)
      also have "\<dots> = take (length B) (elist log_size m) @ take (mx - length ix - length B) (drop (length B) (elist log_size m))"
        by (rule take_add)
      finally show ?thesis using r by (metis diff_diff_left length_append)
    qed
    moreover have "drop (mx - length (ix @ B)) (elist log_size m2) = drop (mx - length ix) (elist log_size m)"
    proof -
      have "length B \<le> mx - length ix" "elist log_size m2 = drop (length B) (elist log_size m)" using r by blast+
      moreover have "mx - length (ix @ B) + length B = mx - length ix" using calculation(1) by simp
      ultimately show ?thesis by (simp only: drop_drop)
    qed
    ultimately show ?thesis using m' unfolding d_def by simp
  qed
qed

section \<open>Bit arrays as sets of indices\<close>

text \<open>
  What the allocator relies on: a set of indices below a bound from which the least element can be
  taken. Taking elements one by one yields them in increasing order.
\<close>

fun take_n :: "('b \<Rightarrow> ('b \<times> nat option) option) \<Rightarrow> nat \<Rightarrow> 'b \<Rightarrow> ('b \<times> nat list) option" where
  "take_n take_min 0 q = Some (q, [])"
| "take_n take_min (Suc n) q =
     (case take_min q of
        None \<Rightarrow> None
      | Some (q', None) \<Rightarrow> Some (q', [])
      | Some (q', Some i) \<Rightarrow> map_option (\<lambda>(q'', is). (q'', i # is)) (take_n take_min n q'))"

locale index_set =
  fixes invar :: "'b \<Rightarrow> bool"
    and indices :: "'b \<Rightarrow> nat set"
    and take_min :: "'b \<Rightarrow> ('b \<times> nat option) option"
  assumes finite_indices: "finite (indices q)"
    and take_none: "invar q \<Longrightarrow> indices q = {} \<Longrightarrow> take_min q = Some (q, None)"
    and take_some: "invar q \<Longrightarrow> indices q \<noteq> {} \<Longrightarrow>
      \<exists>q'. take_min q = Some (q', Some (Min (indices q))) \<and> invar q' \<and> indices q' = indices q - {Min (indices q)}"
begin

lemma take_n_correct:
  "invar q \<Longrightarrow> \<exists>q'. take_n take_min n q = Some (q', take n (sorted_list_of_set (indices q))) \<and> invar q' \<and>
    indices q' = indices q - set (take n (sorted_list_of_set (indices q)))"
proof (induction n arbitrary: q)
  case (Suc n)
  show ?case
  proof (cases "indices q = {}")
    case True
    then show ?thesis using take_none [OF Suc.prems True] Suc.prems by simp
  next
    case False
    obtain q' where q': "take_min q = Some (q', Some (Min (indices q)))" "invar q'"
      "indices q' = indices q - {Min (indices q)}"
      using take_some [OF Suc.prems False] by blast
    have "sorted_list_of_set (indices q) = Min (indices q) # sorted_list_of_set (indices q')"
      unfolding q'(3) by (rule sorted_list_of_set_nonempty [OF finite_indices False])
    then show ?thesis using Suc.IH [OF q'(2)] q' by auto
  qed
qed simp

end

text \<open>A bit array together with its size, the pair the callers hold.\<close>

definition sized_zap_first_set :: "nat \<times> bitarray \<Rightarrow> ((nat \<times> bitarray) \<times> nat option) option" where
  "sized_zap_first_set q = map_option (\<lambda>(m, i). ((fst q, m), i)) (bitarray_zap_first_set (snd q) (fst q))"

definition sized_inv :: "nat \<times> bitarray \<Rightarrow> bool" where
  "sized_inv q \<longleftrightarrow> 0 < fst q \<and> fst q < 31 \<and> ba_inv (fst q) (snd q)"

definition sized_elems :: "nat \<times> bitarray \<Rightarrow> nat set" where
  "sized_elems q = elems (fst q) (snd q)"

lemma zap_first_set_none:
  assumes "ba_inv log_size m" "log_size < 31" "elems log_size m = {}"
  shows "bitarray_zap_first_set m log_size = Some (m, None)"
  using top_found(1) [OF assms(1,3)] assms(2) by (simp add: bitarray_zap_first_set_def size_asserted_def)

lemma finite_elems [simp]: "finite (elems log_size m)"
  by (simp add: elems_def)

interpretation ba: index_set sized_inv sized_elems sized_zap_first_set
proof unfold_locales
  fix q :: "nat \<times> bitarray"
  obtain l m where q: "q = (l, m)" by (cases q)
  show "finite (sized_elems q)" by (simp add: sized_elems_def)
  show "sized_zap_first_set q = Some (q, None)" if "sized_inv q" "sized_elems q = {}"
    using that zap_first_set_none [of l m] by (simp add: q sized_inv_def sized_elems_def sized_zap_first_set_def)
  show "\<exists>q'. sized_zap_first_set q = Some (q', Some (Min (sized_elems q))) \<and> sized_inv q' \<and>
      sized_elems q' = sized_elems q - {Min (sized_elems q)}" if "sized_inv q" "sized_elems q \<noteq> {}"
    using that zap_first_set_correct [of l m] by (auto simp: q sized_inv_def sized_elems_def sized_zap_first_set_def)
qed

lemma small_elist:
  assumes inv: "ba_inv log_size m" and small: "log_size \<le> NB"
  shows "elist log_size m = filter (tier_bit m 0) [0..<512]"
proof -
  have d: "data_tier log_size = 0" "top_width log_size = 2 ^ log_size"
    using small by (simp_all add: data_tier_def top_width_def)
  have "(2 :: nat) ^ log_size \<le> 512" using top_width_le [of log_size] d by simp
  then have "[0..<512] = [0..<2 ^ log_size] @ [2 ^ log_size..<512]"
    using upt_add_eq_append [of 0 "2 ^ log_size" "512 - 2 ^ log_size"] by simp
  moreover have "filter (tier_bit m 0) [2 ^ log_size..<512] = []"
    using inv by (auto simp: filter_empty_conv ba_inv_def tiers_ok_def d)
  ultimately show ?thesis by (simp add: elist_def d)
qed

lemma zap_multiple_correct:
  assumes inv: "ba_inv log_size m" and l: "log_size < 31" and mx: "0 < mx \<or> NB < log_size"
  shows "\<exists>m'. bitarray_zap_first_set_multiple m log_size mx = Some (m', take mx (elist log_size m)) \<and>
    ba_inv log_size m' \<and> elist log_size m' = drop mx (elist log_size m) \<and> frame (words_of log_size) m m'"
proof (cases "log_size \<le> NB")
  case True
  have d: "data_tier log_size = 0" using True by (simp add: data_tier_def)
  obtain m' ix where z: "FFS_and_zap_word m 0 mx 0 = (m', ix)" by fastforce
  have "0 < mx" using mx True by simp
  from FFS_and_zap_word_correct [of 0 0, OF _ this] z
  have c: "ix = take mx (elist log_size m)"
    and T: "\<And>t' i. i < 512 ^ Suc t' \<Longrightarrow> tier_bit m' t' i = (tier_bit m t' i \<and> \<not> (t' = 0 \<and> i \<in> set ix))"
    by (auto simp: small_elist [OF inv True])
  have "elist log_size m' = drop mx (elist log_size m)"
    using T index_less d c by (intro elist_drop) (metis (full_types))
  moreover have "ba_inv log_size m'" using inv T [of _ 0] by (auto simp: ba_inv_def tiers_ok_def d)
  moreover have "frame (words_of log_size) m m'"
    using zap_words_frame [of "[0..<8]" 0 "words_of log_size" m] z True by (auto simp: FFS_and_zap_word_def words_of_eq)
  ultimately show ?thesis using z c True l by (simp add: bitarray_zap_first_set_multiple_def size_asserted_def)
next
  case False
  then have "NB < log_size" "log_size \<le> 45" using l by simp_all
  from zap_multiple_loop_correct [OF inv this, of mx "[]"] show ?thesis
    using False l by (simp add: bitarray_zap_first_set_multiple_def size_asserted_def)
qed

lemma elems_drop:
  assumes "elist log_size m' = drop n (elist log_size m)"
  shows "elems log_size m' = elems log_size m - set (take n (elist log_size m))"
proof -
  have d: "distinct (elist log_size m)" by (simp add: elist_sorted)
  have "set (drop n (elist log_size m)) = set (elist log_size m) - set (take n (elist log_size m))"
    by (simp flip: filter_notin_take [OF d]) (auto simp: set_diff_eq)
  then show ?thesis using assms by (metis set_elist)
qed

section \<open>Runs\<close>

datatype ba_op = Get nat | Set nat | Zap nat | FirstSet | ZapFirst | ZapMany nat

datatype ba_result = Bool bool | Index nat | Found "nat option" | Indices "nat list"

text \<open>The operations on the set of indices, the contract.\<close>

fun set_step :: "ba_op \<Rightarrow> nat set \<Rightarrow> nat set \<times> ba_result" where
  "set_step (Get i) S = (S, Bool (i \<in> S))"
| "set_step (Set i) S = (insert i S, Bool (i \<notin> S))"
| "set_step (Zap i) S = (S - {i}, Bool (i \<in> S))"
| "set_step FirstSet S = (S, Index (if S = {} then 0 else Min S + 1))"
| "set_step ZapFirst S = (if S = {} then (S, Found None) else (S - {Min S}, Found (Some (Min S))))"
| "set_step (ZapMany n) S =
     (S - set (take n (sorted_list_of_set S)), Indices (take n (sorted_list_of_set S)))"

fun ba_step :: "nat \<Rightarrow> ba_op \<Rightarrow> bitarray \<Rightarrow> (bitarray \<times> ba_result) option" where
  "ba_step ls (Get i) m = map_option (\<lambda>r. (m, Bool r)) (bitarray_get m ls i)"
| "ba_step ls (Set i) m = map_option (\<lambda>(m, r). (m, Bool r)) (bitarray_set m ls i)"
| "ba_step ls (Zap i) m = map_option (\<lambda>(m, r). (m, Bool r)) (bitarray_zap m ls i)"
| "ba_step ls FirstSet m = map_option (\<lambda>r. (m, Index r)) (bitarray_first_set m ls)"
| "ba_step ls ZapFirst m = map_option (\<lambda>(m, r). (m, Found r)) (bitarray_zap_first_set m ls)"
| "ba_step ls (ZapMany n) m = map_option (\<lambda>(m, r). (m, Indices r)) (bitarray_zap_first_set_multiple m ls n)"

text \<open>
  What the operations need: an index in range, more than one bit for \<open>bitarray_zap_first_set\<close>, and for
  \<open>bitarray_zap_first_set_multiple\<close> on at most 512 bits a request for at least one.
\<close>

fun op_ok :: "nat \<Rightarrow> ba_op \<Rightarrow> bool" where
  "op_ok ls (Get i) = (i < 2 ^ ls)"
| "op_ok ls (Set i) = (i < 2 ^ ls)"
| "op_ok ls (Zap i) = (i < 2 ^ ls)"
| "op_ok ls FirstSet = True"
| "op_ok ls ZapFirst = (0 < ls)"
| "op_ok ls (ZapMany n) = (0 < n \<or> NB < ls)"

fun set_run :: "ba_op list \<Rightarrow> nat set \<Rightarrow> nat set \<times> ba_result list" where
  "set_run [] S = (S, [])"
| "set_run (p # ps) S = (let (S, r) = set_step p S; (S, rs) = set_run ps S in (S, r # rs))"

fun ba_run :: "nat \<Rightarrow> ba_op list \<Rightarrow> bitarray \<Rightarrow> (bitarray \<times> ba_result list) option" where
  "ba_run ls [] m = Some (m, [])"
| "ba_run ls (p # ps) m =
     (case ba_step ls p m of
        None \<Rightarrow> None
      | Some (m, r) \<Rightarrow> map_option (\<lambda>(m, rs). (m, r # rs)) (ba_run ls ps m))"

lemma ba_step_refines:
  assumes inv: "ba_inv ls m" and l: "ls < 31" and p: "op_ok ls p"
  shows "\<exists>m'. ba_step ls p m = Some (m', snd (set_step p (elems ls m))) \<and> ba_inv ls m' \<and>
    elems ls m' = fst (set_step p (elems ls m)) \<and> frame (words_of ls) m m'"
proof (cases p)
  case (Get i)
  then show ?thesis using bitarray_get_correct [OF l] p inv by simp
next
  case (Set i)
  then show ?thesis using bitarray_set_correct [OF inv l] p set_frame by fastforce
next
  case (Zap i)
  then show ?thesis using bitarray_zap_correct [OF inv l] p zap_frame by fastforce
next
  case FirstSet
  then show ?thesis using first_set_correct [OF inv] l inv by simp
next
  case ZapFirst
  then show ?thesis
    using zap_first_set_correct [OF inv _ l] zap_first_set_none [OF inv l] zap_first_set_frame [OF _ _ l] inv p
    by (cases "elems ls m = {}") auto
next
  case (ZapMany n)
  then obtain m' where m': "bitarray_zap_first_set_multiple m ls n = Some (m', take n (elist ls m))"
    "ba_inv ls m'" "elist ls m' = drop n (elist ls m)" "frame (words_of ls) m m'"
    using zap_multiple_correct [OF inv l] p by auto
  then show ?thesis using ZapMany elems_drop [OF m'(3)] by (simp add: elist_sorted)
qed

lemma ba_run_refines:
  assumes "ba_inv ls m" "ls < 31" "list_all (op_ok ls) ps"
  shows "\<exists>m'. ba_run ls ps m = Some (m', snd (set_run ps (elems ls m))) \<and> ba_inv ls m' \<and>
    elems ls m' = fst (set_run ps (elems ls m)) \<and> frame (words_of ls) m m'"
  using assms
proof (induction ps arbitrary: m)
  case (Cons p ps)
  obtain m1 where m1: "ba_step ls p m = Some (m1, snd (set_step p (elems ls m)))" "ba_inv ls m1"
    "elems ls m1 = fst (set_step p (elems ls m))" "frame (words_of ls) m m1"
    using ba_step_refines [of ls m p] Cons.prems by auto
  from Cons.IH [OF m1(2)] Cons.prems obtain m2 where
    "ba_run ls ps m1 = Some (m2, snd (set_run ps (elems ls m1)))" "ba_inv ls m2"
    "elems ls m2 = fst (set_run ps (elems ls m1))" "frame (words_of ls) m1 m2" by auto
  then show ?case using m1 frame_trans [OF m1(4)] by (auto split: prod.splits)
qed simp

text \<open>The memory after \<open>calloc\<close>: the words of the array are zero, and nothing is known of the words after them.\<close>

lemma zeroed_inv:
  assumes "\<And>w. w < words_of ls \<Longrightarrow> m w = 0"
  shows "ba_inv ls m" "elems ls m = {}"
proof -
  have z: "\<not> tier_bit m t i" if "t \<le> data_tier ls" "i < width (top_width ls) t" for t i
    using assms [OF tier_word [OF that]] by (simp add: tier_bit_def)
  then show "elems ls m = {}" using data_width [of ls] by (auto simp: elems_def)
  have "summary_ok m t i" if "t < data_tier ls" "i < width (top_width ls) t" for t i
    using z [of t i] z [of "Suc t"] width_group [OF that(2)] that by (auto simp: summary_ok_def group_nonzero_def)
  moreover have "\<not> tier_bit m 0 i" if "i < 512" for i
  proof -
    have "i div 64 < words_of ls"
      using that summary_words [of ls] tier_start_mono [of 0 "data_tier ls"] by (cases "data_tier ls = 0") (auto simp: words_of_eq data_tier_def)
    then show ?thesis using assms by (simp add: tier_bit_def)
  qed
  ultimately show "ba_inv ls m" using top_width_le by (auto simp: ba_inv_def tiers_ok_def)
qed

text \<open>
  C5: a bit array created with any size below 31 and used through any sequence of operations with
  indices in range answers every operation as a set of indices would: membership, whether a set or
  zap changed anything, the least element plus one, the least elements removed in increasing order.
  The operations stay within the words that were allocated: whatever the memory holds after them
  has no influence on any answer, and it is left as it is.
  Two calls are excluded, which the code does not handle: \<open>bitarray_zap_first_set\<close> on an array of one bit
  (\<open>log_size\<close> 0), and \<open>bitarray_zap_first_set_multiple\<close> for no bits on an array of at most 512.
\<close>

theorem bitarray_refines_set:
  assumes "bitarray_create alloc log_size = Some m0" "\<And>w. w < bitarray_size log_size div 8 \<Longrightarrow> m w = m0 w"
    and "log_size < 31" "list_all (op_ok log_size) ps"
  shows "\<exists>m'. ba_run log_size ps m = Some (m', snd (set_run ps {})) \<and>
    elems log_size m' = fst (set_run ps {}) \<and> (\<forall>w. bitarray_size log_size div 8 \<le> w \<longrightarrow> m' w = m w)"
proof -
  have "m w = 0" if "w < words_of log_size" for w
    using assms(1,2) that by (auto simp: bitarray_create_def words_of_def split: if_splits)
  then have z: "ba_inv log_size m" "elems log_size m = {}" using zeroed_inv [of log_size m] by blast+
  from ba_run_refines [OF z(1) assms(3,4)] z(2) show ?thesis by (auto simp: frame_def words_of_def)
qed

theorem bitarray_refines_set_witness:
  "\<exists>m'. ba_run 20 [Set 700, Set 5, Zap 6, ZapFirst, FirstSet] ((\<lambda>_. 0)(40000 := 7)) =
     Some (m', [Bool True, Bool True, Bool False, Found (Some 5), Index 701]) \<and> elems 20 m' = {700} \<and> m' 40000 = 7"
proof -
  have "bitarray_create (\<lambda>_. True) 20 = Some (\<lambda>_. 0)" by (simp add: bitarray_create_def)
  moreover have s: "bitarray_size 20 div 8 = 20488" by (simp add: bitarray_size_def)
  ultimately show ?thesis
    using bitarray_refines_set [of "\<lambda>_. True" 20 "\<lambda>_. 0" "(\<lambda>_. 0)(40000 := 7)" "[Set 700, Set 5, Zap 6, ZapFirst, FirstSet]"]
    by (auto simp: insert_Diff_if)
qed

text \<open>
  C6: zapping several bits at once does what the comment in the code says it could be written as:
  repeating \<open>bitarray_zap_first_set\<close>. It reports the same indices in the same order and leaves
  the same bits set. The array has more than one bit, and on an array of at most 512 bits at least one
  bit is asked for.
\<close>

theorem bitarray_zap_multiple_is_repeated_zap:
  assumes "ba_inv log_size m" "0 < log_size" "log_size < 31" "0 < n \<or> NB < log_size"
  shows "\<exists>m1 q2 is. bitarray_zap_first_set_multiple m log_size n = Some (m1, is) \<and>
    take_n sized_zap_first_set n (log_size, m) = Some (q2, is) \<and> elems log_size m1 = sized_elems q2"
proof -
  from zap_multiple_correct [OF assms(1,3,4)] obtain m1 where m1:
    "bitarray_zap_first_set_multiple m log_size n = Some (m1, take n (elist log_size m))"
    "elist log_size m1 = drop n (elist log_size m)" by blast
  have "sized_inv (log_size, m)" using assms by (simp add: sized_inv_def)
  from ba.take_n_correct [OF this, of n] elems_drop [OF m1(2)] m1(1) show ?thesis
    by (auto simp: sized_elems_def elist_sorted)
qed

theorem bitarray_zap_multiple_is_repeated_zap_witness:
  "\<exists>m1 q2 is. bitarray_zap_first_set_multiple ((\<lambda>_. 0)(0 := 5)) 9 2 = Some (m1, is) \<and>
    take_n sized_zap_first_set 2 (9, (\<lambda>_. 0)(0 := 5)) = Some (q2, is) \<and> elems 9 m1 = sized_elems q2"
proof -
  have "ba_inv 9 ((\<lambda>_. 0)(0 := 5))" by (auto simp: ba_inv_def tiers_ok_def data_tier_def top_width_def)
  then show ?thesis by (rule bitarray_zap_multiple_is_repeated_zap) simp_all
qed

text \<open>
  On an array of one bit, which is set, \<open>bitarray_zap_first_set\<close> does not find it: the level wraps around
  and the call ends in the fatal error on an invalid level.
\<close>

theorem zap_first_set_single_bit_aborts:
  assumes "ba_inv 0 m" "elems 0 m \<noteq> {}"
  shows "bitarray_zap_first_set m 0 = None"
proof -
  have "unsigned_level 0 = 477218588" by (simp add: unsigned_level_def unat_div unsigned_minus_1_eq_mask mask_eq_exp_minus_1)
  then have "4 < unsigned_level 0" by simp
  then show ?thesis
    using top_found(2) [OF assms]
    by (simp add: bitarray_zap_first_set_def size_asserted_def ADJUST_OFFSET_FOR_FFS_ACROSS_SUMMARIES_def Let_def)
qed

text \<open>
  Asked for no bits at all, \<open>bitarray_zap_first_set_multiple\<close> on an array of at most 512 bits
  still zaps one and writes its index, past the end of the caller's empty array.
\<close>

theorem zap_multiple_zero_overruns:
  "map_option snd (ba_run 9 [Set 3, ZapMany 0] (\<lambda>_. 0)) = Some [Bool True, Indices [3]]"
  by code_simp

end
