(* ===== verification/Strto.thy ===== *)
theory Strto
  imports Prelude
begin

text \<open>
  Libc's conversion of strings to integers: \<^verbatim>\<open>strtol\<close>, \<^verbatim>\<open>strtoul\<close>, their \<^verbatim>\<open>long long\<close> and
  \<^verbatim>\<open>intmax_t\<close> versions, the wide-character versions, and \<^verbatim>\<open>strtonum\<close>. All of the integer types are
  64 bits wide. A string is the list of its characters as integers, without the terminating NUL: reading
  the character after the last gives 0, reading any further is a read outside the string, \<open>None\<close>.
  A pointer into the string is an index. The character class of the locale is the argument
  \<open>isspace\<close>.
\<close>

section \<open>The common steps\<close>

type_synonym cstring = "int list"

datatype errno = Unchanged | EINVAL | ERANGE

record strto_result =
  r_value :: u64
  r_endptr :: nat
  r_errno :: errno

definition rdc :: "cstring \<Rightarrow> nat \<Rightarrow> int option" where
  "rdc str i = (if i < length str then Some (str ! i) else if i = length str then Some 0 else None)"

lemma rdc_bound: "rdc str i = Some c \<Longrightarrow> i \<le> length str"
  by (auto simp: rdc_def split: if_splits)

text \<open>The steps carry the current character \<open>c\<close> and the pointer \<open>s\<close> past it.\<close>

function skip_space :: "(int \<Rightarrow> bool) \<Rightarrow> cstring \<Rightarrow> nat \<Rightarrow> (int \<times> nat) option" where
  "skip_space isspace str s =
     (case rdc str s of
        None \<Rightarrow> None
      | Some c \<Rightarrow> if isspace c then skip_space isspace str (s + 1) else Some (c, s + 1))"
  by pat_completeness auto
termination
  by (relation "measure (\<lambda>(_, str, s). Suc (length str) - s)") (auto dest!: rdc_bound)

declare skip_space.simps [simp del]

definition pick_sign :: "cstring \<Rightarrow> int \<Rightarrow> nat \<Rightarrow> (bool \<times> int \<times> nat) option" where
  "pick_sign str c s =
     (if c = 45 then map_option (\<lambda>c. (True, c, s + 1)) (rdc str s)
      else if c = 43 then map_option (\<lambda>c. (False, c, s + 1)) (rdc str s)
      else Some (False, c, s))"

definition hex_digit :: "int \<Rightarrow> bool" where
  "hex_digit c \<longleftrightarrow> 48 \<le> c \<and> c \<le> 57 \<or> 65 \<le> c \<and> c \<le> 70 \<or> 97 \<le> c \<and> c \<le> 102"

text \<open>The prefix \<open>0x\<close>. The byte-string functions take it only when a hexadecimal digit follows,
  \<open>guarded\<close>; the wide-character ones always.\<close>

definition pick_prefix :: "bool \<Rightarrow> cstring \<Rightarrow> int \<Rightarrow> int \<Rightarrow> nat \<Rightarrow> (int \<times> int \<times> nat) option" where
  "pick_prefix guarded str base c s =
     (if (base = 0 \<or> base = 16) \<and> c = 48 then
        (case rdc str s of
           None \<Rightarrow> None
         | Some x \<Rightarrow>
             if x = 120 \<or> x = 88 then
               (case rdc str (s + 1) of
                  None \<Rightarrow> None
                | Some h \<Rightarrow> if guarded \<and> \<not> hex_digit h then Some (base, c, s) else Some (16, h, s + 2))
             else Some (base, c, s))
      else Some (base, c, s))"

definition default_base :: "int \<Rightarrow> int \<Rightarrow> int" where
  "default_base base c = (if base = 0 then (if c = 48 then 8 else 10) else base)"

definition digit_value :: "int \<Rightarrow> int option" where
  "digit_value c =
     (if 48 \<le> c \<and> c \<le> 57 then Some (c - 48)
      else if 65 \<le> c \<and> c \<le> 90 then Some (c - 55)
      else if 97 \<le> c \<and> c \<le> 122 then Some (c - 87)
      else None)"

text \<open>The loop over the digits, with the accumulator at its width.\<close>

function digits_loop ::
    "cstring \<Rightarrow> int \<Rightarrow> u64 \<Rightarrow> int \<Rightarrow> u64 \<Rightarrow> int \<Rightarrow> int \<Rightarrow> nat \<Rightarrow> (u64 \<times> int \<times> nat) option" where
  "digits_loop str base cutoff cutlim acc any c s =
     (case digit_value c of
        None \<Rightarrow> Some (acc, any, s)
      | Some d \<Rightarrow>
          if base \<le> d then Some (acc, any, s)
          else
            (case rdc str s of
               None \<Rightarrow> None
             | Some c' \<Rightarrow>
                 if any < 0 \<or> cutoff < acc \<or> acc = cutoff \<and> cutlim < d
                 then digits_loop str base cutoff cutlim acc (- 1) c' (s + 1)
                 else digits_loop str base cutoff cutlim (acc * of_int base + of_int d) 1 c' (s + 1)))"
  by pat_completeness auto
termination
  by (relation "measure (\<lambda>(str, _, _, _, _, _, _, s). Suc (length str) - s)") (auto dest!: rdc_bound)

declare digits_loop.simps [simp del]

text \<open>The end of the functions: \<open>clamp\<close> is the value on overflow.\<close>

definition finish :: "bool \<Rightarrow> u64 \<Rightarrow> u64 \<times> int \<times> nat \<Rightarrow> strto_result" where
  "finish neg clamp r =
     (case r of (acc, any, s) \<Rightarrow>
        if any < 0 then \<lparr>r_value = clamp, r_endptr = s - 1, r_errno = ERANGE\<rparr>
        else if any = 0 then \<lparr>r_value = acc, r_endptr = 0, r_errno = EINVAL\<rparr>
        else \<lparr>r_value = (if neg then - acc else acc), r_endptr = s - 1, r_errno = Unchanged\<rparr>)"

abbreviation (input) LONG_MAX :: u64 where "LONG_MAX \<equiv> 0x7FFFFFFFFFFFFFFF"
abbreviation (input) LONG_MIN :: u64 where "LONG_MIN \<equiv> 0x8000000000000000"
abbreviation (input) ULONG_MAX :: u64 where "ULONG_MAX \<equiv> 0xFFFFFFFFFFFFFFFF"

text \<open>The whole conversion, given the largest magnitude and the value on overflow by sign.\<close>

definition strto_body ::
    "bool \<Rightarrow> (bool \<Rightarrow> u64) \<Rightarrow> (bool \<Rightarrow> u64) \<Rightarrow> (int \<Rightarrow> bool) \<Rightarrow> cstring \<Rightarrow> int \<Rightarrow> strto_result option" where
  "strto_body guarded limit clamp isspace nptr base =
     (case skip_space isspace nptr 0 of
        None \<Rightarrow> None
      | Some (c, s) \<Rightarrow>
          (case pick_sign nptr c s of
             None \<Rightarrow> None
           | Some (neg, c, s) \<Rightarrow>
               (case pick_prefix guarded nptr base c s of
                  None \<Rightarrow> None
                | Some (base, c, s) \<Rightarrow>
                    (let base = default_base base c
                     in if base < 2 \<or> base > 36 then Some (finish neg (clamp neg) (0, 0, s))
                        else map_option (finish neg (clamp neg))
                          (digits_loop nptr base (limit neg div of_int base) (uint (limit neg mod of_int base)) 0 0 c s)))))"

section \<open>The functions\<close>

definition signed_limit :: "bool \<Rightarrow> u64" where
  "signed_limit neg = (if neg then - (LONG_MIN + LONG_MAX) + LONG_MAX else LONG_MAX)"

definition signed_clamp :: "bool \<Rightarrow> u64" where
  "signed_clamp neg = (if neg then LONG_MIN else LONG_MAX)"

definition strtol_l :: "(int \<Rightarrow> bool) \<Rightarrow> cstring \<Rightarrow> int \<Rightarrow> strto_result option" where
  "strtol_l isspace nptr base = strto_body True signed_limit signed_clamp isspace nptr base"

definition strtoll_l :: "(int \<Rightarrow> bool) \<Rightarrow> cstring \<Rightarrow> int \<Rightarrow> strto_result option" where
  "strtoll_l isspace nptr base = strto_body True signed_limit signed_clamp isspace nptr base"

definition strtoimax_l :: "(int \<Rightarrow> bool) \<Rightarrow> cstring \<Rightarrow> int \<Rightarrow> strto_result option" where
  "strtoimax_l isspace nptr base = strto_body True signed_limit signed_clamp isspace nptr base"

definition strtoul_l :: "(int \<Rightarrow> bool) \<Rightarrow> cstring \<Rightarrow> int \<Rightarrow> strto_result option" where
  "strtoul_l isspace nptr base = strto_body True (\<lambda>_. ULONG_MAX) (\<lambda>_. ULONG_MAX) isspace nptr base"

definition strtoull_l :: "(int \<Rightarrow> bool) \<Rightarrow> cstring \<Rightarrow> int \<Rightarrow> strto_result option" where
  "strtoull_l isspace nptr base = strto_body True (\<lambda>_. ULONG_MAX) (\<lambda>_. ULONG_MAX) isspace nptr base"

definition strtoumax_l :: "(int \<Rightarrow> bool) \<Rightarrow> cstring \<Rightarrow> int \<Rightarrow> strto_result option" where
  "strtoumax_l isspace nptr base = strto_body True (\<lambda>_. ULONG_MAX) (\<lambda>_. ULONG_MAX) isspace nptr base"

definition wcstol_l :: "(int \<Rightarrow> bool) \<Rightarrow> cstring \<Rightarrow> int \<Rightarrow> strto_result option" where
  "wcstol_l iswspace nptr base = strto_body False signed_limit signed_clamp iswspace nptr base"

definition wcstoll_l :: "(int \<Rightarrow> bool) \<Rightarrow> cstring \<Rightarrow> int \<Rightarrow> strto_result option" where
  "wcstoll_l iswspace nptr base = strto_body False signed_limit signed_clamp iswspace nptr base"

definition wcstoimax_l :: "(int \<Rightarrow> bool) \<Rightarrow> cstring \<Rightarrow> int \<Rightarrow> strto_result option" where
  "wcstoimax_l iswspace nptr base = strto_body False signed_limit signed_clamp iswspace nptr base"

definition wcstoul_l :: "(int \<Rightarrow> bool) \<Rightarrow> cstring \<Rightarrow> int \<Rightarrow> strto_result option" where
  "wcstoul_l iswspace nptr base = strto_body False (\<lambda>_. ULONG_MAX) (\<lambda>_. ULONG_MAX) iswspace nptr base"

definition wcstoull_l :: "(int \<Rightarrow> bool) \<Rightarrow> cstring \<Rightarrow> int \<Rightarrow> strto_result option" where
  "wcstoull_l iswspace nptr base = strto_body False (\<lambda>_. ULONG_MAX) (\<lambda>_. ULONG_MAX) iswspace nptr base"

definition wcstoumax_l :: "(int \<Rightarrow> bool) \<Rightarrow> cstring \<Rightarrow> int \<Rightarrow> strto_result option" where
  "wcstoumax_l iswspace nptr base = strto_body False (\<lambda>_. ULONG_MAX) (\<lambda>_. ULONG_MAX) iswspace nptr base"

definition strtoq_l :: "(int \<Rightarrow> bool) \<Rightarrow> cstring \<Rightarrow> int \<Rightarrow> strto_result option" where
  "strtoq_l isspace nptr base = strtoll_l isspace nptr base"

definition strtouq_l :: "(int \<Rightarrow> bool) \<Rightarrow> cstring \<Rightarrow> int \<Rightarrow> strto_result option" where
  "strtouq_l isspace nptr base = strtoull_l isspace nptr base"

datatype strtonum_error = OK | INVALID | TOOSMALL | TOOLARGE

definition strtonum :: "(int \<Rightarrow> bool) \<Rightarrow> cstring \<Rightarrow> int \<Rightarrow> int \<Rightarrow> (int \<times> strtonum_error) option" where
  "strtonum isspace numstr minval maxval =
     (if minval > maxval then Some (0, INVALID)
      else
        (case strtoll_l isspace numstr 10 of
           None \<Rightarrow> None
         | Some r \<Rightarrow>
             (case rdc numstr (r_endptr r) of
                None \<Rightarrow> None
              | Some e \<Rightarrow>
                  (let ll = sint (r_value r);
                       error =
                         (if r_errno r = EINVAL \<or> r_endptr r = 0 \<or> e \<noteq> 0 then INVALID
                          else if ll = sint LONG_MIN \<and> r_errno r = ERANGE \<or> ll < minval then TOOSMALL
                          else if ll = sint LONG_MAX \<and> r_errno r = ERANGE \<or> ll > maxval then TOOLARGE
                          else OK)
                   in Some (if error = OK then ll else 0, error)))))"

section \<open>What the functions compute\<close>

text \<open>The subject sequence of a string, by the grammar: white space, a sign, a prefix, digits.\<close>

definition valid_digit :: "int \<Rightarrow> int \<Rightarrow> bool" where
  "valid_digit base c \<longleftrightarrow> (case digit_value c of None \<Rightarrow> False | Some d \<Rightarrow> d < base)"

definition split_sign :: "cstring \<Rightarrow> bool \<times> cstring" where
  "split_sign xs = (case xs of [] \<Rightarrow> (False, []) | c # r \<Rightarrow> if c = 45 then (True, r) else if c = 43 then (False, r) else (False, xs))"

definition has_prefix :: "bool \<Rightarrow> cstring \<Rightarrow> bool" where
  "has_prefix guarded xs \<longleftrightarrow> take 2 xs \<in> {[48, 120], [48, 88]} \<and> (guarded \<longrightarrow> 2 < length xs \<and> hex_digit (xs ! 2))"

definition split_prefix :: "bool \<Rightarrow> int \<Rightarrow> cstring \<Rightarrow> int \<times> cstring" where
  "split_prefix guarded base xs =
     (if (base = 0 \<or> base = 16) \<and> has_prefix guarded xs then (16, drop 2 xs)
      else (if base = 0 then (if take 1 xs = [48] then 8 else 10) else base, xs))"

definition horner :: "int \<Rightarrow> nat \<Rightarrow> cstring \<Rightarrow> nat" where
  "horner base a cs = foldl (\<lambda>a c. a * nat base + nat (the (digit_value c))) a cs"

record subject =
  sj_neg :: bool
  sj_base :: int
  sj_digits :: "int list"
  sj_rest :: cstring

definition subject_of :: "bool \<Rightarrow> (int \<Rightarrow> bool) \<Rightarrow> cstring \<Rightarrow> int \<Rightarrow> subject" where
  "subject_of guarded isspace str base =
     (let (neg, xs) = split_sign (dropWhile isspace str); (b, ys) = split_prefix guarded base xs
      in \<lparr>sj_neg = neg, sj_base = b, sj_digits = takeWhile (valid_digit b) ys, sj_rest = dropWhile (valid_digit b) ys\<rparr>)"

definition magnitude :: "subject \<Rightarrow> nat" where
  "magnitude sj = horner (sj_base sj) 0 (sj_digits sj)"

definition convertible :: "subject \<Rightarrow> bool" where
  "convertible sj \<longleftrightarrow> 2 \<le> sj_base sj \<and> sj_base sj \<le> 36 \<and> sj_digits sj \<noteq> []"

section \<open>Positions as suffixes\<close>

definition hd0 :: "cstring \<Rightarrow> int" where
  "hd0 xs = (case xs of [] \<Rightarrow> 0 | x # _ \<Rightarrow> x)"

definition pos :: "cstring \<Rightarrow> cstring \<Rightarrow> nat" where
  "pos str r = length str - length r"

lemma hd0_simps [simp]: "hd0 [] = 0" "hd0 (x # xs) = x"
  by (simp_all add: hd0_def)

lemma rdc_pos: "suffix r str \<Longrightarrow> rdc str (pos str r) = Some (hd0 r)"
  by (cases r) (auto simp: rdc_def pos_def suffix_def nth_append)

lemma pos_Cons: "suffix (x # r) str \<Longrightarrow> Suc (pos str (x # r)) = pos str r"
  by (auto simp: pos_def suffix_def)

lemma suffix_Cons_tl: "suffix (x # r) str \<Longrightarrow> suffix r str"
  by (rule suffix_ConsD)

lemma skip_space_pos:
  assumes "\<not> isspace 0"
  shows "suffix r str \<Longrightarrow> skip_space isspace str (pos str r) =
    Some (hd0 (dropWhile isspace r), Suc (pos str (dropWhile isspace r)))"
proof (induction r)
  case Nil
  then show ?case using assms rdc_pos [OF Nil] by (simp add: skip_space.simps)
next
  case (Cons x r)
  show ?case
    using Cons.IH [OF suffix_Cons_tl [OF Cons.prems]] rdc_pos [OF Cons.prems] pos_Cons [OF Cons.prems]
    by (simp add: skip_space.simps [of isspace str "pos str (x # r)"])
qed

lemma suffix_split_sign: "suffix r str \<Longrightarrow> suffix (snd (split_sign r)) str"
  by (auto simp: split_sign_def split: list.splits dest: suffix_Cons_tl)

lemma pick_sign_pos:
  assumes "suffix r str"
  shows "pick_sign str (hd0 r) (Suc (pos str r)) =
    Some (fst (split_sign r), hd0 (snd (split_sign r)), Suc (pos str (snd (split_sign r))))"
proof (cases r)
  case Nil
  then show ?thesis by (simp add: pick_sign_def split_sign_def)
next
  case (Cons x r')
  then show ?thesis
    using assms pos_Cons [of x r' str] rdc_pos [of r' str] suffix_Cons_tl [of x r' str]
    by (simp add: pick_sign_def split_sign_def)
qed

definition prefixed :: "bool \<Rightarrow> int \<Rightarrow> cstring \<Rightarrow> bool" where
  "prefixed guarded base r \<longleftrightarrow> (base = 0 \<or> base = 16) \<and> has_prefix guarded r"

lemma hex_digit_0: "\<not> hex_digit 0"
  by (simp add: hex_digit_def)

lemma pick_prefix_pos:
  assumes "suffix r str"
  shows "pick_prefix guarded str base (hd0 r) (Suc (pos str r)) =
    Some (if prefixed guarded base r then (16, hd0 (drop 2 r), Suc (pos str (drop 2 r)))
          else (base, hd0 r, Suc (pos str r)))"
proof -
  consider (nil) "r = []" | (one) x where "r = [x]" | (two) x y where "r = [x, y]" | (more) x y z zs where "r = x # y # z # zs"
    by (metis neq_Nil_conv)
  then show ?thesis
  proof cases
    case nil
    then show ?thesis by (simp add: pick_prefix_def prefixed_def has_prefix_def)
  next
    case one
    then show ?thesis using assms pos_Cons [of x "[]" str] rdc_pos [of "[]" str]
      by (simp add: pick_prefix_def prefixed_def has_prefix_def)
  next
    case two
    then have s: "suffix [y] str" "suffix [] str" using assms by (auto dest: suffix_Cons_tl)
    then show ?thesis
      using two assms pos_Cons [of x "[y]" str] pos_Cons [of y "[]" str] rdc_pos [OF s(1)] rdc_pos [OF s(2)]
      by (auto simp: pick_prefix_def prefixed_def has_prefix_def hex_digit_0)
  next
    case more
    then have s: "suffix (y # z # zs) str" "suffix (z # zs) str" using assms by (auto dest: suffix_Cons_tl)
    then show ?thesis
      using more assms pos_Cons [of x "y # z # zs" str] pos_Cons [of y "z # zs" str] rdc_pos [OF s(1)] rdc_pos [OF s(2)]
      by (auto simp: pick_prefix_def prefixed_def has_prefix_def)
  qed
qed

section \<open>The digit loop\<close>

lemma digit_value_0 [simp]: "digit_value 0 = None"
  by (simp add: digit_value_def)

lemma digit_value_nonneg: "digit_value c = Some d \<Longrightarrow> 0 \<le> d \<and> d < 36"
  by (auto simp: digit_value_def split: if_splits)

lemma digits_loop_neg:
  assumes "0 \<notin> set r" "suffix r str"
  shows "\<exists>acc'. digits_loop str base cutoff cutlim acc (- 1) (hd0 r) (Suc (pos str r)) =
    Some (acc', - 1, Suc (pos str (dropWhile (valid_digit base) r)))"
  using assms
proof (induction r)
  case Nil
  then show ?case by (simp add: digits_loop.simps)
next
  case (Cons x r)
  note s = suffix_Cons_tl [OF Cons.prems(2)]
  show ?case
    using Cons.IH [OF _ s] Cons.prems rdc_pos [OF s] pos_Cons [OF Cons.prems(2)]
    by (auto simp: digits_loop.simps [of str base cutoff cutlim acc "- 1" x] valid_digit_def split: option.splits)
qed

lemma horner_mono: "horner base a cs \<ge> a" if "2 \<le> base"
proof (induction cs arbitrary: a)
  case Nil
  then show ?case by (simp add: horner_def)
next
  case (Cons c cs)
  have "a * 1 \<le> a * nat base" using that by (intro mult_le_mono2) simp
  then have "a \<le> a * nat base + nat (the (digit_value c))" by (simp only: mult_1_right trans_le_add1)
  also have "\<dots> \<le> horner base (a * nat base + nat (the (digit_value c))) cs" by (rule Cons.IH)
  finally show ?case by (simp add: horner_def)
qed

lemma cutoff_test:
  fixes acc M :: u64 and base d :: int
  assumes "2 \<le> base" "base \<le> 36" "0 \<le> d" "d < base"
  shows "(M div of_int base < acc \<or> acc = M div of_int base \<and> uint (M mod of_int base) < d) \<longleftrightarrow>
    unat M < unat acc * nat base + nat d"
proof -
  have b: "unat (of_int base :: u64) = nat base" using assms
    by (simp add: unat_eq_nat_uint uint_word_of_int)
  let ?q = "unat M div nat base" and ?r = "unat M mod nat base"
  have M: "unat M = ?q * nat base + ?r" by simp
  have "?r < nat base" using assms by simp
  have q: "unat (M div of_int base) = ?q" by (simp only: unat_div_distrib b)
  have r: "unat (M mod of_int base) = ?r" by (simp only: unat_mod_distrib b)
  have e: "(M div of_int base < acc) = (?q < unat acc)" "(acc = M div of_int base) = (unat acc = ?q)"
    by (simp_all only: word_less_nat_alt word_unat_eq_iff q)
  have "uint (M mod of_int base) = int ?r" by (simp only: r [symmetric] of_nat_unat)
  then have e3: "(uint (M mod of_int base) < d) = (?r < nat d)" using assms by (simp only:) linarith
  note e = e e3
  show ?thesis
  proof (cases ?q "unat acc" rule: linorder_cases)
    case less
    then have "Suc ?q * nat base \<le> unat acc * nat base" by (intro mult_le_mono1) simp
    then have "unat M < unat acc * nat base + nat d" using M \<open>?r < nat base\<close> unfolding mult_Suc by linarith
    then show ?thesis using less e by blast
  next
    case equal
    then show ?thesis using e M by auto
  next
    case greater
    then have "Suc (unat acc) * nat base \<le> ?q * nat base" by (intro mult_le_mono1) simp
    moreover have "nat d < nat base" using assms by simp
    ultimately have "\<not> unat M < unat acc * nat base + nat d" using M unfolding mult_Suc by linarith
    then show ?thesis using greater e by simp
  qed
qed

lemma horner_Cons: "horner base a (c # cs) = horner base (a * nat base + nat (the (digit_value c))) cs"
  by (simp add: horner_def)

lemma digits_loop_correct:
  fixes M :: u64
  assumes base: "2 \<le> base" "base \<le> 36"
  defines "cutoff \<equiv> M div of_int base" and "cutlim \<equiv> uint (M mod of_int base)"
  assumes "0 \<notin> set r" "suffix r str" "any = 0 \<or> any = 1" "unat acc \<le> unat M"
  shows "\<exists>acc' any'. digits_loop str base cutoff cutlim acc any (hd0 r) (Suc (pos str r)) =
      Some (acc', any', Suc (pos str (dropWhile (valid_digit base) r))) \<and>
    (if horner base (unat acc) (takeWhile (valid_digit base) r) \<le> unat M
     then unat acc' = horner base (unat acc) (takeWhile (valid_digit base) r) \<and>
       any' = (if takeWhile (valid_digit base) r = [] then any else 1)
     else any' = - 1)"
  using assms(5-8)
proof (induction r arbitrary: acc any)
  case Nil
  then show ?case by (simp add: digits_loop.simps horner_def)
next
  case (Cons x r)
  note s = suffix_Cons_tl [OF Cons.prems(2)]
  have z: "0 \<notin> set r" using Cons.prems(1) by simp
  show ?case
  proof (cases "valid_digit base x")
    case False
    then show ?thesis using Cons.prems(4)
      by (auto simp: digits_loop.simps [of str base cutoff cutlim acc any x] valid_digit_def horner_def split: option.splits)
  next
    case True
    then obtain d where d: "digit_value x = Some d" "d < base" by (auto simp: valid_digit_def split: option.splits)
    have d0: "0 \<le> d" using digit_value_nonneg [OF d(1)] by simp
    let ?v = "unat acc * nat base + nat d" and ?acc = "acc * of_int base + of_int d"
    have t: "(cutoff < acc \<or> acc = cutoff \<and> cutlim < d) \<longleftrightarrow> unat M < ?v"
      unfolding cutoff_def cutlim_def by (rule cutoff_test [OF base d0 d(2)])
    have h: "horner base (unat acc) (takeWhile (valid_digit base) (x # r)) = horner base ?v (takeWhile (valid_digit base) r)"
      using True d by (simp add: horner_Cons)
    have step: "digits_loop str base cutoff cutlim acc any x (Suc (pos str (x # r))) =
      (if unat M < ?v then digits_loop str base cutoff cutlim acc (- 1) (hd0 r) (Suc (pos str r))
       else digits_loop str base cutoff cutlim ?acc 1 (hd0 r) (Suc (pos str r)))"
      using d t Cons.prems(3) rdc_pos [OF s] pos_Cons [OF Cons.prems(2)]
      by (auto simp: digits_loop.simps [of str base cutoff cutlim acc any x])
    show ?thesis
    proof (cases "unat M < ?v")
      case big: True
      then have "\<not> horner base ?v (takeWhile (valid_digit base) r) \<le> unat M"
        using horner_mono [OF base(1), of ?v "takeWhile (valid_digit base) r"] by linarith
      then show ?thesis using digits_loop_neg [OF z s, of base cutoff cutlim acc] True big step h by auto
    next
      case small: False
      have "?v < 2 ^ 64" using small unat_bound [of M] by simp
      moreover have "?acc = of_nat ?v" using base d0 by (simp add: of_nat_nat)
      ultimately have v: "unat ?acc = ?v" by (simp only: unsigned_of_nat) (simp add: take_bit_nat_eq_self)
      have le: "unat ?acc \<le> unat M" using small v by simp
      show ?thesis
        using Cons.IH [OF z s _ le, of 1] True small step h v by (auto split: if_splits)
    qed
  qed
qed

section \<open>The conversions\<close>

definition expected :: "(bool \<Rightarrow> u64) \<Rightarrow> (bool \<Rightarrow> u64) \<Rightarrow> cstring \<Rightarrow> subject \<Rightarrow> strto_result" where
  "expected limit clamp str sj =
     (if \<not> convertible sj then \<lparr>r_value = 0, r_endptr = 0, r_errno = EINVAL\<rparr>
      else if magnitude sj \<le> unat (limit (sj_neg sj))
      then \<lparr>r_value = (if sj_neg sj then - of_nat (magnitude sj) else of_nat (magnitude sj)),
            r_endptr = pos str (sj_rest sj), r_errno = Unchanged\<rparr>
      else \<lparr>r_value = clamp (sj_neg sj), r_endptr = pos str (sj_rest sj), r_errno = ERANGE\<rparr>)"

lemma default_base_hd: "default_base base (hd0 r) = (if base = 0 then (if take 1 r = [48] then 8 else 10) else base)"
  by (cases r) (auto simp: default_base_def)

lemma strto_body_correct:
  assumes sp: "\<not> isspace 0" and nul: "0 \<notin> set str"
  shows "strto_body guarded limit clamp isspace str base = Some (expected limit clamp str (subject_of guarded isspace str base))"
proof -
  let ?r0 = "dropWhile isspace str"
  obtain neg r1 where r1: "split_sign ?r0 = (neg, r1)" by fastforce
  obtain b r2 where r2: "split_prefix guarded base r1 = (b, r2)" by fastforce
  have s0: "suffix ?r0 str" by (rule suffix_dropWhile)
  have s1: "suffix r1 str" using suffix_split_sign [OF s0] r1 by simp
  have s2: "suffix r2 str" using s1 r2 suffix_drop [of 2 r1] suffix_order.trans
    by (auto simp: split_prefix_def split: if_splits)
  have n2: "0 \<notin> set r2" using set_mono_suffix [OF s2] nul by blast
  let ?c = "hd0 r2" and ?s = "Suc (pos str r2)"
  let ?ds = "takeWhile (valid_digit b) r2" and ?rest = "dropWhile (valid_digit b) r2"
  have sj: "subject_of guarded isspace str base = \<lparr>sj_neg = neg, sj_base = b, sj_digits = ?ds, sj_rest = ?rest\<rparr>"
    by (simp add: subject_of_def r1 r2)
  have sk: "skip_space isspace str 0 = Some (hd0 ?r0, Suc (pos str ?r0))"
    using skip_space_pos [of isspace str str, OF sp] by (simp add: pos_def)
  have sg: "pick_sign str (hd0 ?r0) (Suc (pos str ?r0)) = Some (neg, hd0 r1, Suc (pos str r1))"
    using pick_sign_pos [OF s0] r1 by simp
  have "(case pick_prefix guarded str base (hd0 r1) (Suc (pos str r1)) of None \<Rightarrow> None
     | Some (bb, c, s) \<Rightarrow> Some (default_base bb c, c, s)) = Some (b, ?c, ?s)"
    using pick_prefix_pos [OF s1, of guarded base] r2 default_base_hd [of base r1]
    by (auto simp: split_prefix_def prefixed_def default_base_def [of 16] split: if_splits)
  then obtain bb where bb: "pick_prefix guarded str base (hd0 r1) (Suc (pos str r1)) = Some (bb, ?c, ?s)"
    "default_base bb ?c = b" by (auto split: option.splits)
  have body: "strto_body guarded limit clamp isspace str base =
    (if b < 2 \<or> b > 36 then Some (finish neg (clamp neg) (0, 0, ?s))
     else map_option (finish neg (clamp neg))
       (digits_loop str b (limit neg div of_int b) (uint (limit neg mod of_int b)) 0 0 ?c ?s))"
    unfolding strto_body_def sk sg by (simp add: sg bb Let_def)
  show ?thesis
  proof (cases "b < 2 \<or> b > 36")
    case True
    then show ?thesis unfolding body sj by (auto simp: finish_def expected_def convertible_def)
  next
    case False
    then have b: "2 \<le> b" "b \<le> 36" by simp_all
    from digits_loop_correct [OF b n2 s2, of 0 0 "limit neg"] obtain acc any where
      l: "digits_loop str b (limit neg div of_int b) (uint (limit neg mod of_int b)) 0 0 ?c ?s = Some (acc, any, Suc (pos str ?rest))"
      and v: "if horner b 0 ?ds \<le> unat (limit neg) then unat acc = horner b 0 ?ds \<and> any = (if ?ds = [] then 0 else 1) else any = - 1"
      by auto
    have h0: "horner b 0 [] = 0" by (simp add: horner_def)
    have "of_nat (unat acc) = acc" by simp
    then have acc: "acc = of_nat (horner b 0 ?ds)" if "horner b 0 ?ds \<le> unat (limit neg)" using v that by simp
    show ?thesis
      unfolding body sj using False l v acc h0
      by (auto simp: finish_def expected_def convertible_def magnitude_def split: if_splits)
  qed
qed

lemma signed_limit_unat: "unat (signed_limit neg) = (if neg then 2 ^ 63 else 2 ^ 63 - 1)"
  by (simp add: signed_limit_def)

definition value_of :: "subject \<Rightarrow> int" where
  "value_of sj = (if sj_neg sj then - int (magnitude sj) else int (magnitude sj))"

lemma expected_signed:
  fixes sj str
  defines "r \<equiv> expected signed_limit signed_clamp str sj" and "n \<equiv> value_of sj"
  assumes "convertible sj"
  shows "r_endptr r = pos str (sj_rest sj) \<and>
    (if - (2 ^ 63) \<le> n \<and> n < 2 ^ 63 then sint (r_value r) = n \<and> r_errno r = Unchanged
     else sint (r_value r) = (if n < 0 then - (2 ^ 63) else 2 ^ 63 - 1) \<and> r_errno r = ERANGE)"
proof -
  have lim: "magnitude sj \<le> unat (signed_limit (sj_neg sj)) \<longleftrightarrow> - (2 ^ 63) \<le> n \<and> n < 2 ^ 63"
    by (auto simp: signed_limit_unat n_def value_of_def)
  have v: "(if sj_neg sj then - of_nat (magnitude sj) else of_nat (magnitude sj)) = (of_int n :: u64)"
    by (simp add: n_def value_of_def)
  show ?thesis
  proof (cases "- (2 ^ 63) \<le> n \<and> n < 2 ^ 63")
    case True
    then show ?thesis
      using assms(3) lim v sint_of_int_64 [of n] by (simp add: r_def expected_def)
  next
    case False
    then have neg: "n < 0 \<longleftrightarrow> sj_neg sj" by (auto simp: n_def value_of_def)
    have "\<not> magnitude sj \<le> unat (signed_limit (sj_neg sj))" using lim False by blast
    then show ?thesis using assms(3) False neg by (simp add: r_def expected_def signed_clamp_def)
  qed
qed

lemma expected_unsigned:
  fixes sj str
  defines "r \<equiv> expected (\<lambda>_. ULONG_MAX) (\<lambda>_. ULONG_MAX) str sj"
  assumes "convertible sj"
  shows "r_endptr r = pos str (sj_rest sj) \<and>
    (if magnitude sj < 2 ^ 64 then uint (r_value r) = value_of sj mod 2 ^ 64 \<and> r_errno r = Unchanged
     else uint (r_value r) = 2 ^ 64 - 1 \<and> r_errno r = ERANGE)"
proof -
  have lim: "magnitude sj \<le> unat ULONG_MAX \<longleftrightarrow> magnitude sj < 2 ^ 64" by auto
  have v: "(if sj_neg sj then - of_nat (magnitude sj) else of_nat (magnitude sj)) = (of_int (value_of sj) :: u64)"
    by (simp add: value_of_def)
  show ?thesis
    using assms(2) unfolding r_def expected_def lim v by (simp add: uint_word_of_int)
qed

lemmas strto_defs = strtol_l_def strtoll_l_def strtoimax_l_def strtoul_l_def strtoull_l_def strtoumax_l_def
  wcstol_l_def wcstoll_l_def wcstoimax_l_def wcstoul_l_def wcstoull_l_def wcstoumax_l_def

text \<open>The classification of the C locale, the concrete instance of \<open>isspace\<close>.\<close>

definition c_isspace :: "int \<Rightarrow> bool" where
  "c_isspace c \<longleftrightarrow> c = 32 \<or> 9 \<le> c \<and> c \<le> 13"

text \<open>
  C7: the signed conversions never read outside the string and return the value its subject
  sequence denotes when that fits in 64 bits, the nearest limit with \<open>ERANGE\<close> when it does not, and 0 with
  \<open>EINVAL\<close> and the end pointer at the start when there is nothing to convert; otherwise the end
  pointer is at the first character after the digits.
\<close>

theorem strtol_correct:
  fixes isspace nptr base
  assumes "\<not> isspace 0" "0 \<notin> set nptr"
  defines "sj \<equiv> subject_of True isspace nptr base" and "n \<equiv> value_of (subject_of True isspace nptr base)"
  shows "\<exists>r. strtol_l isspace nptr base = Some r \<and> strtoll_l isspace nptr base = Some r \<and>
    strtoimax_l isspace nptr base = Some r \<and>
    (if convertible sj
     then r_endptr r = length nptr - length (sj_rest sj) \<and>
       (if - (2 ^ 63) \<le> n \<and> n < 2 ^ 63 then sint (r_value r) = n \<and> r_errno r = Unchanged
        else sint (r_value r) = (if n < 0 then - (2 ^ 63) else 2 ^ 63 - 1) \<and> r_errno r = ERANGE)
     else sint (r_value r) = 0 \<and> r_endptr r = 0 \<and> r_errno r = EINVAL)"
proof -
  let ?r = "expected signed_limit signed_clamp nptr sj"
  have "strto_body True signed_limit signed_clamp isspace nptr base = Some ?r"
    unfolding sj_def by (rule strto_body_correct [where isspace = isspace, OF assms(1,2)])
  moreover have "convertible sj \<Longrightarrow> r_endptr ?r = length nptr - length (sj_rest sj) \<and>
       (if - (2 ^ 63) \<le> n \<and> n < 2 ^ 63 then sint (r_value ?r) = n \<and> r_errno ?r = Unchanged
        else sint (r_value ?r) = (if n < 0 then - (2 ^ 63) else 2 ^ 63 - 1) \<and> r_errno ?r = ERANGE)"
    unfolding n_def sj_def pos_def [symmetric] by (rule expected_signed)
  moreover have "\<not> convertible sj \<Longrightarrow> sint (r_value ?r) = 0 \<and> r_endptr ?r = 0 \<and> r_errno ?r = EINVAL"
    by (simp add: expected_def)
  ultimately show ?thesis unfolding strto_defs by (metis (no_types, lifting))
qed

theorem strtol_correct_witness:
  "\<exists>r. strtol_l c_isspace [32, 45, 48, 120, 49, 70, 103] 0 = Some r \<and> sint (r_value r) = - 31 \<and>
     r_endptr r = 6 \<and> r_errno r = Unchanged"
proof -
  let ?s = "[32, 45, 48, 120, 49, 70, 103] :: int list"
  have sj: "subject_of True c_isspace ?s 0 = \<lparr>sj_neg = True, sj_base = 16, sj_digits = [49, 70], sj_rest = [103]\<rparr>"
    by code_simp
  have "value_of (subject_of True c_isspace ?s 0) = - 31" "convertible (subject_of True c_isspace ?s 0)"
    unfolding sj by code_simp+
  then show ?thesis using strtol_correct [of c_isspace ?s 0] by (auto simp: sj c_isspace_def)
qed

text \<open>
  The unsigned conversions never read outside the string and return the value of the subject
  sequence modulo \<open>2 ^ 64\<close>, negated when it has a minus sign, when its magnitude is below \<open>2 ^ 64\<close>; the
  greatest value with \<open>ERANGE\<close> when it is not, and 0 with \<open>EINVAL\<close> when there is nothing to convert.
\<close>

theorem strtoul_correct:
  fixes isspace nptr base
  assumes "\<not> isspace 0" "0 \<notin> set nptr"
  defines "sj \<equiv> subject_of True isspace nptr base"
  shows "\<exists>r. strtoul_l isspace nptr base = Some r \<and> strtoull_l isspace nptr base = Some r \<and>
    strtoumax_l isspace nptr base = Some r \<and>
    (if convertible sj
     then r_endptr r = length nptr - length (sj_rest sj) \<and>
       (if magnitude sj < 2 ^ 64 then uint (r_value r) = value_of sj mod 2 ^ 64 \<and> r_errno r = Unchanged
        else uint (r_value r) = 2 ^ 64 - 1 \<and> r_errno r = ERANGE)
     else r_value r = 0 \<and> r_endptr r = 0 \<and> r_errno r = EINVAL)"
proof -
  let ?r = "expected (\<lambda>_. ULONG_MAX) (\<lambda>_. ULONG_MAX) nptr sj"
  have "strto_body True (\<lambda>_. ULONG_MAX) (\<lambda>_. ULONG_MAX) isspace nptr base = Some ?r"
    unfolding sj_def by (rule strto_body_correct [where isspace = isspace, OF assms(1,2)])
  moreover have "convertible sj \<Longrightarrow> r_endptr ?r = length nptr - length (sj_rest sj) \<and>
       (if magnitude sj < 2 ^ 64 then uint (r_value ?r) = value_of sj mod 2 ^ 64 \<and> r_errno ?r = Unchanged
        else uint (r_value ?r) = 2 ^ 64 - 1 \<and> r_errno ?r = ERANGE)"
    unfolding pos_def [symmetric] by (rule expected_unsigned)
  moreover have "\<not> convertible sj \<Longrightarrow> r_value ?r = 0 \<and> r_endptr ?r = 0 \<and> r_errno ?r = EINVAL"
    by (simp add: expected_def)
  ultimately show ?thesis unfolding strto_defs by (metis (no_types, lifting))
qed

theorem strtoul_correct_witness:
  "\<exists>r. strtoul_l c_isspace [45, 49, 120] 10 = Some r \<and> uint (r_value r) = 2 ^ 64 - 1 \<and> r_endptr r = 2"
proof -
  have sj: "subject_of True c_isspace [45, 49, 120] 10 = \<lparr>sj_neg = True, sj_base = 10, sj_digits = [49], sj_rest = [120]\<rparr>"
    by code_simp
  have "value_of (subject_of True c_isspace [45, 49, 120] 10) = - 1" "convertible (subject_of True c_isspace [45, 49, 120] 10)"
    "magnitude (subject_of True c_isspace [45, 49, 120] 10) = 1"
    unfolding sj by code_simp+
  then show ?thesis using strtoul_correct [of c_isspace "[45, 49, 120]" 10] by (auto simp: sj c_isspace_def)
qed

text \<open>
  The wide-character conversions give the same result as the byte-string ones on every string
  but those whose number is a \<open>0x\<close> that no hexadecimal digit follows.
\<close>

theorem wcstol_agrees:
  assumes "\<not> isspace 0" "0 \<notin> set nptr"
    and "has_prefix False (snd (split_sign (dropWhile isspace nptr))) \<Longrightarrow>
      has_prefix True (snd (split_sign (dropWhile isspace nptr)))"
  shows "wcstol_l isspace nptr base = strtol_l isspace nptr base \<and>
    wcstoll_l isspace nptr base = strtoll_l isspace nptr base \<and>
    wcstoimax_l isspace nptr base = strtoimax_l isspace nptr base \<and>
    wcstoul_l isspace nptr base = strtoul_l isspace nptr base \<and>
    wcstoull_l isspace nptr base = strtoull_l isspace nptr base \<and>
    wcstoumax_l isspace nptr base = strtoumax_l isspace nptr base"
proof -
  have "has_prefix False (snd (split_sign (dropWhile isspace nptr))) \<longleftrightarrow>
      has_prefix True (snd (split_sign (dropWhile isspace nptr)))"
    using assms(3) by (auto simp: has_prefix_def)
  then have "subject_of False isspace nptr base = subject_of True isspace nptr base"
    by (cases "split_sign (dropWhile isspace nptr)") (simp add: subject_of_def split_prefix_def)
  then have "strto_body False limit clamp isspace nptr base = strto_body True limit clamp isspace nptr base" for limit clamp
    by (simp only: strto_body_correct [where isspace = isspace, OF assms(1,2)])
  then show ?thesis unfolding strto_defs by blast
qed

theorem wcstol_agrees_witness:
  "wcstol_l c_isspace [48, 120, 65] 16 = strtol_l c_isspace [48, 120, 65] 16 \<and>
   map_option r_value (wcstol_l c_isspace [48, 120, 65] 16) = Some 10"
proof -
  have "map_option r_value (wcstol_l c_isspace [48, 120, 65] 16) = Some 10" by code_simp
  then show ?thesis
    using wcstol_agrees [of c_isspace "[48, 120, 65]" 16]
    by (simp add: c_isspace_def has_prefix_def split_sign_def hex_digit_def)
qed

text \<open>
  On \<open>0xg\<close> the wide-character conversion reports that there is nothing to convert, while the
  byte-string conversion converts the leading zero and stops at the \<open>x\<close>.
\<close>

theorem wcstol_loses_zero:
  "wcstol_l c_isspace [48, 120, 103] 16 = Some \<lparr>r_value = 0, r_endptr = 0, r_errno = EINVAL\<rparr> \<and>
   strtol_l c_isspace [48, 120, 103] 16 = Some \<lparr>r_value = 0, r_endptr = 1, r_errno = Unchanged\<rparr>"
  by code_simp

lemma subject_rest:
  shows "suffix (sj_rest (subject_of guarded isspace str base)) str"
    and "sj_digits (subject_of guarded isspace str base) \<noteq> [] \<Longrightarrow>
      length (sj_rest (subject_of guarded isspace str base)) < length str"
proof -
  obtain neg r1 where r1: "split_sign (dropWhile isspace str) = (neg, r1)" by fastforce
  obtain b r2 where r2: "split_prefix guarded base r1 = (b, r2)" by fastforce
  have s1: "suffix r1 str" using suffix_split_sign [OF suffix_dropWhile, of isspace str] r1 by simp
  have s2: "suffix r2 str" using s1 r2 suffix_drop [of 2 r1] suffix_order.trans
    by (auto simp: split_prefix_def split: if_splits)
  have sj: "sj_rest (subject_of guarded isspace str base) = dropWhile (valid_digit b) r2"
    "sj_digits (subject_of guarded isspace str base) = takeWhile (valid_digit b) r2"
    by (simp_all add: subject_of_def r1 r2)
  show "suffix (sj_rest (subject_of guarded isspace str base)) str"
    unfolding sj using s2 suffix_dropWhile suffix_order.trans by blast
  have "length (takeWhile (valid_digit b) r2) + length (dropWhile (valid_digit b) r2) = length r2"
    by (metis length_append takeWhile_dropWhile_id)
  moreover have "length r2 \<le> length str" using s2 by (rule suffix_length_le)
  ultimately show "length (sj_rest (subject_of guarded isspace str base)) < length str"
    if "sj_digits (subject_of guarded isspace str base) \<noteq> []"
    using that unfolding sj by (cases "takeWhile (valid_digit b) r2") simp_all
qed

text \<open>
  C8: \<open>strtonum\<close> accepts exactly the strings that denote, to their end, a decimal number within the
  given bounds (which are 64-bit numbers themselves), and returns it; a number below or above them is
  reported as too small or too large, and anything else as invalid, with value 0.
\<close>

theorem strtonum_correct:
  fixes isspace numstr
  assumes "\<not> isspace 0" "0 \<notin> set numstr" "- (2 ^ 63) \<le> minval" "maxval < 2 ^ 63"
  defines "sj \<equiv> subject_of True isspace numstr 10"
  shows "strtonum isspace numstr minval maxval =
    Some (if minval > maxval \<or> \<not> convertible sj \<or> sj_rest sj \<noteq> [] then (0, INVALID)
          else if value_of sj < minval then (0, TOOSMALL)
          else if maxval < value_of sj then (0, TOOLARGE)
          else (value_of sj, OK))"
proof (cases "minval > maxval")
  case True
  then show ?thesis by (simp add: strtonum_def)
next
  case False
  define r where "r = expected signed_limit signed_clamp numstr sj"
  have r: "strtoll_l isspace numstr 10 = Some r"
    unfolding strto_defs r_def sj_def by (rule strto_body_correct [where isspace = isspace, OF assms(1,2)])
  show ?thesis
  proof (cases "convertible sj")
    case bad: False
    then have "r_endptr r = 0" "r_errno r = EINVAL" by (simp_all add: r_def expected_def)
    then show ?thesis using False bad r by (simp add: strtonum_def rdc_def)
  next
    case True
    then have "sj_digits sj \<noteq> []" by (simp add: convertible_def)
    then have p: "pos numstr (sj_rest sj) \<noteq> 0" using subject_rest(2) [of True isspace numstr 10] by (simp add: pos_def sj_def)
    have s: "suffix (sj_rest sj) numstr" unfolding sj_def by (rule subject_rest(1))
    have z: "hd0 (sj_rest sj) \<noteq> 0 \<longleftrightarrow> sj_rest sj \<noteq> []"
      using set_mono_suffix [OF s] assms(2) by (cases "sj_rest sj") auto
    note e = expected_signed [of sj numstr, folded r_def, OF True]
    have lim: "sint LONG_MIN = - (2 ^ 63)" "sint LONG_MAX = 2 ^ 63 - 1" by simp_all
    show ?thesis
      using False True e p rdc_pos [OF s] z assms(3,4) unfolding strtonum_def r lim by (auto split: if_splits)
  qed
qed

theorem strtonum_correct_witness:
  "strtonum c_isspace [52, 50] 0 100 = Some (42, OK)"
proof -
  have sj: "subject_of True c_isspace [52, 50] 10 = \<lparr>sj_neg = False, sj_base = 10, sj_digits = [52, 50], sj_rest = []\<rparr>"
    by code_simp
  have "value_of (subject_of True c_isspace [52, 50] 10) = 42" "convertible (subject_of True c_isspace [52, 50] 10)"
    unfolding sj by code_simp+
  then show ?thesis using strtonum_correct [of c_isspace "[52, 50]" 0 100] by (simp add: sj c_isspace_def)
qed

section \<open>Printing and reading back\<close>

function show_nat :: "nat \<Rightarrow> cstring" where
  "show_nat n = (if n < 10 then [48 + int n] else show_nat (n div 10) @ [48 + int (n mod 10)])"
  by pat_completeness auto
termination
  by (relation "measure id") auto

declare show_nat.simps [simp del]

definition show_int :: "int \<Rightarrow> cstring" where
  "show_int n = (if n < 0 then 45 # show_nat (nat (- n)) else show_nat (nat n))"

lemma show_nat_digits: "c \<in> set (show_nat n) \<Longrightarrow> 48 \<le> c \<and> c \<le> 57"
proof (induction n rule: show_nat.induct)
  case (1 n)
  then show ?case by (cases "n < 10") (auto simp: show_nat.simps [of n])
qed

lemma show_nat_nonempty: "show_nat n \<noteq> []"
  by (subst show_nat.simps) simp

lemma horner_append: "horner base a (xs @ ys) = horner base (horner base a xs) ys"
  by (simp add: horner_def)

lemma horner_show_nat: "horner 10 0 (show_nat n) = n"
proof (induction n rule: show_nat.induct)
  case (1 n)
  have d: "digit_value (48 + int k) = Some (int k)" if "k < 10" for k using that by (simp add: digit_value_def)
  show ?case
  proof (cases "n < 10")
    case True
    then show ?thesis using d by (subst show_nat.simps) (simp add: horner_def)
  next
    case False
    then have "show_nat n = show_nat (n div 10) @ [48 + int (n mod 10)]" by (subst show_nat.simps) simp
    then show ?thesis using 1 [OF False] d [of "n mod 10"] by (simp add: horner_append) (simp add: horner_def)
  qed
qed

lemma subject_show_int:
  assumes "\<And>c. isspace c \<Longrightarrow> c \<noteq> 45 \<and> \<not> (48 \<le> c \<and> c \<le> 57)"
  shows "subject_of True isspace (show_int n) 10 =
    \<lparr>sj_neg = n < 0, sj_base = 10, sj_digits = show_nat (nat \<bar>n\<bar>), sj_rest = []\<rparr>"
proof -
  let ?ds = "show_nat (nat \<bar>n\<bar>)"
  have c: "\<forall>c \<in> set ?ds. 48 \<le> c \<and> c \<le> 57" using show_nat_digits by blast
  note ne = show_nat_nonempty [of "nat \<bar>n\<bar>"]
  have s: "show_int n = (if n < 0 then 45 # ?ds else ?ds)" by (simp add: show_int_def)
  have v: "\<forall>x \<in> set ?ds. valid_digit 10 x" using c by (auto simp: valid_digit_def digit_value_def)
  have "\<not> isspace (hd (show_int n))" using assms c ne by (cases ?ds) (auto simp: s)
  then have "dropWhile isspace (show_int n) = show_int n" using ne by (cases "show_int n") auto
  moreover have "split_sign (show_int n) = (n < 0, ?ds)"
    using c ne by (cases ?ds) (auto simp: s split_sign_def)
  ultimately show ?thesis
    using v takeWhile_eq_all_conv [of "valid_digit 10" ?ds] dropWhile_eq_Nil_conv [of "valid_digit 10" ?ds]
    by (simp add: subject_of_def split_prefix_def)
qed

text \<open>
  Printing any 64-bit integer in decimal and reading it back with \<open>strtol\<close> in base 10 gives the
  integer, with all of the string consumed and no error.
\<close>

theorem strtol_reads_decimal:
  assumes "\<And>c. isspace c \<Longrightarrow> c \<noteq> 0 \<and> c \<noteq> 45 \<and> \<not> (48 \<le> c \<and> c \<le> 57)"
    and "- (2 ^ 63) \<le> n" "n < 2 ^ 63"
  shows "\<exists>r. strtol_l isspace (show_int n) 10 = Some r \<and> sint (r_value r) = n \<and>
    r_endptr r = length (show_int n) \<and> r_errno r = Unchanged"
proof -
  have sp: "\<not> isspace 0" using assms(1) by blast
  have "0 \<notin> set (show_int n)" using show_nat_digits [of 0] by (auto simp: show_int_def)
  note b = strto_body_correct [where isspace = isspace, OF sp this]
  let ?sj = "subject_of True isspace (show_int n) 10"
  have sj: "?sj = \<lparr>sj_neg = n < 0, sj_base = 10, sj_digits = show_nat (nat \<bar>n\<bar>), sj_rest = []\<rparr>"
    by (rule subject_show_int) (use assms(1) in blast)
  have "convertible ?sj" "value_of ?sj = n"
    using show_nat_nonempty horner_show_nat by (auto simp: sj convertible_def value_of_def magnitude_def)
  with expected_signed [of ?sj "show_int n"] assms(2,3) show ?thesis
    by (auto simp: strto_defs b pos_def) (simp_all add: sj)
qed

theorem strtol_reads_decimal_witness:
  "\<exists>r. strtol_l c_isspace (show_int (- 90210)) 10 = Some r \<and> sint (r_value r) = - 90210 \<and>
    r_endptr r = 6 \<and> r_errno r = Unchanged"
proof -
  have "length (show_int (- 90210)) = 6" by (simp add: show_int_def show_nat.simps)
  moreover have "c \<noteq> 0 \<and> c \<noteq> 45 \<and> \<not> (48 \<le> c \<and> c \<le> 57)" if "c_isspace c" for c
    using that by (auto simp: c_isspace_def)
  ultimately show ?thesis using strtol_reads_decimal [of c_isspace "- 90210"] by simp
qed

end
