(* ===== verification/UTF8.thy ===== *)
theory UTF8
  imports Prelude
begin

text \<open>
  Libc's UTF-8 codec, \<^verbatim>\<open>locale/FreeBSD/utf8.c\<close>: the restartable conversions between multibyte and wide
  characters, and between their strings. Bytes are \<open>u8\<close>, wide characters \<open>u32\<close>. A source pointer
  with its length is the list of the bytes or wide characters it covers.
\<close>

section \<open>State and results\<close>

type_synonym SecondByte = "u8 \<times> u8"

record UTF8State =
  us_ch :: u32
  us_want :: int
  us_sb :: SecondByte

datatype mb_errno = MB_EINVAL | MB_EILSEQ

text \<open>The results of \<open>mbrtowc\<close>: \<open>(size_t)-1\<close> with \<open>errno\<close>, \<open>(size_t)-2\<close>, or a count with the
  character stored.\<close>

datatype mb_result = MbError mb_errno | MbIncomplete | MbDone nat u32

abbreviation (input) UTF8_MB_CUR_MAX :: int where "UTF8_MB_CUR_MAX \<equiv> 4"

definition initial :: UTF8State where
  "initial = \<lparr>us_ch = 0, us_want = 0, us_sb = (0, 0)\<rparr>"

definition UTF8_mbsinit :: "UTF8State option \<Rightarrow> bool" where
  "UTF8_mbsinit ps = (case ps of None \<Rightarrow> True | Some us \<Rightarrow> us_want us = 0)"

section \<open>Decoding one character\<close>

text \<open>What the first byte says: the mask of its interesting bits, the number of bytes and the range of
  the second byte; \<open>None\<close> is \<open>malformed\<close>.\<close>

definition first_byte :: "u8 \<Rightarrow> (u8 \<times> int \<times> SecondByte) option" where
  "first_byte ch =
     (if ch AND 0x80 = 0 then Some (0x7f, 1, (0x00, 0x00))
      else if ch AND 0xe0 = 0xc0 then
        (if ch < 0xc2 then None else Some (0x1f, 2, (0x80, 0xbf)))
      else if ch AND 0xf0 = 0xe0 then
        Some (0x0f, 3, if ch = 0xe0 then (0xa0, 0xbf) else if ch = 0xed then (0x80, 0x9f) else (0x80, 0xbf))
      else if ch AND 0xf8 = 0xf0 then
        (if ch > 0xf4 then None
         else Some (0x07, 4, if ch = 0xf0 then (0x90, 0xbf) else if ch = 0xf4 then (0x80, 0x8f) else (0x80, 0xbf)))
      else None)"

text \<open>The loop over the following bytes; \<open>s\<close> holds what is left of the input.\<close>

fun decode_loop :: "SecondByte \<Rightarrow> u32 \<Rightarrow> int \<Rightarrow> int \<Rightarrow> u8 list \<Rightarrow> (SecondByte \<times> u32 \<times> int) option" where
  "decode_loop sb wch want i [] = Some (sb, wch, i)"
| "decode_loop sb wch want i (b # s) =
     (if \<not> i < want then Some (sb, wch, i)
      else if (if fst sb \<noteq> 0 then b < fst sb \<or> b > snd sb else b AND 0xc0 \<noteq> 0x80) then None
      else decode_loop (0x00, 0x00) (push_bit 6 wch OR (ucast b AND 0x3f)) want (i + 1) s)"

text \<open>After the loop: store the state of an incomplete sequence, or deliver the character.\<close>

definition decode_finish :: "UTF8State \<Rightarrow> int \<Rightarrow> (SecondByte \<times> u32 \<times> int) option \<Rightarrow> UTF8State \<times> mb_result" where
  "decode_finish us want r =
     (case r of
        None \<Rightarrow> (us, MbError MB_EILSEQ)
      | Some (sb, wch, i) \<Rightarrow>
          if i < want then (us\<lparr>us_want := want - i, us_sb := sb, us_ch := wch\<rparr>, MbIncomplete)
          else (us\<lparr>us_want := 0\<rparr>, MbDone (if wch = 0 then 0 else nat want) wch))"

definition UTF8_mbrtowc :: "UTF8State \<Rightarrow> u8 list option \<Rightarrow> UTF8State \<times> mb_result" where
  "UTF8_mbrtowc us src =
     (if us_want us < 0 \<or> us_want us > UTF8_MB_CUR_MAX then (us, MbError MB_EINVAL)
      else
        (case (case src of None \<Rightarrow> [0] | Some s \<Rightarrow> s) of
           [] \<Rightarrow> (us, MbIncomplete)
         | b # s \<Rightarrow>
             if us_want us = 0 \<and> b AND NOT 0x7f = 0 then
               (us, MbDone (if b \<noteq> 0 then 1 else 0) (ucast b))
             else if us_want us = 0 then
               (case first_byte b of
                  None \<Rightarrow> (us, MbError MB_EILSEQ)
                | Some (msk, want, sb) \<Rightarrow>
                    decode_finish us want (decode_loop sb (ucast (b AND msk)) want 1 s))
             else decode_finish us (us_want us) (decode_loop (us_sb us) (us_ch us) (us_want us) 0 (b # s))))"

section \<open>Encoding one character\<close>

text \<open>A count, or \<open>(size_t)-1\<close> with \<open>errno\<close>.\<close>

datatype mbs_ret = MbsError mb_errno | MbsCount nat

text \<open>The lead bits and the length; \<open>None\<close> is \<open>illegal\<close>.\<close>

definition lead_len :: "u32 \<Rightarrow> (u8 \<times> nat) option" where
  "lead_len wc =
     (if wc AND NOT 0x7f = 0 then Some (0, 1)
      else if wc AND NOT 0x7ff = 0 then Some (0xc0, 2)
      else if wc AND NOT 0xffff = 0 then
        (if 0xd800 \<le> wc \<and> wc \<le> 0xdfff then None else Some (0xe0, 3))
      else if wc AND NOT 0x1fffff = 0 then
        (if wc > 0x10ffff then None else Some (0xf0, 4))
      else None)"

text \<open>The loop that writes \<open>s[i]\<close> from the last byte down, and the first byte.\<close>

fun put_octets :: "u8 \<Rightarrow> u32 \<Rightarrow> nat \<Rightarrow> u8 list \<Rightarrow> u8 list" where
  "put_octets lead wc 0 s = (ucast (wc AND 0xff) OR lead) # s"
| "put_octets lead wc (Suc i) s = put_octets lead (drop_bit 6 wc) i ((ucast (wc AND 0x3f) OR 0x80) # s)"

text \<open>The return value and the bytes written; none when \<open>s\<close> is null.\<close>

definition UTF8_wcrtomb :: "UTF8State \<Rightarrow> bool \<Rightarrow> u32 \<Rightarrow> mbs_ret \<times> u8 list" where
  "UTF8_wcrtomb us s_null wc =
     (if us_want us \<noteq> 0 then (MbsError MB_EINVAL, [])
      else if s_null then (MbsCount 1, [])
      else if wc AND NOT 0x7f = 0 then (MbsCount 1, [ucast wc])
      else
        (case lead_len wc of
           None \<Rightarrow> (MbsError MB_EILSEQ, [])
         | Some (lead, len) \<Rightarrow> (MbsCount len, put_octets lead wc (len - 1) [])))"

section \<open>Strings\<close>

text \<open>The results are the return value, what was written to \<open>dst\<close>, and \<open>*src\<close> afterwards, \<open>None\<close> for
  null. A character is ASCII but not NUL when it is positive as a \<open>signed char\<close>.\<close>

definition ascii :: "u8 \<Rightarrow> bool" where
  "ascii b \<longleftrightarrow> 0 < b \<and> b < 0x80"

fun mbs_loop :: "UTF8State \<Rightarrow> u8 list \<Rightarrow> nat \<Rightarrow> u32 list \<Rightarrow> UTF8State \<times> mbs_ret \<times> u32 list \<times> u8 list option" where
  "mbs_loop us s 0 dst = (us, MbsCount (length dst), dst, Some s)"
| "mbs_loop us s (Suc len) dst =
     (if s \<noteq> [] \<and> ascii (hd s) then mbs_loop us (tl s) len (dst @ [ucast (hd s)])
      else
        (case UTF8_mbrtowc us (Some s) of
           (us, MbError e) \<Rightarrow> (us, MbsError e, dst, Some s)
         | (us, MbIncomplete) \<Rightarrow> (us, MbsCount (length dst), dst, Some [])
         | (us, MbDone nb wc) \<Rightarrow>
             if nb = 0 then (us, MbsCount (length dst), dst @ [wc], None)
             else mbs_loop us (drop nb s) len (dst @ [wc])))"

lemma mbrtowc_nonempty: "UTF8_mbrtowc us (Some s) = (us', MbDone nb wc) \<Longrightarrow> s \<noteq> []"
  by (auto simp: UTF8_mbrtowc_def split: if_splits)

text \<open>With no destination the code counts until the end or an error.\<close>

function mbs_count :: "UTF8State \<Rightarrow> u8 list \<Rightarrow> nat \<Rightarrow> UTF8State \<times> mbs_ret" where
  "mbs_count us s nchr =
     (if s \<noteq> [] \<and> ascii (hd s) then mbs_count us (tl s) (nchr + 1)
      else
        (case UTF8_mbrtowc us (Some s) of
           (us, MbError e) \<Rightarrow> (us, MbsError e)
         | (us, MbIncomplete) \<Rightarrow> (us, MbsCount nchr)
         | (us, MbDone nb wc) \<Rightarrow> if nb = 0 then (us, MbsCount nchr) else mbs_count us (drop nb s) (nchr + 1)))"
  by pat_completeness auto

termination
  by (relation "measure (\<lambda>(_, s, _). length s)") (auto dest!: mbrtowc_nonempty sym [of "(_, MbDone _ _)"])

declare mbs_count.simps [simp del]

definition stray_ascii :: "UTF8State \<Rightarrow> u8 list \<Rightarrow> bool" where
  "stray_ascii us s \<longleftrightarrow> s \<noteq> [] \<and> us_want us > 0 \<and> ascii (hd s)"

definition UTF8_mbsnrtowcs ::
    "UTF8State \<Rightarrow> u8 list \<Rightarrow> nat option \<Rightarrow> UTF8State \<times> mbs_ret \<times> u32 list \<times> u8 list option" where
  "UTF8_mbsnrtowcs us s dst_len =
     (case dst_len of
        None \<Rightarrow>
          if stray_ascii us s then (us, MbsError MB_EILSEQ, [], Some s)
          else (case mbs_count us s 0 of (us, r) \<Rightarrow> (us, r, [], Some s))
      | Some len \<Rightarrow>
          if 0 < len \<and> stray_ascii us s then (us, MbsError MB_EILSEQ, [], Some s)
          else mbs_loop us s len [])"

text \<open>Wide characters to bytes: the loop with a destination of \<open>len\<close> bytes.\<close>

definition put_char :: "UTF8State \<Rightarrow> u32 \<Rightarrow> mbs_ret \<times> u8 list" where
  "put_char us c = (if c < 0x80 then (MbsCount 1, [ucast c]) else UTF8_wcrtomb us False c)"

fun wcs_loop :: "UTF8State \<Rightarrow> u32 list \<Rightarrow> nat \<Rightarrow> u8 list \<Rightarrow> mbs_ret \<times> u8 list \<times> u32 list option" where
  "wcs_loop us [] len dst = (MbsCount (length dst), dst, Some [])"
| "wcs_loop us (c # s) len dst =
     (if len = 0 then (MbsCount (length dst), dst, Some (c # s))
      else
        (case put_char us c of
           (MbsError e, _) \<Rightarrow> (MbsError e, dst, Some (c # s))
         | (MbsCount nb, bs) \<Rightarrow>
             if \<not> c < 0x80 \<and> \<not> len > 4 \<and> nb > len then (MbsCount (length dst), dst, Some (c # s))
             else if c = 0 then (MbsCount (length dst + nb - 1), dst @ bs, None)
             else wcs_loop us s (len - nb) (dst @ bs)))"

fun wcs_count :: "UTF8State \<Rightarrow> u32 list \<Rightarrow> nat \<Rightarrow> mbs_ret" where
  "wcs_count us [] nbytes = MbsCount nbytes"
| "wcs_count us (c # s) nbytes =
     (case put_char us c of
        (MbsError e, _) \<Rightarrow> MbsError e
      | (MbsCount nb, _) \<Rightarrow> if c = 0 then MbsCount (nbytes + nb - 1) else wcs_count us s (nbytes + nb))"

definition UTF8_wcsnrtombs :: "UTF8State \<Rightarrow> u32 list \<Rightarrow> nat option \<Rightarrow> mbs_ret \<times> u8 list \<times> u32 list option" where
  "UTF8_wcsnrtombs us s dst_len =
     (if us_want us \<noteq> 0 then (MbsError MB_EINVAL, [], Some s)
      else
        (case dst_len of
           None \<Rightarrow> (wcs_count us s 0, [], Some s)
         | Some len \<Rightarrow> wcs_loop us s len []))"

section \<open>Exhaustive facts about bytes\<close>

lemma first_byte_ranges:
  "first_byte b =
     (if b < 0x80 then Some (0x7f, 1, (0, 0))
      else if 0xc2 \<le> b \<and> b \<le> 0xdf then Some (0x1f, 2, (0x80, 0xbf))
      else if b = 0xe0 then Some (0x0f, 3, (0xa0, 0xbf))
      else if b = 0xed then Some (0x0f, 3, (0x80, 0x9f))
      else if 0xe1 \<le> b \<and> b \<le> 0xef then Some (0x0f, 3, (0x80, 0xbf))
      else if b = 0xf0 then Some (0x07, 4, (0x90, 0xbf))
      else if 0xf1 \<le> b \<and> b \<le> 0xf3 then Some (0x07, 4, (0x80, 0xbf))
      else if b = 0xf4 then Some (0x07, 4, (0x80, 0x8f))
      else None)"
  by (rule u8_all) code_simp

lemma high_bits: "b AND 0xc0 = 0x80 \<longleftrightarrow> 0x80 \<le> b \<and> b \<le> (0xbf :: u8)"
  by (rule u8_all) code_simp

lemma ascii_bits: "b AND NOT 0x7f = 0 \<longleftrightarrow> b < (0x80 :: u8)"
  by (rule u8_all) code_simp

lemma low6: "unat ((ucast (b :: u8) :: u32) AND 0x3f) = unat b mod 64"
  by (rule u8_all) code_simp

lemma mask_lead:
  "unat (b AND 0x1f) = unat b mod 32" "unat (b AND 0x0f) = unat b mod 16" "unat (b AND 0x07) = unat (b :: u8) mod 8"
  by (rule u8_all, code_simp)+

lemma or_80: "a < 64 \<Longrightarrow> a OR 0x80 = a + (0x80 :: u8)"
proof -
  have "list_all (\<lambda>k. (word_of_int k :: u8) OR 0x80 = word_of_int k + 0x80) [0..63]" by code_simp
  moreover assume "a < 64"
  then have "uint a \<in> set [0..63]" by (simp add: word_less_def)
  ultimately have "(word_of_int (uint a) :: u8) OR 0x80 = word_of_int (uint a) + 0x80" unfolding list_all_iff by blast
  then show ?thesis by simp
qed

lemma or_c0: "a < 32 \<Longrightarrow> a OR 0xc0 = a + (0xc0 :: u8)"
proof -
  have "list_all (\<lambda>k. (word_of_int k :: u8) OR 0xc0 = word_of_int k + 0xc0) [0..31]" by code_simp
  moreover assume "a < 32"
  then have "uint a \<in> set [0..31]" by (simp add: word_less_def)
  ultimately have "(word_of_int (uint a) :: u8) OR 0xc0 = word_of_int (uint a) + 0xc0" unfolding list_all_iff by blast
  then show ?thesis by simp
qed

lemma or_e0: "a < 16 \<Longrightarrow> a OR 0xe0 = a + (0xe0 :: u8)"
proof -
  have "list_all (\<lambda>k. (word_of_int k :: u8) OR 0xe0 = word_of_int k + 0xe0) [0..15]" by code_simp
  moreover assume "a < 16"
  then have "uint a \<in> set [0..15]" by (simp add: word_less_def)
  ultimately have "(word_of_int (uint a) :: u8) OR 0xe0 = word_of_int (uint a) + 0xe0" unfolding list_all_iff by blast
  then show ?thesis by simp
qed

lemma or_f0: "a < 8 \<Longrightarrow> a OR 0xf0 = a + (0xf0 :: u8)"
proof -
  have "list_all (\<lambda>k. (word_of_int k :: u8) OR 0xf0 = word_of_int k + 0xf0) [0..7]" by code_simp
  moreover assume "a < 8"
  then have "uint a \<in> set [0..7]" by (simp add: word_less_def)
  ultimately have "(word_of_int (uint a) :: u8) OR 0xf0 = word_of_int (uint a) + 0xf0" unfolding list_all_iff by blast
  then show ?thesis by simp
qed

section \<open>The encoding\<close>

definition scalar :: "nat \<Rightarrow> bool" where
  "scalar cp \<longleftrightarrow> cp < 0xd800 \<or> 0xdfff < cp \<and> cp \<le> 0x10ffff"

text \<open>The UTF-8 encoding form of a Unicode scalar value.\<close>

definition enc_nat :: "nat \<Rightarrow> nat list" where
  "enc_nat cp =
     (if cp < 0x80 then [cp]
      else if cp < 0x800 then [0xc0 + cp div 64, 0x80 + cp mod 64]
      else if cp < 0x10000 then [0xe0 + cp div 4096, 0x80 + cp div 64 mod 64, 0x80 + cp mod 64]
      else [0xf0 + cp div 262144, 0x80 + cp div 4096 mod 64, 0x80 + cp div 64 mod 64, 0x80 + cp mod 64])"

definition utf8_encode :: "nat \<Rightarrow> u8 list" where
  "utf8_encode cp = map of_nat (enc_nat cp)"

lemma unat_of_nat_u8: "n < 256 \<Longrightarrow> unat (of_nat n :: u8) = n"
  by (simp add: unsigned_of_nat take_bit_nat_eq_self)

lemma unat_drop_bit: "unat (drop_bit k wc :: u32) = unat wc div 2 ^ k"
  unfolding unsigned_drop_bit_eq using take_bit_nat_eq_self [OF unat_bound [of wc]] by (simp add: drop_bit_eq_div)

lemma not_mask_0: "(wc :: u32) AND NOT (mask k) = 0 \<longleftrightarrow> unat wc < 2 ^ k"
proof -
  have "wc AND NOT (mask k) = 0 \<longleftrightarrow> drop_bit k wc = 0"
  proof -
    have a: "bit (wc AND NOT (mask k)) n \<longleftrightarrow> bit wc n \<and> k \<le> n" for n
      by (auto simp: bit_simps dest: bit_imp_le_length)
    have d: "bit (drop_bit k wc) n \<longleftrightarrow> bit wc (k + n)" for n by (simp add: bit_drop_bit_eq)
    have z: "w = 0 \<longleftrightarrow> (\<forall>n. \<not> bit w n)" for w :: u32 by (auto intro: bit_eqI)
    show ?thesis unfolding z a d by (metis le_add1 le_add_diff_inverse)
  qed
  also have "\<dots> \<longleftrightarrow> unat (drop_bit k wc) = 0" by (simp only: unsigned_eq_0_iff)
  also have "\<dots> \<longleftrightarrow> unat wc div 2 ^ k = 0" by (simp only: unat_drop_bit)
  finally show ?thesis by (simp add: div_eq_0_iff)
qed

lemma lead_masks:
  "(wc :: u32) AND NOT 0x7f = 0 \<longleftrightarrow> unat wc < 0x80" "wc AND NOT 0x7ff = 0 \<longleftrightarrow> unat wc < 0x800"
  "wc AND NOT 0xffff = 0 \<longleftrightarrow> unat wc < 0x10000" "wc AND NOT 0x1fffff = 0 \<longleftrightarrow> unat wc < 0x200000"
  using not_mask_0 [of wc 7] not_mask_0 [of wc 11] not_mask_0 [of wc 16] not_mask_0 [of wc 21]
  by (simp_all add: mask_eq_exp_minus_1)

lemma low6_u32: "unat (wc AND 0x3f :: u32) = unat wc mod 64"
proof -
  have "wc AND 0x3f = take_bit 6 wc" by (simp add: take_bit_eq_mask mask_eq_exp_minus_1)
  then show ?thesis by (simp add: unsigned_take_bit_eq take_bit_eq_mod unat_mod_distrib)
qed

lemma low8_u32: "unat (wc AND 0xff :: u32) = unat wc mod 256"
proof -
  have "wc AND 0xff = take_bit 8 wc" by (simp add: take_bit_eq_mask mask_eq_exp_minus_1)
  then show ?thesis by (simp add: unsigned_take_bit_eq take_bit_eq_mod unat_mod_distrib)
qed

lemma ucast_u8: "unat x < 256 \<Longrightarrow> (ucast (x :: u32) :: u8) = of_nat (unat x)"
  by (metis (mono_tags) of_nat_unat unsigned_of_nat)

lemma octet: "(ucast (wc AND 0x3f :: u32) :: u8) OR 0x80 = of_nat (0x80 + unat wc mod 64)"
proof -
  have u: "(ucast (wc AND 0x3f :: u32) :: u8) = of_nat (unat wc mod 64)"
    using ucast_u8 [of "wc AND 0x3f"] low6_u32 [of wc] by simp
  have "unat (of_nat (unat wc mod 64) :: u8) < 64" by (subst unat_of_nat_u8) simp_all
  then have "(of_nat (unat wc mod 64) :: u8) < 64" by (simp add: word_less_nat_alt)
  then show ?thesis unfolding u using or_80 by (simp add: add.commute)
qed

lemma lead_octet:
  assumes "unat wc < n" "(n, lead) \<in> {(32, 0xc0), (16, 0xe0), (8, 0xf0)}"
  shows "(ucast (wc AND 0xff :: u32) :: u8) OR lead = of_nat (unat lead + unat wc)"
proof -
  have "n \<le> 32" using assms(2) by auto
  then have u: "(ucast (wc AND 0xff :: u32) :: u8) = of_nat (unat wc)"
    using ucast_u8 [of "wc AND 0xff"] low8_u32 [of wc] assms(1) by simp
  have "unat (of_nat (unat wc) :: u8) = unat wc" using assms(1) \<open>n \<le> 32\<close> by (intro unat_of_nat_u8) simp
  then have "(of_nat (unat wc) :: u8) < of_nat n" using assms(1) \<open>n \<le> 32\<close> unat_of_nat_u8 [of n] by (simp only: word_less_nat_alt)
  then show ?thesis unfolding u using assms(2) or_c0 or_e0 or_f0 by (auto simp: add.commute)
qed

lemma unat_drop6: "unat (drop_bit 6 wc :: u32) = unat wc div 64"
  by (simp only: unat_drop_bit) simp

lemma wcrtomb_correct:
  assumes "us_want us = 0"
  shows "UTF8_wcrtomb us False wc =
    (if scalar (unat wc) then (MbsCount (length (utf8_encode (unat wc))), utf8_encode (unat wc))
     else (MbsError MB_EILSEQ, []))"
proof -
  let ?n = "unat wc"
  have sur: "0xd800 \<le> wc \<longleftrightarrow> 0xd800 \<le> ?n" "wc \<le> 0xdfff \<longleftrightarrow> ?n \<le> 0xdfff" "wc > 0x10ffff \<longleftrightarrow> ?n > 0x10ffff"
    by (simp_all add: word_le_nat_alt word_less_nat_alt)
  consider (1) "?n < 0x80" | (2) "0x80 \<le> ?n" "?n < 0x800" | (3) "0x800 \<le> ?n" "?n < 0x10000" | (4) "0x10000 \<le> ?n"
    by linarith
  then show ?thesis
  proof cases
    case 1
    then have "(ucast wc :: u8) = of_nat ?n" by (intro ucast_u8) simp
    then show ?thesis using 1 assms unfolding UTF8_wcrtomb_def lead_masks
      by (simp add: scalar_def utf8_encode_def enc_nat_def)
  next
    case 2
    have "(ucast (drop_bit 6 wc AND 0xff) :: u8) OR 0xc0 = of_nat (0xc0 + ?n div 64)"
      using lead_octet [of "drop_bit 6 wc" 32 "0xc0"] 2 by (simp add: unat_drop6)
    then show ?thesis using 2 assms unfolding UTF8_wcrtomb_def lead_len_def lead_masks
      by (simp add: scalar_def utf8_encode_def enc_nat_def octet)
  next
    case 3
    have "(ucast (drop_bit 6 (drop_bit 6 wc) AND 0xff) :: u8) OR 0xe0 = of_nat (0xe0 + ?n div 64 div 64)"
      using lead_octet [of "drop_bit 6 (drop_bit 6 wc)" 16 "0xe0"] 3 by (simp add: unat_drop6 div_mult2_eq [symmetric] del: drop_bit_drop_bit of_nat_unat)
    then show ?thesis using 3 assms unfolding UTF8_wcrtomb_def lead_len_def lead_masks sur
      by (auto simp: scalar_def utf8_encode_def enc_nat_def octet unat_drop6
          numeral_2_eq_2 div_mult2_eq [symmetric] simp del: drop_bit_drop_bit)
  next
    case 4
    have "(ucast (drop_bit 6 (drop_bit 6 (drop_bit 6 wc)) AND 0xff) :: u8) OR 0xf0 = of_nat (0xf0 + ?n div 64 div 64 div 64)"
      if "?n \<le> 0x10ffff"
      using lead_octet [of "drop_bit 6 (drop_bit 6 (drop_bit 6 wc))" 8 "0xf0"] that
      by (simp add: unat_drop6 div_mult2_eq [symmetric] del: drop_bit_drop_bit of_nat_unat)
    then show ?thesis using 4 assms unfolding UTF8_wcrtomb_def lead_len_def lead_masks sur
      by (auto simp: scalar_def utf8_encode_def enc_nat_def octet unat_drop6
          numeral_3_eq_3 div_mult2_eq [symmetric] simp del: drop_bit_drop_bit)
  qed
qed

section \<open>The decoding loop\<close>

definition sb_ok :: "SecondByte \<Rightarrow> u8 \<Rightarrow> bool" where
  "sb_ok sb b \<longleftrightarrow> (if fst sb \<noteq> 0 then fst sb \<le> b \<and> b \<le> snd sb else 0x80 \<le> b \<and> b \<le> 0xbf)"

fun bytes_ok :: "SecondByte \<Rightarrow> u8 list \<Rightarrow> bool" where
  "bytes_ok sb [] \<longleftrightarrow> True"
| "bytes_ok sb (b # t) \<longleftrightarrow> sb_ok sb b \<and> bytes_ok (0, 0) t"

definition add6 :: "u32 \<Rightarrow> u8 \<Rightarrow> u32" where
  "add6 w b = push_bit 6 w OR (ucast b AND 0x3f)"

lemma decode_loop_spec:
  "i \<le> want \<Longrightarrow> decode_loop sb wch want i s =
    (let t = take (nat (want - i)) s
     in if bytes_ok sb t then Some (if t = [] then sb else (0, 0), foldl add6 wch t, i + int (length t)) else None)"
proof (induction s arbitrary: sb wch i)
  case Nil
  then show ?case by simp
next
  case (Cons b s)
  show ?case
  proof (cases "i < want")
    case True
    then obtain k where k: "nat (want - i) = Suc k" "nat (want - (i + 1)) = k"
      by (metis Suc_nat_eq_nat_zadd1 add.commute add_diff_cancel_left' diff_add_cancel diff_diff_eq diff_ge_0_iff_ge zless_imp_add1_zle)
    have "\<not> (if fst sb \<noteq> 0 then b < fst sb \<or> b > snd sb else b AND 0xc0 \<noteq> 0x80) \<longleftrightarrow> sb_ok sb b"
      by (auto simp: sb_ok_def high_bits)
    then show ?thesis using True k Cons.IH [of "i + 1" "(0, 0)" "add6 wch b"]
      by (auto simp: Let_def add6_def)
  next
    case False
    then show ?thesis using Cons.prems by simp
  qed
qed

lemma bytes_ok_append:
  "bytes_ok sb (s @ t) \<longleftrightarrow> bytes_ok sb s \<and> bytes_ok (if s = [] then sb else (0, 0)) t"
  by (induction s arbitrary: sb) auto

lemma unat_add6: "unat w < 2 ^ 26 \<Longrightarrow> unat (add6 w b) = unat w * 64 + unat b mod 64"
proof -
  assume w: "unat w < 2 ^ 26"
  have p: "unat (push_bit 6 w :: u32) = unat w * 64"
    using w by (simp only: unsigned_push_bit_eq) (simp add: push_bit_eq_mult take_bit_nat_eq_self)
  have "push_bit 6 w AND (ucast b AND 0x3f) = (0 :: u32)"
  proof (rule bit_eqI)
    fix n
    have m: "(0x3f :: u32) = mask 6" by (simp add: mask_eq_exp_minus_1)
    show "bit (push_bit 6 w AND (ucast b AND 0x3f) :: u32) n = bit (0 :: u32) n" unfolding m by (auto simp: bit_simps)
  qed
  then have "add6 w b = push_bit 6 w + (ucast b AND 0x3f)" unfolding add6_def by (rule disjunctive_add_eq_or [symmetric])
  moreover have "unat (push_bit 6 w :: u32) + unat ((ucast b :: u32) AND 0x3f) < 2 ^ LENGTH(32)" using p w low6 [of b] by simp
  ultimately show ?thesis using p low6 [of b] by (simp only: unat_add_lem [THEN iffD1])
qed

lemma first_byte_nat:
  "first_byte b =
     (if unat b < 0x80 then Some (0x7f, 1, (0, 0))
      else if 0xc2 \<le> unat b \<and> unat b \<le> 0xdf then Some (0x1f, 2, (0x80, 0xbf))
      else if unat b = 0xe0 then Some (0x0f, 3, (0xa0, 0xbf))
      else if unat b = 0xed then Some (0x0f, 3, (0x80, 0x9f))
      else if 0xe1 \<le> unat b \<and> unat b \<le> 0xef then Some (0x0f, 3, (0x80, 0xbf))
      else if unat b = 0xf0 then Some (0x07, 4, (0x90, 0xbf))
      else if 0xf1 \<le> unat b \<and> unat b \<le> 0xf3 then Some (0x07, 4, (0x80, 0xbf))
      else if unat b = 0xf4 then Some (0x07, 4, (0x80, 0x8f))
      else None)"
proof -
  have "(b = n) = (unat b = unat n)" "(b < n) = (unat b < unat n)" "(n \<le> b) = (unat n \<le> unat b)" "(b \<le> n) = (unat b \<le> unat n)" for n
    by (simp_all add: word_unat_eq_iff word_less_nat_alt word_le_nat_alt)
  note e = this(1) [of "0xe0"] this(1) [of "0xed"] this(1) [of "0xf0"] this(1) [of "0xf4"]
    this(2) [of "0x80"] this(3) [of "0xc2"] this(3) [of "0xe1"] this(3) [of "0xf1"] this(4) [of "0xdf"] this(4) [of "0xef"] this(4) [of "0xf3"]
  show ?thesis unfolding first_byte_ranges e by simp
qed

text \<open>A byte within a range above \<open>0x80\<close>, by its low six bits.\<close>

lemma sb_ok_nat:
  assumes "sb \<in> {(0, 0), (0x80, 0xbf), (0xa0, 0xbf), (0x80, 0x9f), (0x90, 0xbf), (0x80, 0x8f)}"
  shows "sb_ok sb c \<longleftrightarrow> (\<exists>j < 64. unat c = 128 + j \<and>
    (if sb = (0xa0, 0xbf) then 32 \<le> j else if sb = (0x80, 0x9f) then j < 32
     else if sb = (0x90, 0xbf) then 16 \<le> j else if sb = (0x80, 0x8f) then j < 16 else True))"
proof -
  have r: "(\<exists>j < 64. unat c = 128 + j \<and> P j) \<longleftrightarrow> 128 \<le> unat c \<and> unat c < 192 \<and> P (unat c - 128)" for P
    by (auto intro!: exI [of _ "unat c - 128"])
  show ?thesis using assms unfolding r sb_ok_def by (auto simp: word_le_nat_alt)
qed

lemma lead_mod:
  fixes j k :: nat
  shows "j < 64 \<Longrightarrow> (128 + j) mod 64 = j" "k < 32 \<Longrightarrow> (192 + k) mod 32 = k" "k < 16 \<Longrightarrow> (224 + k) mod 16 = k"
  "k < 8 \<Longrightarrow> (240 + k) mod 8 = k"
  using mod_mult_self4 [of 64 2 j] mod_mult_self4 [of 32 6 k] mod_mult_self4 [of 16 14 k] mod_mult_self4 [of 8 30 k]
  by simp_all

lemma cont_mod: "unat c = 128 + j \<Longrightarrow> j < 64 \<Longrightarrow> unat c mod 64 = j"
  by (simp add: lead_mod)

lemma of_nat_byte: "unat c = n \<Longrightarrow> of_nat n = (c :: u8)"
  by (auto simp del: of_nat_unat) simp

lemma add6_chain:
  assumes "unat w < 32" "unat c mod 64 = j" "unat d mod 64 = k" "unat e mod 64 = l"
  shows "unat (add6 w c) = unat w * 64 + j"
    and "unat (add6 (add6 w c) d) = (unat w * 64 + j) * 64 + k"
    and "unat (add6 (add6 (add6 w c) d) e) = ((unat w * 64 + j) * 64 + k) * 64 + l"
proof -
  have j: "j < 64" "k < 64" using assms(2,3) by auto
  show 1: "unat (add6 w c) = unat w * 64 + j" using assms by (simp add: unat_add6)
  show 2: "unat (add6 (add6 w c) d) = (unat w * 64 + j) * 64 + k" using 1 assms j by (simp add: unat_add6)
  show "unat (add6 (add6 (add6 w c) d) e) = ((unat w * 64 + j) * 64 + k) * 64 + l" using 2 assms j by (simp add: unat_add6)
qed

lemma unat_ucast_u8: "unat (ucast (b :: u8) :: u32) = unat b"
  by (rule unat_ucast_up) simp

lemma div_mod_64: "j < 64 \<Longrightarrow> (k * 64 + j) div 64 = k" "j < 64 \<Longrightarrow> (k * 64 + j) mod 64 = (j :: nat)"
  by simp_all

lemma decode_two:
  assumes "unat b = 192 + k" "2 \<le> k" "k < 32" "unat c = 128 + j" "j < 64"
  shows "unat (add6 (ucast (b AND 0x1f)) c) = k * 64 + j \<and> scalar (k * 64 + j) \<and> 0x80 \<le> k * 64 + j \<and>
    utf8_encode (k * 64 + j) = [b, c]"
proof -
  have "unat (ucast (b AND 0x1f) :: u32) = k" using assms by (simp add: unat_ucast_u8 mask_lead lead_mod)
  then have "unat (add6 (ucast (b AND 0x1f)) c) = k * 64 + j" using assms by (simp add: add6_chain(1) lead_mod)
  moreover have "enc_nat (k * 64 + j) = [192 + k, 128 + j]" using assms div_mod_64 [OF assms(5), of k] by (simp add: enc_nat_def)
  ultimately show ?thesis
    using assms of_nat_byte [OF assms(1)] of_nat_byte [OF assms(4)]
    by (simp add: scalar_def utf8_encode_def del: of_nat_add)
qed

lemma decode_three:
  assumes "unat b = 224 + k" "k < 16" "unat c = 128 + j" "j < 64" "unat d = 128 + i" "i < 64"
    "k = 0 \<longrightarrow> 32 \<le> j" "k = 13 \<longrightarrow> j < 32"
  shows "unat (add6 (add6 (ucast (b AND 0x0f)) c) d) = (k * 64 + j) * 64 + i \<and> scalar ((k * 64 + j) * 64 + i) \<and>
    0x80 \<le> (k * 64 + j) * 64 + i \<and> utf8_encode ((k * 64 + j) * 64 + i) = [b, c, d]"
proof -
  let ?cp = "(k * 64 + j) * 64 + i"
  have "unat (ucast (b AND 0x0f) :: u32) = k" using assms by (simp add: unat_ucast_u8 mask_lead lead_mod)
  then have v: "unat (add6 (add6 (ucast (b AND 0x0f)) c) d) = ?cp" using assms by (simp add: add6_chain(2) lead_mod)
  have q: "?cp div 64 = k * 64 + j" "?cp mod 64 = i" "?cp div 4096 = k" "(k * 64 + j) mod 64 = j"
    using div_mod_64 [OF assms(6), of "k * 64 + j"] div_mod_64 [OF assms(4), of k] div_mult2_eq [of ?cp 64 64] by simp_all
  have b: "0x800 \<le> ?cp" "?cp < 0x10000" using assms by (cases "k = 0"; simp)+
  then have "enc_nat ?cp = [224 + k, 128 + j, 128 + i]" unfolding enc_nat_def q by simp
  moreover have "scalar ?cp"
  proof -
    consider "k < 13" | "k = 13" | "13 < k" by linarith
    then show ?thesis using assms b unfolding scalar_def by cases auto
  qed
  ultimately show ?thesis
    using v b of_nat_byte [OF assms(1)] of_nat_byte [OF assms(3)] of_nat_byte [OF assms(5)]
    by (simp add: utf8_encode_def del: of_nat_add)
qed

lemma decode_four:
  assumes "unat b = 240 + k" "k \<le> 4" "unat c = 128 + j" "j < 64" "unat d = 128 + i" "i < 64" "unat e = 128 + h" "h < 64"
    "k = 0 \<longrightarrow> 16 \<le> j" "k = 4 \<longrightarrow> j < 16"
  shows "unat (add6 (add6 (add6 (ucast (b AND 0x07)) c) d) e) = ((k * 64 + j) * 64 + i) * 64 + h \<and>
    scalar (((k * 64 + j) * 64 + i) * 64 + h) \<and> 0x80 \<le> ((k * 64 + j) * 64 + i) * 64 + h \<and>
    utf8_encode (((k * 64 + j) * 64 + i) * 64 + h) = [b, c, d, e]"
proof -
  let ?cp = "((k * 64 + j) * 64 + i) * 64 + h"
  have "unat (ucast (b AND 0x07) :: u32) = k" using assms by (simp add: unat_ucast_u8 mask_lead lead_mod)
  then have v: "unat (add6 (add6 (add6 (ucast (b AND 0x07)) c) d) e) = ?cp" using assms by (simp add: add6_chain(3) lead_mod)
  have q1: "?cp div 64 = (k * 64 + j) * 64 + i" "?cp mod 64 = h" by (rule div_mod_64 [OF assms(8)])+
  have q2: "((k * 64 + j) * 64 + i) div 64 = k * 64 + j" "((k * 64 + j) * 64 + i) mod 64 = i" by (rule div_mod_64 [OF assms(6)])+
  have q3: "(k * 64 + j) div 64 = k" "(k * 64 + j) mod 64 = j" by (rule div_mod_64 [OF assms(4)])+
  have "?cp div 4096 = ?cp div 64 div 64" "?cp div 262144 = ?cp div 64 div 64 div 64" by (simp_all add: div_mult2_eq [symmetric])
  then have q: "?cp div 4096 = k * 64 + j" "?cp div 262144 = k" by (simp_all only: q1 q2 q3)
  have b: "0x10000 \<le> ?cp" using assms by (cases "k = 0") simp_all
  have b2: "?cp \<le> 0x10ffff" using assms by (cases "k = 4") simp_all
  have "enc_nat ?cp = [240 + k, 128 + j, 128 + i, 128 + h]" using b unfolding enc_nat_def q q1 q2 q3 by simp
  then show ?thesis
    using v b b2 of_nat_byte [OF assms(1)] of_nat_byte [OF assms(3)] of_nat_byte [OF assms(5)] of_nat_byte [OF assms(7)]
    by (simp add: utf8_encode_def scalar_def del: of_nat_add)
qed

definition seq2 :: "u8 \<Rightarrow> nat \<Rightarrow> bool" where
  "seq2 b k \<longleftrightarrow> unat b = 192 + k \<and> 2 \<le> k \<and> k < 32"

definition seq3 :: "u8 \<Rightarrow> nat \<Rightarrow> bool" where
  "seq3 b k \<longleftrightarrow> unat b = 224 + k \<and> k < 16"

definition seq4 :: "u8 \<Rightarrow> nat \<Rightarrow> bool" where
  "seq4 b k \<longleftrightarrow> unat b = 240 + k \<and> k \<le> 4"

definition sb3 :: "nat \<Rightarrow> SecondByte" where
  "sb3 k = (if k = 0 then (0xa0, 0xbf) else if k = 13 then (0x80, 0x9f) else (0x80, 0xbf))"

definition sb4 :: "nat \<Rightarrow> SecondByte" where
  "sb4 k = (if k = 0 then (0x90, 0xbf) else if k = 4 then (0x80, 0x8f) else (0x80, 0xbf))"

lemma first_byte_seq:
  "seq2 b k \<Longrightarrow> first_byte b = Some (0x1f, 2, (0x80, 0xbf))"
  "seq3 b k \<Longrightarrow> first_byte b = Some (0x0f, 3, sb3 k)"
  "seq4 b k \<Longrightarrow> first_byte b = Some (0x07, 4, sb4 k)"
  by (simp_all add: first_byte_nat seq2_def seq3_def seq4_def sb3_def sb4_def)

lemma first_byte_cases:
  assumes "first_byte b = Some r" "\<not> unat b < 128"
  obtains k where "seq2 b k" "r = (0x1f, 2, (0x80, 0xbf))"
  | k where "seq3 b k" "r = (0x0f, 3, sb3 k)"
  | k where "seq4 b k" "r = (0x07, 4, sb4 k)"
proof -
  have "seq2 b (unat b - 192) \<or> seq3 b (unat b - 224) \<or> seq4 b (unat b - 240)"
    using assms by (auto simp: first_byte_nat seq2_def seq3_def seq4_def split: if_splits)
  then consider "seq2 b (unat b - 192)" | "seq3 b (unat b - 224)" | "seq4 b (unat b - 240)" by blast
  then show thesis
  proof cases
    case 1
    then show thesis using that(1) [OF 1] first_byte_seq(1) [OF 1] assms(1) by simp
  next
    case 2
    then show thesis using that(2) [OF 2] first_byte_seq(2) [OF 2] assms(1) by simp
  next
    case 3
    then show thesis using that(3) [OF 3] first_byte_seq(3) [OF 3] assms(1) by simp
  qed
qed

lemma sb_ok_80: "sb_ok (0x80, 0xbf) c \<longleftrightarrow> (\<exists>j < 64. unat c = 128 + j)"
  by (subst sb_ok_nat) auto

lemma sb_ok_00: "sb_ok (0, 0) c \<longleftrightarrow> (\<exists>j < 64. unat c = 128 + j)"
  by (subst sb_ok_nat) auto

lemma sb_ok_3: "sb_ok (sb3 k) c \<longleftrightarrow> (\<exists>j < 64. unat c = 128 + j \<and> (k = 0 \<longrightarrow> 32 \<le> j) \<and> (k = 13 \<longrightarrow> j < 32))"
  unfolding sb3_def by (subst sb_ok_nat) auto

lemma sb_ok_4: "sb_ok (sb4 k) c \<longleftrightarrow> (\<exists>j < 64. unat c = 128 + j \<and> (k = 0 \<longrightarrow> 16 \<le> j) \<and> (k = 4 \<longrightarrow> j < 16))"
  unfolding sb4_def by (subst sb_ok_nat) auto

text \<open>A complete sequence the loop accepts is the encoding of the scalar value it computes.\<close>

lemma decode_sound:
  assumes "first_byte b = Some (m, want, sb)" "\<not> unat b < 128" "int (length t) = want - 1" "bytes_ok sb t"
  shows "scalar (unat (foldl add6 (ucast (b AND m)) t)) \<and> 0x80 \<le> unat (foldl add6 (ucast (b AND m)) t) \<and>
    utf8_encode (unat (foldl add6 (ucast (b AND m)) t)) = b # t"
  using assms(1,2)
proof (cases rule: first_byte_cases)
  case (1 k)
  then obtain c where t: "t = [c]" using assms(3) by (auto simp: length_Suc_conv numeral_2_eq_2)
  then obtain j where j: "j < 64" "unat c = 128 + j" using assms(4) 1 by (auto simp: sb_ok_80)
  show ?thesis using decode_two [of b k c j] 1 j by (simp add: t seq2_def)
next
  case (2 k)
  then have "length t = 2" using assms(3) by simp
  then obtain c d where t: "t = [c, d]" by (auto simp: length_Suc_conv numeral_2_eq_2)
  then obtain j i where j: "j < 64" "unat c = 128 + j" "k = 0 \<longrightarrow> 32 \<le> j" "k = 13 \<longrightarrow> j < 32" "i < 64" "unat d = 128 + i"
    using assms(4) 2 by (auto simp: sb_ok_3 sb_ok_00)
  show ?thesis using decode_three [of b k c j d i] 2 j by (simp add: t seq3_def)
next
  case (3 k)
  then have "length t = 3" using assms(3) by simp
  then obtain c d e where t: "t = [c, d, e]" by (auto simp: length_Suc_conv numeral_3_eq_3)
  then obtain j i h where j: "j < 64" "unat c = 128 + j" "k = 0 \<longrightarrow> 16 \<le> j" "k = 4 \<longrightarrow> j < 16"
    "i < 64" "unat d = 128 + i" "h < 64" "unat e = 128 + h"
    using assms(4) 3 by (auto simp: sb_ok_4 sb_ok_00)
  show ?thesis using decode_four [of b k c j d i e h] 3 j by (simp add: t seq4_def)
qed

text \<open>The loop accepts every encoding and computes its scalar value.\<close>

lemma decode_complete:
  assumes "scalar cp" "0x80 \<le> cp"
  shows "\<exists>b m want sb t. utf8_encode cp = b # t \<and> \<not> unat b < 128 \<and> first_byte b = Some (m, want, sb) \<and>
    int (length t) = want - 1 \<and> bytes_ok sb t \<and> unat (foldl add6 (ucast (b AND m)) t) = cp"
proof -
  define k2 k1 k0 where "k2 = cp div 64" and "k1 = cp div 64 div 64" and "k0 = cp div 64 div 64 div 64"
  have e: "cp = k2 * 64 + cp mod 64" "k2 = k1 * 64 + k2 mod 64" "k1 = k0 * 64 + k1 mod 64"
    by (simp_all add: k2_def k1_def k0_def)
  have u: "unat (of_nat (128 + x mod 64) :: u8) = 128 + x mod 64" for x :: nat
    by (rule unat_of_nat_u8) (use mod_less_divisor [of 64 x] in linarith)
  let ?c = "\<lambda>x :: nat. (of_nat (128 + x mod 64) :: u8)"
  consider (2) "cp < 0x800" | (3) "0x800 \<le> cp" "cp < 0x10000" | (4) "0x10000 \<le> cp" by linarith
  then show ?thesis
  proof cases
    case 2
    then have k: "2 \<le> k2" "k2 < 32" using assms(2) by (simp_all add: k2_def less_mult_imp_div_less)
    let ?b = "of_nat (192 + k2) :: u8"
    have b: "seq2 ?b k2" using k unat_of_nat_u8 [of "192 + k2"] by (simp add: seq2_def)
    have "sb_ok (0x80, 0xbf) (?c cp)" using u by (auto simp: sb_ok_80)
    then show ?thesis
      using decode_two [of ?b k2 "?c cp" "cp mod 64"] b u [of cp] e(1) first_byte_seq(1) [OF b]
      by (intro exI [of _ ?b] exI [of _ "0x1f"] exI [of _ 2] exI [of _ "(0x80, 0xbf)"] exI [of _ "[?c cp]"])
        (simp add: seq2_def del: of_nat_add)
  next
    case 3
    then have k: "k1 < 16" by (simp add: k1_def div_mult2_eq [symmetric] less_mult_imp_div_less)
    let ?b = "of_nat (224 + k1) :: u8" and ?j = "k2 mod 64"
    have b: "seq3 ?b k1" using k unat_of_nat_u8 [of "224 + k1"] by (simp add: seq3_def)
    have r: "k1 = 0 \<longrightarrow> 32 \<le> ?j" "k1 = 13 \<longrightarrow> ?j < 32"
    proof -
      have m: "cp mod 64 < 64" by simp
      show "k1 = 0 \<longrightarrow> 32 \<le> ?j" using e(1,2) 3 m by linarith
      show "k1 = 13 \<longrightarrow> ?j < 32"
      proof (intro impI, rule ccontr)
        assume "k1 = 13" "\<not> ?j < 32"
        then have "0xd800 \<le> cp" using e(1,2) by linarith
        then have "0xdfff < cp" using assms(1) by (simp add: scalar_def)
        moreover have "?j < 64" by simp
        ultimately show False using e(1,2) m \<open>k1 = 13\<close> by linarith
      qed
    qed
    have "sb_ok (sb3 k1) (?c k2)" using u r by (auto simp: sb_ok_3)
    moreover have "sb_ok (0, 0) (?c cp)" using u by (auto simp: sb_ok_00)
    ultimately show ?thesis
      using decode_three [of ?b k1 "?c k2" ?j "?c cp" "cp mod 64"] b u [of k2] u [of cp] e(1,2) r first_byte_seq(2) [OF b]
      by (intro exI [of _ ?b] exI [of _ "0x0f"] exI [of _ 3] exI [of _ "sb3 k1"] exI [of _ "[?c k2, ?c cp]"])
        (simp add: seq3_def del: of_nat_add)
  next
    case 4
    have "cp < 0x110000" using assms(1) 4 by (auto simp: scalar_def)
    then have k: "k0 \<le> 4" by (simp add: k0_def div_mult2_eq [symmetric] less_mult_imp_div_less)
    let ?b = "of_nat (240 + k0) :: u8" and ?j = "k1 mod 64"
    have b: "seq4 ?b k0" using k unat_of_nat_u8 [of "240 + k0"] by (simp add: seq4_def)
    have r: "k0 = 0 \<longrightarrow> 16 \<le> ?j" "k0 = 4 \<longrightarrow> ?j < 16"
    proof -
      have m: "cp mod 64 < 64" "k2 mod 64 < 64" by simp_all
      show "k0 = 0 \<longrightarrow> 16 \<le> ?j" using e 4 m by linarith
      show "k0 = 4 \<longrightarrow> ?j < 16" using e \<open>cp < 0x110000\<close> m by linarith
    qed
    have "sb_ok (sb4 k0) (?c k1)" using u r by (auto simp: sb_ok_4)
    moreover have "sb_ok (0, 0) (?c k2)" "sb_ok (0, 0) (?c cp)" using u by (auto simp: sb_ok_00)
    ultimately show ?thesis
      using decode_four [of ?b k0 "?c k1" ?j "?c k2" "k2 mod 64" "?c cp" "cp mod 64"] b u [of k1] u [of k2] u [of cp] e r first_byte_seq(3) [OF b]
      by (intro exI [of _ ?b] exI [of _ "0x07"] exI [of _ 4] exI [of _ "sb4 k0"] exI [of _ "[?c k1, ?c k2, ?c cp]"])
        (simp add: seq4_def del: of_nat_add)
  qed
qed

section \<open>Decoding is exact\<close>

definition loop_result :: "SecondByte \<Rightarrow> u32 \<Rightarrow> int \<Rightarrow> int \<Rightarrow> u8 list \<Rightarrow> (SecondByte \<times> u32 \<times> int) option" where
  "loop_result sb wch want i s =
    (let t = take (nat (want - i)) s
     in if bytes_ok sb t then Some (if t = [] then sb else (0, 0), foldl add6 wch t, i + int (length t)) else None)"

lemma decode_loop_result: "i \<le> want \<Longrightarrow> decode_loop sb wch want i s = loop_result sb wch want i s"
  unfolding loop_result_def by (rule decode_loop_spec)

lemma ascii_nat: "b AND NOT 0x7f = 0 \<longleftrightarrow> unat b < (128 :: nat)" for b :: u8
  by (subst ascii_bits) (simp add: word_less_nat_alt)

lemma first_byte_want: "first_byte b = Some (m, want, sb) \<Longrightarrow> 1 \<le> want \<and> want \<le> 4"
  by (auto simp: first_byte_nat split: if_splits)

lemma mbrtowc_start:
  assumes "us_want us = 0"
  shows "UTF8_mbrtowc us (Some (b # s)) =
    (if unat b < 128 then (us, MbDone (if b \<noteq> 0 then 1 else 0) (ucast b))
     else case first_byte b of
         None \<Rightarrow> (us, MbError MB_EILSEQ)
       | Some (m, want, sb) \<Rightarrow> decode_finish us want (loop_result sb (ucast (b AND m)) want 1 s))"
  using assms first_byte_want unfolding UTF8_mbrtowc_def ascii_nat
  by (auto simp: decode_loop_result split: option.splits)

lemma mbrtowc_resume:
  assumes "0 < us_want us" "us_want us \<le> 4"
  shows "UTF8_mbrtowc us (Some (b # s)) =
    decode_finish us (us_want us) (loop_result (us_sb us) (us_ch us) (us_want us) 0 (b # s))"
  using assms unfolding UTF8_mbrtowc_def by (simp add: decode_loop_result del: decode_loop.simps)

lemma utf8_encode_ascii: "cp < 0x80 \<Longrightarrow> utf8_encode cp = [of_nat cp]"
  by (simp add: utf8_encode_def enc_nat_def)

lemma utf8_encode_nonempty: "utf8_encode cp \<noteq> []"
  by (simp add: utf8_encode_def enc_nat_def)

lemma us_want_same: "us_want us = 0 \<Longrightarrow> us\<lparr>us_want := 0\<rparr> = us"
  by simp

lemma of_nat_u32: "unat (w :: u32) = n \<Longrightarrow> w = of_nat n"
  by auto

lemma mbrtowc_complete:
  assumes w: "us_want us = 0" and cp: "scalar cp"
  shows "UTF8_mbrtowc us (Some (utf8_encode cp @ rest)) =
    (us, MbDone (if cp = 0 then 0 else length (utf8_encode cp)) (of_nat cp))"
proof (cases "cp < 0x80")
  case True
  have u: "unat (of_nat cp :: u8) = cp" using True by (intro unat_of_nat_u8) simp
  then have "(of_nat cp :: u8) = 0 \<longleftrightarrow> cp = 0" by (auto simp del: of_nat_unat)
  moreover have "(ucast (of_nat cp :: u8) :: u32) = of_nat cp"
    by (rule of_nat_u32) (simp only: unat_ucast_u8 u)
  ultimately show ?thesis using True u by (simp add: utf8_encode_ascii mbrtowc_start [OF w] del: of_nat_unat)
next
  case False
  then obtain b m want sb t where e: "utf8_encode cp = b # t" "\<not> unat b < 128" "first_byte b = Some (m, want, sb)"
    "int (length t) = want - 1" "bytes_ok sb t" "unat (foldl add6 (ucast (b AND m)) t) = cp"
    using decode_complete [OF cp] by auto
  have t: "take (nat (want - 1)) (t @ rest) = t" using e(4) by (simp add: nat_eq_iff)
  have v: "foldl add6 (ucast (b AND m)) t = of_nat cp" using e(6) by (rule of_nat_u32)
  have nz: "(of_nat cp :: u32) \<noteq> 0" using False e(6) v by (metis unsigned_0 zero_less_numeral)
  have "loop_result sb (ucast (b AND m)) want 1 (t @ rest) = Some (if t = [] then sb else (0, 0), of_nat cp, want)"
    using e(4,5) t v by (simp add: loop_result_def)
  moreover have "nat want = length (utf8_encode cp)" using e(1,4) by simp
  ultimately show ?thesis
    using e False w nz by (simp add: mbrtowc_start [OF w] decode_finish_def us_want_same)
qed

lemma mbrtowc_sound:
  assumes w: "us_want us = 0" and r: "UTF8_mbrtowc us (Some s) = (us', MbDone n wc)"
  shows "us' = us \<and> scalar (unat wc) \<and> prefix (utf8_encode (unat wc)) s \<and>
    n = (if wc = 0 then 0 else length (utf8_encode (unat wc)))"
proof -
  obtain b s' where s: "s = b # s'" using mbrtowc_nonempty [OF r] by (cases s) auto
  show ?thesis
  proof (cases "unat b < 128")
    case True
    then have wc: "wc = ucast b" "n = (if b \<noteq> 0 then 1 else 0)" "us' = us"
      using r by (simp_all add: s mbrtowc_start [OF w])
    have u: "unat wc = unat b" unfolding wc by (rule unat_ucast_u8)
    have "wc = 0 \<longleftrightarrow> b = 0" using u by (metis unsigned_eq_0_iff)
    moreover have "utf8_encode (unat wc) = [b]" using True by (simp add: u utf8_encode_ascii)
    ultimately show ?thesis using True u wc by (simp add: s scalar_def)
  next
    case False
    then obtain m want sb where f: "first_byte b = Some (m, want, sb)"
      and d: "decode_finish us want (loop_result sb (ucast (b AND m)) want 1 s') = (us', MbDone n wc)"
      using r by (auto simp: s mbrtowc_start [OF w] split: option.splits)
    define t where "t = take (nat (want - 1)) s'"
    have ok: "bytes_ok sb t" and wc: "wc = foldl add6 (ucast (b AND m)) t"
      and len: "\<not> 1 + int (length t) < want" and us': "us' = us"
      and n: "n = (if wc = 0 then 0 else nat want)"
      using d w by (auto simp: decode_finish_def loop_result_def t_def [symmetric] Let_def us_want_same split: if_splits)
    have l: "int (length t) = want - 1" using len first_byte_want [OF f] by (simp add: t_def min_def split: if_splits)
    note c = decode_sound [OF f False l ok, folded wc]
    have "wc \<noteq> 0" using c by auto
    moreover have "prefix (utf8_encode (unat wc)) s" using c by (simp add: s t_def take_is_prefix)
    moreover have "nat want = length (utf8_encode (unat wc))" using c l by simp
    ultimately show ?thesis using c us' n by simp
  qed
qed

lemma bytes_ok_replicate: "bytes_ok (0, 0) (replicate k 0x80)"
  by (induction k) (simp_all add: sb_ok_def)

lemma sb_ok_lower: "first_byte b = Some (m, want, sb) \<Longrightarrow> \<not> unat b < 128 \<Longrightarrow> sb_ok sb (fst sb)"
  by (auto simp: first_byte_nat sb_ok_def split: if_splits)

lemma mbrtowc_incomplete_iff:
  assumes w: "us_want us = 0"
  shows "snd (UTF8_mbrtowc us (Some s)) = MbIncomplete \<longleftrightarrow> (\<exists>cp. scalar cp \<and> strict_prefix s (utf8_encode cp))"
proof (cases s)
  case Nil
  have "strict_prefix [] (utf8_encode 0)" by (simp add: utf8_encode_ascii strict_prefix_def)
  then show ?thesis using Nil w by (auto simp: UTF8_mbrtowc_def scalar_def intro!: exI [of _ 0])
next
  case (Cons b s')
  show ?thesis
  proof
    assume i: "snd (UTF8_mbrtowc us (Some s)) = MbIncomplete"
    then have nb: "\<not> unat b < 128" by (auto simp: Cons mbrtowc_start [OF w])
    from i nb obtain m want sb where f: "first_byte b = Some (m, want, sb)"
      and d: "snd (decode_finish us want (loop_result sb (ucast (b AND m)) want 1 s')) = MbIncomplete"
      by (auto simp: Cons mbrtowc_start [OF w] split: option.splits)
    define t where "t = take (nat (want - 1)) s'"
    have ok: "bytes_ok sb t" and len: "1 + int (length t) < want"
      using d by (auto simp: decode_finish_def loop_result_def t_def [symmetric] Let_def split: if_splits)
    then have "length s' < nat (want - 1)" by (auto simp: t_def min_def split: if_splits)
    then have t: "t = s'" by (simp add: t_def)
    define z where "z = (if t = [] then fst sb else 0x80) # replicate (nat want - 2 - length t) 0x80"
    have "bytes_ok (if t = [] then sb else (0, 0)) z"
      using sb_ok_lower [OF f nb] bytes_ok_replicate sb_ok_00 [of "0x80"] by (simp add: z_def)
    then have "bytes_ok sb (t @ z)" using ok by (simp add: bytes_ok_append)
    moreover have "int (length (t @ z)) = want - 1" using len by (simp add: z_def)
    ultimately have "\<exists>cp. scalar cp \<and> utf8_encode cp = b # t @ z" using decode_sound [OF f nb] by blast
    moreover have "strict_prefix s (b # t @ z)" by (simp add: Cons t strict_prefix_def z_def)
    ultimately show "\<exists>cp. scalar cp \<and> strict_prefix s (utf8_encode cp)" by metis
  next
    assume "\<exists>cp. scalar cp \<and> strict_prefix s (utf8_encode cp)"
    then obtain cp where cp: "scalar cp" "strict_prefix s (utf8_encode cp)" by blast
    then have "0x80 \<le> cp" by (cases "cp < 0x80") (auto simp: Cons utf8_encode_ascii strict_prefix_def)
    from decode_complete [OF cp(1) this] obtain c m want sb t where
      e: "utf8_encode cp = c # t" "\<not> unat c < 128" "first_byte c = Some (m, want, sb)" "int (length t) = want - 1" "bytes_ok sb t"
      by blast
    obtain z where z: "c = b" "t = s' @ z" "z \<noteq> []" using cp(2) e(1) by (auto simp: Cons strict_prefix_def prefix_def)
    have "bytes_ok sb s'" using e(5) z by (simp add: bytes_ok_append)
    moreover have "length s' < nat (want - 1)" using e(4) z(2,3) by (cases z) auto
    ultimately show "snd (UTF8_mbrtowc us (Some s)) = MbIncomplete"
      using e z by (simp add: Cons mbrtowc_start [OF w] decode_finish_def loop_result_def)
  qed
qed

section \<open>Resuming, strings and bounds\<close>

lemma loop_resume:
  assumes "loop_result sb wch want i s = Some (sb1, w1, i1)" "i1 < want" "i \<le> want"
  shows "loop_result sb wch want i (s @ ys) =
    (case loop_result sb1 w1 (want - i1) 0 ys of None \<Rightarrow> None | Some (sb2, w2, i2) \<Rightarrow> Some (sb2, w2, i1 + i2))"
proof -
  have i1: "i1 = i + int (length (take (nat (want - i)) s))"
    using assms(1) by (auto simp: loop_result_def Let_def split: if_splits)
  then have len: "length s < nat (want - i)" using assms(2,3) by (auto simp: min_def split: if_splits)
  then have e: "bytes_ok sb s" "sb1 = (if s = [] then sb else (0, 0))" "w1 = foldl add6 wch s" "i1 = i + int (length s)"
    using assms(1) by (auto simp: loop_result_def Let_def split: if_splits)
  have "nat (want - i) = length s + nat (want - i1)" using assms(2) e(4) by linarith
  then have t: "take (nat (want - i)) (s @ ys) = s @ take (nat (want - i1)) ys" by simp
  show ?thesis
    unfolding loop_result_def t using e by (auto simp: Let_def bytes_ok_append)
qed

fun rest_of :: "nat \<Rightarrow> mb_result \<Rightarrow> mb_result" where
  "rest_of k (MbDone n wc) = MbDone (n - k) wc"
| "rest_of k r = r"

lemma finish_resume:
  assumes r: "loop_result sb wch want i xs = Some (sb1, w1, i1)" "i1 < want" "i \<le> want" "int k = i1"
    and us1: "us1 = us\<lparr>us_want := want - i1, us_sb := sb1, us_ch := w1\<rparr>"
  shows "snd (decode_finish us1 (want - i1) (loop_result sb1 w1 (want - i1) 0 ys)) =
    rest_of k (snd (decode_finish us want (loop_result sb wch want i (xs @ ys))))"
  unfolding loop_resume [OF r(1-3)] decode_finish_def using assms(2,4)
  by (auto split: option.splits simp: nat_diff_distrib' simp flip: nat_int_add)

lemma mbrtowc_chunks:
  assumes w: "0 \<le> us_want us" "us_want us \<le> 4" and ne: "xs \<noteq> []" "ys \<noteq> []"
    and inc: "UTF8_mbrtowc us (Some xs) = (us1, MbIncomplete)"
  shows "snd (UTF8_mbrtowc us1 (Some ys)) = rest_of (length xs) (snd (UTF8_mbrtowc us (Some (xs @ ys))))"
proof -
  obtain y ys' where ys: "ys = y # ys'" using ne(2) by (cases ys) auto
  obtain b s where xs: "xs = b # s" using ne(1) by (cases xs) auto
  show ?thesis
  proof (cases "us_want us = 0")
    case True
    then have nb: "\<not> unat b < 128" using inc by (auto simp: xs mbrtowc_start [OF True])
    then obtain m want sb where f: "first_byte b = Some (m, want, sb)"
      and d: "decode_finish us want (loop_result sb (ucast (b AND m)) want 1 s) = (us1, MbIncomplete)"
      using inc by (auto simp: xs mbrtowc_start [OF True] split: option.splits)
    then obtain sb1 w1 i1 where l: "loop_result sb (ucast (b AND m)) want 1 s = Some (sb1, w1, i1)" "i1 < want"
      and us1: "us1 = us\<lparr>us_want := want - i1, us_sb := sb1, us_ch := w1\<rparr>"
      by (auto simp: decode_finish_def split: option.splits if_splits)
    have wb: "1 \<le> want" "want \<le> 4" using first_byte_want [OF f] by auto
    have i1: "int (length xs) = i1" "0 \<le> i1"
      using l wb by (auto simp: loop_result_def Let_def xs min_def split: if_splits)
    have "UTF8_mbrtowc us1 (Some ys) = decode_finish us1 (want - i1) (loop_result sb1 w1 (want - i1) 0 ys)"
      unfolding ys using mbrtowc_resume [of us1] l(2) wb i1(2) by (simp add: us1)
    then show ?thesis
      using finish_resume [OF l wb(1) i1(1) us1, of ys] nb f by (simp add: xs mbrtowc_start [OF True])
  next
    case False
    then have p: "0 < us_want us" using w by simp
    let ?want = "us_want us"
    from inc obtain sb1 w1 i1 where l: "loop_result (us_sb us) (us_ch us) ?want 0 xs = Some (sb1, w1, i1)" "i1 < ?want"
      and us1: "us1 = us\<lparr>us_want := ?want - i1, us_sb := sb1, us_ch := w1\<rparr>"
      unfolding xs mbrtowc_resume [OF p w(2)] by (auto simp: decode_finish_def split: option.splits if_splits)
    have i1: "int (length xs) = i1" "0 \<le> i1"
      using l by (auto simp: loop_result_def Let_def min_def split: if_splits)
    have "UTF8_mbrtowc us1 (Some ys) = decode_finish us1 (?want - i1) (loop_result sb1 w1 (?want - i1) 0 ys)"
      unfolding ys using mbrtowc_resume [of us1] l(2) w i1(2) by (simp add: us1)
    then show ?thesis
      using finish_resume [OF l w(1) i1(1) us1, of ys] mbrtowc_resume [OF p w(2)] by (simp add: xs)
  qed
qed

text \<open>Strings of scalar values other than NUL.\<close>

definition encode_all :: "u32 list \<Rightarrow> u8 list" where
  "encode_all ws = concat (map (\<lambda>w. utf8_encode (unat w)) ws)"

lemma put_char_correct:
  assumes "us_want us = 0" "scalar (unat c)"
  shows "put_char us c = (MbsCount (length (utf8_encode (unat c))), utf8_encode (unat c))"
proof (cases "c < 0x80")
  case True
  then have n: "unat c < 128" by (simp add: word_less_nat_alt)
  then have "(ucast c :: u8) = of_nat (unat c)" by (intro ucast_u8) simp
  then show ?thesis using True n by (simp add: put_char_def utf8_encode_ascii)
next
  case False
  then show ?thesis using assms wcrtomb_correct by (simp add: put_char_def)
qed

lemma wcs_loop_correct:
  assumes "us_want us = 0" "list_all (\<lambda>w. scalar (unat w) \<and> w \<noteq> 0) ws" "length (encode_all ws) \<le> len"
  shows "wcs_loop us ws len dst = (MbsCount (length dst + length (encode_all ws)), dst @ encode_all ws, Some [])"
  using assms(2,3)
proof (induction ws arbitrary: len dst)
  case Nil
  then show ?case by (simp add: encode_all_def)
next
  case (Cons c ws)
  have e: "encode_all (c # ws) = utf8_encode (unat c) @ encode_all ws" by (simp add: encode_all_def)
  have "0 < length (utf8_encode (unat c))" using utf8_encode_nonempty by blast
  then have "len \<noteq> 0" using Cons.prems by (simp add: e del: length_greater_0_conv)
  then show ?case
    using Cons.prems Cons.IH [of "len - length (utf8_encode (unat c))"] put_char_correct [OF assms(1)]
    by (simp add: e add.assoc)
qed

lemma encode_first:
  fixes c :: u32
  assumes "scalar (unat c)" "c \<noteq> 0"
  shows "if unat c < 128 then utf8_encode (unat c) = [ucast c] \<and> ascii (ucast c)
    else \<exists>b t. utf8_encode (unat c) = b # t \<and> \<not> ascii b"
proof (cases "unat c < 128")
  case True
  have u: "(ucast c :: u8) = of_nat (unat c)" using True by (intro ucast_u8) simp
  have n: "unat (ucast c :: u8) = unat c" unfolding u using True by (intro unat_of_nat_u8) simp
  have "unat c \<noteq> 0" using assms(2) by (metis unsigned_eq_0_iff)
  then have "ascii (ucast c)" using True n by (simp add: ascii_def word_less_nat_alt del: of_nat_unat)
  moreover have "utf8_encode (unat c) = [ucast c]" using True by (simp only: utf8_encode_ascii u)
  ultimately show ?thesis using True by simp
next
  case False
  then have "0x80 \<le> unat c" by simp
  from decode_complete [OF assms(1) this] obtain b t where "utf8_encode (unat c) = b # t" "\<not> unat b < 128" by blast
  then show ?thesis using False by (auto simp: ascii_def word_less_nat_alt)
qed

lemma mbs_loop_correct:
  assumes "us_want us = 0" "list_all (\<lambda>w. scalar (unat w) \<and> w \<noteq> 0) ws" "length ws \<le> len"
  shows "mbs_loop us (encode_all ws) len dst = (us, MbsCount (length dst + length ws), dst @ ws, Some [])"
  using assms(2,3)
proof (induction ws arbitrary: len dst)
  case Nil
  then show ?case using assms(1) by (cases len) (simp_all add: encode_all_def UTF8_mbrtowc_def)
next
  case (Cons c ws)
  then obtain k where k: "len = Suc k" "length ws \<le> k" by (cases len) auto
  have c: "scalar (unat c)" "c \<noteq> 0" using Cons.prems by auto
  have e: "encode_all (c # ws) = utf8_encode (unat c) @ encode_all ws" by (simp add: encode_all_def)
  have ih: "mbs_loop us (encode_all ws) k (dst @ [c]) = (us, MbsCount (length (dst @ [c]) + length ws), (dst @ [c]) @ ws, Some [])"
    using Cons.IH [OF _ k(2)] Cons.prems by simp
  show ?case
  proof (cases "unat c < 128")
    case True
    then have b: "utf8_encode (unat c) = [ucast c]" "ascii (ucast c)" using encode_first [OF c] by simp_all
    have "(ucast (ucast c :: u8) :: u32) = c"
    proof -
      have "unat (ucast c :: u8) = unat c" using ucast_u8 [of c] True unat_of_nat_u8 [of "unat c"] by simp
      then have "unat (ucast (ucast c :: u8) :: u32) = unat c" by (simp only: unat_ucast_u8)
      then show ?thesis by (simp add: word_unat_eq_iff)
    qed
    then show ?thesis using b ih by (simp add: k e)
  next
    case False
    then obtain b t where b: "utf8_encode (unat c) = b # t" "\<not> ascii b" using encode_first [OF c] by auto
    have "UTF8_mbrtowc us (Some (encode_all (c # ws))) = (us, MbDone (length (utf8_encode (unat c))) c)"
      unfolding e mbrtowc_complete [OF assms(1) c(1)] using c(2) by (simp add: unsigned_eq_0_iff)
    then show ?thesis using b ih by (simp add: k e)
  qed
qed

lemma length_put_octets: "length (put_octets lead wc i s) = Suc i + length s"
  by (induction lead wc i s rule: put_octets.induct) simp_all

lemma put_char_length: "put_char us c = (MbsCount nb, bs) \<Longrightarrow> us_want us = 0 \<Longrightarrow> nb = length bs \<and> 1 \<le> nb \<and> nb \<le> 4 \<and> (c < 0x80 \<longrightarrow> nb = 1)"
  by (auto simp: put_char_def UTF8_wcrtomb_def lead_len_def length_put_octets split: if_splits option.splits)

lemma wcs_loop_bound:
  "us_want us = 0 \<Longrightarrow> wcs_loop us ws len dst = (r, out, src) \<Longrightarrow> length out \<le> length dst + len"
proof (induction us ws len dst arbitrary: r out src rule: wcs_loop.induct)
  case (2 us c s len dst)
  show ?case
  proof (cases "put_char us c")
    case (Pair p bs)
    then show ?thesis
      using 2 put_char_length [of us c _ bs] by (cases p) (fastforce split: if_splits)+
  qed
qed simp

lemma mbs_loop_bound:
  "mbs_loop us s len dst = (us', r, out, src) \<Longrightarrow> length out \<le> length dst + len"
proof (induction us s len dst arbitrary: us' r out src rule: mbs_loop.induct)
  case (2 us s len dst)
  show ?case
  proof (cases "UTF8_mbrtowc us (Some s)")
    case (Pair u p)
    then show ?thesis using 2 by (cases p) (fastforce split: if_splits)+
  qed
qed simp

section \<open>Properties\<close>

text \<open>
  C9: from the initial state, \<open>mbrtowc\<close> delivers a character exactly when the input starts with the
  UTF-8 encoding of that Unicode scalar value (so never a surrogate or an overlong form), asks for
  more input exactly when the input is a proper prefix of some encoding, and so rejects every
  ill-formed sequence at its first byte that no encoding has there. This is UTF-8 as Unicode has it; the
  manual page \<open>utf8.5\<close> still describes sequences of up to six octets for values up to \<open>0x7fffffff\<close>, with
  surrogates among them, and the code rejects these.
\<close>

theorem mbrtowc_exact:
  assumes "us_want us = 0"
  shows "(\<forall>n wc. snd (UTF8_mbrtowc us (Some s)) = MbDone n wc \<longleftrightarrow>
      scalar (unat wc) \<and> prefix (utf8_encode (unat wc)) s \<and>
      n = (if wc = 0 then 0 else length (utf8_encode (unat wc)))) \<and>
    (snd (UTF8_mbrtowc us (Some s)) = MbIncomplete \<longleftrightarrow> (\<exists>cp. scalar cp \<and> strict_prefix s (utf8_encode cp)))"
proof -
  have "snd (UTF8_mbrtowc us (Some s)) = MbDone n wc \<longleftrightarrow> scalar (unat wc) \<and> prefix (utf8_encode (unat wc)) s \<and>
      n = (if wc = 0 then 0 else length (utf8_encode (unat wc)))" for n wc
  proof
    assume "snd (UTF8_mbrtowc us (Some s)) = MbDone n wc"
    then show "scalar (unat wc) \<and> prefix (utf8_encode (unat wc)) s \<and> n = (if wc = 0 then 0 else length (utf8_encode (unat wc)))"
      using mbrtowc_sound [OF assms] by (metis prod.collapse)
  next
    assume a: "scalar (unat wc) \<and> prefix (utf8_encode (unat wc)) s \<and> n = (if wc = 0 then 0 else length (utf8_encode (unat wc)))"
    then obtain rest where "s = utf8_encode (unat wc) @ rest" by (auto simp: prefix_def)
    then show "snd (UTF8_mbrtowc us (Some s)) = MbDone n wc"
      using mbrtowc_complete [OF assms, of "unat wc" rest] a by (simp add: unsigned_eq_0_iff)
  qed
  then show ?thesis using mbrtowc_incomplete_iff [OF assms] by blast
qed

theorem mbrtowc_exact_witness:
  "snd (UTF8_mbrtowc initial (Some [0xe2, 0x82, 0xac, 0x21])) = MbDone 3 0x20ac \<and>
   snd (UTF8_mbrtowc initial (Some [0xe2, 0x82])) = MbIncomplete"
proof -
  have w: "us_want initial = 0" by (simp add: initial_def)
  have "snd (UTF8_mbrtowc initial (Some [0xe2, 0x82, 0xac, 0x21])) = MbDone 3 0x20ac"
    using mbrtowc_exact [OF w, of "[0xe2, 0x82, 0xac, 0x21]"] by (simp add: scalar_def utf8_encode_def enc_nat_def)
  moreover have "\<exists>cp. scalar cp \<and> strict_prefix [0xe2, 0x82] (utf8_encode cp)"
    by (intro exI [of _ "0x20ac"]) (simp add: scalar_def utf8_encode_def enc_nat_def strict_prefix_def)
  ultimately show ?thesis using mbrtowc_exact [OF w, of "[0xe2, 0x82]"] by blast
qed

text \<open>
  C10: in the initial state \<open>wcrtomb\<close> writes the UTF-8 encoding of every Unicode scalar value and
  reports \<open>EILSEQ\<close> for every other wide character, that is for surrogates and for values above \<open>0x10ffff\<close>,
  to which \<open>utf8.5\<close> gives encodings.
\<close>

theorem wcrtomb_exact:
  assumes "us_want us = 0"
  shows "UTF8_wcrtomb us False wc =
    (if scalar (unat wc) then (MbsCount (length (utf8_encode (unat wc))), utf8_encode (unat wc))
     else (MbsError MB_EILSEQ, []))"
  using assms by (rule wcrtomb_correct)

theorem wcrtomb_exact_witness:
  "UTF8_wcrtomb initial False 0x1f600 = (MbsCount 4, [0xf0, 0x9f, 0x98, 0x80]) \<and>
   UTF8_wcrtomb initial False 0xd800 = (MbsError MB_EILSEQ, [])"
  using wcrtomb_exact [of initial "0x1f600"] wcrtomb_exact [of initial "0xd800"]
  by (simp add: initial_def scalar_def utf8_encode_def enc_nat_def)

text \<open>
  C11: giving \<open>mbrtowc\<close> a sequence in two pieces has the same outcome as giving it whole: after an
  incomplete first piece, the second one completes the same character, counting only its own
  bytes, is incomplete, or is rejected, just as the whole is.
\<close>

theorem mbrtowc_restartable:
  assumes "0 \<le> us_want us" "us_want us \<le> 4" "xs \<noteq> []" "ys \<noteq> []"
    and "UTF8_mbrtowc us (Some xs) = (us1, MbIncomplete)"
  shows "snd (UTF8_mbrtowc us1 (Some ys)) = rest_of (length xs) (snd (UTF8_mbrtowc us (Some (xs @ ys))))"
  using assms by (rule mbrtowc_chunks)

theorem mbrtowc_restartable_witness:
  "\<exists>us1. UTF8_mbrtowc initial (Some [0xe2, 0x82]) = (us1, MbIncomplete) \<and>
    snd (UTF8_mbrtowc us1 (Some [0xac])) = MbDone 1 0x20ac"
proof -
  obtain us1 where us1: "UTF8_mbrtowc initial (Some [0xe2, 0x82]) = (us1, MbIncomplete)"
  proof -
    have "snd (UTF8_mbrtowc initial (Some [0xe2, 0x82])) = MbIncomplete" by code_simp
    then show thesis using that by (metis prod.collapse)
  qed
  have "snd (UTF8_mbrtowc initial (Some [0xe2, 0x82, 0xac])) = MbDone 3 0x20ac" by code_simp
  then show ?thesis
    using mbrtowc_restartable [of initial "[0xe2, 0x82]" "[0xac]" us1] us1 by (simp add: initial_def)
qed

text \<open>
  C12: a wide string of Unicode scalar values other than NUL converted to bytes and back, with enough
  room in both directions, is the same string, all of it converted.
\<close>

theorem utf8_string_roundtrip:
  assumes "us_want us = 0" "list_all (\<lambda>w. scalar (unat w) \<and> w \<noteq> 0) ws"
    and "length (encode_all ws) \<le> blen" "length ws \<le> wlen"
  shows "\<exists>bs. UTF8_wcsnrtombs us ws (Some blen) = (MbsCount (length bs), bs, Some []) \<and>
    UTF8_mbsnrtowcs us bs (Some wlen) = (us, MbsCount (length ws), ws, Some [])"
  using wcs_loop_correct [OF assms(1-3), of "[]"] mbs_loop_correct [OF assms(1,2,4), of "[]"] assms(1)
  by (simp add: UTF8_wcsnrtombs_def UTF8_mbsnrtowcs_def stray_ascii_def)

theorem utf8_string_roundtrip_witness:
  "\<exists>bs. UTF8_wcsnrtombs initial [0x61, 0x20ac] (Some 4) = (MbsCount (length bs), bs, Some []) \<and>
    UTF8_mbsnrtowcs initial bs (Some 2) = (initial, MbsCount 2, [0x61, 0x20ac], Some [])"
proof -
  have "us_want initial = 0" "list_all (\<lambda>w. scalar (unat w) \<and> w \<noteq> 0) [0x61, 0x20ac :: u32]"
    "length (encode_all [0x61, 0x20ac]) \<le> 4" "length [0x61, 0x20ac :: u32] \<le> 2"
    by (simp_all add: initial_def scalar_def encode_all_def utf8_encode_def enc_nat_def)
  from utf8_string_roundtrip [OF this] show ?thesis by (simp add: eval_nat_numeral)
qed

text \<open>
  The string conversions never write more than \<open>len\<close> bytes or wide characters to the
  destination, whatever the input.
\<close>

theorem utf8_strings_in_bounds:
  "length (fst (snd (UTF8_wcsnrtombs us ws (Some len)))) \<le> len \<and>
   length (fst (snd (snd (UTF8_mbsnrtowcs us bs (Some len))))) \<le> len"
proof
  show "length (fst (snd (UTF8_wcsnrtombs us ws (Some len)))) \<le> len"
  proof (cases "us_want us = 0")
    case True
    then show ?thesis using wcs_loop_bound [OF True, of ws len "[]"] by (simp add: UTF8_wcsnrtombs_def) (metis prod.collapse)
  qed (simp add: UTF8_wcsnrtombs_def)
  show "length (fst (snd (snd (UTF8_mbsnrtowcs us bs (Some len))))) \<le> len"
    using mbs_loop_bound [of us bs len "[]"] by (simp add: UTF8_mbsnrtowcs_def) (metis prod.collapse)
qed

end
