(* ===== verification/OSKextVersion.thy ===== *)
theory OSKextVersion
  imports Prelude "HOL-Library.Product_Lexorder"
begin

text \<open>
  Kernel extension versions: \<open>libkern/OSKextVersion.c\<close> of xnu. A version string
  \<open>major.minor.revision\<close> with an optional build stage is read into one \<open>int64_t\<close> that callers
  compare numerically, and such a number is written back into a caller's buffer.

  A C string is the list of the bytes from the pointer to the end of its object, the terminating
  NUL included; reading the empty list is a read outside the object and makes the result \<open>None\<close>.
  The labels that the parser jumps to (\<open>minor_version\<close>, \<open>revision\<close>, \<open>release_state\<close>, \<open>finish\<close>) are
  functions of the variables that are live there, and each \<open>while\<close> loop is a recursion on the
  characters it consumes. \<open>OSKextVersion\<close> (\<open>int64_t\<close>) is \<open>int\<close>: the numbers stay below \<open>2 ^ 54\<close>.
\<close>

section \<open>Constants and characters\<close>

abbreviation (input) NUL :: char where "NUL \<equiv> CHR 0x00"

abbreviation (input) VERS_MAJOR_DIGITS :: nat where "VERS_MAJOR_DIGITS \<equiv> 4"
abbreviation (input) VERS_MINOR_DIGITS :: nat where "VERS_MINOR_DIGITS \<equiv> 4"
abbreviation (input) VERS_REVISION_DIGITS :: nat where "VERS_REVISION_DIGITS \<equiv> 4"
abbreviation (input) VERS_STAGE_LEVEL_DIGITS :: nat where "VERS_STAGE_LEVEL_DIGITS \<equiv> 3"
abbreviation (input) VERS_MAJOR_MAX :: int where "VERS_MAJOR_MAX \<equiv> 9999"
abbreviation (input) VERS_STAGE_LEVEL_MAX :: int where "VERS_STAGE_LEVEL_MAX \<equiv> 255"
abbreviation (input) VERS_MAJOR_MULT :: int where "VERS_MAJOR_MULT \<equiv> 1000000000000"
abbreviation (input) VERS_MINOR_MULT :: int where "VERS_MINOR_MULT \<equiv> 100000000"
abbreviation (input) VERS_REVISION_MULT :: int where "VERS_REVISION_MULT \<equiv> 10000"
abbreviation (input) VERS_STAGE_MULT :: int where "VERS_STAGE_MULT \<equiv> 1000"
abbreviation (input) kOSKextVersionMaxLength :: u32 where "kOSKextVersionMaxLength \<equiv> 20"

type_synonym OSKextVersion = int

datatype OSKextVersionStage =
    kOSKextVersionStageInvalid
  | kOSKextVersionStageDevelopment
  | kOSKextVersionStageAlpha
  | kOSKextVersionStageBeta
  | kOSKextVersionStageCandidate
  | kOSKextVersionStageRelease

primrec stage_number :: "OSKextVersionStage \<Rightarrow> int" where
  "stage_number kOSKextVersionStageInvalid = 0"
| "stage_number kOSKextVersionStageDevelopment = 1"
| "stage_number kOSKextVersionStageAlpha = 3"
| "stage_number kOSKextVersionStageBeta = 5"
| "stage_number kOSKextVersionStageCandidate = 7"
| "stage_number kOSKextVersionStageRelease = 9"

definition vers_isdigit :: "char \<Rightarrow> bool" where
  "vers_isdigit c \<longleftrightarrow> c \<in> set ''0123456789''"

definition vers_isspace :: "char \<Rightarrow> bool" where
  "vers_isspace c \<longleftrightarrow> c = CHR '' '' \<or> c = CHR 0x09 \<or> c = CHR 0x0D \<or> c = CHR 0x0A"

definition vers_digit_for_char :: "char \<Rightarrow> int" where
  "vers_digit_for_char c =
    (case map_of (zip ''0123456789'' [0, 1, 2, 3, 4, 5, 6, 7, 8, 9]) c of Some d \<Rightarrow> d | None \<Rightarrow> - 1)"

definition VERS_isreleasestate :: "char \<Rightarrow> bool" where
  "VERS_isreleasestate c \<longleftrightarrow> c = CHR ''d'' \<or> c = CHR ''a'' \<or> c = CHR ''b'' \<or> c = CHR ''f''"

text \<open>\<open>rd p i\<close> is the read of \<open>p[i]\<close>.\<close>

definition rd :: "string \<Rightarrow> nat \<Rightarrow> char option" where
  "rd p i = (if i < length p then Some (p ! i) else None)"

section \<open>Reading a version\<close>

text \<open>
  The build stage at a pointer, with the pointer after it; the outer \<open>None\<close> is a read outside
  the object.
\<close>

definition OSKextVersionStageForString :: "string \<Rightarrow> (OSKextVersionStage \<times> string) option" where
  "OSKextVersionStageForString string =
    Option.bind (rd string 0) (\<lambda>c0.
      if vers_isspace c0 \<or> c0 = NUL then Some (kOSKextVersionStageRelease, string)
      else if c0 = CHR ''d'' then
        Option.bind (rd string 1) (\<lambda>c1.
          if vers_isdigit c1 then Some (kOSKextVersionStageDevelopment, drop 1 string)
          else Some (kOSKextVersionStageInvalid, string))
      else if c0 = CHR ''a'' then
        Option.bind (rd string 1) (\<lambda>c1.
          if vers_isdigit c1 then Some (kOSKextVersionStageAlpha, drop 1 string)
          else Some (kOSKextVersionStageInvalid, string))
      else if c0 = CHR ''b'' then
        Option.bind (rd string 1) (\<lambda>c1.
          if vers_isdigit c1 then Some (kOSKextVersionStageBeta, drop 1 string)
          else Some (kOSKextVersionStageInvalid, string))
      else if c0 = CHR ''f'' then
        Option.bind (rd string 1) (\<lambda>c1.
          if vers_isdigit c1 then Some (kOSKextVersionStageCandidate, drop 1 string)
          else if c1 = CHR ''c'' then
            Option.bind (rd string 2) (\<lambda>c2.
              if vers_isdigit c2 then Some (kOSKextVersionStageCandidate, drop 2 string)
              else Some (kOSKextVersionStageInvalid, string))
          else Some (kOSKextVersionStageInvalid, string))
      else Some (kOSKextVersionStageInvalid, string))"

definition finish_version ::
  "int \<Rightarrow> int \<Rightarrow> int \<Rightarrow> OSKextVersionStage \<Rightarrow> int \<Rightarrow> OSKextVersion" where
  "finish_version vers_major vers_minor vers_revision vers_stage vers_stage_level =
    (if vers_stage = kOSKextVersionStageCandidate \<and> vers_stage_level = 0 then - 1
     else vers_major * VERS_MAJOR_MULT +
       vers_minor * VERS_MINOR_MULT +
       vers_revision * VERS_REVISION_MULT +
       stage_number vers_stage * VERS_STAGE_MULT +
       vers_stage_level)"

fun stage_level_loop ::
  "int \<Rightarrow> int \<Rightarrow> int \<Rightarrow> OSKextVersionStage \<Rightarrow> nat \<Rightarrow> int \<Rightarrow> string \<Rightarrow> OSKextVersion option" where
  "stage_level_loop vmaj vmin vrev stage scanned level [] = None"
| "stage_level_loop vmaj vmin vrev stage scanned level (c # p) =
    (if scanned < VERS_STAGE_LEVEL_DIGITS then
       if vers_isspace c \<or> c = NUL then
         if scanned \<noteq> 0 then Some (finish_version vmaj vmin vrev stage level) else Some (- 1)
       else if vers_isdigit c then
         if vers_digit_for_char c < 0 then Some (- 1)
         else stage_level_loop vmaj vmin vrev stage (scanned + 1) (level * 10 + vers_digit_for_char c) p
       else Some (- 1)
     else if scanned = VERS_STAGE_LEVEL_DIGITS \<and> \<not> (vers_isspace c \<or> c = NUL) then Some (- 1)
     else if level > VERS_STAGE_LEVEL_MAX then Some (- 1)
     else Some (finish_version vmaj vmin vrev stage level))"

definition release_state :: "int \<Rightarrow> int \<Rightarrow> int \<Rightarrow> string \<Rightarrow> OSKextVersion option" where
  "release_state vmaj vmin vrev p =
    Option.bind (rd p 0) (\<lambda>c.
      if vers_isspace c \<or> c = NUL then Some (finish_version vmaj vmin vrev kOSKextVersionStageRelease 0)
      else Option.bind (OSKextVersionStageForString p) (\<lambda>(stage, p').
        if stage = kOSKextVersionStageInvalid then Some (- 1)
        else stage_level_loop vmaj vmin vrev stage 0 0 p'))"

fun revision_loop :: "int \<Rightarrow> int \<Rightarrow> nat \<Rightarrow> int \<Rightarrow> string \<Rightarrow> OSKextVersion option" where
  "revision_loop vmaj vmin scanned vrev [] = None"
| "revision_loop vmaj vmin scanned vrev (c # p) =
    (if scanned < VERS_REVISION_DIGITS then
       if vers_isspace c \<or> c = NUL then Some (finish_version vmaj vmin vrev kOSKextVersionStageRelease 0)
       else if vers_isdigit c then
         if vers_digit_for_char c < 0 then Some (- 1)
         else revision_loop vmaj vmin (scanned + 1) (vrev * 10 + vers_digit_for_char c) p
       else if VERS_isreleasestate c then release_state vmaj vmin vrev (c # p)
       else Some (- 1)
     else if scanned = VERS_REVISION_DIGITS \<and> c = CHR ''.'' then release_state vmaj vmin vrev p
     else if scanned = VERS_REVISION_DIGITS \<and> vers_isdigit c then Some (- 1)
     else release_state vmaj vmin vrev (c # p))"

fun minor_loop :: "int \<Rightarrow> nat \<Rightarrow> int \<Rightarrow> string \<Rightarrow> OSKextVersion option" where
  "minor_loop vmaj scanned vmin [] = None"
| "minor_loop vmaj scanned vmin (c # p) =
    (if scanned < VERS_MINOR_DIGITS then
       if vers_isspace c \<or> c = NUL then Some (finish_version vmaj vmin 0 kOSKextVersionStageRelease 0)
       else if vers_isdigit c then
         if vers_digit_for_char c < 0 then Some (- 1)
         else minor_loop vmaj (scanned + 1) (vmin * 10 + vers_digit_for_char c) p
       else if VERS_isreleasestate c then release_state vmaj vmin 0 (c # p)
       else if c = CHR ''.'' then revision_loop vmaj vmin 0 0 p
       else Some (- 1)
     else if scanned = VERS_MINOR_DIGITS \<and> c = CHR ''.'' then revision_loop vmaj vmin 0 0 p
     else if scanned = VERS_MINOR_DIGITS \<and> vers_isdigit c then Some (- 1)
     else revision_loop vmaj vmin 0 0 (c # p))"

fun major_loop :: "nat \<Rightarrow> int \<Rightarrow> string \<Rightarrow> OSKextVersion option" where
  "major_loop scanned vmaj [] = None"
| "major_loop scanned vmaj (c # p) =
    (if scanned < VERS_MAJOR_DIGITS then
       if vers_isspace c \<or> c = NUL then Some (finish_version vmaj 0 0 kOSKextVersionStageRelease 0)
       else if vers_isdigit c then
         if vers_digit_for_char c < 0 then Some (- 1)
         else major_loop (scanned + 1) (vmaj * 10 + vers_digit_for_char c) p
       else if VERS_isreleasestate c then release_state vmaj 0 0 (c # p)
       else if c = CHR ''.'' then minor_loop vmaj 0 0 p
       else Some (- 1)
     else if scanned = VERS_MAJOR_DIGITS \<and> c = CHR ''.'' then minor_loop vmaj 0 0 p
     else if scanned = VERS_MAJOR_DIGITS \<and> vers_isdigit c then Some (- 1)
     else minor_loop vmaj 0 0 (c # p))"

text \<open>The argument is \<open>None\<close> for a null pointer.\<close>

definition OSKextParseVersionString :: "string option \<Rightarrow> OSKextVersion option" where
  "OSKextParseVersionString versionString =
    (case versionString of
       None \<Rightarrow> Some (- 1)
     | Some s \<Rightarrow> Option.bind (rd s 0) (\<lambda>c.
         if c = NUL then Some (- 1)
         else if vers_digit_for_char c < 0 then Some (- 1)
         else major_loop 1 (vers_digit_for_char c) (drop 1 s)))"

section \<open>Writing a version\<close>

text \<open>The string functions the writer calls, on a buffer given by all of its bytes; a write outside
  the buffer is \<open>None\<close>.\<close>

definition buf_write :: "string \<Rightarrow> nat \<Rightarrow> string \<Rightarrow> string option" where
  "buf_write buf off s =
    (if off + length s \<le> length buf then Some (take off buf @ s @ drop (off + length s) buf) else None)"

definition strlcpy :: "string \<Rightarrow> string \<Rightarrow> nat \<Rightarrow> string option" where
  "strlcpy buf s sz = (if sz = 0 then Some buf else buf_write buf 0 (take (sz - 1) s @ [NUL]))"

definition strlcat :: "string \<Rightarrow> string \<Rightarrow> nat \<Rightarrow> string option" where
  "strlcat buf s sz =
    (let n = length (takeWhile (\<lambda>c. c \<noteq> NUL) (take sz buf))
     in if n = sz then Some buf else buf_write buf n (take (sz - n - 1) s @ [NUL]))"

fun dec :: "nat \<Rightarrow> string" where
  "dec n = (if n < 10 then [char_of (48 + n)] else dec (n div 10) @ [char_of (48 + n mod 10)])"

declare dec.simps [simp del]

text \<open>\<open>scnprintf (buf + off, sz, "%u", (uint32_t) v)\<close>: the buffer and the number of
  characters written. A call with no room at all (which would return \<open>- 1\<close>) is \<open>None\<close> as well.\<close>

definition scnprintf_u :: "string \<Rightarrow> nat \<Rightarrow> nat \<Rightarrow> int \<Rightarrow> (string \<times> nat) option" where
  "scnprintf_u buf off sz v =
    (let t = take (sz - 1) (dec (nat (v mod 2 ^ 32)))
     in if sz = 0 then None
        else Option.bind (buf_write buf off (t @ [NUL])) (\<lambda>buf'. Some (buf', length t)))"

definition OSKextVersionStringForStage :: "int \<Rightarrow> string option" where
  "OSKextVersionStringForStage stage =
    (if stage = stage_number kOSKextVersionStageDevelopment then Some ''d''
     else if stage = stage_number kOSKextVersionStageAlpha then Some ''a''
     else if stage = stage_number kOSKextVersionStageBeta then Some ''b''
     else if stage = stage_number kOSKextVersionStageCandidate then Some ''f''
     else if stage = stage_number kOSKextVersionStageRelease then Some ''''
     else None)"

definition strlcpy_TRUE :: "string \<Rightarrow> string \<Rightarrow> u32 \<Rightarrow> (bool \<times> string) option" where
  "strlcpy_TRUE buf s bufferLength =
    Option.bind (strlcpy buf s (unat bufferLength)) (\<lambda>buf'. Some (True, buf'))"

text \<open>\<open>bufferLength - cpos\<close>, an unsigned subtraction.\<close>

definition room :: "u32 \<Rightarrow> nat \<Rightarrow> nat" where
  "room bufferLength cpos = unat (bufferLength - of_nat cpos)"

text \<open>
  The part after the range checks writes the numbers of a version, giving the buffer and \<open>cpos\<close>,
  and then its stage.
\<close>

definition write_numbers ::
  "int \<Rightarrow> int \<Rightarrow> int \<Rightarrow> string \<Rightarrow> u32 \<Rightarrow> (string \<times> nat) option" where
  "write_numbers vmaj vmin vrev buf bufferLength =
    Option.bind (scnprintf_u buf 0 (unat bufferLength) vmaj) (\<lambda>(buf, n).
    Option.bind (buf_write buf n ''.'') (\<lambda>buf.
    let cpos = n + 1 in
    Option.bind (scnprintf_u buf cpos (room bufferLength cpos) vmin) (\<lambda>(buf, n).
    let cpos = cpos + n in
    if vrev \<noteq> 0 then
      Option.bind (buf_write buf cpos ''.'') (\<lambda>buf.
      let cpos = cpos + 1 in
      Option.bind (scnprintf_u buf cpos (room bufferLength cpos) vrev) (\<lambda>(buf, n).
      Some (buf, cpos + n)))
    else Some (buf, cpos))))"

definition write_stage ::
  "int \<Rightarrow> int \<Rightarrow> string \<Rightarrow> nat \<Rightarrow> u32 \<Rightarrow> (bool \<times> string) option" where
  "write_stage vstage vlevel buf cpos bufferLength =
    (case OSKextVersionStringForStage vstage of
      None \<Rightarrow> strlcpy_TRUE buf ''(invalid)'' bufferLength
    | Some stage_string \<Rightarrow>
        Option.bind
          (if stage_string \<noteq> [] then
             Option.bind (strlcat buf stage_string (unat bufferLength)) (\<lambda>buf.
             Some (buf, cpos + length stage_string))
           else Some (buf, cpos)) (\<lambda>(buf, cpos).
        if vstage < stage_number kOSKextVersionStageRelease then
          Option.bind (scnprintf_u buf cpos (room bufferLength cpos) vlevel) (\<lambda>(buf, _). Some (True, buf))
        else Some (True, buf)))"

definition write_version ::
  "int \<Rightarrow> int \<Rightarrow> int \<Rightarrow> int \<Rightarrow> int \<Rightarrow> string \<Rightarrow> u32 \<Rightarrow> (bool \<times> string) option" where
  "write_version vmaj vmin vrev vstage vlevel buf bufferLength =
    Option.bind (write_numbers vmaj vmin vrev buf bufferLength) (\<lambda>(buf, cpos).
    write_stage vstage vlevel buf cpos bufferLength)"

definition OSKextVersionGetString ::
  "OSKextVersion \<Rightarrow> string option \<Rightarrow> u32 \<Rightarrow> (bool \<times> string) option" where
  "OSKextVersionGetString aVersion buffer bufferLength =
    (case buffer of
       None \<Rightarrow> Some (False, [])
     | Some buf0 \<Rightarrow>
       if bufferLength < kOSKextVersionMaxLength then Some (False, buf0)
       else Option.bind (buf_write buf0 0 (replicate (unat bufferLength) NUL)) (\<lambda>buf.
         if aVersion < 0 then strlcpy_TRUE buf ''(invalid)'' bufferLength
         else if aVersion = 0 then strlcpy_TRUE buf ''(missing)'' bufferLength
         else
           let vmaj = aVersion div VERS_MAJOR_MULT in
           if vmaj > VERS_MAJOR_MAX then strlcpy_TRUE buf ''(invalid)'' bufferLength
           else
             let vmin = (aVersion - vmaj * VERS_MAJOR_MULT) div VERS_MINOR_MULT;
                 vrev = (aVersion - (vmaj * VERS_MAJOR_MULT + vmin * VERS_MINOR_MULT))
                   div VERS_REVISION_MULT;
                 vstage = (aVersion - (vmaj * VERS_MAJOR_MULT + vmin * VERS_MINOR_MULT +
                   vrev * VERS_REVISION_MULT)) div VERS_STAGE_MULT;
                 vlevel = aVersion - (vmaj * VERS_MAJOR_MULT + vmin * VERS_MINOR_MULT +
                   vrev * VERS_REVISION_MULT + vstage * VERS_STAGE_MULT)
             in if vlevel > VERS_STAGE_LEVEL_MAX then strlcpy_TRUE buf ''(invalid)'' bufferLength
                else write_version vmaj vmin vrev vstage vlevel buf bufferLength))"

section \<open>The accepted strings\<close>

text \<open>
  What the code accepts is, up to the first space or NUL, one to four digits, then at most two fields
  of a period and up to four digits, then a build stage with its level, or nothing. The code also
  takes a period after a third field of exactly four digits. The format that the interface documents
  is narrower, and is given after this one.
\<close>

definition num_from :: "int \<Rightarrow> string \<Rightarrow> int" where
  "num_from a ds = foldl (\<lambda>a c. a * 10 + vers_digit_for_char c) a ds"

fun at_end :: "string \<Rightarrow> bool" where
  "at_end [] = False"
| "at_end (c # p) = (vers_isspace c \<or> c = NUL)"

definition digits_of :: "string \<Rightarrow> string" where
  "digits_of p = takeWhile vers_isdigit p"

definition after_digits :: "string \<Rightarrow> string" where
  "after_digits p = dropWhile vers_isdigit p"

definition skip_dot :: "string \<Rightarrow> string" where
  "skip_dot p = (if p \<noteq> [] \<and> hd p = CHR ''.'' then tl p else p)"

definition field_digits :: "string \<Rightarrow> string" where
  "field_digits p = (if p \<noteq> [] \<and> hd p = CHR ''.'' then digits_of (tl p) else [])"

definition after_field :: "string \<Rightarrow> string" where
  "after_field p = (if p \<noteq> [] \<and> hd p = CHR ''.'' then after_digits (tl p) else p)"

definition stage_letters :: "string \<Rightarrow> (OSKextVersionStage \<times> string) option" where
  "stage_letters p =
    (if take 1 p = ''d'' then Some (kOSKextVersionStageDevelopment, drop 1 p)
     else if take 1 p = ''a'' then Some (kOSKextVersionStageAlpha, drop 1 p)
     else if take 1 p = ''b'' then Some (kOSKextVersionStageBeta, drop 1 p)
     else if take 2 p = ''fc'' then Some (kOSKextVersionStageCandidate, drop 2 p)
     else if take 1 p = ''f'' then Some (kOSKextVersionStageCandidate, drop 1 p)
     else None)"

definition stage_of :: "string \<Rightarrow> (OSKextVersionStage \<times> int) option" where
  "stage_of p =
    (if at_end p then Some (kOSKextVersionStageRelease, 0)
     else case stage_letters p of
       None \<Rightarrow> None
     | Some (st, q) \<Rightarrow>
         let ds = digits_of q; lv = num_from 0 ds in
         if ds \<noteq> [] \<and> length ds \<le> 3 \<and> at_end (after_digits q) \<and> lv \<le> 255 \<and>
           \<not> (st = kOSKextVersionStageCandidate \<and> lv = 0)
         then Some (st, lv) else None)"

text \<open>Major, minor, revision, stage and level of a string.\<close>

type_synonym version = "int \<times> int \<times> int \<times> int \<times> int"

definition accepted_version :: "string \<Rightarrow> version option" where
  "accepted_version s =
    (let d1 = digits_of s; r1 = after_digits s;
         d2 = field_digits r1; r2 = after_field r1;
         d3 = field_digits r2; r3 = after_field r2;
         r4 = (if length d3 = 4 then skip_dot r3 else r3)
     in if d1 = [] \<or> 4 < length d1 \<or> 4 < length d2 \<or> 4 < length d3 then None
        else case stage_of r4 of
          None \<Rightarrow> None
        | Some (st, lv) \<Rightarrow>
            Some (num_from 0 d1, num_from 0 d2, num_from 0 d3, stage_number st, lv))"

text \<open>The number a version is encoded as.\<close>

fun encode :: "version \<Rightarrow> int" where
  "encode (ma, mi, re, st, lv) =
    ma * 1000000000000 + mi * 100000000 + re * 10000 + st * 1000 + lv"

section \<open>The documented strings\<close>

text \<open>
  The format of \<open>libkern/OSKextLibPrivate.h\<close>, \<open>####.##.##s{1-255}\<close> with \<open>s\<close> one of \<open>d\<close>, \<open>a\<close>, \<open>b\<close>, \<open>f\<close> and \<open>fc\<close>, as
  a grammar: up to four digits for the major number, up to two for the minor number and the revision,
  which may be absent, and a build stage with a level from 1 to 255, or no stage for a release. The
  string ends at white space or NUL.
\<close>

definition number :: "nat \<Rightarrow> string \<Rightarrow> int \<Rightarrow> bool" where
  "number k ds n \<longleftrightarrow> ds \<noteq> [] \<and> length ds \<le> k \<and> list_all vers_isdigit ds \<and> n = num_from 0 ds"

inductive documented_numbers :: "int \<Rightarrow> int \<Rightarrow> int \<Rightarrow> string \<Rightarrow> bool" where
  major: "number 4 d1 ma \<Longrightarrow> documented_numbers ma 0 0 d1"
| minor: "number 4 d1 ma \<Longrightarrow> number 2 d2 mi \<Longrightarrow> documented_numbers ma mi 0 (d1 @ ''.'' @ d2)"
| revision: "number 4 d1 ma \<Longrightarrow> number 2 d2 mi \<Longrightarrow> number 2 d3 re \<Longrightarrow>
    documented_numbers ma mi re (d1 @ ''.'' @ d2 @ ''.'' @ d3)"

inductive documented_stage :: "OSKextVersionStage \<Rightarrow> int \<Rightarrow> string \<Rightarrow> bool" where
  release: "documented_stage kOSKextVersionStageRelease 0 []"
| stage: "(letters, st) \<in> {(''d'', kOSKextVersionStageDevelopment), (''a'', kOSKextVersionStageAlpha),
      (''b'', kOSKextVersionStageBeta), (''f'', kOSKextVersionStageCandidate), (''fc'', kOSKextVersionStageCandidate)} \<Longrightarrow>
    number 3 ds lv \<Longrightarrow> 1 \<le> lv \<Longrightarrow> lv \<le> 255 \<Longrightarrow> documented_stage st lv (letters @ ds)"

inductive documented_version :: "version \<Rightarrow> string \<Rightarrow> bool" where
  "documented_numbers ma mi re p \<Longrightarrow> documented_stage st lv q \<Longrightarrow> at_end r \<Longrightarrow>
    documented_version (ma, mi, re, stage_number st, lv) (p @ q @ r)"

text \<open>
  The ways in which an accepted string leaves the documented format: a period with no digits after it,
  a minor number or revision of three or four digits (after four digits of the revision possibly with
  another period), and level 0.
\<close>

definition dotted :: "string \<Rightarrow> bool" where
  "dotted p \<longleftrightarrow> p \<noteq> [] \<and> hd p = CHR ''.''"

definition dotted_fields :: "string \<Rightarrow> string list" where
  "dotted_fields s =
    (let r1 = after_digits s; r2 = after_field r1
     in (if dotted r1 then [field_digits r1] else []) @ (if dotted r2 then [field_digits r2] else []))"

definition zero_level :: "string \<Rightarrow> bool" where
  "zero_level s = (case accepted_version s of Some (_, _, _, st, lv) \<Rightarrow> st \<noteq> 9 \<and> lv = 0 | None \<Rightarrow> False)"

definition extended :: "string \<Rightarrow> bool" where
  "extended s \<longleftrightarrow> list_ex (\<lambda>ds. ds = [] \<or> 2 < length ds) (dotted_fields s) \<or> zero_level s"

section \<open>Characters and numbers\<close>

lemma digit_char_cases:
  "vers_isdigit c \<Longrightarrow> 0 \<le> vers_digit_for_char c \<and> vers_digit_for_char c \<le> 9"
  by (auto simp: vers_isdigit_def vers_digit_for_char_def)

lemma digit_for_char_neg: "vers_digit_for_char c < 0 \<longleftrightarrow> \<not> vers_isdigit c"
  by (auto simp: vers_isdigit_def vers_digit_for_char_def)

lemma isdigit_not_other:
  "vers_isdigit c \<Longrightarrow> \<not> vers_isspace c \<and> c \<noteq> NUL \<and> c \<noteq> CHR ''.'' \<and> \<not> VERS_isreleasestate c"
  by (auto simp: vers_isdigit_def vers_isspace_def VERS_isreleasestate_def)

lemma isspace_not_dot: "vers_isspace c \<Longrightarrow> c \<noteq> CHR ''.'' \<and> \<not> vers_isdigit c \<and> c \<noteq> NUL"
  by (auto simp: vers_isdigit_def vers_isspace_def)

lemma not_isdigit [simp]:
  "\<not> vers_isdigit NUL" "\<not> vers_isdigit (CHR ''.'')" "\<not> VERS_isreleasestate (CHR ''.'')"
  by (simp_all add: vers_isdigit_def VERS_isreleasestate_def)

lemma num_from_simps [simp]:
  "num_from a [] = a"
  "num_from a (c # ds) = num_from (a * 10 + vers_digit_for_char c) ds"
  by (simp_all add: num_from_def)

lemma num_from_append: "num_from a (xs @ ys) = num_from (num_from a xs) ys"
  by (simp add: num_from_def)

lemma num_from_bounds:
  assumes "list_all vers_isdigit ds" and "0 \<le> a" "a < 10 ^ n"
  shows "0 \<le> num_from a ds \<and> num_from a ds < 10 ^ (n + length ds)"
  using assms
proof (induction ds arbitrary: a n)
  case (Cons c ds)
  then have "0 \<le> a * 10 + vers_digit_for_char c" "a * 10 + vers_digit_for_char c < 10 ^ Suc n"
    using digit_char_cases [of c] by simp_all
  from Cons.IH [OF _ this] Cons.prems(1) show ?case by simp
qed simp

lemma digits_of_digits: "list_all vers_isdigit (digits_of p)"
  unfolding digits_of_def list_all_iff by (meson set_takeWhileD)

lemma digits_simps [simp]:
  "vers_isdigit c \<Longrightarrow> digits_of (c # p) = c # digits_of p"
  "\<not> vers_isdigit c \<Longrightarrow> digits_of (c # p) = []"
  "digits_of [] = []"
  "vers_isdigit c \<Longrightarrow> after_digits (c # p) = after_digits p"
  "\<not> vers_isdigit c \<Longrightarrow> after_digits (c # p) = c # p"
  "after_digits [] = []"
  by (simp_all add: digits_of_def after_digits_def)

lemma digits_split: "p = digits_of p @ after_digits p"
  by (simp add: digits_of_def after_digits_def)

lemma NUL_after_digits: "NUL \<in> set p \<Longrightarrow> NUL \<in> set (after_digits p)"
  by (induction p) (auto simp: vers_isdigit_def after_digits_def)

lemma after_digits_hd: "after_digits p = c # q \<Longrightarrow> \<not> vers_isdigit c"
  by (metis after_digits_def hd_dropWhile list.distinct(1) list.sel(1))

lemma NUL_after_field: "NUL \<in> set p \<Longrightarrow> NUL \<in> set (after_field p)"
  using NUL_after_digits [of "tl p"] by (cases p) (auto simp: after_field_def)

lemma NUL_skip_dot: "NUL \<in> set p \<Longrightarrow> NUL \<in> set (skip_dot p)"
  by (cases p) (auto simp: skip_dot_def)

section \<open>The loops\<close>

lemma finish_version_encode:
  "\<not> (st = kOSKextVersionStageCandidate \<and> lv = 0) \<Longrightarrow>
    finish_version ma mi re st lv = encode (ma, mi, re, stage_number st, lv)"
  by (auto simp: finish_version_def)

lemma stage_level_loop_eq:
  assumes "NUL \<in> set p" "scanned \<le> 3" "0 \<le> level" "level < 10 ^ scanned"
  shows "stage_level_loop ma mi re st scanned level p =
    Some (if scanned + length (digits_of p) \<noteq> 0 \<and> scanned + length (digits_of p) \<le> 3 \<and>
        at_end (after_digits p) \<and> num_from level (digits_of p) \<le> 255
      then finish_version ma mi re st (num_from level (digits_of p)) else - 1)"
  using assms
proof (induction p arbitrary: scanned level)
  case (Cons c p)
  show ?case
  proof (cases "vers_isdigit c")
    case True
    let ?l = "level * 10 + vers_digit_for_char c"
    have l: "0 \<le> ?l" "?l < 10 ^ Suc scanned" using digit_char_cases [OF True] Cons.prems by simp_all
    have d: "\<not> vers_digit_for_char c < 0" using True by (simp add: digit_for_char_neg)
    have "NUL \<in> set p" using Cons.prems(1) True by (auto simp: vers_isdigit_def)
    then show ?thesis
      using Cons.IH [of "Suc scanned" ?l] Cons.prems l d True isdigit_not_other [OF True]
      by (cases "scanned = 3") auto
  next
    case False
    have "level \<le> 255" if "scanned < 3"
    proof -
      have "(10::int) ^ scanned \<le> 10 ^ 2" using that by (intro power_increasing) auto
      then show ?thesis using Cons.prems(4) by simp
    qed
    then show ?thesis using False Cons.prems by auto
  qed
qed simp

text \<open>The tail of a version: what follows the digits of the last field.\<close>

definition tail_version :: "int \<Rightarrow> int \<Rightarrow> int \<Rightarrow> string \<Rightarrow> int" where
  "tail_version ma mi re p =
    (case stage_of p of None \<Rightarrow> - 1 | Some (st, lv) \<Rightarrow> encode (ma, mi, re, stage_number st, lv))"

lemma tail_version_not_stage:
  "\<not> (vers_isspace c \<or> c = NUL) \<Longrightarrow> \<not> VERS_isreleasestate c \<Longrightarrow> tail_version ma mi re (c # p) = - 1"
  by (simp add: tail_version_def stage_of_def stage_letters_def VERS_isreleasestate_def
    eval_nat_numeral)

lemma stage_letters_digit:
  assumes "NUL \<in> set p" "\<not> at_end p"
  shows "OSKextVersionStageForString p =
    Some (case stage_letters p of
        Some (st, q) \<Rightarrow> if digits_of q = [] then (kOSKextVersionStageInvalid, p) else (st, q)
      | None \<Rightarrow> (kOSKextVersionStageInvalid, p))"
proof -
  obtain c q where p: "p = c # q" "\<not> vers_isspace c" "c \<noteq> NUL" "NUL \<in> set q"
    using assms by (cases p) auto
  obtain c1 r where q: "q = c1 # r" using p(4) by (cases q) auto
  have r: "c1 = CHR ''c'' \<Longrightarrow> r \<noteq> []" using p(4) q by auto
  have c: "\<not> vers_isdigit (CHR ''c'')" by (simp add: vers_isdigit_def)
  have d: "digits_of (x # y) = [] \<longleftrightarrow> \<not> vers_isdigit x" for x y by (simp add: digits_of_def)
  show ?thesis
  proof (cases "c = CHR ''f'' \<and> c1 = CHR ''c''")
    case True
    then obtain c2 r' where "r = c2 # r'" using r by (cases r) auto
    with True p q c show ?thesis
      by (simp add: OSKextVersionStageForString_def stage_letters_def rd_def d eval_nat_numeral)
  next
    case False
    with p q c show ?thesis
      by (auto simp: OSKextVersionStageForString_def stage_letters_def rd_def d eval_nat_numeral)
  qed
qed

lemma release_state_eq:
  assumes "NUL \<in> set p"
  shows "release_state ma mi re p = Some (tail_version ma mi re p)"
proof (cases "at_end p")
  case True
  then show ?thesis
    by (cases p) (auto simp: release_state_def rd_def tail_version_def stage_of_def finish_version_encode)
next
  case False
  then obtain c q where p: "p = c # q" "\<not> vers_isspace c" "c \<noteq> NUL" using assms by (cases p) auto
  show ?thesis
  proof (cases "stage_letters p")
    case None
    then show ?thesis using False p stage_letters_digit [OF assms False]
      by (simp add: release_state_def rd_def tail_version_def stage_of_def)
  next
    case (Some a)
    then obtain st q' where a: "stage_letters p = Some (st, q')" by (cases a) auto
    have "st \<noteq> kOSKextVersionStageInvalid" using a by (auto simp: stage_letters_def split: if_splits)
    moreover have "NUL \<in> set q'"
    proof -
      have q: "NUL \<in> set q" using assms p by auto
      have "NUL \<in> set (drop 2 p)" if "take 2 p = ''fc''"
        using that q p(1) by (cases q) (auto simp: eval_nat_numeral)
      then show ?thesis using a q p(1) by (auto simp: stage_letters_def split: if_splits)
    qed
    ultimately show ?thesis
      using False p a stage_letters_digit [OF assms False]
        stage_level_loop_eq [of q' 0 0 ma mi re st]
      by (auto simp: release_state_def rd_def tail_version_def stage_of_def Let_def finish_version_encode)
        (simp add: finish_version_def)
  qed
qed

lemma revision_loop_eq:
  assumes "NUL \<in> set p" "scanned \<le> 4"
  shows "revision_loop ma mi scanned re p =
    Some (if scanned + length (digits_of p) \<le> 4
      then tail_version ma mi (num_from re (digits_of p))
        (if scanned + length (digits_of p) = 4 then skip_dot (after_digits p) else after_digits p)
      else - 1)"
  using assms
proof (induction p arbitrary: scanned re)
  case (Cons c p)
  show ?case
  proof (cases "vers_isdigit c")
    case True
    have "NUL \<in> set p" using Cons.prems(1) True by auto
    then show ?thesis
      using Cons.IH [of "Suc scanned"] Cons.prems True isdigit_not_other [OF True]
      by (cases "scanned = 4") (auto simp: digit_for_char_neg)
  next
    case False
    have e: "tail_version ma mi re (c # p) = finish_version ma mi re kOSKextVersionStageRelease 0"
      if "vers_isspace c \<or> c = NUL"
      using that by (auto simp: tail_version_def stage_of_def finish_version_encode)
    have "c \<noteq> NUL \<Longrightarrow> NUL \<in> set p" using Cons.prems(1) by auto
    then show ?thesis
      using False Cons.prems e isspace_not_dot [of c] tail_version_not_stage [of c]
        release_state_eq [of "c # p"] release_state_eq [of p]
      by (cases "scanned = 4") (auto simp: skip_dot_def)
  qed
qed simp

text \<open>What follows the major number, and what follows the minor one.\<close>

definition after_minor :: "int \<Rightarrow> int \<Rightarrow> string \<Rightarrow> int" where
  "after_minor ma mi p =
    (let ds = field_digits p; r = after_field p in
     if length ds \<le> 4 then tail_version ma mi (num_from 0 ds) (if length ds = 4 then skip_dot r else r)
     else - 1)"

definition after_major :: "int \<Rightarrow> string \<Rightarrow> int" where
  "after_major ma p =
    (let ds = field_digits p in
     if length ds \<le> 4 then after_minor ma (num_from 0 ds) (after_field p) else - 1)"

lemma field_simps_dot [simp]:
  "field_digits (CHR ''.'' # p) = digits_of p" "after_field (CHR ''.'' # p) = after_digits p"
  "c \<noteq> CHR ''.'' \<Longrightarrow> field_digits (c # p) = []" "c \<noteq> CHR ''.'' \<Longrightarrow> after_field (c # p) = c # p"
  by (simp_all add: field_digits_def after_field_def)

lemma after_minor_no_dot: "c \<noteq> CHR ''.'' \<Longrightarrow> after_minor ma mi (c # p) = tail_version ma mi 0 (c # p)"
  by (simp add: after_minor_def)

lemma after_major_no_dot: "c \<noteq> CHR ''.'' \<Longrightarrow> after_major ma (c # p) = tail_version ma 0 0 (c # p)"
  by (simp add: after_major_def after_minor_no_dot)

lemma tail_version_release:
  "vers_isspace c \<or> c = NUL \<Longrightarrow>
    tail_version ma mi re (c # p) = finish_version ma mi re kOSKextVersionStageRelease 0"
  by (auto simp: tail_version_def stage_of_def finish_version_encode)

lemma revision_loop_start:
  "NUL \<in> set p \<Longrightarrow> revision_loop ma mi 0 0 p = Some (after_minor ma mi (CHR ''.'' # p))"
  by (simp add: revision_loop_eq after_minor_def Let_def)

lemma revision_loop_other:
  "NUL \<in> set (c # p) \<Longrightarrow> \<not> vers_isdigit c \<Longrightarrow>
    revision_loop ma mi 0 0 (c # p) = Some (tail_version ma mi 0 (c # p))"
  by (subst revision_loop_eq) auto

lemma minor_loop_eq:
  assumes "NUL \<in> set p" "scanned \<le> 4"
  shows "minor_loop ma scanned mi p =
    Some (if scanned + length (digits_of p) \<le> 4
      then after_minor ma (num_from mi (digits_of p)) (after_digits p) else - 1)"
  using assms
proof (induction p arbitrary: scanned mi)
  case (Cons c p)
  show ?case
  proof (cases "vers_isdigit c")
    case True
    have "NUL \<in> set p" using Cons.prems(1) True by auto
    then show ?thesis
      using Cons.IH [of "Suc scanned"] Cons.prems True isdigit_not_other [OF True]
      by (cases "scanned = 4") (auto simp: digit_for_char_neg)
  next
    case False
    note e = tail_version_release [of c ma mi 0 p] tail_version_not_stage [of c ma mi 0 p]
      isspace_not_dot [of c] after_minor_no_dot [of c ma mi p]
    have r: "revision_loop ma mi 0 0 (c # p) = Some (tail_version ma mi 0 (c # p))"
      using Cons.prems(1) False by (rule revision_loop_other)
    have "c \<noteq> NUL \<Longrightarrow> NUL \<in> set p" using Cons.prems(1) by auto
    then show ?thesis
      using False Cons.prems e release_state_eq [of "c # p"] r revision_loop_start [of p]
      by (cases "c = CHR ''.''"; cases "scanned = 4") (auto simp del: revision_loop.simps)
  qed
qed simp

lemma minor_loop_start:
  "NUL \<in> set p \<Longrightarrow> minor_loop ma 0 0 p = Some (after_major ma (CHR ''.'' # p))"
  by (simp add: minor_loop_eq after_major_def Let_def)

lemma minor_loop_other:
  "NUL \<in> set (c # p) \<Longrightarrow> \<not> vers_isdigit c \<Longrightarrow> c \<noteq> CHR ''.'' \<Longrightarrow>
    minor_loop ma 0 0 (c # p) = Some (tail_version ma 0 0 (c # p))"
  by (subst minor_loop_eq) (auto simp: after_minor_no_dot)

lemma major_loop_eq:
  assumes "NUL \<in> set p" "scanned \<le> 4"
  shows "major_loop scanned ma p =
    Some (if scanned + length (digits_of p) \<le> 4
      then after_major (num_from ma (digits_of p)) (after_digits p) else - 1)"
  using assms
proof (induction p arbitrary: scanned ma)
  case (Cons c p)
  show ?case
  proof (cases "vers_isdigit c")
    case True
    have "NUL \<in> set p" using Cons.prems(1) True by auto
    then show ?thesis
      using Cons.IH [of "Suc scanned"] Cons.prems True isdigit_not_other [OF True]
      by (cases "scanned = 4") (auto simp: digit_for_char_neg)
  next
    case False
    note e = tail_version_release [of c ma 0 0 p] tail_version_not_stage [of c ma 0 0 p]
      isspace_not_dot [of c] after_major_no_dot [of c ma p]
    have r: "c \<noteq> CHR ''.'' \<Longrightarrow> minor_loop ma 0 0 (c # p) = Some (tail_version ma 0 0 (c # p))"
      using Cons.prems(1) False by (rule minor_loop_other)
    have "c \<noteq> NUL \<Longrightarrow> NUL \<in> set p" using Cons.prems(1) by auto
    then show ?thesis
      using False Cons.prems e release_state_eq [of "c # p"] r minor_loop_start [of p]
      by (cases "c = CHR ''.''"; cases "scanned = 4") (auto simp del: minor_loop.simps)
  qed
qed simp

lemma accepted_version_after_major:
  "(case accepted_version s of None \<Rightarrow> - 1 | Some f \<Rightarrow> encode f) =
    (if digits_of s = [] \<or> 4 < length (digits_of s) then - 1
     else after_major (num_from 0 (digits_of s)) (after_digits s))"
  by (auto simp: accepted_version_def Let_def after_major_def after_minor_def tail_version_def
    split: option.splits)

lemmas version_eval = accepted_version_def digits_of_def after_digits_def vers_isdigit_def field_digits_def
  after_field_def stage_of_def stage_letters_def vers_isspace_def vers_digit_for_char_def skip_dot_def
  eval_nat_numeral

lemma parse_exact:
  assumes "NUL \<in> set s"
  shows "OSKextParseVersionString (Some s) =
    Some (case accepted_version s of None \<Rightarrow> - 1 | Some f \<Rightarrow> encode f)"
proof -
  obtain c p where s: "s = c # p" using assms by (cases s) auto
  show ?thesis
  proof (cases "vers_isdigit c")
    case True
    then have "NUL \<in> set p" using assms s by auto
    with True show ?thesis using isdigit_not_other [OF True]
      by (simp add: OSKextParseVersionString_def accepted_version_after_major s rd_def digit_for_char_neg
        major_loop_eq)
  next
    case False
    then show ?thesis
      by (simp add: OSKextParseVersionString_def accepted_version_after_major s rd_def digit_for_char_neg)
  qed
qed

subsection \<open>The documented format\<close>

lemma digits_append:
  assumes "list_all vers_isdigit ds" "\<not> vers_isdigit c"
  shows "digits_of (ds @ c # p) = ds" "after_digits (ds @ c # p) = c # p"
  using assms by (induction ds) simp_all

lemma at_end_Cons: "at_end r \<Longrightarrow> \<exists>c r'. r = c # r' \<and> \<not> vers_isdigit c \<and> c \<noteq> CHR ''.''"
  using isspace_not_dot by (cases r) auto

lemma stage_of_letters:
  assumes "(letters, st) \<in> {(''d'', kOSKextVersionStageDevelopment), (''a'', kOSKextVersionStageAlpha),
      (''b'', kOSKextVersionStageBeta), (''f'', kOSKextVersionStageCandidate), (''fc'', kOSKextVersionStageCandidate)}"
    and "vers_isdigit d"
  shows "stage_letters (letters @ d # p) = Some (st, d # p)" "\<not> at_end (letters @ d # p)"
    "\<exists>c l. letters = c # l \<and> \<not> vers_isdigit c \<and> c \<noteq> CHR ''.''"
proof -
  have "d \<noteq> CHR ''c''" using assms(2) by (auto simp: vers_isdigit_def)
  then show "stage_letters (letters @ d # p) = Some (st, d # p)"
    using assms(1) by (auto simp: stage_letters_def eval_nat_numeral)
  show "\<not> at_end (letters @ d # p)" "\<exists>c l. letters = c # l \<and> \<not> vers_isdigit c \<and> c \<noteq> CHR ''.''"
    using assms(1) by (auto simp: vers_isspace_def vers_isdigit_def)
qed

lemma documented_stage_read:
  assumes "documented_stage st lv q" "at_end r"
  shows "stage_of (q @ r) = Some (st, lv)" "stage_number st = 9 \<or> lv \<noteq> 0"
    "\<exists>c t. q @ r = c # t \<and> \<not> vers_isdigit c \<and> c \<noteq> CHR ''.''"
proof -
  have "stage_of (q @ r) = Some (st, lv) \<and> (stage_number st = 9 \<or> lv \<noteq> 0) \<and>
    (\<exists>c t. q @ r = c # t \<and> \<not> vers_isdigit c \<and> c \<noteq> CHR ''.'')"
    using assms(1)
  proof cases
    case release
    then show ?thesis using assms(2) at_end_Cons [OF assms(2)] by (simp add: stage_of_def)
  next
    case (stage letters ds)
    obtain d ds' where d: "ds = d # ds'" "vers_isdigit d" using stage(3) by (cases ds) (auto simp: number_def)
    note l = stage_of_letters [OF stage(2) d(2)]
    obtain c r' where r: "r = c # r'" "\<not> vers_isdigit c" using at_end_Cons [OF assms(2)] by blast
    have e: "digits_of (ds @ r) = ds" "after_digits (ds @ r) = r"
      using digits_append [OF _ r(2), of ds r'] stage(3) r(1) by (simp_all add: number_def)
    have "stage_letters (q @ r) = Some (st, ds @ r)" "\<not> at_end (q @ r)"
      using l(1,2) [of "ds' @ r"] stage(1) d(1) by simp_all
    then have "stage_of (q @ r) = Some (st, lv)"
      using e stage(3-5) assms(2) by (simp add: stage_of_def number_def)
    then show ?thesis using l(3) stage(1,4) by auto
  qed
  then show "stage_of (q @ r) = Some (st, lv)" "stage_number st = 9 \<or> lv \<noteq> 0"
    "\<exists>c t. q @ r = c # t \<and> \<not> vers_isdigit c \<and> c \<noteq> CHR ''.''" by blast+
qed

lemma field_append:
  assumes "list_all vers_isdigit ds" "\<not> vers_isdigit c"
  shows "field_digits (CHR ''.'' # ds @ c # p) = ds" "after_field (CHR ''.'' # ds @ c # p) = c # p"
  using digits_append [OF assms] by (simp_all add: field_digits_def after_field_def)

lemma field_digits_digits: "list_all vers_isdigit (field_digits p)"
  by (simp add: field_digits_def digits_of_digits)

lemma no_field: "c \<noteq> CHR ''.'' \<Longrightarrow> field_digits (c # p) = [] \<and> after_field (c # p) = c # p \<and> \<not> dotted (c # p)"
  by (simp add: field_digits_def after_field_def dotted_def)

lemma documented_accepted:
  assumes "documented_version v s"
  shows "accepted_version s = Some v \<and> \<not> extended s"
  using assms
proof cases
  case (1 ma mi re p st lv q r)
  note g = documented_stage_read [OF 1(4,5)]
  obtain c t where c: "q @ r = c # t" "\<not> vers_isdigit c" "c \<noteq> CHR ''.''" using g(3) by blast
  have d: "\<not> vers_isdigit (CHR ''.'')" by simp
  have dot: "dotted (CHR ''.'' # x)" for x by (simp add: dotted_def)
  have a: "accepted_version s = Some v \<and> list_all (\<lambda>ds. ds \<noteq> [] \<and> length ds \<le> 2) (dotted_fields s)"
    using 1(3)
  proof cases
    case major
    then show ?thesis using 1(1,2) c g(1) digits_append [OF _ c(2), of p t] no_field [OF c(3)]
      by (simp add: accepted_version_def dotted_fields_def number_def)
  next
    case (minor d1 d2)
    then show ?thesis using 1(1,2) c g(1) digits_append [OF _ d, of d1 "d2 @ c # t"] field_append [OF _ c(2), of d2 t]
        no_field [OF c(3)] dot
      by (simp add: accepted_version_def dotted_fields_def number_def)
  next
    case (revision d1 d2 d3)
    then show ?thesis using 1(1,2) c g(1) digits_append [OF _ d, of d1 "d2 @ CHR ''.'' # d3 @ c # t"]
        field_append [OF _ d, of d2 "d3 @ c # t"] field_append [OF _ c(2), of d3 t] no_field [OF c(3)] dot
      by (simp add: accepted_version_def dotted_fields_def number_def)
  qed
  then show ?thesis using g(2) 1(1) by (auto simp: extended_def zero_level_def list_all_iff list_ex_iff)
qed

lemma stage_of_documented:
  assumes "stage_of p = Some (st, lv)" "stage_number st = 9 \<or> lv \<noteq> 0"
  shows "\<exists>q r. p = q @ r \<and> documented_stage st lv q \<and> at_end r"
proof (cases "at_end p")
  case True
  then show ?thesis using assms(1) documented_stage.release by (auto simp: stage_of_def)
next
  case False
  then obtain q where q: "stage_letters p = Some (st, q)" "lv = num_from 0 (digits_of q)" "lv \<le> 255"
      "digits_of q \<noteq> []" "length (digits_of q) \<le> 3" "at_end (after_digits q)"
    using assms(1) by (auto simp: stage_of_def Let_def split: option.splits if_splits)
  have "0 \<le> lv" using num_from_bounds [OF digits_of_digits, of 0 0 q] q(2) by simp
  moreover have "stage_number st \<noteq> 9" using q(1) by (auto simp: stage_letters_def split: if_splits)
  ultimately have l: "1 \<le> lv" using assms(2) by simp
  have n: "number 3 (digits_of q) lv" using q(2,4,5) digits_of_digits by (simp add: number_def)
  let ?S = "{(''d'', kOSKextVersionStageDevelopment),
      (''a'', kOSKextVersionStageAlpha), (''b'', kOSKextVersionStageBeta), (''f'', kOSKextVersionStageCandidate),
      (''fc'', kOSKextVersionStageCandidate)}"
  have "(take 1 p, st) \<in> ?S \<and> q = drop 1 p \<or> (take 2 p, st) \<in> ?S \<and> q = drop 2 p"
    using q(1) unfolding stage_letters_def by (auto split: if_splits)
  then have "\<exists>letters. p = letters @ q \<and> (letters, st) \<in> ?S" by (metis append_take_drop_id)
  then show ?thesis using documented_stage.stage [OF _ n l q(3)] q(6) digits_split [of q] by (metis append.assoc)
qed

lemma not_dotted: "\<not> dotted p \<Longrightarrow> field_digits p = [] \<and> after_field p = p"
  by (auto simp: dotted_def field_digits_def after_field_def)

lemma dotted_split: "dotted p \<Longrightarrow> p = ''.'' @ field_digits p @ after_field p"
  using digits_split [of "tl p"] by (cases p) (simp_all add: dotted_def field_digits_def after_field_def)

lemma numbers_documented:
  fixes s defines "r1 \<equiv> after_digits s" defines "r2 \<equiv> after_field r1"
  assumes "digits_of s \<noteq> []" "length (digits_of s) \<le> 4"
    and "list_all (\<lambda>ds. ds \<noteq> [] \<and> length ds \<le> 2) (dotted_fields s)"
  shows "\<exists>p. s = p @ after_field r2 \<and>
    documented_numbers (num_from 0 (digits_of s)) (num_from 0 (field_digits r1)) (num_from 0 (field_digits r2)) p"
proof -
  have s: "s = digits_of s @ r1" using digits_split [of s] by (simp add: r1_def)
  have m: "number 4 (digits_of s) (num_from 0 (digits_of s))" using assms(3,4) digits_of_digits by (simp add: number_def)
  have f: "dotted p \<Longrightarrow> number 2 (field_digits p) (num_from 0 (field_digits p))" if "p = r1 \<or> p = r2" for p
    using that assms(5) field_digits_digits by (auto simp: dotted_fields_def Let_def r1_def r2_def number_def)
  show ?thesis
  proof (cases "dotted r1")
    case False
    then show ?thesis using s not_dotted [OF False] documented_numbers.major [OF m] by (auto simp: r2_def)
  next
    case True
    then have s2: "s = digits_of s @ ''.'' @ field_digits r1 @ r2"
      using s dotted_split [of r1] by (simp add: r2_def)
    show ?thesis
    proof (cases "dotted r2")
      case False
      then show ?thesis using s2 not_dotted [OF False] documented_numbers.minor [OF m f, of r1] True
        by (intro exI [of _ "digits_of s @ ''.'' @ field_digits r1"]) simp
    next
      case r2: True
      then show ?thesis using s2 dotted_split [OF r2] documented_numbers.revision [OF m f f, of r1 r2] True
        by (intro exI [of _ "digits_of s @ ''.'' @ field_digits r1 @ ''.'' @ field_digits r2"]) simp
    qed
  qed
qed

lemma accepted_documented:
  assumes "accepted_version s = Some v" "\<not> extended s"
  shows "documented_version v s"
proof -
  define r1 where "r1 = after_digits s"
  define r2 where "r2 = after_field r1"
  define d3 where "d3 = field_digits r2"
  obtain st lv where st: "stage_of (if length d3 = 4 then skip_dot (after_field r2) else after_field r2) = Some (st, lv)"
    and v: "v = (num_from 0 (digits_of s), num_from 0 (field_digits r1), num_from 0 d3, stage_number st, lv)"
    and l: "digits_of s \<noteq> []" "length (digits_of s) \<le> 4"
    using assms(1) by (auto simp: accepted_version_def Let_def r1_def r2_def d3_def not_less split: if_splits option.splits)
  have f: "list_all (\<lambda>ds. ds \<noteq> [] \<and> length ds \<le> 2) (dotted_fields s)"
    using assms(2) by (auto simp: extended_def list_ex_iff list_all_iff not_less)
  then have "length d3 \<noteq> 4"
    using not_dotted [of r2] by (cases "dotted r2") (auto simp: dotted_fields_def Let_def r1_def r2_def d3_def)
  moreover have "stage_number st = 9 \<or> lv \<noteq> 0" using assms v by (simp add: extended_def zero_level_def)
  ultimately obtain q r where t: "after_field r2 = q @ r" "documented_stage st lv q" "at_end r"
    using stage_of_documented [of "after_field r2" st lv] st by auto
  obtain p where "s = p @ after_field r2"
    "documented_numbers (num_from 0 (digits_of s)) (num_from 0 (field_digits r1)) (num_from 0 d3) p"
    using numbers_documented [OF l f] by (auto simp: r1_def r2_def d3_def)
  then show ?thesis using t documented_version.intros unfolding v by fastforce
qed

text \<open>
  C13: on every NUL-terminated string the parser returns, without reading past the NUL, the encoding
  of the version it reads, or \<open>-1\<close>. The strings of the documented format are read as the version they
  denote, and a string that is accepted beyond that format has one of the named extensions: a period
  without digits after it, a minor number or revision of three or four digits, or level 0.
\<close>

theorem OSKextParseVersionString_exact:
  assumes "NUL \<in> set s"
  shows "OSKextParseVersionString (Some s) =
      Some (case accepted_version s of None \<Rightarrow> - 1 | Some f \<Rightarrow> encode f) \<and>
    (\<forall>f. documented_version f s \<longleftrightarrow> accepted_version s = Some f \<and> \<not> extended s)"
  using parse_exact [OF assms] documented_accepted accepted_documented by blast

theorem OSKextParseVersionString_exact_witness:
  "OSKextParseVersionString (Some (''10.4.11fc3'' @ [NUL])) = Some 10000400117003 \<and>
    documented_version (10, 4, 11, 7, 3) (''10.4.11fc3'' @ [NUL])"
  using OSKextParseVersionString_exact [of "''10.4.11fc3'' @ [NUL]"]
  by (simp add: version_eval extended_def zero_level_def dotted_fields_def dotted_def)

section \<open>The encoding\<close>

text \<open>The versions a string can denote.\<close>

fun valid_version :: "version \<Rightarrow> bool" where
  "valid_version (ma, mi, re, st, lv) \<longleftrightarrow>
    0 \<le> ma \<and> ma < 10000 \<and> 0 \<le> mi \<and> mi < 10000 \<and> 0 \<le> re \<and> re < 10000 \<and>
    (st = 9 \<and> lv = 0 \<or> (st = 1 \<or> st = 3 \<or> st = 5) \<and> 0 \<le> lv \<and> lv \<le> 255 \<or>
     st = 7 \<and> 1 \<le> lv \<and> lv \<le> 255)"

lemma digits_value_bounds:
  assumes "list_all vers_isdigit ds" "length ds \<le> 4"
  shows "0 \<le> num_from 0 ds \<and> num_from 0 ds < 10000"
proof -
  have "(10::int) ^ length ds \<le> 10 ^ 4" using assms(2) by (intro power_increasing) auto
  then show ?thesis using num_from_bounds [OF assms(1), of 0 0] by simp
qed

lemma stage_of_valid:
  assumes "stage_of p = Some (st, lv)"
  shows "stage_number st = 9 \<and> lv = 0 \<or>
    (stage_number st = 1 \<or> stage_number st = 3 \<or> stage_number st = 5) \<and> 0 \<le> lv \<and> lv \<le> 255 \<or>
    stage_number st = 7 \<and> 1 \<le> lv \<and> lv \<le> 255"
proof (cases "at_end p")
  case True
  then show ?thesis using assms by (auto simp: stage_of_def)
next
  case False
  then obtain q where q: "stage_letters p = Some (st, q)" "lv = num_from 0 (digits_of q)" "lv \<le> 255"
    "\<not> (st = kOSKextVersionStageCandidate \<and> lv = 0)"
    using assms by (auto simp: stage_of_def Let_def split: option.splits if_splits)
  have "0 \<le> lv" using num_from_bounds [OF digits_of_digits, of 0 0 q] q(2) by simp
  then show ?thesis using q(1,3,4) by (auto simp: stage_letters_def split: if_splits)
qed

lemma accepted_version_valid:
  assumes "accepted_version s = Some f"
  shows "valid_version f"
proof -
  let ?r1 = "after_digits s"
  let ?r2 = "after_field ?r1"
  obtain p st lv where f: "stage_of p = Some (st, lv)" "f = (num_from 0 (digits_of s),
      num_from 0 (field_digits ?r1), num_from 0 (field_digits ?r2), stage_number st, lv)"
    and l: "length (digits_of s) \<le> 4" "length (field_digits ?r1) \<le> 4" "length (field_digits ?r2) \<le> 4"
    using assms by (auto simp: accepted_version_def Let_def not_less split: if_splits option.splits)
  show ?thesis
    using stage_of_valid [OF f(1)] digits_value_bounds [OF digits_of_digits l(1)]
      digits_value_bounds [OF field_digits_digits l(2)] digits_value_bounds [OF field_digits_digits l(3)]
    by (simp add: f(2))
qed

lemma encode_bounds:
  assumes "valid_version f"
  shows "1000 \<le> encode f" "encode f < 10 ^ 16"
proof -
  obtain ma mi re st lv where f: "f = (ma, mi, re, st, lv)" by (cases f) auto
  have "1 \<le> st" "st \<le> 9" "0 \<le> lv" "lv \<le> 255" "0 \<le> ma" "ma < 10000" "0 \<le> mi" "mi < 10000"
    "0 \<le> re" "re < 10000" using assms by (auto simp: f)
  then show "1000 \<le> encode f" "encode f < 10 ^ 16" by (simp_all add: f)
qed

lemma lex_step:
  fixes a b x y m :: int
  assumes "0 \<le> x" "x < m" "0 \<le> y" "y < m"
  shows "a * m + x < b * m + y \<longleftrightarrow> a < b \<or> a = b \<and> x < y"
proof -
  have "a * m + x < b * m + y" if "a < b"
  proof -
    have "(a + 1) * m \<le> b * m" using that assms by (intro mult_right_mono) auto
    then show ?thesis using assms by (simp add: algebra_simps)
  qed
  moreover have "\<not> a * m + x < b * m + y" if "b < a"
  proof -
    have "(b + 1) * m \<le> a * m" using that assms by (intro mult_right_mono) auto
    then show ?thesis using assms by (simp add: algebra_simps)
  qed
  ultimately show ?thesis by (cases a b rule: linorder_cases) auto
qed

lemma encode_less_iff:
  assumes "valid_version f" "valid_version g"
  shows "encode f < encode g \<longleftrightarrow> f < g"
proof -
  obtain a1 a2 a3 a4 a5 where f: "f = (a1, a2, a3, a4, a5)" by (cases f) auto
  obtain b1 b2 b3 b4 b5 where g: "g = (b1, b2, b3, b4, b5)" by (cases g) auto
  have a: "0 \<le> a2" "a2 < 10000" "0 \<le> a3" "a3 < 10000" "1 \<le> a4" "a4 \<le> 9" "0 \<le> a5" "a5 < 1000"
    using assms(1) by (auto simp: f)
  have b: "0 \<le> b2" "b2 < 10000" "0 \<le> b3" "b3 < 10000" "1 \<le> b4" "b4 \<le> 9" "0 \<le> b5" "b5 < 1000"
    using assms(2) by (auto simp: g)
  have "encode f < encode g \<longleftrightarrow>
    a1 * 1000000000000 + (a2 * 100000000 + (a3 * 10000 + (a4 * 1000 + a5))) <
    b1 * 1000000000000 + (b2 * 100000000 + (b3 * 10000 + (b4 * 1000 + b5)))"
    by (simp add: f g add.assoc)
  also have "\<dots> \<longleftrightarrow> a1 < b1 \<or> a1 = b1 \<and>
    a2 * 100000000 + (a3 * 10000 + (a4 * 1000 + a5)) < b2 * 100000000 + (b3 * 10000 + (b4 * 1000 + b5))"
    by (rule lex_step) (use a b in simp_all)
  also have "a2 * 100000000 + (a3 * 10000 + (a4 * 1000 + a5)) < b2 * 100000000 + (b3 * 10000 + (b4 * 1000 + b5))
    \<longleftrightarrow> a2 < b2 \<or> a2 = b2 \<and> a3 * 10000 + (a4 * 1000 + a5) < b3 * 10000 + (b4 * 1000 + b5)"
    by (rule lex_step) (use a b in simp_all)
  also have "a3 * 10000 + (a4 * 1000 + a5) < b3 * 10000 + (b4 * 1000 + b5)
    \<longleftrightarrow> a3 < b3 \<or> a3 = b3 \<and> a4 * 1000 + a5 < b4 * 1000 + b5"
    by (rule lex_step) (use a b in simp_all)
  also have "a4 * 1000 + a5 < b4 * 1000 + b5 \<longleftrightarrow> a4 < b4 \<or> a4 = b4 \<and> a5 < b5"
    by (rule lex_step) (use a b in simp_all)
  also have "(a1 < b1 \<or> a1 = b1 \<and> (a2 < b2 \<or> a2 = b2 \<and> (a3 < b3 \<or> a3 = b3 \<and>
    (a4 < b4 \<or> a4 = b4 \<and> a5 < b5)))) \<longleftrightarrow> f < g"
    by (auto simp: f g)
  finally show ?thesis .
qed

text \<open>
  C14: the numbers of two version strings compare as the versions do: by major number, then minor
  number, revision, build stage (development, alpha, beta, candidate, release) and level. Both
  numbers are positive and below \<open>10 ^ 16\<close>, so that no \<open>int64_t\<close> computation overflows.
\<close>

theorem OSKextVersion_compares:
  assumes "NUL \<in> set s" "NUL \<in> set t" and "accepted_version s = Some f" "accepted_version t = Some g"
  shows "\<exists>v w. OSKextParseVersionString (Some s) = Some v \<and> OSKextParseVersionString (Some t) = Some w \<and>
    (v < w \<longleftrightarrow> f < g) \<and> (v = w \<longleftrightarrow> f = g) \<and> 0 < v \<and> v < 10 ^ 16"
proof -
  have v: "valid_version f" "valid_version g" using assms accepted_version_valid by blast+
  have "encode f = encode g \<longleftrightarrow> f = g"
    using encode_less_iff [OF v] encode_less_iff [OF v(2,1)] by (metis less_irrefl neq_iff)
  moreover have "0 < encode f" using encode_bounds(1) [OF v(1)] by simp
  moreover note encode_bounds(2) [OF v(1)] encode_less_iff [OF v]
  moreover note parse_exact [OF assms(1)] parse_exact [OF assms(2)]
  ultimately show ?thesis using assms(3,4) by simp
qed

theorem OSKextVersion_compares_witness:
  "\<exists>v w. OSKextParseVersionString (Some (''1.9'' @ [NUL])) = Some v \<and>
    OSKextParseVersionString (Some (''1.10b2'' @ [NUL])) = Some w \<and> v < w"
proof -
  have v: "accepted_version (''1.9'' @ [NUL]) = Some (1, 9, 0, 9, 0)"
    "accepted_version (''1.10b2'' @ [NUL]) = Some (1, 10, 0, 5, 2)"
    by (simp_all add: version_eval)
  have "(1::int, 9::int, 0::int, 9::int, 0::int) < (1, 10, 0, 5, 2)" by simp
  then show ?thesis using OSKextVersion_compares [OF _ _ v] by auto
qed

section \<open>The writer\<close>

text \<open>The fields of a positive number, and what the writer puts into the buffer.\<close>

definition decode :: "int \<Rightarrow> version" where
  "decode v = (v div 1000000000000, v div 100000000 mod 10000, v div 10000 mod 10000,
    v div 1000 mod 10, v mod 1000)"

definition fields_text :: "int \<Rightarrow> int \<Rightarrow> int \<Rightarrow> int \<Rightarrow> int \<Rightarrow> string" where
  "fields_text ma mi re st lv =
    (case OSKextVersionStringForStage st of
       None \<Rightarrow> ''(invalid)''
     | Some letter \<Rightarrow> dec (nat ma) @ ''.'' @ dec (nat mi) @ (if re = 0 then [] else ''.'' @ dec (nat re)) @
         letter @ (if st < 9 then dec (nat lv) else []))"

definition version_text :: "int \<Rightarrow> string" where
  "version_text v =
    (if v < 0 then ''(invalid)'' else if v = 0 then ''(missing)''
     else case decode v of (ma, mi, re, st, lv) \<Rightarrow>
       if ma > 9999 \<or> lv > 255 then ''(invalid)'' else fields_text ma mi re st lv)"

definition cstring_in :: "string \<Rightarrow> string" where
  "cstring_in buf = takeWhile (\<lambda>c. c \<noteq> NUL) buf"

subsection \<open>Decimal numbers\<close>

lemma char_of_digit:
  assumes "n < 10"
  shows "vers_isdigit (char_of (48 + n)) \<and> vers_digit_for_char (char_of (48 + n)) = int n"
proof -
  have "n = 0 \<or> n = 1 \<or> n = 2 \<or> n = 3 \<or> n = 4 \<or> n = 5 \<or> n = 6 \<or> n = 7 \<or> n = 8 \<or> n = 9"
    using assms by arith
  then show ?thesis
    by (elim disjE) (simp_all add: vers_isdigit_def vers_digit_for_char_def char_of_def bit_numeral_rec
      bit_Suc_0_iff)
qed

lemma dec_digits: "list_all vers_isdigit (dec n)"
proof (induction n rule: dec.induct)
  case (1 n)
  show ?case
    using 1 char_of_digit [of n] char_of_digit [of "n mod 10"]
    by (subst dec.simps) auto
qed

lemma dec_nonempty [simp]: "dec n \<noteq> []"
  by (subst dec.simps) simp

lemma num_from_dec: "num_from 0 (dec n) = int n"
proof (induction n rule: dec.induct)
  case (1 n)
  show ?case
    using 1 char_of_digit [of n] char_of_digit [of "n mod 10"]
    by (subst dec.simps) (auto simp: num_from_append zdiv_int zmod_int)
qed

lemma length_dec: "n < 10 ^ k \<Longrightarrow> 0 < k \<Longrightarrow> length (dec n) \<le> k"
proof (induction n arbitrary: k rule: dec.induct)
  case (1 n)
  show ?case
  proof (cases "n < 10")
    case False
    then obtain j where k: "k = Suc j" "0 < j" using 1(2,3) by (cases k; cases "k - 1") auto
    then have "n div 10 < 10 ^ j" using 1(2) by (simp add: less_mult_imp_div_less mult.commute)
    then show ?thesis using 1(1) [OF False] k False by (subst dec.simps) simp
  qed (use 1(3) in \<open>subst dec.simps, simp\<close>)
qed

lemma NUL_not_dec: "NUL \<notin> set (dec n)"
  using dec_digits [of n] by (auto simp: list_all_iff)

subsection \<open>The buffer\<close>

text \<open>The buffer starts with the text \<open>t\<close>; it holds the C string \<open>t\<close>.\<close>

definition starts :: "string \<Rightarrow> string \<Rightarrow> nat \<Rightarrow> bool" where
  "starts buf t n \<longleftrightarrow> length buf = n \<and> (\<exists>r. buf = t @ r)"

definition holds_string :: "string \<Rightarrow> string \<Rightarrow> nat \<Rightarrow> bool" where
  "holds_string buf t n \<longleftrightarrow> length buf = n \<and> NUL \<notin> set t \<and> (\<exists>r. buf = t @ NUL # r)"

lemma holds_starts: "holds_string buf t n \<Longrightarrow> starts buf t n"
  by (auto simp: holds_string_def starts_def)

lemma holds_cstring_in: "holds_string buf t n \<Longrightarrow> cstring_in buf = t \<and> NUL \<in> set buf \<and> length buf = n"
  by (auto simp: holds_string_def cstring_in_def takeWhile_append)

lemma buf_write_starts:
  assumes "starts buf t n" "length t + length s \<le> n"
  shows "\<exists>buf'. buf_write buf (length t) s = Some buf' \<and> starts buf' (t @ s) n"
  using assms by (auto simp: buf_write_def starts_def)

lemma buf_write_holds:
  assumes "starts buf t n" "length t + length s < n" "NUL \<notin> set t" "NUL \<notin> set s"
  shows "\<exists>buf'. buf_write buf (length t) (s @ [NUL]) = Some buf' \<and> holds_string buf' (t @ s) n"
  using assms by (auto simp: buf_write_def starts_def holds_string_def)

lemma scnprintf_u_holds:
  assumes "starts buf t n" "length t + length (dec (nat v)) < n" "NUL \<notin> set t" "0 \<le> v" "v < 2 ^ 32"
    "sz = n - length t"
  shows "\<exists>buf'. scnprintf_u buf (length t) sz v = Some (buf', length (dec (nat v))) \<and>
    holds_string buf' (t @ dec (nat v)) n"
proof -
  have "take (sz - 1) (dec (nat v)) = dec (nat v)" "sz \<noteq> 0" using assms(2,6) by auto
  moreover have "v mod 2 ^ 32 = v" using assms(4,5) by simp
  ultimately show ?thesis
    using buf_write_holds [OF assms(1,2,3) NUL_not_dec] by (auto simp: scnprintf_u_def)
qed

lemma strlcat_holds:
  assumes "holds_string buf t n" "length t + length s < n" "NUL \<notin> set s"
  shows "\<exists>buf'. strlcat buf s n = Some buf' \<and> holds_string buf' (t @ s) n"
proof -
  have "takeWhile (\<lambda>c. c \<noteq> NUL) buf = t" "length buf = n" "NUL \<notin> set t"
    using holds_cstring_in [OF assms(1)] assms(1) by (auto simp: cstring_in_def holds_string_def)
  then show ?thesis
    using buf_write_holds [OF holds_starts [OF assms(1)] assms(2) _ assms(3)] assms(2)
    by (simp add: strlcat_def Let_def)
qed

lemma strlcpy_TRUE_holds:
  assumes "length buf = unat len" "length s < unat len" "NUL \<notin> set s"
  shows "\<exists>buf'. strlcpy_TRUE buf s len = Some (True, buf') \<and> holds_string buf' s (unat len)"
proof -
  have "starts buf [] (unat len)" using assms(1) by (simp add: starts_def)
  from buf_write_holds [OF this, of s] assms show ?thesis
    by (auto simp: strlcpy_TRUE_def strlcpy_def)
qed

lemma room_eq: "cpos \<le> unat len \<Longrightarrow> room len cpos = unat len - cpos"
  unfolding room_def using unat_bound [of len]
  by (subst unat_sub) (simp_all add: word_le_nat_alt unat_of_nat)

lemma stage_string_letter:
  "OSKextVersionStringForStage st = Some l \<Longrightarrow> length l \<le> 1 \<and> NUL \<notin> set l \<and> (l = [] \<longleftrightarrow> st = 9)"
  by (auto simp: OSKextVersionStringForStage_def split: if_splits)

lemma write_numbers_holds:
  assumes buf: "length buf = unat len" "20 \<le> unat len"
    and ma: "0 \<le> ma" "ma < 10000" and mi: "0 \<le> mi" "mi < 10000" and re: "0 \<le> re" "re < 10000"
  defines "t \<equiv> dec (nat ma) @ ''.'' @ dec (nat mi) @ (if re = 0 then [] else ''.'' @ dec (nat re))"
  shows "length t \<le> 14 \<and>
    (\<exists>b. write_numbers ma mi re buf len = Some (b, length t) \<and> holds_string b t (unat len))"
proof -
  let ?n = "unat len"
  have l: "length (dec (nat ma)) \<le> 4" "length (dec (nat mi)) \<le> 4" "length (dec (nat re)) \<le> 4"
    using ma mi re by (auto intro!: length_dec)
  let ?t1 = "dec (nat ma) @ ''.''"
  let ?t2 = "?t1 @ dec (nat mi)"
  have s0: "starts buf [] ?n" using buf(1) by (simp add: starts_def)
  obtain b1 where b1: "scnprintf_u buf 0 ?n ma = Some (b1, length (dec (nat ma)))"
    "holds_string b1 (dec (nat ma)) ?n"
    using scnprintf_u_holds [OF s0, of ma ?n] buf ma l by auto
  obtain b2 where b2: "buf_write b1 (length (dec (nat ma))) ''.'' = Some b2" "starts b2 ?t1 ?n"
    using buf_write_starts [OF holds_starts [OF b1(2)], of "''.''"] buf l by auto
  obtain b3 where b3: "scnprintf_u b2 (length ?t1) (room len (length ?t1)) mi = Some (b3, length (dec (nat mi)))"
    "holds_string b3 ?t2 ?n"
    using scnprintf_u_holds [OF b2(2), of mi] room_eq [of "length ?t1" len] buf mi l NUL_not_dec by auto
  have "length t \<le> 14" using l by (simp add: t_def)
  moreover have "\<exists>b. write_numbers ma mi re buf len = Some (b, length t) \<and> holds_string b t ?n"
  proof (cases "re = 0")
    case True
    then show ?thesis using b1(1) b2(1) b3 by (simp add: t_def write_numbers_def)
  next
    case False
    obtain b4 where b4: "buf_write b3 (length ?t2) ''.'' = Some b4" "starts b4 (?t2 @ ''.'') ?n"
      using buf_write_starts [OF holds_starts [OF b3(2)], of "''.''"] buf l by auto
    obtain b5 where "scnprintf_u b4 (length (?t2 @ ''.'')) (room len (length (?t2 @ ''.''))) re =
        Some (b5, length (dec (nat re)))" "holds_string b5 ((?t2 @ ''.'') @ dec (nat re)) ?n"
      using scnprintf_u_holds [OF b4(2), of re] room_eq [of "length (?t2 @ ''.'')" len] buf re l NUL_not_dec
      by auto
    then show ?thesis using False b1(1) b2(1) b3(1) b4(1) by (simp add: t_def write_numbers_def)
  qed
  ultimately show ?thesis by blast
qed

lemma write_stage_holds:
  assumes b: "holds_string b t (unat len)" and l: "length t \<le> 14" "20 \<le> unat len"
    and lv: "0 \<le> lv" "lv \<le> 255"
  shows "\<exists>buf'. write_stage st lv b (length t) len = Some (True, buf') \<and>
    holds_string buf' (case OSKextVersionStringForStage st of
        None \<Rightarrow> ''(invalid)''
      | Some letter \<Rightarrow> t @ letter @ (if st < 9 then dec (nat lv) else [])) (unat len)"
proof (cases "OSKextVersionStringForStage st")
  case None
  have "length b = unat len" using b by (simp add: holds_string_def)
  from strlcpy_TRUE_holds [OF this, of "''(invalid)''"] show ?thesis
    using l None by (simp add: write_stage_def)
next
  case (Some s)
  note s = stage_string_letter [OF Some]
  show ?thesis
  proof (cases "s = []")
    case True
    then show ?thesis using b s Some by (simp add: write_stage_def)
  next
    case False
    obtain b2 where b2: "strlcat b s (unat len) = Some b2" "holds_string b2 (t @ s) (unat len)"
      using strlcat_holds [OF b, of s] s l by auto
    have st: "st < 9" using Some False by (auto simp: OSKextVersionStringForStage_def split: if_splits)
    have "length (dec (nat lv)) \<le> 3" using lv by (intro length_dec) auto
    then obtain b3 where "scnprintf_u b2 (length (t @ s)) (room len (length (t @ s))) lv =
        Some (b3, length (dec (nat lv)))" "holds_string b3 ((t @ s) @ dec (nat lv)) (unat len)"
      using scnprintf_u_holds [OF holds_starts [OF b2(2)], of lv] room_eq [of "length (t @ s)" len]
        b2(2) lv s l by (auto simp: holds_string_def)
    then show ?thesis using False b2(1) st Some by (simp add: write_stage_def)
  qed
qed

lemma write_version_holds:
  assumes "length buf = unat len" "20 \<le> unat len"
    and "0 \<le> ma" "ma < 10000" "0 \<le> mi" "mi < 10000" "0 \<le> re" "re < 10000" and lv: "0 \<le> lv" "lv \<le> 255"
  shows "\<exists>buf'. write_version ma mi re st lv buf len = Some (True, buf') \<and>
    holds_string buf' (fields_text ma mi re st lv) (unat len)"
proof -
  let ?t = "dec (nat ma) @ ''.'' @ dec (nat mi) @ (if re = 0 then [] else ''.'' @ dec (nat re))"
  obtain b where w: "write_numbers ma mi re buf len = Some (b, length ?t)"
    and b: "holds_string b ?t (unat len)" "length ?t \<le> 14"
    using write_numbers_holds [OF assms(1-8)] by blast
  have "fields_text ma mi re st lv = (case OSKextVersionStringForStage st of
        None \<Rightarrow> ''(invalid)''
      | Some letter \<Rightarrow> ?t @ letter @ (if st < 9 then dec (nat lv) else []))"
    by (simp add: fields_text_def split: option.split)
  then show ?thesis using write_stage_holds [OF b assms(2) lv, of st] by (simp only: write_version_def w) simp
qed

lemma split_field: "0 < b \<Longrightarrow> 0 < c \<Longrightarrow> (v mod (b * c)) div b = (v div b) mod c" for v b c :: int
  by (simp add: zmod_zmult2_eq)

lemma version_fields:
  fixes v :: int
  defines "ma \<equiv> v div 1000000000000"
  defines "mi \<equiv> (v - ma * 1000000000000) div 100000000"
  defines "re \<equiv> (v - (ma * 1000000000000 + mi * 100000000)) div 10000"
  defines "st \<equiv> (v - (ma * 1000000000000 + mi * 100000000 + re * 10000)) div 1000"
  shows "mi = v div 100000000 mod 10000" "re = v div 10000 mod 10000" "st = v div 1000 mod 10"
    "v - (ma * 1000000000000 + mi * 100000000 + re * 10000 + st * 1000) = v mod 1000"
proof -
  have 1: "v - ma * 1000000000000 = v mod 1000000000000" by (simp add: ma_def minus_div_mult_eq_mod)
  show mi: "mi = v div 100000000 mod 10000"
    using split_field [of 100000000 10000 v] by (simp add: mi_def 1)
  have 2: "v - (ma * 1000000000000 + mi * 100000000) = v mod 100000000"
  proof -
    have "v - (ma * 1000000000000 + mi * 100000000) = v mod 1000000000000 - mi * 100000000" using 1 by simp
    also have "\<dots> = v mod 1000000000000 mod 100000000" by (simp add: mi_def 1 minus_div_mult_eq_mod)
    finally show ?thesis by (simp add: mod_mod_cancel)
  qed
  show re: "re = v div 10000 mod 10000"
    using split_field [of 10000 10000 v] by (simp add: re_def 2)
  have 3: "v - (ma * 1000000000000 + mi * 100000000 + re * 10000) = v mod 10000"
  proof -
    have "v - (ma * 1000000000000 + mi * 100000000 + re * 10000) = v mod 100000000 - re * 10000"
      using 2 by simp
    also have "\<dots> = v mod 100000000 mod 10000" by (simp add: re_def 2 minus_div_mult_eq_mod)
    finally show ?thesis by (simp add: mod_mod_cancel)
  qed
  show "st = v div 1000 mod 10"
    using split_field [of 1000 10 v] by (simp add: st_def 3)
  have "v - (ma * 1000000000000 + mi * 100000000 + re * 10000 + st * 1000) = v mod 10000 - st * 1000"
    using 3 by simp
  also have "\<dots> = v mod 10000 mod 1000" by (simp add: st_def 3 minus_div_mult_eq_mod)
  finally show "v - (ma * 1000000000000 + mi * 100000000 + re * 10000 + st * 1000) = v mod 1000"
    by (simp add: mod_mod_cancel)
qed

lemma GetString_decode:
  assumes "0 < v" "\<not> len < 20" "length buf = unat len" "decode v = (ma, mi, re, st, lv)"
  shows "OSKextVersionGetString v (Some buf) len =
    (let z = replicate (unat len) NUL in
     if ma > 9999 \<or> lv > 255 then strlcpy_TRUE z ''(invalid)'' len
     else write_version ma mi re st lv z len)"
proof -
  have z: "buf_write buf 0 (replicate (unat len) NUL) = Some (replicate (unat len) NUL)"
    using assms(3) by (simp add: buf_write_def)
  have d: "v div 1000000000000 = ma" "v div 100000000 mod 10000 = mi" "v div 10000 mod 10000 = re"
    "v div 1000 mod 10 = st" "v mod 1000 = lv" using assms(4) by (simp_all only: decode_def prod.inject)
  note f1 = version_fields(1) [of v, unfolded d]
  note f2 = version_fields(2) [of v, unfolded d f1]
  note f3 = version_fields(3) [of v, unfolded d f1 f2]
  note f4 = version_fields(4) [of v, unfolded d f1 f2 f3]
  have v: "\<not> v < 0" "v \<noteq> 0" using assms(1) by auto
  show ?thesis
    unfolding OSKextVersionGetString_def option.case Let_def if_not_P [OF assms(2)] z bind.bind_lunit
      if_not_P [OF v(1)] if_not_P [OF v(2)] d f1 f2 f3 f4 by simp
qed

lemma decode_ranges:
  assumes "0 < v" "decode v = (ma, mi, re, st, lv)"
  shows "0 \<le> ma" "0 \<le> mi" "mi < 10000" "0 \<le> re" "re < 10000" "0 \<le> lv" "lv < 1000"
proof -
  have d: "v div 1000000000000 = ma" "v div 100000000 mod 10000 = mi" "v div 10000 mod 10000 = re"
    "v mod 1000 = lv" using assms(2) by (simp_all only: decode_def prod.inject)
  show "0 \<le> ma" unfolding d(1) [symmetric] using assms(1) by (simp add: pos_imp_zdiv_nonneg_iff)
  show "0 \<le> mi" "mi < 10000" "0 \<le> re" "re < 10000" "0 \<le> lv" "lv < 1000"
    unfolding d [symmetric] by simp_all
qed

lemma GetString_holds:
  assumes "length buf = unat len" "20 \<le> unat len"
  shows "\<exists>buf'. OSKextVersionGetString v (Some buf) len = Some (True, buf') \<and>
    holds_string buf' (version_text v) (unat len)"
proof -
  have len: "\<not> len < 20" using assms(2) by (simp add: word_less_nat_alt)
  let ?z = "replicate (unat len) NUL"
  have z: "buf_write buf 0 ?z = Some ?z" using assms(1) by (simp add: buf_write_def)
  note str = strlcpy_TRUE_holds [of ?z len "''(invalid)''"] strlcpy_TRUE_holds [of ?z len "''(missing)''"]
  show ?thesis
  proof (cases "0 < v")
    case False
    then show ?thesis using str len z assms(2) by (auto simp: OSKextVersionGetString_def version_text_def)
  next
    case True
    obtain ma mi re st lv where d: "decode v = (ma, mi, re, st, lv)" by (cases "decode v") auto
    note r = decode_ranges [OF True d]
    show ?thesis using write_version_holds [of ?z len ma mi re lv st] str(1) r assms(2) True
      by (simp add: GetString_decode [OF True len assms(1) d] version_text_def d)
  qed
qed

section \<open>Writing and reading back\<close>

lemma GetString_text:
  assumes "length buf = unat len" "20 \<le> unat len"
  shows "\<exists>buf'. OSKextVersionGetString v (Some buf) len = Some (True, buf') \<and>
    length buf' = length buf \<and> NUL \<in> set buf' \<and> cstring_in buf' = version_text v"
proof -
  obtain buf' where "OSKextVersionGetString v (Some buf) len = Some (True, buf')"
    "holds_string buf' (version_text v) (unat len)" using GetString_holds [OF assms] by blast
  then show ?thesis using holds_cstring_in [of buf'] assms(1) by auto
qed

lemmas text_eval = version_text_def fields_text_def decode_def OSKextVersionStringForStage_def dec.simps
  char_of_def bit_numeral_rec bit_Suc_0_iff

text \<open>
  With a buffer of at least \<open>kOSKextVersionMaxLength\<close> bytes the writer succeeds for every number,
  writes only into the buffer, and leaves in it the NUL-terminated text of the number.
\<close>

theorem OSKextVersionGetString_exact:
  assumes "length buf = unat len" "20 \<le> unat len"
  shows "\<exists>buf'. OSKextVersionGetString v (Some buf) len = Some (True, buf') \<and>
    length buf' = length buf \<and> NUL \<in> set buf' \<and> cstring_in buf' = version_text v"
  using GetString_text [OF assms] .

theorem OSKextVersionGetString_exact_witness:
  "\<exists>buf'. OSKextVersionGetString 10000400117003 (Some (replicate 20 (CHR ''x''))) 20 = Some (True, buf') \<and>
    length buf' = 20 \<and> NUL \<in> set buf' \<and> cstring_in buf' = ''10.4.11f3''"
proof -
  have "version_text 10000400117003 = ''10.4.11f3''"
    by (simp add: text_eval)
  then show ?thesis
    using OSKextVersionGetString_exact [of "replicate 20 (CHR ''x'')" 20 10000400117003] by simp
qed

lemma decode_encode:
  assumes "valid_version (ma, mi, re, st, lv)"
  shows "decode (encode (ma, mi, re, st, lv)) = (ma, mi, re, st, lv)"
proof -
  have r: "0 \<le> mi" "mi < 10000" "0 \<le> re" "re < 10000" "1 \<le> st" "st \<le> 9" "0 \<le> lv" "lv < 1000"
    using assms by auto
  have dm: "(a * m + b) div m = a" "(a * m + b) mod m = b" if "0 \<le> b" "b < m" for a b m :: int
    using that by simp_all
  let ?v = "encode (ma, mi, re, st, lv)"
  have v: "?v = (((ma * 10000 + mi) * 10000 + re) * 10 + st) * 1000 + lv" by (simp add: algebra_simps)
  have 1: "?v div 1000 = ((ma * 10000 + mi) * 10000 + re) * 10 + st" "?v mod 1000 = lv"
    unfolding v by (rule dm; use r in simp)+
  have 2: "?v div 10000 = (ma * 10000 + mi) * 10000 + re"
    using zdiv_zmult2_eq [of 10 ?v 1000] 1(1) dm [of st 10] r by simp
  have 3: "?v div 100000000 = ma * 10000 + mi"
    using zdiv_zmult2_eq [of 10000 ?v 10000] 2 dm [of re 10000] r by simp
  have 4: "?v div 1000000000000 = ma"
    using zdiv_zmult2_eq [of 10000 ?v 100000000] 3 dm [of mi 10000] r by simp
  have "((ma * 10000 + mi) * 10000 + re) mod 10000 = re" "(ma * 10000 + mi) mod 10000 = mi"
    "(((ma * 10000 + mi) * 10000 + re) * 10 + st) mod 10 = st"
    by (rule dm; use r in simp)+
  then show ?thesis unfolding decode_def 1 2 3 4 by (simp only:)
qed

lemma digits_of_append:
  assumes "list_all vers_isdigit ds" "p \<noteq> []" "\<not> vers_isdigit (hd p)"
  shows "digits_of (ds @ p) = ds" "after_digits (ds @ p) = p"
  using assms by (induction ds) (cases p; simp)+

lemma stage_of_written:
  fixes r :: string
  assumes "OSKextVersionStringForStage st = Some l" "0 \<le> lv" "lv \<le> 255"
    and "st = 9 \<Longrightarrow> lv = 0" "st = 7 \<Longrightarrow> lv \<noteq> 0"
  defines "q \<equiv> l @ (if st < 9 then dec (nat lv) else []) @ NUL # r"
  shows "\<exists>s. stage_of q = Some (s, lv) \<and> stage_number s = st" "q \<noteq> []" "hd q \<noteq> CHR ''.''"
    "\<not> vers_isdigit (hd q)"
proof -
  have d: "digits_of (dec (nat lv) @ NUL # r) = dec (nat lv)" "after_digits (dec (nat lv) @ NUL # r) = NUL # r"
    by (rule digits_of_append; simp add: dec_digits)+
  have len: "length (dec (nat lv)) \<le> 3" using assms(2,3) by (intro length_dec) auto
  have fc: "take 2 (CHR ''f'' # dec (nat lv) @ NUL # r) \<noteq> ''fc''"
    using dec_digits [of "nat lv"] dec_nonempty [of "nat lv"]
    by (cases "dec (nat lv)") (auto simp: vers_isdigit_def eval_nat_numeral)
  consider "st = 9" "l = []" "lv = 0" | "st = 1" "l = ''d''" | "st = 3" "l = ''a''" | "st = 5" "l = ''b''"
    | "st = 7" "l = ''f''" "lv \<noteq> 0"
    using assms(1,4,5) by (auto simp: OSKextVersionStringForStage_def split: if_splits)
  then show "\<exists>s. stage_of q = Some (s, lv) \<and> stage_number s = st"
    by cases (use d len fc assms(2,3) num_from_dec [of "nat lv"] in
      \<open>simp_all add: q_def stage_of_def stage_letters_def vers_isspace_def\<close>)
  show "q \<noteq> []" by (simp add: q_def)
  show "hd q \<noteq> CHR ''.''" "\<not> vers_isdigit (hd q)" using assms(1)
    by (auto simp: q_def OSKextVersionStringForStage_def vers_isdigit_def split: if_splits)
qed

lemma accepted_version_fields_text:
  assumes "valid_version (ma, mi, re, st, lv)"
  shows "accepted_version (fields_text ma mi re st lv @ NUL # r) = Some (ma, mi, re, st, lv)"
proof -
  have r: "0 \<le> ma" "ma < 10000" "0 \<le> mi" "mi < 10000" "0 \<le> re" "re < 10000" "0 \<le> lv" "lv \<le> 255"
    "st = 9 \<Longrightarrow> lv = 0" "st = 7 \<Longrightarrow> lv \<noteq> 0" using assms by auto
  obtain l where l: "OSKextVersionStringForStage st = Some l"
    using assms by (auto simp: OSKextVersionStringForStage_def)
  let ?q = "l @ (if st < 9 then dec (nat lv) else []) @ NUL # r"
  obtain s where s: "stage_of ?q = Some (s, lv)" "stage_number s = st"
    and q: "?q \<noteq> []" "hd ?q \<noteq> CHR ''.''" "\<not> vers_isdigit (hd ?q)"
    using stage_of_written [OF l r(7,8,9,10), of r] by blast
  have len: "length (dec (nat ma)) \<le> 4" "length (dec (nat mi)) \<le> 4" "length (dec (nat re)) \<le> 4"
    using r by (auto intro!: length_dec)
  let ?f = "(if re = 0 then [] else ''.'' @ dec (nat re)) @ ?q"
  let ?t = "dec (nat ma) @ ''.'' @ dec (nat mi) @ ?f"
  have t: "fields_text ma mi re st lv @ NUL # r = ?t" by (simp add: fields_text_def l)
  have nd: "?f \<noteq> []" "\<not> vers_isdigit (hd ?f)" using q by (auto simp: hd_append)
  have 1: "digits_of ?t = dec (nat ma)" "after_digits ?t = ''.'' @ dec (nat mi) @ ?f"
    by (rule digits_of_append; simp add: dec_digits)+
  have 2: "field_digits (''.'' @ dec (nat mi) @ ?f) = dec (nat mi)" "after_field (''.'' @ dec (nat mi) @ ?f) = ?f"
    using digits_of_append [OF dec_digits nd] by (simp_all add: field_digits_def after_field_def)
  have 3: "field_digits ?f = (if re = 0 then [] else dec (nat re))" "after_field ?f = ?q"
    using digits_of_append [OF dec_digits q(1,3)] q(2) by (auto simp: field_digits_def after_field_def)
  have 4: "skip_dot ?q = ?q" using q(2) by (simp add: skip_dot_def)
  show ?thesis unfolding t accepted_version_def Let_def 1 2 3 4
    using len s r by (auto simp: num_from_dec)
qed

text \<open>
  C15: a version string that is accepted is written in a normal form that reads back as the same
  number, whatever the buffer held before.
\<close>

theorem OSKextVersion_roundtrip:
  assumes "NUL \<in> set s" "OSKextParseVersionString (Some s) = Some v" "v \<noteq> - 1"
    and "length buf = unat len" "20 \<le> unat len"
  shows "\<exists>buf'. OSKextVersionGetString v (Some buf) len = Some (True, buf') \<and>
    OSKextParseVersionString (Some buf') = Some v"
proof -
  obtain f where f: "accepted_version s = Some f" "v = encode f"
    using assms(2,3) parse_exact [OF assms(1)] by (auto split: option.splits)
  note valid = accepted_version_valid [OF f(1)]
  obtain ma mi re st lv where F: "f = (ma, mi, re, st, lv)" by (cases f) auto
  obtain buf' where b: "OSKextVersionGetString v (Some buf) len = Some (True, buf')"
    "holds_string buf' (version_text v) (unat len)" using GetString_holds [OF assms(4,5)] by blast
  have v: "0 < v" using encode_bounds(1) [OF valid] f(2) by simp
  have "decode v = f" using decode_encode valid by (simp only: f(2) F)
  then have "version_text v = fields_text ma mi re st lv"
    using v valid by (auto simp: version_text_def F)
  then obtain r where r: "buf' = fields_text ma mi re st lv @ NUL # r" "NUL \<in> set buf'"
    using b(2) holds_cstring_in [OF b(2)] by (auto simp: holds_string_def)
  have "accepted_version buf' = Some f" unfolding r(1) F by (rule accepted_version_fields_text) (use valid F in simp)
  then show ?thesis using b(1) parse_exact [OF r(2)] f(2) by simp
qed

theorem OSKextVersion_roundtrip_witness:
  "\<exists>buf'. OSKextVersionGetString 10000400117003 (Some (replicate 20 NUL)) 20 = Some (True, buf') \<and>
    OSKextParseVersionString (Some buf') = Some 10000400117003"
proof -
  have n: "NUL \<in> set (''10.4.11fc3'' @ [NUL])" by simp
  have "OSKextParseVersionString (Some (''10.4.11fc3'' @ [NUL])) = Some 10000400117003"
    using parse_exact [OF n] by (simp add: version_eval)
  then show ?thesis
    using OSKextVersion_roundtrip [OF n, of 10000400117003 "replicate 20 NUL" 20] by simp
qed

text \<open>
  The documented format has two digits for the minor number and the revision, no period after the third
  number, and levels from 1; the code takes up to four digits there, rejects a trailing period after one
  to three digits but takes it after exactly four, takes a period with nothing after it, and takes the
  level 0 for every stage but the candidate.
\<close>

theorem OSKextVersion_undocumented:
  "OSKextParseVersionString (Some (''1.2.345.'' @ [NUL])) = Some (- 1) \<and>
   OSKextParseVersionString (Some (''1.2.3456.'' @ [NUL])) = Some 1000234569000 \<and>
   OSKextParseVersionString (Some (''1..'' @ [NUL])) = Some 1000000009000 \<and>
   OSKextParseVersionString (Some (''1.0d0'' @ [NUL])) = Some 1000000001000 \<and>
   OSKextParseVersionString (Some (''1.0f0'' @ [NUL])) = Some (- 1)"
  by (simp add: parse_exact version_eval)

text \<open>
  Two numbers that are not version encodings are not written as \<open>(invalid)\<close>, although the
  interface says so: a release with a level, which is written as if the level were absent, and a
  candidate of level 0, whose text the parser rejects.
\<close>

theorem OSKextVersionGetString_writes_invalid:
  "(\<exists>buf. OSKextVersionGetString 1000000009005 (Some (replicate 20 NUL)) 20 = Some (True, buf) \<and>
     cstring_in buf = ''1.0'') \<and>
   OSKextParseVersionString (Some (''1.0'' @ [NUL])) = Some 1000000009000 \<and>
   (\<exists>buf. OSKextVersionGetString 1000000007000 (Some (replicate 20 NUL)) 20 = Some (True, buf) \<and>
     cstring_in buf = ''1.0f0'') \<and>
   OSKextParseVersionString (Some (''1.0f0'' @ [NUL])) = Some (- 1)"
proof -
  have t: "version_text 1000000009005 = ''1.0''" "version_text 1000000007000 = ''1.0f0''"
    by (simp_all add: text_eval)
  have "OSKextParseVersionString (Some (''1.0'' @ [NUL])) = Some 1000000009000"
    "OSKextParseVersionString (Some (''1.0f0'' @ [NUL])) = Some (- 1)"
    by (simp_all add: parse_exact version_eval)
  then show ?thesis
    using GetString_text [of "replicate 20 NUL" 20 1000000009005]
      GetString_text [of "replicate 20 NUL" 20 1000000007000] by (auto simp: t)
qed

end
