(* ===== verification/CF_BitVector.thy ===== *)
theory CF_BitVector
  imports Prelude
begin

text \<open>
  Core Foundation's bit vectors, \<open>CFBitVector.c\<close>: \<open>_count\<close> bits packed into bytes (buckets) with bit 0
  the most significant of the first byte. The ranged operations go through one routine,
  \<open>__CFBitVectorInternalMap\<close>, which hands every bucket of the range with the mask of its bits in the range
  to a mapper and stores what the mapper returns; the mapper's \<open>void *context\<close> is threaded as state.

  A bucket read or written outside the allocation is the fault \<open>OutOfBounds\<close>, and \<open>HALT\<close> the fault
  \<open>Halted\<close>. Indices and lengths (\<open>CFIndex\<close>) are natural numbers: the callers' contract excludes negative
  ones. The allocator is an argument of the operations that allocate.
\<close>

section \<open>Buckets\<close>

datatype bv_fault = OutOfBounds | Halted

type_synonym CFBit = u32

abbreviation (input) CF_BITS_PER_BUCKET :: nat where "CF_BITS_PER_BUCKET \<equiv> 8"
abbreviation (input) CF_BITS_PER_BYTE :: nat where "CF_BITS_PER_BYTE \<equiv> 8"

record CFBitVector =
  bv_count :: nat
  bv_capacity :: nat
  bv_buckets :: "u8 list"
  bv_mutable :: bool

definition get_bucket :: "u8 list \<Rightarrow> nat \<Rightarrow> bv_fault + u8" where
  "get_bucket buckets i = (if i < length buckets then Inr (buckets ! i) else Inl OutOfBounds)"

definition put_bucket :: "u8 list \<Rightarrow> nat \<Rightarrow> u8 \<Rightarrow> bv_fault + u8 list" where
  "put_bucket buckets i b = (if i < length buckets then Inr (buckets[i := b]) else Inl OutOfBounds)"

definition CFBitVectorRoundUpCapacity :: "nat \<Rightarrow> nat" where
  "CFBitVectorRoundUpCapacity capacity =
    (let capacity = (if capacity = 0 then 1 else capacity) in (capacity + 63) div 64 * 64)"

definition CFBitVectorNumBuckets :: "CFBitVector \<Rightarrow> nat" where
  "CFBitVectorNumBuckets bv = bv_capacity bv div CF_BITS_PER_BUCKET + 1"

definition CFBitBucketMask :: "nat \<Rightarrow> nat \<Rightarrow> u8" where
  "CFBitBucketMask bottomBit topBit =
    (let shiftL = CF_BITS_PER_BUCKET - topBit + bottomBit - 1
     in drop_bit bottomBit (push_bit shiftL (NOT 0)))"

definition CFBitVectorBit :: "u8 list \<Rightarrow> nat \<Rightarrow> bv_fault + CFBit" where
  "CFBitVectorBit buckets idx =
    (let bucketIdx = idx div CF_BITS_PER_BUCKET;
         bitOfBucket = idx mod CF_BITS_PER_BUCKET
     in bindS (get_bucket buckets bucketIdx) (\<lambda>b.
        Inr (ucast (drop_bit (CF_BITS_PER_BUCKET - 1 - bitOfBucket) b AND 1))))"

definition CFSetBitVectorBit :: "u8 list \<Rightarrow> nat \<Rightarrow> CFBit \<Rightarrow> bv_fault + u8 list" where
  "CFSetBitVectorBit buckets idx value =
    (let bucketIdx = idx div CF_BITS_PER_BUCKET;
         bitOfBucket = idx mod CF_BITS_PER_BUCKET
     in bindS (get_bucket buckets bucketIdx) (\<lambda>b.
        if value \<noteq> 0 then
          put_bucket buckets bucketIdx (b OR push_bit (CF_BITS_PER_BUCKET - 1 - bitOfBucket) 1)
        else
          put_bucket buckets bucketIdx (b AND NOT (push_bit (CF_BITS_PER_BUCKET - 1 - bitOfBucket) 1))))"

definition CFFlipBitVectorBit :: "u8 list \<Rightarrow> nat \<Rightarrow> bv_fault + u8 list" where
  "CFFlipBitVectorBit buckets idx =
    (let bucketIdx = idx div CF_BITS_PER_BUCKET;
         bitOfBucket = idx mod CF_BITS_PER_BUCKET
     in bindS (get_bucket buckets bucketIdx) (\<lambda>b.
        put_bucket buckets bucketIdx (b XOR push_bit (CF_BITS_PER_BUCKET - 1 - bitOfBucket) 1)))"

section \<open>Comparing and creating\<close>

text \<open>The loop over the buckets \<open>idx\<close> to \<open>idx + n - 1\<close>.\<close>

primrec equal_buckets :: "u8 list \<Rightarrow> u8 list \<Rightarrow> nat \<Rightarrow> nat \<Rightarrow> bv_fault + bool" where
  "equal_buckets b1 b2 idx 0 = Inr True"
| "equal_buckets b1 b2 idx (Suc n) =
    bindS (get_bucket b1 idx) (\<lambda>val1.
    bindS (get_bucket b2 idx) (\<lambda>val2.
    if val1 \<noteq> val2 then Inr False else equal_buckets b1 b2 (idx + 1) n))"

definition CFBitVectorEqual :: "CFBitVector \<Rightarrow> CFBitVector \<Rightarrow> bv_fault + bool" where
  "CFBitVectorEqual bv1 bv2 =
    (let cnt = bv_count bv1 in
     if cnt \<noteq> bv_count bv2 then Inr False
     else if cnt = 0 then Inr True
     else equal_buckets (bv_buckets bv1) (bv_buckets bv2) 0 (cnt div CF_BITS_PER_BUCKET + 1))"

definition CFBitVectorHash :: "CFBitVector \<Rightarrow> nat" where
  "CFBitVectorHash bv = bv_count bv"

text \<open>
  \<open>alloc n\<close> says whether an allocation of \<open>n\<close> bytes succeeds (the object itself has 24 bytes of its own).
  \<open>bytes\<close> is \<open>None\<close> for a null pointer; the result is \<open>None\<close> when an allocation fails.
\<close>

definition copy_bytes :: "u8 list \<Rightarrow> u8 list \<Rightarrow> nat \<Rightarrow> bv_fault + u8 list" where
  "copy_bytes dst src n =
    (if n \<le> length dst \<and> n \<le> length src then Inr (take n src @ drop n dst) else Inl OutOfBounds)"

definition bytes_for :: "nat \<Rightarrow> nat" where
  "bytes_for numBits = numBits div CF_BITS_PER_BYTE + (if numBits mod CF_BITS_PER_BYTE \<noteq> 0 then 1 else 0)"

definition CFBitVectorInit ::
  "(nat \<Rightarrow> bool) \<Rightarrow> bool \<Rightarrow> nat \<Rightarrow> u8 list option \<Rightarrow> nat \<Rightarrow> bv_fault + CFBitVector option" where
  "CFBitVectorInit alloc mutable capacity bytes numBits =
    (let memory = \<lparr>bv_count = 0, bv_capacity = CFBitVectorRoundUpCapacity numBits, bv_buckets = [],
           bv_mutable = False\<rparr>;
         n = CFBitVectorNumBuckets memory;
         zeroed = replicate n 0
     in if \<not> alloc 24 then Inr None
        else if \<not> alloc n then Inr None
        else bindS
          (case bytes of
             None \<Rightarrow> Inr zeroed
           | Some bs \<Rightarrow> copy_bytes zeroed bs (bytes_for numBits)) (\<lambda>buckets.
          Inr (Some (memory\<lparr>bv_count := numBits, bv_buckets := buckets, bv_mutable := mutable\<rparr>))))"

definition CFBitVectorCreate :: "(nat \<Rightarrow> bool) \<Rightarrow> u8 list option \<Rightarrow> nat \<Rightarrow> bv_fault + CFBitVector option" where
  "CFBitVectorCreate alloc bytes numBits = CFBitVectorInit alloc False numBits bytes numBits"

definition CFBitVectorCreateMutable :: "(nat \<Rightarrow> bool) \<Rightarrow> nat \<Rightarrow> bv_fault + CFBitVector option" where
  "CFBitVectorCreateMutable alloc capacity = CFBitVectorInit alloc True capacity None 0"

definition CFBitVectorCreateCopy :: "(nat \<Rightarrow> bool) \<Rightarrow> CFBitVector \<Rightarrow> bv_fault + CFBitVector option" where
  "CFBitVectorCreateCopy alloc bv =
    CFBitVectorInit alloc False (bv_count bv) (Some (bv_buckets bv)) (bv_count bv)"

definition CFBitVectorCreateMutableCopy ::
  "(nat \<Rightarrow> bool) \<Rightarrow> nat \<Rightarrow> CFBitVector \<Rightarrow> bv_fault + CFBitVector option" where
  "CFBitVectorCreateMutableCopy alloc capacity bv =
    CFBitVectorInit alloc True capacity (Some (bv_buckets bv)) (bv_count bv)"

definition CFBitVectorGetCount :: "CFBitVector \<Rightarrow> nat" where
  "CFBitVectorGetCount bv = bv_count bv"

section \<open>Mapping over a range\<close>

type_synonym 'c mapper = "u8 \<Rightarrow> u8 \<Rightarrow> 'c \<Rightarrow> bv_fault + (u8 \<times> 'c)"

text \<open>One bucket: the mapper is called and its result stored under the mask.\<close>

definition map_bucket :: "'c mapper \<Rightarrow> u8 \<Rightarrow> nat \<Rightarrow> u8 list \<times> 'c \<Rightarrow> bv_fault + (u8 list \<times> 'c)" where
  "map_bucket mapper msk bucketIdx = (\<lambda>(buckets, context).
    bindS (get_bucket buckets bucketIdx) (\<lambda>b.
    bindS (mapper b msk context) (\<lambda>(newBucketVal, context).
    bindS (put_bucket buckets bucketIdx ((b AND NOT msk) OR (newBucketVal AND msk))) (\<lambda>buckets.
    Inr (buckets, context)))))"

text \<open>The loop over \<open>nBuckets\<close> whole buckets, which stores the result as it is.\<close>

primrec map_whole_buckets :: "'c mapper \<Rightarrow> nat \<Rightarrow> nat \<Rightarrow> u8 list \<times> 'c \<Rightarrow> bv_fault + (u8 list \<times> 'c)" where
  "map_whole_buckets mapper 0 bucketIdx st = Inr st"
| "map_whole_buckets mapper (Suc nBuckets) bucketIdx st =
    (case st of (buckets, context) \<Rightarrow>
      bindS (get_bucket buckets bucketIdx) (\<lambda>b.
      bindS (mapper b (NOT 0) context) (\<lambda>(newBucketVal, context).
      bindS (put_bucket buckets bucketIdx newBucketVal) (\<lambda>buckets.
      map_whole_buckets mapper nBuckets (bucketIdx + 1) (buckets, context)))))"

definition CFBitVectorInternalMap ::
  "CFBitVector \<Rightarrow> nat \<Rightarrow> nat \<Rightarrow> 'c mapper \<Rightarrow> 'c \<Rightarrow> bv_fault + (CFBitVector \<times> 'c)" where
  "CFBitVectorInternalMap bv location len mapper context =
    (if len = 0 then Inr (bv, context)
     else
       let bucketIdx = location div CF_BITS_PER_BUCKET;
           bitOfBucket = location mod CF_BITS_PER_BUCKET;
           (bucketValMask, len) =
             (if bitOfBucket + len < CF_BITS_PER_BUCKET
              then (CFBitBucketMask bitOfBucket (bitOfBucket + len - 1), 0)
              else (CFBitBucketMask bitOfBucket (CF_BITS_PER_BUCKET - 1), len - (CF_BITS_PER_BUCKET - bitOfBucket)))
       in bindS (map_bucket mapper bucketValMask bucketIdx (bv_buckets bv, context)) (\<lambda>st.
          let bucketIdx = bucketIdx + 1;
              nBuckets = len div CF_BITS_PER_BUCKET;
              len = len - nBuckets * CF_BITS_PER_BUCKET
          in bindS (map_whole_buckets mapper nBuckets bucketIdx st) (\<lambda>st.
             bindS (if len \<noteq> 0 then map_bucket mapper (CFBitBucketMask 0 (len - 1)) (bucketIdx + nBuckets) st
                    else Inr st) (\<lambda>(buckets, context).
             Inr (bv\<lparr>bv_buckets := buckets\<rparr>, context)))))"

section \<open>Reading\<close>

record occursContext =
  oc_value :: CFBit
  oc_count :: nat

definition CFNibbleBitCount :: "nat list" where
  "CFNibbleBitCount = [0, 1, 1, 2, 1, 2, 2, 3, 1, 2, 2, 3, 2, 3, 3, 4]"

definition CFBitVectorCountBits :: "occursContext mapper" where
  "CFBitVectorCountBits bucketValue bucketValueMask context =
    (let val = (if oc_value context \<noteq> 0 then bucketValue AND bucketValueMask
                else NOT bucketValue AND bucketValueMask);
         c0 = CFNibbleBitCount ! unat (val AND 0xf);
         c1 = CFNibbleBitCount ! unat (drop_bit 4 val AND 0xf)
     in Inr (bucketValue, context\<lparr>oc_count := oc_count context + c0 + c1\<rparr>))"

definition CFBitVectorGetCountOfBit :: "CFBitVector \<Rightarrow> nat \<Rightarrow> nat \<Rightarrow> CFBit \<Rightarrow> bv_fault + (CFBitVector \<times> nat)" where
  "CFBitVectorGetCountOfBit bv location len value =
    (if len = 0 then Inr (bv, 0)
     else bindS (CFBitVectorInternalMap bv location len CFBitVectorCountBits
         \<lparr>oc_value = value, oc_count = 0\<rparr>) (\<lambda>(bv, context). Inr (bv, oc_count context)))"

definition CFBitVectorContainsBit :: "CFBitVector \<Rightarrow> nat \<Rightarrow> nat \<Rightarrow> CFBit \<Rightarrow> bv_fault + (CFBitVector \<times> bool)" where
  "CFBitVectorContainsBit bv location len value =
    bindS (CFBitVectorGetCountOfBit bv location len value) (\<lambda>(bv, n). Inr (bv, n \<noteq> 0))"

definition CFBitVectorGetBitAtIndex :: "CFBitVector \<Rightarrow> nat \<Rightarrow> bv_fault + CFBit" where
  "CFBitVectorGetBitAtIndex bv idx = CFBitVectorBit (bv_buckets bv) idx"

text \<open>The context of \<open>CFBitVectorGetBits\<close> with the caller's bytes, in which \<open>gb_cur\<close> is the position of
  \<open>curByte\<close>.\<close>

record getBitsContext =
  gb_bytes :: "u8 list"
  gb_cur :: nat
  gb_initBits :: nat
  gb_totalBits :: int
  gb_ignoreFirstInitBits :: bool

definition store_byte :: "getBitsContext \<Rightarrow> u8 \<Rightarrow> bv_fault + getBitsContext" where
  "store_byte context b =
    bindS (put_bucket (gb_bytes context) (gb_cur context) b) (\<lambda>bytes. Inr (context\<lparr>gb_bytes := bytes\<rparr>))"

text \<open>The loop over the whole bytes that are left, and the bits after it.\<close>

function get_bytes :: "u8 \<Rightarrow> int \<Rightarrow> getBitsContext \<Rightarrow> bv_fault + getBitsContext" where
  "get_bytes val nBits context =
    (if 8 \<le> nBits then
       bindS (store_byte context (drop_bit (CF_BITS_PER_BUCKET - CF_BITS_PER_BYTE) val)) (\<lambda>context.
       get_bytes 0 (nBits - 8) (context\<lparr>gb_cur := gb_cur context + 1,
         gb_totalBits := gb_totalBits context - int (gb_initBits context)\<rparr>))
     else if 0 < nBits then
       bindS (store_byte context (drop_bit (CF_BITS_PER_BUCKET - CF_BITS_PER_BYTE) val)) (\<lambda>context.
       Inr (context\<lparr>gb_totalBits := gb_totalBits context - nBits\<rparr>))
     else Inr context)"
  by pat_completeness auto
termination
  by (relation "measure (\<lambda>(_, n, _). nat n)") auto

definition CFBitVectorGetBits_mapper :: "getBitsContext mapper" where
  "CFBitVectorGetBits_mapper bucketValue bucketValueMask context =
    (let val = bucketValue AND bucketValueMask;
         initBits = gb_initBits context;
         nBits = min (8 - int initBits) (gb_totalBits context)
     in bindS
       (if 0 < initBits then
          bindS
            (if \<not> gb_ignoreFirstInitBits context then
               bindS (get_bucket (gb_bytes context) (gb_cur context)) (\<lambda>b.
               bindS (store_byte context (b OR drop_bit (CF_BITS_PER_BUCKET - initBits) val)) (\<lambda>context.
               Inr (context\<lparr>gb_cur := gb_cur context + 1,
                 gb_totalBits := gb_totalBits context - int initBits, gb_ignoreFirstInitBits := False\<rparr>)))
             else Inr context) (\<lambda>context.
          Inr (push_bit initBits val, context))
        else Inr (val, context)) (\<lambda>(val, context).
       bindS (get_bytes val nBits context) (\<lambda>context. Inr (bucketValue, context))))"

definition CFBitVectorGetBits :: "CFBitVector \<Rightarrow> nat \<Rightarrow> nat \<Rightarrow> u8 list \<Rightarrow> bv_fault + (CFBitVector \<times> u8 list)" where
  "CFBitVectorGetBits bv location len bytes =
    (if len = 0 then Inr (bv, bytes)
     else bindS (CFBitVectorInternalMap bv location len CFBitVectorGetBits_mapper
         \<lparr>gb_bytes = bytes, gb_cur = 0, gb_initBits = location mod CF_BITS_PER_BUCKET,
          gb_totalBits = int len, gb_ignoreFirstInitBits = True\<rparr>) (\<lambda>(bv, context).
       Inr (bv, gb_bytes context)))"

text \<open>The two searches; \<open>None\<close> is \<open>kCFNotFound\<close>. The first counts \<open>idx\<close> up, the second down.\<close>

function first_index_from :: "CFBitVector \<Rightarrow> nat \<Rightarrow> nat \<Rightarrow> CFBit \<Rightarrow> nat \<Rightarrow> bv_fault + nat option" where
  "first_index_from bv location len value idx =
    (if idx < len then
       bindS (CFBitVectorGetBitAtIndex bv (location + idx)) (\<lambda>b.
       if value = b then Inr (Some (location + idx))
       else first_index_from bv location len value (idx + 1))
     else Inr None)"
  by pat_completeness auto
termination
  by (relation "measure (\<lambda>(_, _, len, _, idx). len - idx)") auto

definition CFBitVectorGetFirstIndexOfBit :: "CFBitVector \<Rightarrow> nat \<Rightarrow> nat \<Rightarrow> CFBit \<Rightarrow> bv_fault + nat option" where
  "CFBitVectorGetFirstIndexOfBit bv location len value = first_index_from bv location len value 0"

primrec last_index_from :: "CFBitVector \<Rightarrow> nat \<Rightarrow> CFBit \<Rightarrow> nat \<Rightarrow> bv_fault + nat option" where
  "last_index_from bv location value 0 = Inr None"
| "last_index_from bv location value (Suc idx) =
    bindS (CFBitVectorGetBitAtIndex bv (location + idx)) (\<lambda>b.
    if value = b then Inr (Some (location + idx)) else last_index_from bv location value idx)"

definition CFBitVectorGetLastIndexOfBit :: "CFBitVector \<Rightarrow> nat \<Rightarrow> nat \<Rightarrow> CFBit \<Rightarrow> bv_fault + nat option" where
  "CFBitVectorGetLastIndexOfBit bv location len value = last_index_from bv location value len"

section \<open>Writing\<close>

text \<open>\<open>realloc\<close> is \<open>CFAllocatorReallocate\<close> on the contents of the block, \<open>None\<close> when it fails.\<close>

type_synonym reallocator = "u8 list \<Rightarrow> nat \<Rightarrow> u8 list option"

definition CFBitVectorGrow :: "reallocator \<Rightarrow> CFBitVector \<Rightarrow> nat \<Rightarrow> bv_fault + CFBitVector" where
  "CFBitVectorGrow realloc bv numNewValues =
    (let oldCount = bv_count bv;
         capacity = CFBitVectorRoundUpCapacity (oldCount + numNewValues);
         bv = bv\<lparr>bv_capacity := capacity\<rparr>
     in case realloc (bv_buckets bv) (CFBitVectorNumBuckets bv) of
          None \<Rightarrow> Inl Halted
        | Some buckets \<Rightarrow> Inr (bv\<lparr>bv_buckets := buckets\<rparr>))"

definition CFBitVectorZeroBits :: "unit mapper" where
  "CFBitVectorZeroBits bucketValue bucketValueMask context = Inr (0, context)"

definition CFBitVectorOneBits :: "unit mapper" where
  "CFBitVectorOneBits bucketValue bucketValueMask context = Inr (NOT 0, context)"

definition CFBitVectorFlipBits_mapper :: "unit mapper" where
  "CFBitVectorFlipBits_mapper bucketValue bucketValueMask context = Inr (NOT 0 XOR bucketValue, context)"

definition map_unit :: "CFBitVector \<Rightarrow> nat \<Rightarrow> nat \<Rightarrow> unit mapper \<Rightarrow> bv_fault + CFBitVector" where
  "map_unit bv location len mapper =
    bindS (CFBitVectorInternalMap bv location len mapper ()) (\<lambda>(bv, _). Inr bv)"

definition CFBitVectorSetCount :: "reallocator \<Rightarrow> CFBitVector \<Rightarrow> nat \<Rightarrow> bv_fault + CFBitVector" where
  "CFBitVectorSetCount realloc bv newCount =
    (let cnt = bv_count bv in
     bindS (if bv_mutable bv \<and> cnt < newCount then CFBitVectorGrow realloc bv (newCount - cnt) else Inr bv) (\<lambda>bv.
     bindS (if cnt < newCount then map_unit bv cnt (newCount - cnt) CFBitVectorZeroBits else Inr bv) (\<lambda>bv.
     Inr (bv\<lparr>bv_count := newCount\<rparr>))))"

definition CFBitVectorFlipBitAtIndex :: "CFBitVector \<Rightarrow> nat \<Rightarrow> bv_fault + CFBitVector" where
  "CFBitVectorFlipBitAtIndex bv idx =
    bindS (CFFlipBitVectorBit (bv_buckets bv) idx) (\<lambda>buckets. Inr (bv\<lparr>bv_buckets := buckets\<rparr>))"

definition CFBitVectorFlipBits :: "CFBitVector \<Rightarrow> nat \<Rightarrow> nat \<Rightarrow> bv_fault + CFBitVector" where
  "CFBitVectorFlipBits bv location len =
    (if len = 0 then Inr bv else map_unit bv location len CFBitVectorFlipBits_mapper)"

definition CFBitVectorSetBitAtIndex :: "CFBitVector \<Rightarrow> nat \<Rightarrow> CFBit \<Rightarrow> bv_fault + CFBitVector" where
  "CFBitVectorSetBitAtIndex bv idx value =
    bindS (CFSetBitVectorBit (bv_buckets bv) idx value) (\<lambda>buckets. Inr (bv\<lparr>bv_buckets := buckets\<rparr>))"

definition CFBitVectorSetBits :: "CFBitVector \<Rightarrow> nat \<Rightarrow> nat \<Rightarrow> CFBit \<Rightarrow> bv_fault + CFBitVector" where
  "CFBitVectorSetBits bv location len value =
    (if len = 0 then Inr bv
     else if value \<noteq> 0 then map_unit bv location len CFBitVectorOneBits
     else map_unit bv location len CFBitVectorZeroBits)"

definition CFBitVectorSetAllBits :: "CFBitVector \<Rightarrow> CFBit \<Rightarrow> bv_fault + CFBitVector" where
  "CFBitVectorSetAllBits bv value =
    (let nBuckets = bv_count bv div CF_BITS_PER_BUCKET;
         leftover = bv_count bv - nBuckets * CF_BITS_PER_BUCKET
     in bindS
       (if 0 < leftover then
          (if value \<noteq> 0 then map_unit bv (nBuckets * CF_BITS_PER_BUCKET) leftover CFBitVectorOneBits
           else map_unit bv (nBuckets * CF_BITS_PER_BUCKET) leftover CFBitVectorZeroBits)
        else Inr bv) (\<lambda>bv.
       bindS (copy_bytes (bv_buckets bv) (replicate nBuckets (if value \<noteq> 0 then NOT 0 else 0)) nBuckets) (\<lambda>buckets.
       Inr (bv\<lparr>bv_buckets := buckets\<rparr>))))"

declare get_bytes.simps [simp del] first_index_from.simps [simp del]

section \<open>The bits of a vector\<close>

definition bitat :: "u8 list \<Rightarrow> nat \<Rightarrow> bool" where
  "bitat buckets i = bit (buckets ! (i div 8)) (7 - i mod 8)"

definition bits :: "CFBitVector \<Rightarrow> bool list" where
  "bits bv = map (bitat (bv_buckets bv)) [0..<bv_count bv]"

definition bv_ok :: "CFBitVector \<Rightarrow> bool" where
  "bv_ok bv \<longleftrightarrow> length (bv_buckets bv) = CFBitVectorNumBuckets bv \<and> bv_count bv \<le> bv_capacity bv"

lemma length_bits [simp]: "length (bits bv) = bv_count bv"
  by (simp add: bits_def)

lemma nth_bits [simp]: "i < bv_count bv \<Longrightarrow> bits bv ! i = bitat (bv_buckets bv) i"
  by (simp add: bits_def)

lemma bv_ok_bound: "bv_ok bv \<Longrightarrow> bv_count bv < 8 * length (bv_buckets bv)"
  using dividend_less_times_div [of 8 "bv_capacity bv"]
  by (simp add: bv_ok_def CFBitVectorNumBuckets_def algebra_simps)

lemma bucket_of: "i < 8 * length bs \<Longrightarrow> i div 8 < length (bs :: u8 list)"
  by auto

section \<open>The plan of a range\<close>

text \<open>The buckets that the mapping visits, with the masks it uses.\<close>

definition plan :: "nat \<Rightarrow> nat \<Rightarrow> (nat \<times> u8) list" where
  "plan location len =
    (let j = location div 8; b = location mod 8 in
     if len = 0 then []
     else if b + len < 8 then [(j, CFBitBucketMask b (b + len - 1))]
     else
       let rest = len - (8 - b); n = rest div 8; r = rest mod 8
       in (j, CFBitBucketMask b 7) # map (\<lambda>i. (j + 1 + i, NOT 0)) [0..<n] @
          (if r \<noteq> 0 then [(j + 1 + n, CFBitBucketMask 0 (r - 1))] else []))"

primrec run_plan :: "'c mapper \<Rightarrow> (nat \<times> u8) list \<Rightarrow> u8 list \<times> 'c \<Rightarrow> bv_fault + (u8 list \<times> 'c)" where
  "run_plan mapper [] st = Inr st"
| "run_plan mapper (p # ps) st = bindS (map_bucket mapper (snd p) (fst p) st) (run_plan mapper ps)"

lemma bindS_assoc: "bindS (bindS m f) g = bindS m (\<lambda>x. bindS (f x) g)"
  by (cases m) auto

lemma run_plan_append: "run_plan mapper (ps @ qs) st = bindS (run_plan mapper ps st) (run_plan mapper qs)"
  by (induction ps arbitrary: st) (auto simp: bindS_assoc)

lemma map_whole_bucket:
  "map_whole_buckets mapper (Suc n) i st = bindS (map_bucket mapper (NOT 0) i st) (map_whole_buckets mapper n (i + 1))"
  by (cases st) (simp add: map_bucket_def bindS_assoc case_prod_beta)

lemma map_whole_buckets_plan:
  "map_whole_buckets mapper n i st = run_plan mapper (map (\<lambda>k. (i + k, NOT 0)) [0..<n]) st"
proof (induction n arbitrary: i st)
  case (Suc n)
  have "map (\<lambda>k. (i + k, NOT 0 :: u8)) [0..<Suc n] = (i, NOT 0) # map (\<lambda>k. (i + 1 + k, NOT 0)) [0..<n]"
    by (simp add: upt_conv_Cons map_Suc_upt [symmetric] del: upt_Suc)
  then show ?case using Suc.IH [of "i + 1"] by (simp add: map_whole_bucket del: map_whole_buckets.simps)
qed simp

lemma InternalMap_plan:
  "CFBitVectorInternalMap bv location len mapper context =
    bindS (run_plan mapper (plan location len) (bv_buckets bv, context))
      (\<lambda>(buckets, context). Inr (bv\<lparr>bv_buckets := buckets\<rparr>, context))"
proof (cases "len = 0 \<or> location mod 8 + len < 8")
  case True
  then show ?thesis by (auto simp: CFBitVectorInternalMap_def plan_def Let_def bindS_assoc)
next
  case False
  let ?rest = "len - (8 - location mod 8)"
  have r: "?rest - ?rest div 8 * 8 = ?rest mod 8" by (simp add: minus_div_mult_eq_mod)
  have c: "len = 0 \<longleftrightarrow> False" "location mod 8 + len < 8 \<longleftrightarrow> False" using False by simp_all
  show ?thesis
    unfolding CFBitVectorInternalMap_def plan_def Let_def c if_False prod.case r map_whole_buckets_plan
    by (cases "?rest mod 8 = 0") (simp_all add: bindS_assoc run_plan_append del: diff_diff_left)
qed

lemma bit_CFBitBucketMask:
  assumes "b \<le> t" "t < 8" "k < 8"
  shows "bit (CFBitBucketMask b t) k \<longleftrightarrow> b \<le> 7 - k \<and> 7 - k \<le> t"
  using assms by (auto simp: CFBitBucketMask_def Let_def bit_drop_bit_eq bit_push_bit_iff
    bit_not_iff bit_mask_iff)

lemma plan_mask:
  assumes "(j, m) \<in> set (plan location len)" "k < 8"
  shows "bit m k \<longleftrightarrow> location \<le> 8 * j + (7 - k) \<and> 8 * j + (7 - k) < location + len"
proof -
  define q b where "q = location div 8" and "b = location mod 8"
  have l: "location = 8 * q + b" "b < 8" by (simp_all add: q_def b_def)
  define n r where "n = (len - (8 - b)) div 8" and "r = (len - (8 - b)) mod 8"
  have r: "len - (8 - b) = 8 * n + r" "r < 8" by (simp_all add: n_def r_def)
  have "len \<noteq> 0" using assms(1) by (cases "len = 0") (simp_all add: plan_def)
  then consider "b + len < 8" "j = q" "m = CFBitBucketMask b (b + len - 1)"
    | "8 \<le> b + len" "j = q" "m = CFBitBucketMask b 7"
    | i where "8 \<le> b + len" "i < n" "j = q + 1 + i" "m = NOT 0"
    | "8 \<le> b + len" "r \<noteq> 0" "j = q + 1 + n" "m = CFBitBucketMask 0 (r - 1)"
    using assms(1) unfolding plan_def Let_def q_def [symmetric] b_def [symmetric] n_def [symmetric] r_def [symmetric]
    by (auto split: if_splits)
  then show ?thesis
  proof cases
    case 1
    then have "bit m k \<longleftrightarrow> b \<le> 7 - k \<and> 7 - k \<le> b + len - 1"
      using assms(2) \<open>len \<noteq> 0\<close> by (simp add: bit_CFBitBucketMask)
    then show ?thesis using 1(2) l \<open>len \<noteq> 0\<close> by auto
  next
    case 2
    then have "bit m k \<longleftrightarrow> b \<le> 7 - k" using assms(2) l(2) by (simp add: bit_CFBitBucketMask)
    then show ?thesis using 2(1,2) l by auto
  next
    case (3 i)
    then have "bit m k" using assms(2) by simp
    moreover have "8 * i + 8 \<le> 8 * n" using 3(2) by simp
    ultimately show ?thesis using 3(1,3) l r by simp
  next
    case 4
    then have "bit m k \<longleftrightarrow> 7 - k \<le> r - 1" using assms(2) r(2) by (simp add: bit_CFBitBucketMask)
    moreover have "location + len = 8 * j + r" "location \<le> 8 * j" using 4(1,3) l r by linarith+
    ultimately show ?thesis using 4(2) by auto
  qed
qed

lemma upt_blocks: "[j..<j + (1 + n + e)] = j # map (\<lambda>i. j + 1 + i) [0..<n] @ (if e = 0 then [] else [j + 1 + n..<j + 1 + n + e])"
proof -
  have "[j..<j + (1 + n + e)] = [j..<j + 1] @ [j + 1..<j + 1 + n] @ [j + 1 + n..<j + 1 + n + e]"
    by (metis add.assoc upt_add_eq_append le_add1)
  moreover have "map (\<lambda>i. j + 1 + i) [0..<n] = [j + 1..<j + 1 + n]"
    using map_add_upt [of "j + 1" n] by (simp add: add.commute)
  ultimately show ?thesis by simp
qed

lemma plan_indices: "map fst (plan location len) = [location div 8..<location div 8 + length (plan location len)]"
proof -
  define q b where "q = location div 8" and "b = location mod 8"
  define n r where "n = (len - (8 - b)) div 8" and "r = (len - (8 - b)) mod 8"
  show ?thesis
    unfolding plan_def Let_def q_def [symmetric] b_def [symmetric] n_def [symmetric] r_def [symmetric]
    using upt_blocks [of q n 0] upt_blocks [of q n 1] by (simp add: comp_def)
qed

lemma plan_end:
  assumes "len \<noteq> 0"
  shows "location div 8 + length (plan location len) = (location + len + 7) div 8"
proof -
  define q b where "q = location div 8" and "b = location mod 8"
  have l: "location = 8 * q + b" "b < 8" by (simp_all add: q_def b_def)
  define n r where "n = (len - (8 - b)) div 8" and "r = (len - (8 - b)) mod 8"
  have r: "len - (8 - b) = 8 * n + r" "r < 8" by (simp_all add: n_def r_def)
  have "q + length (plan location len) =
    (if b + len < 8 then q + 1 else if r = 0 then q + 1 + n else q + 2 + n)"
    unfolding plan_def Let_def q_def [symmetric] b_def [symmetric] n_def [symmetric] r_def [symmetric]
    using assms by simp
  also have "\<dots> = (location + len + 7) div 8"
  proof -
    have "(location + len + 7) div 8 = q + 1" if "b + len < 8"
    proof -
      have "location + len + 7 = (b + len - 1) + (q + 1) * 8" using that l assms by simp
      then show ?thesis using that by simp
    qed
    moreover have "(location + len + 7) div 8 = q + 1 + n" if "8 \<le> b + len" "r = 0"
    proof -
      have "location + len + 7 = 7 + (q + 1 + n) * 8" using that l r by simp
      then show ?thesis by simp
    qed
    moreover have "(location + len + 7) div 8 = q + 2 + n" if "8 \<le> b + len" "r \<noteq> 0"
    proof -
      have "location + len + 7 = (r - 1) + (q + 2 + n) * 8" using that l r by simp
      then show ?thesis using r(2) by simp
    qed
    ultimately show ?thesis by (simp add: not_less)
  qed
  finally show ?thesis by (simp add: q_def)
qed

lemma plan_bound:
  assumes "p \<in> set (plan location len)" "location + len \<le> 8 * n"
  shows "fst p < n"
proof -
  have "len \<noteq> 0" using assms(1) by (cases "len = 0") (simp_all add: plan_def)
  have "fst p \<in> set (map fst (plan location len))" using assms(1) by simp
  then have "fst p < (location + len + 7) div 8"
    unfolding plan_indices using plan_end [OF \<open>len \<noteq> 0\<close>] by simp
  also have "\<dots> \<le> n" using assms(2) by (simp add: less_mult_imp_div_less div_le_mono less_Suc_eq_le [symmetric])
  finally show ?thesis .
qed

lemma plan_covers:
  assumes "location \<le> i" "i < location + len"
  shows "\<exists>m. (i div 8, m) \<in> set (plan location len)"
proof -
  have "len \<noteq> 0" using assms by simp
  have "location div 8 \<le> i div 8" using assms by (simp add: div_le_mono)
  moreover have "i div 8 < (location + len + 7) div 8"
    using div_le_mono [of "i + 8" "location + len + 7" 8] assms by simp
  ultimately have "i div 8 \<in> set (map fst (plan location len))"
    unfolding plan_indices using plan_end [OF \<open>len \<noteq> 0\<close>] by simp
  then show ?thesis by force
qed

lemma plan_distinct: "distinct (map fst (plan location len))"
  by (simp add: plan_indices)

section \<open>Mappers that work bit by bit\<close>

text \<open>
  The contract between the mapping routine and the mappers that write: under its mask, a mapper returns
  the bits of the bucket with one function applied to each, and it never faults.
\<close>

locale bitwise_mapper =
  fixes mapper :: "unit mapper" and f :: "bool \<Rightarrow> bool"
  assumes mapper_bits: "\<exists>r. mapper b m () = Inr (r, ()) \<and> (\<forall>k < 8. bit m k \<longrightarrow> bit r k = f (bit b k))"
begin

lemma map_bucket_bits:
  assumes "j < length bs"
  shows "\<exists>b'. map_bucket mapper m j (bs, ()) = Inr (bs[j := b'], ()) \<and>
    (\<forall>k < 8. bit b' k = (if bit m k then f (bit (bs ! j) k) else bit (bs ! j) k))"
proof -
  obtain r where r: "mapper (bs ! j) m () = Inr (r, ())" "\<forall>k < 8. bit m k \<longrightarrow> bit r k = f (bit (bs ! j) k)"
    using mapper_bits by blast
  let ?b = "(bs ! j AND NOT m) OR (r AND m)"
  have "map_bucket mapper m j (bs, ()) = Inr (bs[j := ?b], ())"
    using assms r(1) by (simp add: map_bucket_def get_bucket_def put_bucket_def)
  moreover have "bit ?b k = (if bit m k then f (bit (bs ! j) k) else bit (bs ! j) k)" if "k < 8" for k
    using that r(2) by (auto simp: bit_and_iff bit_or_iff bit_not_iff)
  ultimately show ?thesis by blast
qed

lemma run_plan_bits:
  assumes "distinct (map fst ps)" "\<forall>p \<in> set ps. fst p < length bs"
  shows "\<exists>bs'. run_plan mapper ps (bs, ()) = Inr (bs', ()) \<and> length bs' = length bs \<and>
    (\<forall>j k. k < 8 \<longrightarrow> bit (bs' ! j) k =
      (if \<exists>m. (j, m) \<in> set ps \<and> bit m k then f (bit (bs ! j) k) else bit (bs ! j) k))"
  using assms
proof (induction ps arbitrary: bs)
  case (Cons p ps)
  obtain j m where p: "p = (j, m)" by (cases p)
  have j: "j < length bs" "\<And>m. (j, m) \<notin> set ps"
    using Cons.prems by (force simp: p)+
  obtain b' where b: "map_bucket mapper m j (bs, ()) = Inr (bs[j := b'], ())"
    "\<forall>k < 8. bit b' k = (if bit m k then f (bit (bs ! j) k) else bit (bs ! j) k)"
    using map_bucket_bits [OF j(1)] by blast
  obtain bs' where bs': "run_plan mapper ps (bs[j := b'], ()) = Inr (bs', ())" "length bs' = length bs"
    "\<forall>i k. k < 8 \<longrightarrow> bit (bs' ! i) k =
      (if \<exists>m. (i, m) \<in> set ps \<and> bit m k then f (bit (bs[j := b'] ! i) k) else bit (bs[j := b'] ! i) k)"
    using Cons.IH [of "bs[j := b']"] Cons.prems by (auto simp: p)
  have "bit (bs' ! i) k = (if \<exists>m. (i, m) \<in> set (p # ps) \<and> bit m k then f (bit (bs ! i) k) else bit (bs ! i) k)"
    if "k < 8" for i k
    using bs'(3) b(2) j that by (cases "i = j") (auto simp: p)
  then show ?case using b(1) bs'(1,2) by (simp add: p)
qed simp

lemma map_unit_bits:
  assumes "location + len \<le> 8 * length (bv_buckets bv)"
  shows "\<exists>bs. map_unit bv location len mapper = Inr (bv\<lparr>bv_buckets := bs\<rparr>) \<and>
    length bs = length (bv_buckets bv) \<and>
    (\<forall>i. bitat bs i = (if location \<le> i \<and> i < location + len then f (bitat (bv_buckets bv) i)
      else bitat (bv_buckets bv) i))"
proof -
  let ?bs = "bv_buckets bv" and ?ps = "plan location len"
  have "\<forall>p \<in> set ?ps. fst p < length ?bs" using plan_bound assms by blast
  from run_plan_bits [OF plan_distinct this] obtain bs
    where bs: "run_plan mapper ?ps (?bs, ()) = Inr (bs, ())" "length bs = length ?bs"
      "\<forall>j k. k < 8 \<longrightarrow> bit (bs ! j) k =
        (if \<exists>m. (j, m) \<in> set ?ps \<and> bit m k then f (bit (?bs ! j) k) else bit (?bs ! j) k)" by blast
  have "bitat bs i = (if location \<le> i \<and> i < location + len then f (bitat ?bs i) else bitat ?bs i)" for i
  proof -
    have k: "7 - i mod 8 < 8" "8 * (i div 8) + (7 - (7 - i mod 8)) = i" by simp_all
    have "(\<exists>m. (i div 8, m) \<in> set ?ps \<and> bit m (7 - i mod 8)) \<longleftrightarrow> location \<le> i \<and> i < location + len"
      using plan_mask [OF _ k(1), of "i div 8" _ location len] plan_covers [of location i len] unfolding k(2) by blast
    then show ?thesis using bs(3) k(1) by (simp add: bitat_def)
  qed
  then show ?thesis using bs(1,2) by (intro exI [of _ bs]) (simp add: map_unit_def InternalMap_plan)
qed

end

interpretation zero: bitwise_mapper CFBitVectorZeroBits "\<lambda>_. False"
  by unfold_locales (simp add: CFBitVectorZeroBits_def)

interpretation one: bitwise_mapper CFBitVectorOneBits "\<lambda>_. True"
  by unfold_locales (simp add: CFBitVectorOneBits_def)

interpretation flip: bitwise_mapper CFBitVectorFlipBits_mapper Not
  by unfold_locales (simp add: CFBitVectorFlipBits_mapper_def bit_xor_iff bit_not_iff)

section \<open>The bits after each operation\<close>

definition update_range :: "nat \<Rightarrow> nat \<Rightarrow> (bool \<Rightarrow> bool) \<Rightarrow> bool list \<Rightarrow> bool list" where
  "update_range location len f xs =
    take location xs @ map f (take len (drop location xs)) @ drop (location + len) xs"

lemma length_update_range [simp]: "location + len \<le> length xs \<Longrightarrow> length (update_range location len f xs) = length xs"
  by (simp add: update_range_def)

lemma nth_update_range:
  "location + len \<le> length xs \<Longrightarrow> i < length xs \<Longrightarrow>
    update_range location len f xs ! i = (if location \<le> i \<and> i < location + len then f (xs ! i) else xs ! i)"
  by (auto simp: update_range_def nth_append min_def)

lemma bits_eqI:
  "length xs = bv_count bv \<Longrightarrow> (\<And>i. i < bv_count bv \<Longrightarrow> bitat (bv_buckets bv) i = xs ! i) \<Longrightarrow> bits bv = xs"
  by (rule nth_equalityI) auto

lemma bits_update_range:
  assumes "location + len \<le> bv_count bv"
    and "\<forall>i. bitat bs i = (if location \<le> i \<and> i < location + len then f (bitat (bv_buckets bv) i)
      else bitat (bv_buckets bv) i)"
  shows "bits (bv\<lparr>bv_buckets := bs\<rparr>) = update_range location len f (bits bv)"
  by (rule bits_eqI) (use assms in \<open>simp_all add: nth_update_range\<close>)

lemma bv_ok_buckets: "bv_ok bv \<Longrightarrow> length bs = length (bv_buckets bv) \<Longrightarrow> bv_ok (bv\<lparr>bv_buckets := bs\<rparr>)"
  by (simp add: bv_ok_def CFBitVectorNumBuckets_def)

text \<open>An operation that keeps the count and rewrites a range.\<close>

definition updates :: "bv_fault + CFBitVector \<Rightarrow> CFBitVector \<Rightarrow> bool list \<Rightarrow> bool" where
  "updates r bv xs \<longleftrightarrow> (\<exists>bv'. r = Inr bv' \<and> bv_ok bv' \<and> bits bv' = xs \<and> bv_mutable bv' = bv_mutable bv)"

lemma SetBits_correct:
  assumes "bv_ok bv" "location + len \<le> bv_count bv"
  shows "updates (CFBitVectorSetBits bv location len value) bv
    (update_range location len (\<lambda>_. value \<noteq> 0) (bits bv))"
proof -
  have b: "location + len \<le> 8 * length (bv_buckets bv)" using bv_ok_bound [OF assms(1)] assms(2) by simp
  have "update_range location 0 f xs = xs" for f xs by (simp add: update_range_def)
  then show ?thesis
    using one.map_unit_bits [OF b] zero.map_unit_bits [OF b] bv_ok_buckets [OF assms(1)]
      bits_update_range [OF assms(2), where f = "\<lambda>_. True"] bits_update_range [OF assms(2), where f = "\<lambda>_. False"] assms(1)
    by (cases "value = 0"; cases "len = 0") (auto simp: CFBitVectorSetBits_def updates_def)
qed

lemma FlipBits_correct:
  assumes "bv_ok bv" "location + len \<le> bv_count bv"
  shows "updates (CFBitVectorFlipBits bv location len) bv (update_range location len Not (bits bv))"
proof -
  have b: "location + len \<le> 8 * length (bv_buckets bv)" using bv_ok_bound [OF assms(1)] assms(2) by simp
  have "update_range location 0 f xs = xs" for f xs by (simp add: update_range_def)
  then show ?thesis
    using flip.map_unit_bits [OF b] bv_ok_buckets [OF assms(1)] bits_update_range [OF assms(2), where f = Not] assms(1)
    by (cases "len = 0") (auto simp: CFBitVectorFlipBits_def updates_def)
qed

lemma bitat_put:
  assumes "i div 8 < length bs" "\<forall>k < 8. bit b k = (if k = 7 - i mod 8 then v else bit (bs ! (i div 8)) k)"
  shows "bitat (bs[i div 8 := b]) n = (if n = i then v else bitat bs n)"
proof (cases "n div 8 = i div 8")
  case True
  have "n mod 8 < 8" "i mod 8 < 8" by simp_all
  then have "7 - n mod 8 = 7 - i mod 8 \<longleftrightarrow> n mod 8 = i mod 8" by linarith
  also have "\<dots> \<longleftrightarrow> n = i" using True by (metis div_mult_mod_eq)
  finally show ?thesis using assms True by (simp add: bitat_def)
qed (auto simp: bitat_def)

lemma bit_single: "bit (2 ^ k :: u8) n \<longleftrightarrow> n = k \<and> k < 8"
  by (auto simp: bit_exp_iff)

lemma SetBitAtIndex_correct:
  assumes "bv_ok bv" "idx < bv_count bv"
  shows "updates (CFBitVectorSetBitAtIndex bv idx value) bv ((bits bv)[idx := (value \<noteq> 0)])"
proof -
  let ?bs = "bv_buckets bv"
  have i: "idx div 8 < length ?bs" using bv_ok_bound [OF assms(1)] assms(2) by (intro bucket_of) simp
  define b where "b = (if value \<noteq> 0 then ?bs ! (idx div 8) OR push_bit (7 - idx mod 8) 1
    else ?bs ! (idx div 8) AND NOT (push_bit (7 - idx mod 8) 1))"
  have "CFBitVectorSetBitAtIndex bv idx value = Inr (bv\<lparr>bv_buckets := ?bs[idx div 8 := b]\<rparr>)"
    using i by (simp add: CFBitVectorSetBitAtIndex_def CFSetBitVectorBit_def Let_def get_bucket_def put_bucket_def b_def)
  moreover have "\<forall>k < 8. bit b k = (if k = 7 - idx mod 8 then value \<noteq> 0 else bit (?bs ! (idx div 8)) k)"
    by (auto simp: b_def bit_or_iff bit_and_iff bit_not_iff bit_single)
  note bitat_put [OF i this]
  then have "bits (bv\<lparr>bv_buckets := ?bs[idx div 8 := b]\<rparr>) = (bits bv)[idx := (value \<noteq> 0)]"
    by (intro bits_eqI) (simp_all add: nth_list_update)
  ultimately show ?thesis using bv_ok_buckets [OF assms(1)] by (simp add: updates_def)
qed

lemma FlipBitAtIndex_correct:
  assumes "bv_ok bv" "idx < bv_count bv"
  shows "updates (CFBitVectorFlipBitAtIndex bv idx) bv ((bits bv)[idx := \<not> bits bv ! idx])"
proof -
  let ?bs = "bv_buckets bv"
  have i: "idx div 8 < length ?bs" using bv_ok_bound [OF assms(1)] assms(2) by (intro bucket_of) simp
  define b where "b = ?bs ! (idx div 8) XOR push_bit (7 - idx mod 8) 1"
  have "CFBitVectorFlipBitAtIndex bv idx = Inr (bv\<lparr>bv_buckets := ?bs[idx div 8 := b]\<rparr>)"
    using i by (simp add: CFBitVectorFlipBitAtIndex_def CFFlipBitVectorBit_def Let_def get_bucket_def put_bucket_def b_def)
  moreover have "\<forall>k < 8. bit b k = (if k = 7 - idx mod 8 then \<not> bitat ?bs idx else bit (?bs ! (idx div 8)) k)"
    by (auto simp: b_def bit_xor_iff bit_single bitat_def)
  note bitat_put [OF i this]
  then have "bits (bv\<lparr>bv_buckets := ?bs[idx div 8 := b]\<rparr>) = (bits bv)[idx := \<not> bits bv ! idx]"
    using assms(2) by (intro bits_eqI) (simp_all add: nth_list_update)
  ultimately show ?thesis using bv_ok_buckets [OF assms(1)] by (simp add: updates_def)
qed

lemma roundup_ge: "n \<le> CFBitVectorRoundUpCapacity n"
proof -
  have "m \<le> (m + 63) div 64 * 64" for m :: nat
    using div_mult_mod_eq [of "m + 63" 64] mod_less_divisor [of 64 "m + 63"] by linarith
  then show ?thesis by (simp add: CFBitVectorRoundUpCapacity_def)
qed

subsection \<open>Creating\<close>

lemma bitat_append: "i < 8 * length xs \<Longrightarrow> bitat (xs @ ys) i = bitat xs i"
  by (simp add: bitat_def nth_append less_mult_imp_div_less mult.commute)

lemma bitat_take: "i < 8 * n \<Longrightarrow> bitat (take n xs) i = bitat xs i"
  by (simp add: bitat_def less_mult_imp_div_less mult.commute)

lemma bytes_for_bound: "numBits \<le> 8 * bytes_for numBits" "bytes_for numBits \<le> numBits div 8 + 1"
  by (auto simp: bytes_for_def)

lemma Init_correct:
  assumes "alloc 24" "\<And>n. alloc n"
    and "\<And>bs. bytes = Some bs \<Longrightarrow> bytes_for numBits \<le> length bs"
  shows "\<exists>bv. CFBitVectorInit alloc mutable capacity bytes numBits = Inr (Some bv) \<and> bv_ok bv \<and>
    bv_mutable bv = mutable \<and>
    bits bv = (case bytes of None \<Rightarrow> replicate numBits False | Some bs \<Rightarrow> map (bitat bs) [0..<numBits])"
proof -
  define n where "n = CFBitVectorRoundUpCapacity numBits div 8 + 1"
  have n: "bytes_for numBits \<le> n"
    using bytes_for_bound(2) [of numBits] div_le_mono [OF roundup_ge, of numBits 8] by (simp add: n_def)
  have "numBits < 8 * n"
    using roundup_ge [of numBits] dividend_less_times_div [of 8 "CFBitVectorRoundUpCapacity numBits"] by (simp add: n_def)
  then have z: "bitat (replicate n 0) i = False" if "i < numBits" for i
    using that by (simp add: bitat_def less_mult_imp_div_less mult.commute)
  define new where "new = (case bytes of None \<Rightarrow> replicate n 0
    | Some bs \<Rightarrow> take (bytes_for numBits) bs @ drop (bytes_for numBits) (replicate n 0))"
  let ?bv = "\<lparr>bv_count = numBits, bv_capacity = CFBitVectorRoundUpCapacity numBits, bv_buckets = new, bv_mutable = mutable\<rparr>"
  have "CFBitVectorInit alloc mutable capacity bytes numBits = Inr (Some ?bv)"
    using assms n unfolding n_def
    by (cases bytes) (simp_all add: CFBitVectorInit_def Let_def CFBitVectorNumBuckets_def copy_bytes_def new_def n_def)
  moreover have "bv_ok ?bv"
    using assms(3) n roundup_ge by (auto simp: bv_ok_def CFBitVectorNumBuckets_def new_def n_def split: option.splits)
  moreover have "bits ?bv = (case bytes of None \<Rightarrow> replicate numBits False | Some bs \<Rightarrow> map (bitat bs) [0..<numBits])"
  proof (rule bits_eqI)
    fix i assume "i < bv_count ?bv"
    then have i: "i < numBits" "i < 8 * bytes_for numBits" using bytes_for_bound(1) [of numBits] by simp_all
    show "bitat (bv_buckets ?bv) i = (case bytes of None \<Rightarrow> replicate numBits False
        | Some bs \<Rightarrow> map (bitat bs) [0..<numBits]) ! i"
    proof (cases bytes)
      case (Some bs)
      then have "length (take (bytes_for numBits) bs) = bytes_for numBits" using assms(3) by simp
      then show ?thesis using i Some by (simp add: new_def bitat_append bitat_take)
    qed (use i z in \<open>simp add: new_def\<close>)
  qed (simp split: option.split)
  ultimately show ?thesis by auto
qed

subsection \<open>Resizing and filling\<close>

text \<open>What is relied on of \<open>CFAllocatorReallocate\<close>: it succeeds with a block of the new size that keeps the
  old contents.\<close>

definition realloc_ok :: "reallocator \<Rightarrow> bool" where
  "realloc_ok realloc \<longleftrightarrow> (\<forall>bs n. \<exists>bs'. realloc bs n = Some bs' \<and> length bs' = n \<and>
    take (min n (length bs)) bs' = take (min n (length bs)) bs)"

lemma SetCount_correct:
  assumes "bv_ok bv" "bv_mutable bv" "realloc_ok realloc"
  shows "\<exists>bv'. CFBitVectorSetCount realloc bv n = Inr bv' \<and> bv_ok bv' \<and> bv_mutable bv' \<and>
    bits bv' = take n (bits bv) @ replicate (n - length (bits bv)) False"
proof (cases "bv_count bv < n")
  case False
  then have "CFBitVectorSetCount realloc bv n = Inr (bv\<lparr>bv_count := n\<rparr>)"
    by (simp add: CFBitVectorSetCount_def)
  moreover have "bits (bv\<lparr>bv_count := n\<rparr>) = take n (bits bv)" by (rule bits_eqI) (use False in simp_all)
  ultimately show ?thesis using assms(1,2) False by (auto simp: bv_ok_def CFBitVectorNumBuckets_def)
next
  case True
  let ?cap = "CFBitVectorRoundUpCapacity n"
  let ?m = "min (?cap div 8 + 1) (length (bv_buckets bv))"
  obtain bs where bs: "realloc (bv_buckets bv) (?cap div 8 + 1) = Some bs" "length bs = ?cap div 8 + 1"
    "take ?m bs = take ?m (bv_buckets bv)" using assms(3) by (auto simp: realloc_ok_def)
  let ?bv = "bv\<lparr>bv_capacity := ?cap, bv_buckets := bs\<rparr>"
  have g: "CFBitVectorGrow realloc bv (n - bv_count bv) = Inr ?bv"
    using True bs(1) by (simp add: CFBitVectorGrow_def CFBitVectorNumBuckets_def)
  have c: "?cap < 8 * length bs" using bs(2) dividend_less_times_div [of 8 ?cap] by simp
  then have "bv_count bv + (n - bv_count bv) \<le> 8 * length (bv_buckets ?bv)" using roundup_ge [of n] True by simp
  from zero.map_unit_bits [OF this] obtain bs' where
    m: "map_unit ?bv (bv_count bv) (n - bv_count bv) CFBitVectorZeroBits = Inr (?bv\<lparr>bv_buckets := bs'\<rparr>)"
    "length bs' = length bs"
    "\<forall>i. bitat bs' i = (if bv_count bv \<le> i \<and> i < n then False else bitat bs i)"
    using True by auto
  let ?r = "?bv\<lparr>bv_buckets := bs', bv_count := n\<rparr>"
  have old: "bitat bs i = bitat (bv_buckets bv) i" if "i < bv_count bv" for i
  proof -
    have "i < 8 * ?m" using that True c bs(2) roundup_ge [of n] bv_ok_bound [OF assms(1)] by (simp add: min_def)
    then show ?thesis using bitat_take [of i ?m bs] bitat_take [of i ?m "bv_buckets bv"] bs(3) by simp
  qed
  have "bits ?r = bits bv @ replicate (n - bv_count bv) False"
    by (rule bits_eqI) (use True m(3) old in \<open>auto simp: nth_append\<close>)
  moreover have "bv_ok ?r" using m(2) bs(2) roundup_ge [of n] by (simp add: bv_ok_def CFBitVectorNumBuckets_def)
  ultimately show ?thesis using True assms(2) g m(1) by (auto simp: CFBitVectorSetCount_def)
qed

lemma SetAllBits_correct:
  assumes "bv_ok bv"
  shows "updates (CFBitVectorSetAllBits bv value) bv (replicate (bv_count bv) (value \<noteq> 0))"
proof -
  let ?n = "bv_count bv div 8" and ?r = "bv_count bv - bv_count bv div 8 * 8"
  have l: "?n * 8 + ?r = bv_count bv" by simp
  have b: "?n * 8 + ?r \<le> 8 * length (bv_buckets bv)" using bv_ok_bound [OF assms] l by linarith
  have "\<exists>bs. (if 0 < ?r then
          (if value \<noteq> 0 then map_unit bv (?n * 8) ?r CFBitVectorOneBits
           else map_unit bv (?n * 8) ?r CFBitVectorZeroBits)
        else Inr bv) = Inr (bv\<lparr>bv_buckets := bs\<rparr>) \<and> length bs = length (bv_buckets bv) \<and>
      (\<forall>i. ?n * 8 \<le> i \<and> i < bv_count bv \<longrightarrow> bitat bs i = (value \<noteq> 0))"
  proof (cases "0 < ?r")
    case True
    then show ?thesis using one.map_unit_bits [OF b] zero.map_unit_bits [OF b] unfolding l
      by (cases "value = 0") auto
  next
    case False
    then show ?thesis using l by (intro exI [of _ "bv_buckets bv"]) auto
  qed
  then obtain bs where bs: "(if 0 < ?r then
          (if value \<noteq> 0 then map_unit bv (?n * 8) ?r CFBitVectorOneBits
           else map_unit bv (?n * 8) ?r CFBitVectorZeroBits)
        else Inr bv) = Inr (bv\<lparr>bv_buckets := bs\<rparr>)" "length bs = length (bv_buckets bv)"
      "\<forall>i. ?n * 8 \<le> i \<and> i < bv_count bv \<longrightarrow> bitat bs i = (value \<noteq> 0)" by blast
  let ?f = "replicate ?n (if value \<noteq> 0 then NOT 0 else 0) :: u8 list"
  let ?bs = "?f @ drop ?n bs"
  have n: "?n < length bs" using bucket_of [OF bv_ok_bound [OF assms]] bs(2) by simp
  have "bitat ?bs i = (value \<noteq> 0)" if "i < bv_count bv" for i
  proof (cases "i < ?n * 8")
    case True
    then have "bitat ?bs i = bitat ?f i" by (intro bitat_append) simp
    also have "\<dots> = (value \<noteq> 0)"
    proof -
      have "7 - i mod 8 < 8" by simp
      then show ?thesis using True by (simp add: bitat_def less_mult_imp_div_less del: diff_less)
    qed
    finally show ?thesis .
  next
    case False
    then have "?n \<le> i div 8" using div_le_mono [of "?n * 8" i 8] by simp
    then have "bitat ?bs i = bitat bs i" using n by (simp add: bitat_def nth_append)
    then show ?thesis using bs(3) that False by simp
  qed
  then have "bits (bv\<lparr>bv_buckets := ?bs\<rparr>) = replicate (bv_count bv) (value \<noteq> 0)" by (intro bits_eqI) simp_all
  moreover have "CFBitVectorSetAllBits bv value = Inr (bv\<lparr>bv_buckets := ?bs\<rparr>)"
    using n unfolding CFBitVectorSetAllBits_def Let_def bs(1) by (simp add: copy_bytes_def)
  ultimately show ?thesis using bv_ok_buckets [OF assms, of ?bs] n bs(2) by (simp add: updates_def)
qed

subsection \<open>Reading\<close>

definition cfbit :: "bool \<Rightarrow> CFBit" where
  "cfbit b = (if b then 1 else 0)"

lemma GetBitAtIndex_correct:
  assumes "bv_ok bv" "idx < bv_count bv"
  shows "CFBitVectorGetBitAtIndex bv idx = Inr (cfbit (bits bv ! idx))"
proof -
  have i: "idx div 8 < length (bv_buckets bv)" using bv_ok_bound [OF assms(1)] assms(2) by (intro bucket_of) simp
  have "drop_bit k b AND 1 = (if bit b k then 1 else 0)" for k and b :: u8
    by (simp add: and_one_eq bit_iff_odd_drop_bit mod2_eq_if)
  then show ?thesis using i assms(2)
    by (simp add: CFBitVectorGetBitAtIndex_def CFBitVectorBit_def Let_def get_bucket_def cfbit_def bitat_def)
qed

lemma first_index_correct:
  assumes "bv_ok bv" "location + len \<le> bv_count bv"
  shows "first_index_from bv location len (cfbit v) idx =
    Inr (find (\<lambda>i. bits bv ! i = v) [location + idx..<location + len])"
proof (induction "len - idx" arbitrary: idx)
  case 0
  then show ?case by (subst first_index_from.simps) simp
next
  case (Suc n)
  then have "idx < len" "n = len - Suc idx" by simp_all
  moreover have "cfbit v = cfbit w \<longleftrightarrow> v = w" for w by (simp add: cfbit_def)
  ultimately show ?case
    using Suc.hyps(1) [of "Suc idx"] GetBitAtIndex_correct [OF assms(1), of "location + idx"] assms(2)
    by (subst first_index_from.simps) (auto simp: upt_conv_Cons)
qed

lemma last_index_correct:
  assumes "bv_ok bv" "location + idx \<le> bv_count bv"
  shows "last_index_from bv location (cfbit v) idx =
    Inr (find (\<lambda>i. bits bv ! i = v) (rev [location..<location + idx]))"
  using assms(2)
proof (induction idx)
  case (Suc idx)
  moreover have "cfbit v = cfbit w \<longleftrightarrow> v = w" for w by (simp add: cfbit_def)
  ultimately show ?case using GetBitAtIndex_correct [OF assms(1), of "location + idx"] by auto
qed simp

subsection \<open>Counting\<close>

definition count_in :: "u8 \<Rightarrow> u8 \<Rightarrow> bool \<Rightarrow> nat" where
  "count_in b m v = (\<Sum>k < 8. of_bool (bit m k \<and> bit b k = v))"

lemma nibble_count:
  "CFNibbleBitCount ! unat (w AND 0xf) + CFNibbleBitCount ! unat (drop_bit 4 w AND 0xf) =
    length (filter (bit w) [0, 1, 2, 3, 4, 5, 6, 7])" for w :: u8
  by (rule u8_all) code_simp

lemma nibble_count_sum:
  "CFNibbleBitCount ! unat (w AND 0xf) + CFNibbleBitCount ! unat (drop_bit 4 w AND 0xf) =
    (\<Sum>k < 8. of_bool (bit w k))" for w :: u8
  unfolding nibble_count by (simp add: lessThan_nat_numeral lessThan_Suc of_bool_def)

lemma CountBits_count:
  "CFBitVectorCountBits b m \<lparr>oc_value = cfbit v, oc_count = n\<rparr> =
    Inr (b, \<lparr>oc_value = cfbit v, oc_count = n + count_in b m v\<rparr>)"
proof -
  let ?w = "if cfbit v \<noteq> 0 then b AND m else NOT b AND m"
  have "bit ?w k \<longleftrightarrow> bit m k \<and> bit b k = v" if "k < 8" for k
    using that by (auto simp: cfbit_def bit_and_iff bit_not_iff)
  then have "(\<Sum>k < 8. of_bool (bit ?w k)) = count_in b m v"
    unfolding count_in_def by (intro sum.cong) auto
  then show ?thesis using nibble_count_sum [of ?w] by (simp add: CFBitVectorCountBits_def Let_def)
qed

lemma run_plan_count:
  assumes "\<forall>p \<in> set ps. fst p < length bs"
  shows "run_plan CFBitVectorCountBits ps (bs, \<lparr>oc_value = cfbit v, oc_count = n\<rparr>) =
    Inr (bs, \<lparr>oc_value = cfbit v, oc_count = n + (\<Sum>(j, m) \<leftarrow> ps. count_in (bs ! j) m v)\<rparr>)"
  using assms
proof (induction ps arbitrary: n)
  case (Cons p ps)
  have "(b AND NOT m) OR (b AND m) = b" for b m :: u8
    by (rule bit_word_eqI) (auto simp: bit_and_iff bit_or_iff bit_not_iff)
  then have "map_bucket CFBitVectorCountBits (snd p) (fst p) (bs, \<lparr>oc_value = cfbit v, oc_count = n\<rparr>) =
    Inr (bs, \<lparr>oc_value = cfbit v, oc_count = n + count_in (bs ! fst p) (snd p) v\<rparr>)"
    using Cons.prems by (simp add: map_bucket_def get_bucket_def put_bucket_def CountBits_count)
  then show ?case using Cons by (simp add: case_prod_beta)
qed simp

lemma sum_blocks:
  "(\<Sum>j \<leftarrow> [q..<q + n]. \<Sum>k < 8. g (8 * j + k)) = (\<Sum>i \<in> {8 * q..<8 * (q + n)}. g i)" for g :: "nat \<Rightarrow> nat"
proof (induction n)
  case (Suc n)
  have "(\<Sum>k < 8. g (8 * (q + n) + k)) = (\<Sum>i \<in> {8 * (q + n)..<8 * (q + n) + 8}. g i)"
    by (rule sum.reindex_bij_witness [where i = "\<lambda>i. i - 8 * (q + n)" and j = "\<lambda>k. 8 * (q + n) + k"]) auto
  then show ?case
    using Suc sum.atLeastLessThan_concat [of "8 * q" "8 * (q + n)" "8 * (q + n) + 8" g]
    by (simp add: add.commute)
qed simp

lemma count_in_mask:
  assumes "(j, m) \<in> set (plan location len)"
  shows "count_in (bs ! j) m v =
    (\<Sum>k < 8. of_bool (location \<le> 8 * j + k \<and> 8 * j + k < location + len \<and> bitat bs (8 * j + k) = v))"
proof -
  let ?h = "\<lambda>k. of_bool (location \<le> 8 * j + k \<and> 8 * j + k < location + len \<and> bitat bs (8 * j + k) = v) :: nat"
  have "of_bool (bit m k \<and> bit (bs ! j) k = v) = ?h (7 - k)" if "k < 8" for k
  proof -
    have "7 - k < 8" "7 - (7 - k) = k" using that by simp_all
    then have "bitat bs (8 * j + (7 - k)) = bit (bs ! j) k"
      by (simp only: bitat_def div_mult_self4 mod_mult_self4 div_less mod_less add_0_right zero_neq_numeral not_False_eq_True)
    then show ?thesis using plan_mask [OF assms that] by (simp only: conj_assoc)
  qed
  then have "count_in (bs ! j) m v = (\<Sum>k < 8. ?h (8 - Suc k))"
    unfolding count_in_def by (intro sum.cong) auto
  also have "\<dots> = (\<Sum>k < 8. ?h k)" by (rule sum.nat_diff_reindex)
  finally show ?thesis .
qed

lemma plan_count:
  "(\<Sum>(j, m) \<leftarrow> plan location len. count_in (bs ! j) m v) =
    (\<Sum>i \<in> {location..<location + len}. of_bool (bitat bs i = v))"
proof (cases "len = 0")
  case False
  define g where "g i = (of_bool (location \<le> i \<and> i < location + len \<and> bitat bs i = v) :: nat)" for i
  let ?q = "location div 8" and ?n = "length (plan location len)"
  have "(\<Sum>(j, m) \<leftarrow> plan location len. count_in (bs ! j) m v) =
      (\<Sum>j \<leftarrow> map fst (plan location len). \<Sum>k < 8. g (8 * j + k))"
    by (simp add: comp_def case_prod_beta g_def count_in_mask cong: map_cong)
  also have "\<dots> = (\<Sum>i \<in> {8 * ?q..<8 * (?q + ?n)}. g i)" unfolding plan_indices by (rule sum_blocks)
  also have "\<dots> = (\<Sum>i \<in> {location..<location + len}. g i)"
  proof (rule sum.mono_neutral_right)
    have "location + len \<le> 8 * ((location + len + 7) div 8)" using div_mult_mod_eq [of "location + len + 7" 8]
      mod_less_divisor [of 8 "location + len + 7"] by linarith
    then show "{location..<location + len} \<subseteq> {8 * ?q..<8 * (?q + ?n)}" using plan_end [OF False, of location] by auto
  qed (auto simp: g_def)
  finally show ?thesis by (simp add: g_def)
qed (simp add: plan_def)

lemma count_filter: "(\<Sum>i \<in> {a..<a + n}. of_bool (P i)) = length (filter P [a..<a + n])" for P :: "nat \<Rightarrow> bool"
  by (induction n) auto

lemma GetCountOfBit_correct:
  assumes "bv_ok bv" "location + len \<le> bv_count bv"
  shows "CFBitVectorGetCountOfBit bv location len (cfbit v) =
    Inr (bv, length (filter (\<lambda>b. b = v) (take len (drop location (bits bv)))))"
proof -
  let ?bs = "bv_buckets bv"
  have "location + len \<le> 8 * length ?bs" using bv_ok_bound [OF assms(1)] assms(2) by simp
  then have p: "\<forall>p \<in> set (plan location len). fst p < length ?bs" using plan_bound by blast
  have "take len (drop location (bits bv)) = map (bitat ?bs) [location..<location + len]"
    using assms(2) by (simp add: bits_def drop_map take_map)
  then have "(\<Sum>i \<in> {location..<location + len}. of_bool (bitat ?bs i = v)) =
      length (filter (\<lambda>b. b = v) (take len (drop location (bits bv))))"
    by (simp add: count_filter filter_map comp_def)
  then show ?thesis
    by (simp add: CFBitVectorGetCountOfBit_def InternalMap_plan run_plan_count [OF p] plan_count)
qed

lemma ContainsBit_correct:
  assumes "bv_ok bv" "location + len \<le> bv_count bv"
  shows "CFBitVectorContainsBit bv location len (cfbit v) = Inr (bv, v \<in> set (take len (drop location (bits bv))))"
  using GetCountOfBit_correct [OF assms, of v]
  by (auto simp: CFBitVectorContainsBit_def filter_empty_conv)

subsection \<open>Comparing\<close>

lemma equal_buckets_correct:
  assumes "idx + n \<le> length b1" "idx + n \<le> length b2"
  shows "equal_buckets b1 b2 idx n = Inr (\<forall>i. idx \<le> i \<and> i < idx + n \<longrightarrow> b1 ! i = b2 ! i)"
  using assms
proof (induction n arbitrary: idx)
  case (Suc n)
  have "(\<forall>i. idx \<le> i \<and> i < idx + Suc n \<longrightarrow> P i) \<longleftrightarrow> P idx \<and> (\<forall>i. Suc idx \<le> i \<and> i < Suc idx + n \<longrightarrow> P i)" for P
    by (metis Suc_leI add_Suc_shift leD le_add1 le_eq_less_or_eq less_Suc_eq_le not_less_eq_eq)
  then show ?case using Suc by (auto simp: get_bucket_def)
qed auto

lemma bv_ok_buckets_count:
  assumes "bv_ok bv"
  shows "bv_count bv div 8 + 1 \<le> length (bv_buckets bv)"
  using assms div_le_mono [of "bv_count bv" "bv_capacity bv" 8] by (simp add: bv_ok_def CFBitVectorNumBuckets_def)

lemma Equal_correct:
  assumes "bv_ok bv1" "bv_ok bv2"
  shows "CFBitVectorEqual bv1 bv2 = Inr (bv_count bv1 = bv_count bv2 \<and>
    (bv_count bv1 = 0 \<or> (\<forall>j \<le> bv_count bv1 div 8. bv_buckets bv1 ! j = bv_buckets bv2 ! j)))"
proof (cases "bv_count bv1 = bv_count bv2 \<and> bv_count bv1 \<noteq> 0")
  case True
  then have "equal_buckets (bv_buckets bv1) (bv_buckets bv2) 0 (bv_count bv1 div 8 + 1) =
      Inr (\<forall>i. 0 \<le> i \<and> i < 0 + (bv_count bv1 div 8 + 1) \<longrightarrow> bv_buckets bv1 ! i = bv_buckets bv2 ! i)"
    using bv_ok_buckets_count [OF assms(1)] bv_ok_buckets_count [OF assms(2)]
    by (intro equal_buckets_correct) (simp_all add: Suc_le_eq)
  then show ?thesis using True by (simp add: CFBitVectorEqual_def Let_def less_Suc_eq_le del: equal_buckets.simps)
qed (auto simp: CFBitVectorEqual_def Let_def)

subsection \<open>Copying bits out\<close>

definition masked :: "u8 list \<Rightarrow> (nat \<times> u8) list \<Rightarrow> u8 list" where
  "masked bs ps = map (\<lambda>(j, m). bs ! j AND m) ps"

lemma GetBits_bucket:
  assumes "gb_initBits c = 0" "0 < gb_totalBits c" "gb_cur c < length (gb_bytes c)" "j < length bs"
  shows "map_bucket CFBitVectorGetBits_mapper m j (bs, c) =
    (let c' = c\<lparr>gb_bytes := (gb_bytes c)[gb_cur c := bs ! j AND m]\<rparr> in
     Inr (bs, if 8 \<le> gb_totalBits c then c'\<lparr>gb_cur := gb_cur c + 1\<rparr> else c'\<lparr>gb_totalBits := 0\<rparr>))"
proof -
  have b: "(b AND NOT m) OR (b AND m) = b" for b m :: u8
    by (rule bit_word_eqI) (auto simp: bit_and_iff bit_or_iff bit_not_iff)
  have g: "get_bytes 0 0 x = Inr x" for x by (subst get_bytes.simps) simp
  show ?thesis
    using assms
    by (auto simp: map_bucket_def get_bucket_def put_bucket_def CFBitVectorGetBits_mapper_def Let_def
      get_bytes.simps [of "bs ! j AND m"] store_byte_def min_def b g)
qed

lemma run_plan_GetBits:
  assumes "gb_initBits c = 0" "8 \<le> gb_totalBits c" "gb_cur c + length ps \<le> length (gb_bytes c)"
    "\<forall>p \<in> set ps. fst p < length bs"
  shows "run_plan CFBitVectorGetBits_mapper ps (bs, c) =
    Inr (bs, c\<lparr>gb_cur := gb_cur c + length ps, gb_bytes := take (gb_cur c) (gb_bytes c) @ masked bs ps @
      drop (gb_cur c + length ps) (gb_bytes c)\<rparr>)"
  using assms
proof (induction ps arbitrary: c)
  case (Cons p ps)
  obtain j m where p: "p = (j, m)" by (cases p)
  let ?c = "c\<lparr>gb_bytes := (gb_bytes c)[gb_cur c := bs ! j AND m], gb_cur := gb_cur c + 1\<rparr>"
  have "map_bucket CFBitVectorGetBits_mapper m j (bs, c) = Inr (bs, ?c)"
    using Cons.prems by (subst GetBits_bucket) (auto simp: p Let_def)
  moreover have "take (gb_cur c + 1) ((gb_bytes c)[gb_cur c := bs ! j AND m]) =
      take (gb_cur c) (gb_bytes c) @ [bs ! j AND m]"
    using Cons.prems(3) by (simp add: take_Suc_conv_app_nth)
  ultimately show ?case using Cons.IH [of ?c] Cons.prems by (simp add: p masked_def)
qed (simp add: masked_def)

lemma bitat_masked:
  assumes "location mod 8 = 0" "i < 8 * length (plan location len)"
  shows "bitat (masked bs (plan location len) @ r) i \<longleftrightarrow> i < len \<and> bitat bs (location + i)"
proof -
  let ?j = "i div 8"
  have j: "?j < length (plan location len)" using assms(2) by auto
  obtain m where m: "plan location len ! ?j = (location div 8 + ?j, m)"
    using arg_cong [OF plan_indices, of "\<lambda>xs. xs ! ?j" location len] j by (cases "plan location len ! ?j") auto
  have l: "location = 8 * (location div 8)" using assms(1) by auto
  have k: "7 - i mod 8 < 8" by simp
  have e: "8 * (location div 8 + ?j) + (7 - (7 - i mod 8)) = location + i"
    using l by (simp add: algebra_simps)
  have "bit m (7 - i mod 8) \<longleftrightarrow> i < len"
    using plan_mask [OF nth_mem [OF j, unfolded m] k] unfolding e by simp
  moreover have "(location + i) div 8 = location div 8 + ?j" "(location + i) mod 8 = i mod 8"
    using assms(1) by (auto simp: div_add1_eq mod_add_eq [symmetric, of location])
  ultimately show ?thesis
    using j m by (simp add: bitat_def masked_def nth_append bit_and_iff conj_commute)
qed

lemma GetBits_correct:
  assumes "bv_ok bv" "location + len \<le> bv_count bv" "location mod 8 = 0" "(len + 7) div 8 \<le> length bytes"
  shows "\<exists>bytes'. CFBitVectorGetBits bv location len bytes = Inr (bv, bytes') \<and> length bytes' = length bytes \<and>
    (\<forall>i < 8 * ((len + 7) div 8). bitat bytes' i \<longleftrightarrow> i < len \<and> bits bv ! (location + i)) \<and>
    drop ((len + 7) div 8) bytes' = drop ((len + 7) div 8) bytes"
proof (cases "len = 0")
  case False
  let ?ps = "plan location len" and ?bs = "bv_buckets bv" and ?n = "(len + 7) div 8"
  have l: "location = location div 8 * 8" using assms(3) by auto
  have "(location + len + 7) div 8 = location div 8 + ?n"
    by (subst l) (simp add: add.assoc)
  then have n: "length ?ps = ?n" using plan_end [OF False, of location] by simp
  have "location + len \<le> 8 * length ?bs" using bv_ok_bound [OF assms(1)] assms(2) by simp
  then have p: "\<forall>p \<in> set ?ps. fst p < length ?bs" using plan_bound by blast
  let ?c = "\<lparr>gb_bytes = bytes, gb_cur = 0, gb_initBits = 0, gb_totalBits = int len, gb_ignoreFirstInitBits = True\<rparr>"
  have "\<exists>c. run_plan CFBitVectorGetBits_mapper ?ps (?bs, ?c) = Inr (?bs, c) \<and>
      gb_bytes c = masked ?bs ?ps @ drop ?n bytes"
  proof (cases "8 \<le> len")
    case True
    then show ?thesis using run_plan_GetBits [of ?c ?ps ?bs] n assms(4) p by simp
  next
    case small: False
    then have one: "?n = 1" using False by auto
    then obtain j m where ps: "?ps = [(j, m)]" using n by (cases ?ps) auto
    have "j < length ?bs" using p ps by simp
    then show ?thesis
      using GetBits_bucket [of ?c j ?bs m] False small one assms(4)
      by (cases bytes) (auto simp: ps masked_def Let_def)
  qed
  then obtain c where c: "run_plan CFBitVectorGetBits_mapper ?ps (?bs, ?c) = Inr (?bs, c)"
    "gb_bytes c = masked ?bs ?ps @ drop ?n bytes" by blast
  have "CFBitVectorGetBits bv location len bytes = Inr (bv, gb_bytes c)"
    using False assms(3) c(1) by (simp add: CFBitVectorGetBits_def InternalMap_plan)
  moreover have "length (masked ?bs ?ps) = ?n" using n by (simp add: masked_def)
  moreover have "bitat (gb_bytes c) i \<longleftrightarrow> i < len \<and> bits bv ! (location + i)" if "i < 8 * ?n" for i
    using bitat_masked [OF assms(3), of i len ?bs "drop ?n bytes"] that n assms(2) c(2) by auto
  ultimately show ?thesis using c(2) assms(4) by auto
qed (auto simp: CFBitVectorGetBits_def)

section \<open>Bit vectors are lists of bits\<close>

datatype bv_op =
    SetCount nat
  | SetAt nat bool
  | SetIn nat nat bool
  | SetAll bool
  | FlipAt nat
  | FlipIn nat nat
  | GetAt nat
  | CountIn nat nat bool
  | ContainsIn nat nat bool
  | FirstIn nat nat bool
  | LastIn nat nat bool

datatype bv_answer = NoAnswer | BitIs CFBit | NumberIs nat | TruthIs bool | IndexIs "nat option"

definition no_answer :: "bv_fault + CFBitVector \<Rightarrow> bv_fault + (CFBitVector \<times> bv_answer)" where
  "no_answer r = bindS r (\<lambda>bv. Inr (bv, NoAnswer))"

fun bv_step :: "reallocator \<Rightarrow> bv_op \<Rightarrow> CFBitVector \<Rightarrow> bv_fault + (CFBitVector \<times> bv_answer)" where
  "bv_step realloc (SetCount n) bv = no_answer (CFBitVectorSetCount realloc bv n)"
| "bv_step realloc (SetAt i v) bv = no_answer (CFBitVectorSetBitAtIndex bv i (cfbit v))"
| "bv_step realloc (SetIn l n v) bv = no_answer (CFBitVectorSetBits bv l n (cfbit v))"
| "bv_step realloc (SetAll v) bv = no_answer (CFBitVectorSetAllBits bv (cfbit v))"
| "bv_step realloc (FlipAt i) bv = no_answer (CFBitVectorFlipBitAtIndex bv i)"
| "bv_step realloc (FlipIn l n) bv = no_answer (CFBitVectorFlipBits bv l n)"
| "bv_step realloc (GetAt i) bv = bindS (CFBitVectorGetBitAtIndex bv i) (\<lambda>b. Inr (bv, BitIs b))"
| "bv_step realloc (CountIn l n v) bv =
    bindS (CFBitVectorGetCountOfBit bv l n (cfbit v)) (\<lambda>(bv, k). Inr (bv, NumberIs k))"
| "bv_step realloc (ContainsIn l n v) bv =
    bindS (CFBitVectorContainsBit bv l n (cfbit v)) (\<lambda>(bv, b). Inr (bv, TruthIs b))"
| "bv_step realloc (FirstIn l n v) bv =
    bindS (CFBitVectorGetFirstIndexOfBit bv l n (cfbit v)) (\<lambda>i. Inr (bv, IndexIs i))"
| "bv_step realloc (LastIn l n v) bv =
    bindS (CFBitVectorGetLastIndexOfBit bv l n (cfbit v)) (\<lambda>i. Inr (bv, IndexIs i))"

text \<open>The same operations on a list of bits; \<open>None\<close> for an index or a range outside the list.\<close>

fun list_step :: "bv_op \<Rightarrow> bool list \<Rightarrow> (bool list \<times> bv_answer) option" where
  "list_step (SetCount n) xs = Some (take n xs @ replicate (n - length xs) False, NoAnswer)"
| "list_step (SetAt i v) xs = (if i < length xs then Some (xs[i := v], NoAnswer) else None)"
| "list_step (SetIn l n v) xs =
    (if l + n \<le> length xs then Some (update_range l n (\<lambda>_. v) xs, NoAnswer) else None)"
| "list_step (SetAll v) xs = Some (replicate (length xs) v, NoAnswer)"
| "list_step (FlipAt i) xs = (if i < length xs then Some (xs[i := \<not> xs ! i], NoAnswer) else None)"
| "list_step (FlipIn l n) xs = (if l + n \<le> length xs then Some (update_range l n Not xs, NoAnswer) else None)"
| "list_step (GetAt i) xs = (if i < length xs then Some (xs, BitIs (cfbit (xs ! i))) else None)"
| "list_step (CountIn l n v) xs =
    (if l + n \<le> length xs then Some (xs, NumberIs (length (filter (\<lambda>b. b = v) (take n (drop l xs))))) else None)"
| "list_step (ContainsIn l n v) xs =
    (if l + n \<le> length xs then Some (xs, TruthIs (v \<in> set (take n (drop l xs)))) else None)"
| "list_step (FirstIn l n v) xs =
    (if l + n \<le> length xs then Some (xs, IndexIs (find (\<lambda>i. xs ! i = v) [l..<l + n])) else None)"
| "list_step (LastIn l n v) xs =
    (if l + n \<le> length xs then Some (xs, IndexIs (find (\<lambda>i. xs ! i = v) (rev [l..<l + n]))) else None)"

primrec bv_run :: "reallocator \<Rightarrow> bv_op list \<Rightarrow> CFBitVector \<Rightarrow> bv_fault + (CFBitVector \<times> bv_answer list)" where
  "bv_run realloc [] bv = Inr (bv, [])"
| "bv_run realloc (op # ops) bv =
    bindS (bv_step realloc op bv) (\<lambda>(bv, a). bindS (bv_run realloc ops bv) (\<lambda>(bv, as). Inr (bv, a # as)))"

primrec list_run :: "bv_op list \<Rightarrow> bool list \<Rightarrow> (bool list \<times> bv_answer list) option" where
  "list_run [] xs = Some (xs, [])"
| "list_run (op # ops) xs =
    Option.bind (list_step op xs) (\<lambda>(xs, a). Option.bind (list_run ops xs) (\<lambda>(xs, as). Some (xs, a # as)))"

lemma no_answer_updates:
  "updates r bv xs \<Longrightarrow> bv_mutable bv \<Longrightarrow>
    \<exists>bv'. no_answer r = Inr (bv', NoAnswer) \<and> bv_ok bv' \<and> bv_mutable bv' \<and> bits bv' = xs"
  by (auto simp: updates_def no_answer_def)

lemma cfbit_nonzero [simp]: "cfbit v \<noteq> 0 \<longleftrightarrow> v" "(cfbit v = 0) = (\<not> v)"
  by (simp_all add: cfbit_def)

lemma bv_step_refines:
  assumes "bv_ok bv" "bv_mutable bv" "realloc_ok realloc" "list_step op (bits bv) = Some (xs, a)"
  shows "\<exists>bv'. bv_step realloc op bv = Inr (bv', a) \<and> bv_ok bv' \<and> bv_mutable bv' \<and> bits bv' = xs"
proof (cases op)
  case (SetCount n)
  then show ?thesis using SetCount_correct [OF assms(1-3), of n] assms(4) by (auto simp: no_answer_def)
next
  case (SetAt i v)
  then show ?thesis
    using no_answer_updates [OF SetBitAtIndex_correct [OF assms(1), of i "cfbit v"] assms(2)] assms(4)
    by (simp split: if_splits)
next
  case (SetIn l n v)
  then show ?thesis
    using no_answer_updates [OF SetBits_correct [OF assms(1), of l n "cfbit v"] assms(2)] assms(4)
    by (simp split: if_splits)
next
  case (SetAll v)
  then show ?thesis
    using no_answer_updates [OF SetAllBits_correct [OF assms(1), of "cfbit v"] assms(2)] assms(4) by simp
next
  case (FlipAt i)
  then show ?thesis
    using no_answer_updates [OF FlipBitAtIndex_correct [OF assms(1), of i] assms(2)] assms(4)
    by (simp split: if_splits)
next
  case (FlipIn l n)
  then show ?thesis
    using no_answer_updates [OF FlipBits_correct [OF assms(1), of l n] assms(2)] assms(4)
    by (simp split: if_splits)
next
  case (FirstIn l n v)
  then show ?thesis using first_index_correct [OF assms(1), of l n v 0] assms(1,2,4)
    by (auto simp: CFBitVectorGetFirstIndexOfBit_def split: if_splits)
next
  case (LastIn l n v)
  then show ?thesis using last_index_correct [OF assms(1), of l n v] assms(1,2,4)
    by (auto simp: CFBitVectorGetLastIndexOfBit_def split: if_splits)
qed (use assms GetBitAtIndex_correct GetCountOfBit_correct ContainsBit_correct in
  \<open>auto split: if_splits\<close>)

lemma bv_run_refines:
  assumes "bv_ok bv" "bv_mutable bv" "realloc_ok realloc" "list_run ops (bits bv) = Some (xs, as)"
  shows "\<exists>bv'. bv_run realloc ops bv = Inr (bv', as) \<and> bv_ok bv' \<and> bv_mutable bv' \<and> bits bv' = xs"
  using assms
proof (induction ops arbitrary: bv as)
  case (Cons op ops)
  from Cons.prems(4) obtain ys a bs where
    s: "list_step op (bits bv) = Some (ys, a)" "list_run ops ys = Some (xs, bs)" "as = a # bs"
    by (auto simp: Option.bind_eq_Some_conv)
  obtain bv1 where "bv_step realloc op bv = Inr (bv1, a)" "bv_ok bv1" "bv_mutable bv1" "bits bv1 = ys"
    using bv_step_refines [OF Cons.prems(1-3) s(1)] by blast
  moreover then obtain bv' where "bv_run realloc ops bv1 = Inr (bv', bs)" "bv_ok bv'" "bv_mutable bv'" "bits bv' = xs"
    using Cons.IH [of bv1 bs] Cons.prems(3) s(2) by blast
  ultimately show ?case using s(3) by simp
qed simp

text \<open>
  C16: a mutable bit vector answers any sequence of operations with indices and ranges inside it as a
  list of bits would, never touching memory outside its buckets, whatever the allocator leaves in the
  memory it adds.
\<close>

theorem CFBitVector_refines_list:
  assumes "\<And>n. alloc n" "realloc_ok realloc" "list_run ops [] = Some (xs, as)"
  shows "\<exists>bv bv'. CFBitVectorCreateMutable alloc capacity = Inr (Some bv) \<and>
    bv_run realloc ops bv = Inr (bv', as) \<and> bits bv' = xs"
proof -
  obtain bv where bv: "CFBitVectorCreateMutable alloc capacity = Inr (Some bv)" "bv_ok bv" "bv_mutable bv" "bits bv = []"
    using Init_correct [where alloc = alloc and mutable = True and bytes = None and numBits = 0 and capacity = capacity]
      assms(1) by (auto simp: CFBitVectorCreateMutable_def)
  then show ?thesis using bv_run_refines [OF bv(2,3) assms(2), of ops xs as] assms(3) by auto
qed

definition dirty_realloc :: reallocator where
  "dirty_realloc bs n = Some (take n bs @ replicate (n - length bs) 0xAA)"

lemma dirty_realloc_ok: "realloc_ok dirty_realloc"
  by (auto simp: realloc_ok_def dirty_realloc_def min_def)

theorem CFBitVector_refines_list_witness:
  "\<exists>bv bv'. CFBitVectorCreateMutable (\<lambda>_. True) 0 = Inr (Some bv) \<and>
    bv_run dirty_realloc [SetCount 12, SetIn 3 7 True, FlipAt 4, CountIn 0 12 True, LastIn 0 12 True] bv =
      Inr (bv', [NoAnswer, NoAnswer, NoAnswer, NumberIs 6, IndexIs (Some 9)]) \<and>
    bits bv' = [False, False, False, True, False, True, True, True, True, True, False, False]"
proof (rule CFBitVector_refines_list)
  show "realloc_ok dirty_realloc" by (rule dirty_realloc_ok)
qed (simp, code_simp)

text \<open>
  The bits of a vector created from bytes are read back by \<open>CFBitVectorGetBits\<close> over the whole vector:
  the bytes return, with the bits after the last one cleared, and no other byte of the caller is written.
\<close>

theorem CFBitVector_bytes_roundtrip:
  assumes "\<And>n. alloc n" "(numBits + 7) div 8 \<le> length bytes" "(numBits + 7) div 8 \<le> length out"
  shows "\<exists>bv out'. CFBitVectorCreate alloc (Some bytes) numBits = Inr (Some bv) \<and>
    CFBitVectorGetBits bv 0 numBits out = Inr (bv, out') \<and> length out' = length out \<and>
    (\<forall>i < 8 * ((numBits + 7) div 8). bitat out' i \<longleftrightarrow> i < numBits \<and> bitat bytes i) \<and>
    drop ((numBits + 7) div 8) out' = drop ((numBits + 7) div 8) out"
proof -
  have "bytes_for numBits = (numBits + 7) div 8" unfolding bytes_for_def by presburger
  then obtain bv where bv: "CFBitVectorCreate alloc (Some bytes) numBits = Inr (Some bv)" "bv_ok bv"
    "bits bv = map (bitat bytes) [0..<numBits]"
    using Init_correct [where alloc = alloc and mutable = False and bytes = "Some bytes" and numBits = numBits and capacity = numBits]
      assms(1,2) by (auto simp: CFBitVectorCreate_def)
  have c: "bv_count bv = numBits" using bv(3) length_bits [of bv] by simp
  obtain out' where o: "CFBitVectorGetBits bv 0 numBits out = Inr (bv, out')" "length out' = length out"
    "\<forall>i < 8 * ((numBits + 7) div 8). bitat out' i \<longleftrightarrow> i < numBits \<and> bits bv ! (0 + i)"
    "drop ((numBits + 7) div 8) out' = drop ((numBits + 7) div 8) out"
    using GetBits_correct [OF bv(2), of 0 numBits out] assms(3) c by auto
  then show ?thesis using bv(1,3) by (intro exI [of _ bv] exI [of _ out']) auto
qed

theorem CFBitVector_bytes_roundtrip_witness:
  "\<exists>bv out'. CFBitVectorCreate (\<lambda>_. True) (Some [0xA5, 0xFF]) 11 = Inr (Some bv) \<and>
    CFBitVectorGetBits bv 0 11 [1, 2, 3] = Inr (bv, out') \<and> length out' = 3 \<and> out' ! 2 = 3"
proof -
  obtain bv out' where "CFBitVectorCreate (\<lambda>_. True) (Some [0xA5, 0xFF]) 11 = Inr (Some bv)"
    "CFBitVectorGetBits bv 0 11 [1, 2, 3] = Inr (bv, out')" "length out' = 3" "drop 2 out' = [3]"
    using CFBitVector_bytes_roundtrip [of "\<lambda>_. True" 11 "[0xA5, 0xFF]" "[1, 2, 3]"] by auto
  moreover then have "out' ! 2 = 3" by (metis hd_drop_conv_nth list.sel(1) lessI numeral_3_eq_3 numeral_2_eq_2)
  ultimately show ?thesis by blast
qed

text \<open>
  Over a range that does not start at a byte boundary \<open>CFBitVectorGetBits\<close> keeps overwriting the first
  byte: bits 4 to 11 of the vector \<open>11111111 00000000\<close> are \<open>11110000\<close>, but it writes a zero byte.
\<close>

theorem CFBitVectorGetBits_unaligned:
  "\<exists>bv. CFBitVectorCreate (\<lambda>_. True) (Some [0xFF, 0]) 16 = Inr (Some bv) \<and>
    take 8 (drop 4 (bits bv)) = [True, True, True, True, False, False, False, False] \<and>
    CFBitVectorGetBits bv 4 8 [0x55] = Inr (bv, [0])"
  unfolding CFBitVectorGetBits_def
  by (intro exI conjI) code_simp+

text \<open>
  \<open>CFEqual\<close> on two vectors also compares bits after the last one: a copy of a vector that was shrunk
  has the same bits but is not equal to its original.
\<close>

theorem CFBitVectorEqual_stale_bits:
  "\<exists>bv0 bv bv'. CFBitVectorCreateMutable (\<lambda>_. True) 0 = Inr (Some bv0) \<and>
    bv_run dirty_realloc [SetCount 16, SetAll True, SetCount 8] bv0 = Inr (bv, [NoAnswer, NoAnswer, NoAnswer]) \<and>
    CFBitVectorCreateCopy (\<lambda>_. True) bv = Inr (Some bv') \<and> bits bv' = bits bv \<and>
    CFBitVectorEqual bv bv' = Inr False"
  by (intro exI conjI) code_simp+

end
