(* ===== verification/Interleaving.thy ===== *)
theory Interleaving
  imports Prelude
begin

text \<open>
  Interleaved executions, for the objects of libdispatch that threads share. A step of a thread that cannot move
  is \<open>Blocked\<close>; \<open>Crashed\<close> is \<open>DISPATCH_CLIENT_CRASH\<close>. The locale relates the function that runs a schedule to the
  one that makes a step, and gives the rules by which facts about steps become facts about schedules.
\<close>

datatype 'a outcome = Blocked | Crashed | Next 'a

text \<open>\<open>dispatch_time_t\<close>, as far as the code distinguishes it.\<close>

datatype dispatch_time = DISPATCH_TIME_NOW | DISPATCH_TIME_AT | DISPATCH_TIME_FOREVER

text \<open>How often an event is in a history.\<close>

definition occurs :: "'e \<Rightarrow> 'e list \<Rightarrow> int" where
  "occurs e es = int (length (filter (\<lambda>x. x = e) es))"

lemma occurs_simps [simp]:
  "occurs e [] = 0" "occurs e (x # xs) = of_bool (x = e) + occurs e xs" "occurs e (xs @ ys) = occurs e xs + occurs e ys"
  by (simp_all add: occurs_def)

lemma occurs_nonneg [simp]: "0 \<le> occurs e es"
  by (simp add: occurs_def)

lemma occurs_none: "e \<notin> set es \<Longrightarrow> occurs e es = 0"
  by (auto simp: occurs_def filter_empty_conv)

locale interleaved =
  fixes exec :: "'a \<Rightarrow> 's \<Rightarrow> ('s \<times> 'e list) outcome"
    and run :: "'a list \<Rightarrow> 's \<Rightarrow> ('s \<times> 'e list) outcome"
  assumes run_Nil: "run [] s = Next (s, [])"
    and run_step: "run (a # as) s =
      (case exec a s of
         Blocked \<Rightarrow> Blocked
       | Crashed \<Rightarrow> Crashed
       | Next (t, es) \<Rightarrow>
           (case run as t of Blocked \<Rightarrow> Blocked | Crashed \<Rightarrow> Crashed | Next (u, fs) \<Rightarrow> Next (u, es @ fs)))"
begin

lemma run_Cons:
  "run (a # as) s = Next (u, es) \<longleftrightarrow>
    (\<exists>t fs gs. exec a s = Next (t, fs) \<and> run as t = Next (u, gs) \<and> es = fs @ gs)"
  unfolding run_step by (auto split: outcome.splits prod.splits)

lemma run_append:
  "run (as @ bs) s = Next (u, es) \<longleftrightarrow>
    (\<exists>t fs gs. run as s = Next (t, fs) \<and> run bs t = Next (u, gs) \<and> es = fs @ gs)"
proof (induction as arbitrary: s es)
  case (Cons a as)
  show ?case unfolding append_Cons run_Cons Cons.IH by (auto 4 4)
qed (simp add: run_Nil)

lemma run_invariant:
  assumes "run as s = Next (t, fs)" "good es s"
    and "\<And>a s t es fs. good es s \<Longrightarrow> exec a s = Next (t, fs) \<Longrightarrow> good (es @ fs) t"
  shows "good (es @ fs) t"
  using assms(1,2)
proof (induction as arbitrary: s es fs)
  case (Cons a as)
  from Cons.prems(1) obtain u gs hs where
    r: "exec a s = Next (u, gs)" "run as u = Next (t, hs)" "fs = gs @ hs" unfolding run_Cons by blast
  have "good (es @ gs) u" using assms(3) [OF Cons.prems(2) r(1)] .
  from Cons.IH [OF r(2) this] show ?case using r(3) by simp
qed (simp add: run_Nil)

lemma run_bounded:
  assumes "run as s = Next (t, es)" "list_all P as"
    and "\<And>a s t es. exec a s = Next (t, es) \<Longrightarrow> P a \<Longrightarrow> m t < (m s :: nat)"
  shows "length as + m t \<le> m s"
  using assms(1,2)
proof (induction as arbitrary: s es)
  case (Cons a as)
  from Cons.prems(1) obtain u fs gs where r: "exec a s = Next (u, fs)" "run as u = Next (t, gs)"
    unfolding run_Cons by blast
  have "m u < m s" using assms(3) [OF r(1)] Cons.prems(2) by simp
  moreover have "length as + m t \<le> m u" using Cons.IH [OF r(2)] Cons.prems(2) by simp
  ultimately show ?case by simp
qed (simp add: run_Nil)

end

end
