(* ===== verification/Dispatch_Semaphore.thy ===== *)
theory Dispatch_Semaphore
  imports Interleaving
begin

text \<open>
  Counting semaphores of libdispatch, \<open>semaphore.c\<close>, under any interleaving of threads. The state has the
  shared words of \<open>struct dispatch_semaphore_s\<close>, the count of the kernel semaphore behind \<open>dsema_sema\<close>, and where
  each thread stands in the functions; a step is one atomic operation of one thread.

  The kernel semaphore (\<open>_dispatch_sema4_signal\<close>, \<open>_dispatch_sema4_wait\<close>) is a count that waiting decrements and
  that blocks at zero.
\<close>

section \<open>State and steps\<close>

text \<open>
  \<open>Idle\<close>: outside. \<open>SignalSlow\<close>: before \<open>_dispatch_sema4_signal\<close>. \<open>WaitSlow\<close>: at the start of the slow wait.
  \<open>TimedWait\<close>, \<open>SemaWait\<close>: in \<open>_dispatch_sema4_timedwait\<close> and \<open>_dispatch_sema4_wait\<close>. \<open>UndoLoad\<close>: before
  \<open>orig = dsema_value\<close>. \<open>Undo orig\<close>: at the test of the loop that follows.
\<close>

datatype sem_pc =
    Idle
  | SignalSlow
  | WaitSlow dispatch_time
  | TimedWait
  | UndoLoad
  | Undo u64
  | SemaWait

record semaphore =
  dsema_value :: u64
  dsema_orig :: u64
  dsema_sema :: nat
  threads :: "sem_pc list"

text \<open>What a step makes visible: an increment by a signal, and a wait that returns with or without a permit.\<close>

datatype sem_event = Signalled | Acquired | TimedOut

type_synonym sem_result = "(semaphore \<times> sem_event list) outcome"

abbreviation (input) LONG_MIN :: u64 where "LONG_MIN \<equiv> 0x8000000000000000"

definition goto_pc :: "nat \<Rightarrow> sem_pc \<Rightarrow> semaphore \<Rightarrow> semaphore" where
  "goto_pc i pc s = s\<lparr>threads := (threads s)[i := pc]\<rparr>"

text \<open>A semaphore for \<open>n\<close> threads; \<open>None\<close> is \<open>DISPATCH_BAD_INPUT\<close>.\<close>

definition dispatch_semaphore_create :: "u64 \<Rightarrow> nat \<Rightarrow> semaphore option" where
  "dispatch_semaphore_create value n =
    (if sint value < 0 then None
     else Some \<lparr>dsema_value = value, dsema_orig = value, dsema_sema = 0, threads = replicate n Idle\<rparr>)"

text \<open>Whether disposing of the semaphore passes its check.\<close>

definition dispatch_semaphore_dispose :: "semaphore \<Rightarrow> bool" where
  "dispatch_semaphore_dispose s \<longleftrightarrow> \<not> sint (dsema_value s) < sint (dsema_orig s)"

definition dispatch_semaphore_signal_slow :: "nat \<Rightarrow> semaphore \<Rightarrow> sem_result" where
  "dispatch_semaphore_signal_slow i s = Next (goto_pc i Idle (s\<lparr>dsema_sema := dsema_sema s + 1\<rparr>), [])"

definition dispatch_semaphore_signal :: "nat \<Rightarrow> semaphore \<Rightarrow> sem_result" where
  "dispatch_semaphore_signal i s =
    (let value = dsema_value s + 1; s = s\<lparr>dsema_value := value\<rparr> in
     if sint value > 0 then Next (s, [Signalled])
     else if value = LONG_MIN then Crashed
     else Next (goto_pc i SignalSlow s, [Signalled]))"

definition dispatch_sema4_wait :: "nat \<Rightarrow> semaphore \<Rightarrow> sem_result" where
  "dispatch_sema4_wait i s =
    (if dsema_sema s = 0 then Blocked
     else Next (goto_pc i Idle (s\<lparr>dsema_sema := dsema_sema s - 1\<rparr>), [Acquired]))"

definition dispatch_semaphore_wait_undo :: "nat \<Rightarrow> u64 \<Rightarrow> semaphore \<Rightarrow> sem_result" where
  "dispatch_semaphore_wait_undo i orig s =
    (if sint orig < 0 then
       if dsema_value s = orig then Next (goto_pc i Idle (s\<lparr>dsema_value := orig + 1\<rparr>), [TimedOut])
       else Next (goto_pc i (Undo (dsema_value s)) s, [])
     else Next (goto_pc i SemaWait s, []))"

definition dispatch_semaphore_wait_slow :: "nat \<Rightarrow> dispatch_time \<Rightarrow> semaphore \<Rightarrow> sem_result" where
  "dispatch_semaphore_wait_slow i timeout s =
    (case timeout of
       DISPATCH_TIME_AT \<Rightarrow> Next (goto_pc i TimedWait s, [])
     | DISPATCH_TIME_NOW \<Rightarrow> Next (goto_pc i UndoLoad s, [])
     | DISPATCH_TIME_FOREVER \<Rightarrow> Next (goto_pc i SemaWait s, []))"

definition dispatch_semaphore_wait :: "nat \<Rightarrow> dispatch_time \<Rightarrow> semaphore \<Rightarrow> sem_result" where
  "dispatch_semaphore_wait i timeout s =
    (let value = dsema_value s - 1; s = s\<lparr>dsema_value := value\<rparr> in
     if sint value \<ge> 0 then Next (s, [Acquired])
     else Next (goto_pc i (WaitSlow timeout) s, []))"

text \<open>An action of a thread: a call, the next step of the call it is in, or the expiry of its timed wait.\<close>

datatype sem_action = CallSignal | CallWait dispatch_time | Step | Expire

fun sem_exec :: "nat \<times> sem_action \<Rightarrow> semaphore \<Rightarrow> sem_result" where
  "sem_exec (i, a) s =
    (if i \<ge> length (threads s) then Blocked
     else case (threads s ! i, a) of
       (Idle, CallSignal) \<Rightarrow> dispatch_semaphore_signal i s
     | (Idle, CallWait timeout) \<Rightarrow> dispatch_semaphore_wait i timeout s
     | (SignalSlow, Step) \<Rightarrow> dispatch_semaphore_signal_slow i s
     | (WaitSlow timeout, Step) \<Rightarrow> dispatch_semaphore_wait_slow i timeout s
     | (TimedWait, Step) \<Rightarrow> dispatch_sema4_wait i s
     | (TimedWait, Expire) \<Rightarrow> Next (goto_pc i UndoLoad s, [])
     | (UndoLoad, Step) \<Rightarrow> Next (goto_pc i (Undo (dsema_value s)) s, [])
     | (Undo orig, Step) \<Rightarrow> dispatch_semaphore_wait_undo i orig s
     | (SemaWait, Step) \<Rightarrow> dispatch_sema4_wait i s
     | _ \<Rightarrow> Blocked)"

fun sem_run :: "(nat \<times> sem_action) list \<Rightarrow> semaphore \<Rightarrow> sem_result" where
  "sem_run [] s = Next (s, [])"
| "sem_run (a # as) s =
    (case sem_exec a s of
       Blocked \<Rightarrow> Blocked
     | Crashed \<Rightarrow> Crashed
     | Next (s, es) \<Rightarrow>
         (case sem_run as s of
            Blocked \<Rightarrow> Blocked
          | Crashed \<Rightarrow> Crashed
          | Next (s, fs) \<Rightarrow> Next (s, es @ fs)))"

interpretation sem: interleaved sem_exec sem_run
  by unfold_locales simp_all

section \<open>Counting threads\<close>

definition in_wait :: "sem_pc \<Rightarrow> bool" where
  "in_wait pc \<longleftrightarrow> pc \<noteq> Idle \<and> pc \<noteq> SignalSlow"

definition waiting :: "semaphore \<Rightarrow> nat" where
  "waiting s = length (filter in_wait (threads s))"

definition signalling :: "semaphore \<Rightarrow> nat" where
  "signalling s = length (filter (\<lambda>pc. pc = SignalSlow) (threads s))"

lemma filter_update:
  assumes "i < length xs"
  shows "length (filter P (xs[i := y])) + of_bool (P (xs ! i)) = length (filter P xs) + of_bool (P y)"
  using assms
proof (induction xs arbitrary: i)
  case (Cons x xs)
  then show ?case by (cases i) (auto simp: of_bool_def)
qed simp

lemma in_wait_simps [simp]:
  "\<not> in_wait Idle" "\<not> in_wait SignalSlow" "in_wait (WaitSlow t)" "in_wait TimedWait" "in_wait UndoLoad"
  "in_wait (Undo v)" "in_wait SemaWait"
  by (simp_all add: in_wait_def)

lemma goto_pc_simps [simp]:
  "dsema_value (goto_pc i pc s) = dsema_value s" "dsema_orig (goto_pc i pc s) = dsema_orig s"
  "dsema_sema (goto_pc i pc s) = dsema_sema s" "threads (goto_pc i pc s) = (threads s)[i := pc]"
  by (simp_all add: goto_pc_def)

lemma goto_pc_counts:
  assumes "i < length (threads s)"
  shows "waiting (goto_pc i pc s) + of_bool (in_wait (threads s ! i)) = waiting s + of_bool (in_wait pc)"
    "signalling (goto_pc i pc s) + of_bool (threads s ! i = SignalSlow) = signalling s + of_bool (pc = SignalSlow)"
  using filter_update [OF assms, of in_wait] filter_update [OF assms, of "\<lambda>pc. pc = SignalSlow"]
  by (simp_all add: waiting_def signalling_def)

lemma counts_update [simp]:
  "waiting (s\<lparr>dsema_value := v\<rparr>) = waiting s" "signalling (s\<lparr>dsema_value := v\<rparr>) = signalling s"
  "waiting (s\<lparr>dsema_sema := n\<rparr>) = waiting s" "signalling (s\<lparr>dsema_sema := n\<rparr>) = signalling s"
  by (simp_all add: waiting_def signalling_def)

lemma waiting_le: "waiting s \<le> length (threads s)"
  by (simp add: waiting_def)

lemma waiting_less: "i < length (threads s) \<Longrightarrow> \<not> in_wait (threads s ! i) \<Longrightarrow> waiting s < length (threads s)"
  unfolding waiting_def by (rule length_filter_less [OF nth_mem])

section \<open>The steps of a thread\<close>

lemma sem_exec_cases:
  assumes "sem_exec (i, a) s = Next (s', es)"
  obtains (signal) "i < length (threads s)" "threads s ! i = Idle" "a = CallSignal" "dispatch_semaphore_signal i s = Next (s', es)"
  | (wait) t where "i < length (threads s)" "threads s ! i = Idle" "a = CallWait t" "dispatch_semaphore_wait i t s = Next (s', es)"
  | (post) "i < length (threads s)" "threads s ! i = SignalSlow" "a = Step"
      "s' = goto_pc i Idle (s\<lparr>dsema_sema := dsema_sema s + 1\<rparr>)" "es = []"
  | (start) t pc where "i < length (threads s)" "threads s ! i = WaitSlow t" "a = Step" "s' = goto_pc i pc s" "es = []"
      "pc = TimedWait \<or> pc = UndoLoad \<or> pc = SemaWait"
  | (take) "i < length (threads s)" "threads s ! i = TimedWait \<or> threads s ! i = SemaWait" "a = Step" "0 < dsema_sema s"
      "s' = goto_pc i Idle (s\<lparr>dsema_sema := dsema_sema s - 1\<rparr>)" "es = [Acquired]"
  | (expire) "i < length (threads s)" "threads s ! i = TimedWait" "a = Expire" "s' = goto_pc i UndoLoad s" "es = []"
  | (load) "i < length (threads s)" "threads s ! i = UndoLoad" "a = Step" "s' = goto_pc i (Undo (dsema_value s)) s" "es = []"
  | (undo) "i < length (threads s)" "threads s ! i = Undo (dsema_value s)" "a = Step" "sint (dsema_value s) < 0"
      "s' = goto_pc i Idle (s\<lparr>dsema_value := dsema_value s + 1\<rparr>)" "es = [TimedOut]"
  | (retry) orig where "i < length (threads s)" "threads s ! i = Undo orig" "a = Step" "sint orig < 0" "orig \<noteq> dsema_value s"
      "s' = goto_pc i (Undo (dsema_value s)) s" "es = []"
  | (drain) orig where "i < length (threads s)" "threads s ! i = Undo orig" "a = Step" "0 \<le> sint orig"
      "s' = goto_pc i SemaWait s" "es = []"
proof -
  have i: "i < length (threads s)" using assms by (auto split: if_splits)
  note e = assms [unfolded sem_exec.simps]
  show thesis
  proof (cases "threads s ! i")
    case Idle
    then show thesis using e i signal wait by (cases a) simp_all
  next
    case SignalSlow
    then show thesis using e i post by (cases a) (simp_all add: dispatch_semaphore_signal_slow_def)
  next
    case (WaitSlow t)
    then have a: "a = Step" and r: "dispatch_semaphore_wait_slow i t s = Next (s', es)"
      using e i by (cases a; simp)+
    have "\<exists>pc. s' = goto_pc i pc s \<and> es = [] \<and> (pc = TimedWait \<or> pc = UndoLoad \<or> pc = SemaWait)"
      using r by (cases t) (simp_all add: dispatch_semaphore_wait_slow_def, blast+)
    then show thesis using start [OF i WaitSlow a] by blast
  next
    case TimedWait
    then show thesis using e i take expire by (cases a) (simp_all add: dispatch_sema4_wait_def split: if_splits)
  next
    case UndoLoad
    then show thesis using e i load by (cases a) simp_all
  next
    case (Undo orig)
    then have a: "a = Step" and r: "dispatch_semaphore_wait_undo i orig s = Next (s', es)"
      using e i by (cases a; simp)+
    note r = r [unfolded dispatch_semaphore_wait_undo_def]
    consider "0 \<le> sint orig" | "sint orig < 0" "dsema_value s = orig" | "sint orig < 0" "dsema_value s \<noteq> orig"
      by linarith
    then show thesis
    proof cases
      case 1
      then show thesis using drain [OF i Undo a] r by simp
    next
      case 2
      then show thesis using undo [OF i _ a] Undo r by simp
    next
      case 3
      then show thesis using retry [OF i Undo a] r by simp
    qed
  next
    case SemaWait
    then show thesis using e i take by (cases a) (simp_all add: dispatch_sema4_wait_def split: if_splits)
  qed
qed

section \<open>Permits\<close>

text \<open>
  The history of a semaphore: the signals and acquisitions so far. The first law balances the value, and the
  second says that the threads that wait are the deficit of the value and those already on their way to be
  woken, through the kernel count or a signal that has yet to reach it.
\<close>

definition sem_inv :: "u64 \<Rightarrow> nat \<Rightarrow> sem_event list \<Rightarrow> semaphore \<Rightarrow> bool" where
  "sem_inv v n es s \<longleftrightarrow> dsema_orig s = v \<and> length (threads s) = n \<and>
    sint (dsema_value s) = sint v + occurs Signalled es - occurs Acquired es - int (waiting s) \<and>
    int (waiting s) = int (dsema_sema s) + int (signalling s) + max 0 (- sint (dsema_value s))"

lemma sint_add_1:
  assumes "v + 1 \<noteq> LONG_MIN"
  shows "sint (v + 1) = sint v + 1"
proof -
  have "sint v \<noteq> 2 ^ 63 - 1"
  proof
    assume "sint v = 2 ^ 63 - 1"
    then have "word_of_int (sint v) = (word_of_int (2 ^ 63 - 1) :: u64)" by (rule arg_cong)
    then have "v = word_of_int (2 ^ 63 - 1)" by simp
    then show False using assms by simp
  qed
  then have "- (2 ^ 63) \<le> sint v + 1" "sint v + 1 < 2 ^ 63" using sint_ge [of v] sint_lt [of v] by simp_all
  from sint_of_int_64 [OF this] show ?thesis by simp
qed

lemma sint_sub_1:
  fixes v :: u64
  assumes "- (2 ^ 63) < sint v"
  shows "sint (v - 1) = sint v - 1"
proof -
  have "- (2 ^ 63) \<le> sint v - 1" "sint v - 1 < 2 ^ 63" using assms sint_lt [of v] by simp_all
  from sint_of_int_64 [OF this] show ?thesis by simp
qed

lemma sint_LONG_MIN: "sint (LONG_MIN :: u64) = - (2 ^ 63)"
  by (simp add: sint_uint)

lemma sem_inv_create:
  "dispatch_semaphore_create v n = Some s \<Longrightarrow> sem_inv v n [] s \<and> 0 \<le> sint v"
  by (auto simp: dispatch_semaphore_create_def sem_inv_def waiting_def signalling_def split: if_splits)

lemma sem_invD:
  assumes "sem_inv v n es s"
  shows "dsema_orig s = v" "length (threads s) = n"
    "sint (dsema_value s) = sint v + occurs Signalled es - occurs Acquired es - int (waiting s)"
    "int (waiting s) = int (dsema_sema s) + int (signalling s) + max 0 (- sint (dsema_value s))"
  using assms unfolding sem_inv_def by blast+

lemma sem_inv_move:
  assumes "sem_inv v n es s" "dsema_orig s' = dsema_orig s" "length (threads s') = length (threads s)"
    and "sint (dsema_value s') + int (waiting s') =
      sint (dsema_value s) + int (waiting s) + occurs Signalled fs - occurs Acquired fs"
    and "int (waiting s') - int (dsema_sema s') - int (signalling s') - max 0 (- sint (dsema_value s')) =
      int (waiting s) - int (dsema_sema s) - int (signalling s) - max 0 (- sint (dsema_value s))"
  shows "sem_inv v n (es @ fs) s'"
proof -
  note i = sem_invD [OF assms(1)]
  have "sint (dsema_value s') = sint v + occurs Signalled (es @ fs) - occurs Acquired (es @ fs) - int (waiting s')"
    unfolding occurs_simps using i(3) assms(4) by linarith
  moreover have "int (waiting s') = int (dsema_sema s') + int (signalling s') + max 0 (- sint (dsema_value s'))"
    using i(4) assms(5) by linarith
  ultimately show ?thesis unfolding sem_inv_def using i(1,2) assms(2,3) by blast
qed

lemma goto_pc_inv:
  assumes "sem_inv v n es s" "i < length (threads s)"
    and "in_wait (threads s ! i) = in_wait pc" "(threads s ! i = SignalSlow) = (pc = SignalSlow)"
  shows "sem_inv v n es (goto_pc i pc s)"
proof -
  have "waiting (goto_pc i pc s) = waiting s" "signalling (goto_pc i pc s) = signalling s"
    using goto_pc_counts [OF assms(2), of pc] assms(3,4) by (simp_all only: add_right_cancel)
  then have "sem_inv v n (es @ []) (goto_pc i pc s)" by (intro sem_inv_move [OF assms(1)]) simp_all
  then show ?thesis by simp
qed

lemma sem_inv_signal:
  assumes "sem_inv v n es s" "i < length (threads s)" "threads s ! i = Idle"
    "dispatch_semaphore_signal i s = Next (s', fs)"
  shows "sem_inv v n (es @ fs) s'"
proof -
  note e = assms(4) [unfolded dispatch_semaphore_signal_def Let_def]
  show ?thesis
  proof (cases "0 < sint (dsema_value s + 1)")
    case True
    then have "dsema_value s + 1 \<noteq> LONG_MIN" using sint_LONG_MIN by (metis neg_0_less_iff_less not_less_iff_gr_or_eq zero_less_numeral zero_less_power)
    from sint_add_1 [OF this] show ?thesis using e True
      by (intro sem_inv_move [OF assms(1)]) auto
  next
    case False
    then have s': "s' = goto_pc i SignalSlow (s\<lparr>dsema_value := dsema_value s + 1\<rparr>)" "fs = [Signalled]"
      and ne: "dsema_value s + 1 \<noteq> LONG_MIN"
      using e by (auto split: if_splits)
    have "waiting s' = waiting s" "signalling s' = signalling s + 1"
      using goto_pc_counts [of i "s\<lparr>dsema_value := dsema_value s + 1\<rparr>" SignalSlow] assms(2,3) by (simp_all add: s')
    then show ?thesis using sint_add_1 [OF ne] False by (intro sem_inv_move [OF assms(1)]) (simp_all add: s')
  qed
qed

lemma sem_inv_wait:
  assumes "sem_inv v n es s" "i < length (threads s)" "threads s ! i = Idle"
    "dispatch_semaphore_wait i t s = Next (s', fs)" "n < 2 ^ 63"
  shows "sem_inv v n (es @ fs) s'"
proof -
  note e = assms(4) [unfolded dispatch_semaphore_wait_def Let_def]
  have "waiting s < n" using waiting_less [OF assms(2)] assms(1,3) by (simp add: sem_inv_def)
  then have "int (waiting s) < int (2 ^ 63)" using assms(5) by (simp only: of_nat_less_iff)
  then have "- int (2 ^ 63) < sint (dsema_value s)" using sem_invD(4) [OF assms(1)] by linarith
  then have "- (2 ^ 63) < sint (dsema_value s)" by simp
  note p = sint_sub_1 [OF this]
  show ?thesis
  proof (cases "0 \<le> sint (dsema_value s - 1)")
    case True
    then show ?thesis using e p by (intro sem_inv_move [OF assms(1)]) auto
  next
    case False
    then have s': "s' = goto_pc i (WaitSlow t) (s\<lparr>dsema_value := dsema_value s - 1\<rparr>)" "fs = []" using e by auto
    have "waiting s' = waiting s + 1" "signalling s' = signalling s"
      using goto_pc_counts [of i "s\<lparr>dsema_value := dsema_value s - 1\<rparr>" "WaitSlow t"] assms(2,3) by (simp_all add: s')
    then show ?thesis using p False by (intro sem_inv_move [OF assms(1)]) (simp_all add: s')
  qed
qed

lemma sem_inv_exec:
  assumes "sem_inv v n es s" "sem_exec (i, a) s = Next (s', fs)" "n < 2 ^ 63"
  shows "sem_inv v n (es @ fs) s'"
  using assms(2)
proof (cases rule: sem_exec_cases)
  case signal
  then show ?thesis using sem_inv_signal [OF assms(1)] by blast
next
  case (wait t)
  then show ?thesis using sem_inv_wait [OF assms(1)] assms(3) by blast
next
  case post
  have "waiting s' = waiting s" "signalling s' + 1 = signalling s"
    using goto_pc_counts [of i "s\<lparr>dsema_sema := dsema_sema s + 1\<rparr>" Idle] post by simp_all
  then show ?thesis using post(4,5) by (intro sem_inv_move [OF assms(1)]) simp_all
next
  case take
  have "waiting s' + 1 = waiting s" "signalling s' = signalling s"
    using goto_pc_counts [of i "s\<lparr>dsema_sema := dsema_sema s - 1\<rparr>" Idle] take by auto
  then show ?thesis using take(4,5,6) by (intro sem_inv_move [OF assms(1)]) simp_all
next
  case undo
  have "dsema_value s + 1 \<noteq> LONG_MIN"
  proof
    assume "dsema_value s + 1 = LONG_MIN"
    then have "dsema_value s = LONG_MIN - 1" by (metis add_diff_cancel)
    then show False using undo(4) by (simp add: sint_uint)
  qed
  note p = sint_add_1 [OF this]
  have "waiting s' + 1 = waiting s" "signalling s' = signalling s"
    using goto_pc_counts [of i "s\<lparr>dsema_value := dsema_value s + 1\<rparr>" Idle] undo by simp_all
  then show ?thesis using undo(4,5,6) p by (intro sem_inv_move [OF assms(1)]) simp_all
qed (auto intro!: goto_pc_inv [OF assms(1)])

lemma sem_inv_run:
  assumes "dispatch_semaphore_create v n = Some s" "n < 2 ^ 63" "sem_run as s = Next (s', es)"
  shows "sem_inv v n es s'"
proof -
  have "sem_inv v n (es @ fs) t" if "sem_inv v n es s" "sem_exec a s = Next (t, fs)" for a s t es fs
    using that sem_inv_exec [of v n es s "fst a" "snd a" t fs] assms(2) by simp
  from sem.run_invariant [where good = "sem_inv v n" and es = "[]", OF assms(3) _ this]
  show ?thesis using sem_inv_create [OF assms(1)] by simp
qed

lemma sem_inv_permits:
  assumes "sem_inv v n es s"
  shows "occurs Acquired es \<le> sint v + occurs Signalled es"
  using sem_invD(3,4) [OF assms] by linarith

text \<open>
  C17: however the threads interleave, waits return with a permit at most as often as the initial value and
  the signals so far allow, and the value of the semaphore is what they leave, less the threads that wait.
\<close>

theorem dispatch_semaphore_permits:
  assumes "dispatch_semaphore_create v n = Some s" "n < 2 ^ 63" "sem_run as s = Next (s', es)"
  shows "occurs Acquired es \<le> sint v + occurs Signalled es \<and>
    sint (dsema_value s') = sint v + occurs Signalled es - occurs Acquired es - int (waiting s')"
proof -
  have "sem_inv v n es s'" using sem_inv_run [OF assms] .
  then show ?thesis using sem_inv_permits [of v n es s'] sem_invD(3) [of v n es s'] by blast
qed

definition demo_run :: "(nat \<times> sem_action) list" where
  "demo_run = [(0, CallWait DISPATCH_TIME_FOREVER), (1, CallWait DISPATCH_TIME_AT), (1, Step), (2, CallWait DISPATCH_TIME_NOW),
    (2, Step), (2, Step), (0, CallSignal), (1, Expire), (0, Step), (2, Step), (1, Step), (2, Step), (1, Step), (1, Step), (1, Step)]"

theorem dispatch_semaphore_permits_witness:
  "\<exists>s s' es. dispatch_semaphore_create 1 3 = Some s \<and> sem_run demo_run s = Next (s', es) \<and>
    es = [Acquired, Signalled, TimedOut, Acquired] \<and> occurs Acquired es \<le> 1 + occurs Signalled es"
proof -
  let ?s = "\<lparr>dsema_value = 1, dsema_orig = 1, dsema_sema = 0, threads = [Idle, Idle, Idle]\<rparr>"
  let ?s' = "\<lparr>dsema_value = 0, dsema_orig = 1, dsema_sema = 0, threads = [Idle, Idle, Idle]\<rparr>"
  have s: "dispatch_semaphore_create 1 3 = Some ?s" by code_simp
  have r: "sem_run demo_run ?s = Next (?s', [Acquired, Signalled, TimedOut, Acquired])" by code_simp
  show ?thesis using dispatch_semaphore_permits [OF s _ r] s r by auto
qed

section \<open>Progress\<close>

text \<open>The actions that continue a call, as opposed to those that start one.\<close>

definition internal :: "sem_action \<Rightarrow> bool" where
  "internal a \<longleftrightarrow> a = Step \<or> a = Expire"

text \<open>How far a call is from its end; the comparison of the undo loop is stale when the value has moved.\<close>

fun rank :: "u64 \<Rightarrow> sem_pc \<Rightarrow> nat" where
  "rank v (WaitSlow t) = 5"
| "rank v TimedWait = 4"
| "rank v UndoLoad = 3"
| "rank v (Undo orig) = (if sint orig < 0 \<and> orig \<noteq> v then 2 else 1)"
| "rank v pc = 0"

definition ranks :: "u64 \<Rightarrow> sem_pc list \<Rightarrow> nat" where
  "ranks v pcs = sum_list (map (rank v) pcs)"

definition sem_measure :: "semaphore \<Rightarrow> nat" where
  "sem_measure s = (waiting s + signalling s) * (length (threads s) + 1) + ranks (dsema_value s) (threads s)"

lemma ranks_update:
  "i < length pcs \<Longrightarrow> ranks v (pcs[i := pc]) + rank v (pcs ! i) = ranks v pcs + rank v pc"
proof (induction pcs arbitrary: i)
  case (Cons x pcs)
  then show ?case by (cases i) (auto simp: ranks_def)
qed simp

lemma rank_moved: "rank w pc \<le> rank v pc + 1"
  by (cases pc) auto

lemma ranks_moved: "ranks w pcs \<le> ranks v pcs + length pcs"
proof (induction pcs)
  case (Cons pc pcs)
  then show ?case using rank_moved [of w pc v] by (simp add: ranks_def)
qed (simp add: ranks_def)

lemma rank_le: "rank v pc \<le> 5"
  by (cases pc) auto

lemma ranks_le: "ranks v pcs \<le> 5 * length pcs"
proof (induction pcs)
  case (Cons pc pcs)
  then show ?case using rank_le [of v pc] by (simp add: ranks_def)
qed (simp add: ranks_def)

lemma pending_le: "waiting s + signalling s \<le> length (threads s)"
proof -
  have "length (filter in_wait pcs) + length (filter (\<lambda>pc. pc = SignalSlow) pcs) \<le> length pcs" for pcs
    by (induction pcs) (auto simp: in_wait_def)
  then show ?thesis by (simp add: waiting_def signalling_def)
qed

lemma sem_measure_bound: "sem_measure s \<le> length (threads s) ^ 2 + 6 * length (threads s)"
proof -
  have "(waiting s + signalling s) * (length (threads s) + 1) \<le> length (threads s) * (length (threads s) + 1)"
    using pending_le by (intro mult_right_mono) auto
  then show ?thesis using ranks_le [of "dsema_value s" "threads s"] by (simp add: sem_measure_def power2_eq_square)
qed

text \<open>A call that moves on lowers its rank; one that ends pays for the comparisons it may make stale.\<close>

lemma measure_move:
  assumes "i < length (threads s)" "s' = goto_pc i pc s"
    and "in_wait (threads s ! i)" "in_wait pc" "rank (dsema_value s) pc < rank (dsema_value s) (threads s ! i)"
  shows "sem_measure s' < sem_measure s"
proof -
  have "threads s ! i \<noteq> SignalSlow" "pc \<noteq> SignalSlow" using assms(3,4) by auto
  then have "waiting s' = waiting s" "signalling s' = signalling s"
    using goto_pc_counts [OF assms(1), of pc] assms(2,3,4) by simp_all
  moreover have "ranks (dsema_value s) ((threads s)[i := pc]) < ranks (dsema_value s) (threads s)"
    using ranks_update [OF assms(1), of "dsema_value s" pc] assms(5) by linarith
  ultimately show ?thesis using assms(2) by (simp add: sem_measure_def)
qed

lemma measure_finish:
  assumes "i < length (threads s)" "threads s ! i \<noteq> Idle"
    and "threads s' = (threads s)[i := Idle]"
  shows "sem_measure s' < sem_measure s"
proof -
  let ?n = "length (threads s)" and ?p = "waiting s + signalling s"
  have w: "waiting s' = waiting (goto_pc i Idle s)" "signalling s' = signalling (goto_pc i Idle s)"
    using assms(3) by (simp_all add: waiting_def signalling_def)
  have "waiting s' + signalling s' + 1 = ?p"
    using goto_pc_counts [OF assms(1), of Idle] assms(2) unfolding w by (cases "threads s ! i") simp_all
  then have "(waiting s' + signalling s') * (?n + 1) + (?n + 1) = ?p * (?n + 1)" by (metis add_mult_distrib mult_1)
  moreover have "ranks (dsema_value s') (threads s') \<le> ranks (dsema_value s) (threads s) + ?n"
    using ranks_moved [of "dsema_value s'" "threads s'" "dsema_value s"] ranks_update [OF assms(1), of "dsema_value s" Idle]
    by (simp add: assms(3))
  ultimately show ?thesis using assms(3) unfolding sem_measure_def by simp
qed

lemma sem_measure_decreases:
  assumes "sem_exec (i, a) s = Next (s', es)" "internal a"
  shows "sem_measure s' < sem_measure s"
  using assms(1)
proof (cases rule: sem_exec_cases)
  case (start t pc)
  then show ?thesis using measure_move [of i s s' pc] by auto
next
  case expire
  then show ?thesis using measure_move [of i s s' UndoLoad] by simp
next
  case load
  then show ?thesis using measure_move [of i s s' "Undo (dsema_value s)"] by simp
next
  case (retry orig)
  then show ?thesis using measure_move [of i s s' "Undo (dsema_value s)"] by simp
next
  case (drain orig)
  then show ?thesis using measure_move [of i s s' SemaWait] by simp
qed (use assms(2) measure_finish [of i s s'] in \<open>auto simp: internal_def\<close>)

text \<open>
  C19: the calls in progress take, all together, at most \<open>n\<^sup>2 + 6n\<close> more steps for \<open>n\<close> threads unless new calls are
  made: the compare-and-swap loop that undoes a wait cannot retry forever.
\<close>

theorem dispatch_semaphore_calls_end:
  assumes "sem_run as s = Next (s', es)" "list_all (\<lambda>a. internal (snd a)) as"
  shows "length as \<le> length (threads s) ^ 2 + 6 * length (threads s)"
proof -
  have "length as + sem_measure s' \<le> sem_measure s"
  proof (rule sem.run_bounded [OF assms])
    fix a s t fs
    assume "sem_exec a s = Next (t, fs)" "internal (snd a)"
    then show "sem_measure t < sem_measure s" using sem_measure_decreases [of "fst a" "snd a" s t fs] by simp
  qed
  then show ?thesis using sem_measure_bound [of s] by linarith
qed

theorem dispatch_semaphore_calls_end_witness:
  "\<exists>s' es. sem_run [(1, Expire), (0, Step), (1, Step), (1, Step), (1, Step)]
      \<lparr>dsema_value = 0, dsema_orig = 1, dsema_sema = 0, threads = [SignalSlow, TimedWait]\<rparr> = Next (s', es) \<and>
    (5::nat) \<le> 2 ^ 2 + 6 * 2"
proof -
  let ?s = "\<lparr>dsema_value = 0, dsema_orig = 1, dsema_sema = 0, threads = [SignalSlow, TimedWait]\<rparr>"
  let ?s' = "\<lparr>dsema_value = 0, dsema_orig = 1, dsema_sema = 0, threads = [Idle, Idle]\<rparr>"
  let ?as = "[(1, Expire), (0, Step), (1, Step), (1, Step), (1, Step)] :: (nat \<times> sem_action) list"
  have r: "sem_run ?as ?s = Next (?s', [Acquired])" by code_simp
  moreover have "list_all (\<lambda>a. internal (snd a)) ?as" by (simp add: internal_def)
  ultimately have "length ?as \<le> length (threads ?s) ^ 2 + 6 * length (threads ?s)"
    by (rule dispatch_semaphore_calls_end)
  then show ?thesis using r by simp
qed

text \<open>No call in progress can move.\<close>

definition quiescent :: "semaphore \<Rightarrow> bool" where
  "quiescent s \<longleftrightarrow> list_all (\<lambda>i. sem_exec (i, Step) s = Blocked \<and> sem_exec (i, Expire) s = Blocked) [0..<length (threads s)]"

lemma quiescent_pc:
  assumes "quiescent s" "i < length (threads s)"
  shows "threads s ! i = Idle \<or> threads s ! i = SemaWait \<and> dsema_sema s = 0"
proof -
  have "sem_exec (i, Step) s = Blocked" "sem_exec (i, Expire) s = Blocked"
    using assms by (auto simp: quiescent_def list_all_iff)
  then show ?thesis using assms(2)
    by (cases "threads s ! i")
      (auto simp: dispatch_semaphore_signal_slow_def dispatch_semaphore_wait_slow_def dispatch_semaphore_wait_undo_def
        dispatch_sema4_wait_def split: if_splits dispatch_time.splits)
qed

lemma quiescent_counts:
  assumes "quiescent s"
  shows "signalling s = 0" "waiting s = 0 \<or> dsema_sema s = 0"
    "waiting s = length (filter (\<lambda>pc. pc = SemaWait) (threads s))"
proof -
  have pc: "pc = Idle \<or> pc = SemaWait \<and> dsema_sema s = 0" if "pc \<in> set (threads s)" for pc
    using that quiescent_pc [OF assms] by (auto simp: in_set_conv_nth)
  show "signalling s = 0" using pc by (auto simp: signalling_def filter_empty_conv)
  show "waiting s = 0 \<or> dsema_sema s = 0" using pc unfolding waiting_def length_0_conv filter_empty_conv by fastforce
  have "filter in_wait (threads s) = filter (\<lambda>pc. pc = SemaWait) (threads s)"
    using pc by (intro filter_cong) (auto dest!: pc)
  then show "waiting s = length (filter (\<lambda>pc. pc = SemaWait) (threads s))" by (simp add: waiting_def)
qed

text \<open>
  C18: no wake-up is lost. When no call can move any more, the only calls left are waits that block for good,
  and there are exactly as many of them as the value is below zero; while the value is not negative
  every call returns.
\<close>

theorem dispatch_semaphore_no_lost_wakeup:
  assumes "dispatch_semaphore_create v n = Some s" "n < 2 ^ 63" "sem_run as s = Next (s', es)" "quiescent s'"
  shows "int (length (filter (\<lambda>pc. pc = SemaWait) (threads s'))) = max 0 (- sint (dsema_value s')) \<and>
    (sint (dsema_value s') \<ge> 0 \<longrightarrow> threads s' = replicate n Idle)"
proof -
  note i = sem_inv_run [OF assms(1,2,3)]
  note q = quiescent_counts [OF assms(4)]
  have w: "int (waiting s') = max 0 (- sint (dsema_value s'))" using sem_invD(4) [OF i] q(1,2) by linarith
  have "threads s' = replicate n Idle" if "sint (dsema_value s') \<ge> 0"
  proof -
    have "filter (\<lambda>pc. pc = SemaWait) (threads s') = []" using w that q(3) by simp
    then have "\<forall>pc \<in> set (threads s'). pc = Idle"
      using quiescent_pc [OF assms(4)] unfolding filter_empty_conv by (metis in_set_conv_nth)
    then show ?thesis using sem_invD(2) [OF i] by (metis replicate_eqI)
  qed
  then show ?thesis using w q(3) by simp
qed

theorem dispatch_semaphore_no_lost_wakeup_witness:
  "\<exists>s s' es. dispatch_semaphore_create 0 3 = Some s \<and>
    sem_run [(0, CallWait DISPATCH_TIME_FOREVER), (1, CallWait DISPATCH_TIME_FOREVER), (0, Step), (1, Step), (2, CallSignal),
      (2, Step), (1, Step)] s = Next (s', es) \<and> quiescent s' \<and>
    int (length (filter (\<lambda>pc. pc = SemaWait) (threads s'))) = max 0 (- sint (dsema_value s'))"
proof -
  let ?as = "[(0, CallWait DISPATCH_TIME_FOREVER), (1, CallWait DISPATCH_TIME_FOREVER), (0, Step), (1, Step), (2, CallSignal),
      (2, Step), (1, Step)] :: (nat \<times> sem_action) list"
  let ?s = "\<lparr>dsema_value = 0, dsema_orig = 0, dsema_sema = 0, threads = [Idle, Idle, Idle]\<rparr>"
  let ?s' = "\<lparr>dsema_value = - 1, dsema_orig = 0, dsema_sema = 0, threads = [SemaWait, Idle, Idle]\<rparr>"
  have c: "dispatch_semaphore_create 0 3 = Some ?s" by code_simp
  have r: "sem_run ?as ?s = Next (?s', [Signalled, Acquired])" by code_simp
  have q: "quiescent ?s'" by code_simp
  show ?thesis using dispatch_semaphore_no_lost_wakeup [OF c _ r q] c r q by auto
qed

text \<open>
  A semaphore that no thread uses may be disposed of exactly when no more permits were taken than were
  signalled back; otherwise disposing of it crashes.
\<close>

lemma dispatch_semaphore_dispose_balanced:
  assumes "dispatch_semaphore_create v n = Some s" "n < 2 ^ 63" "sem_run as s = Next (s', es)"
    "threads s' = replicate n Idle"
  shows "dispatch_semaphore_dispose s' \<longleftrightarrow> occurs Acquired es \<le> occurs Signalled es"
proof -
  note i = sem_inv_run [OF assms(1,2,3)]
  have "waiting s' = 0" using assms(4) by (simp add: waiting_def)
  then show ?thesis using sem_invD(1,3) [OF i] by (auto simp: dispatch_semaphore_dispose_def)
qed

end
