(* ===== verification/Dispatch_Group.thy ===== *)
theory Dispatch_Group
  imports Interleaving
begin

text \<open>
  Groups of libdispatch, the second half of \<open>semaphore.c\<close>, under any interleaving of threads. \<open>dg_state\<close> packs
  into 64 bits the generation (32 bits, counting how often the group became empty), the value (30 bits, minus the
  number of enters without a leave) and two flags, for waiters and for notifications. As for semaphores, the state
  also says where each thread stands, and a step is one atomic operation of one thread: the read-modify-write
  macros \<open>os_atomic_rmw_loop2o\<close> are one step, while the loop over \<open>os_atomic_cmpxchgv2o\<close> in \<open>dispatch_group_leave\<close> is
  one step for each attempt. Taking a reference is a step of its own.

  The list of notifications is the multi-producer list of \<open>os_mpsc\<close>, with the push and the snapshot as single
  steps; a snapshot of an empty list would spin and is \<open>Blocked\<close>. Notifications are numbers. \<open>dg_refs\<close> counts the
  references that the group holds to itself. \<open>_dispatch_wait_on_address\<close> sleeps only while the word has the given
  value, and \<open>_dispatch_wake_by_address\<close> wakes all that sleep.
\<close>

section \<open>The state word\<close>

abbreviation (input) DISPATCH_GROUP_VALUE_MASK :: u64 where "DISPATCH_GROUP_VALUE_MASK \<equiv> 0x00000000fffffffc"
abbreviation (input) DISPATCH_GROUP_VALUE_INTERVAL :: u64 where "DISPATCH_GROUP_VALUE_INTERVAL \<equiv> 4"
abbreviation (input) DISPATCH_GROUP_VALUE_1 :: u32 where "DISPATCH_GROUP_VALUE_1 \<equiv> 0xfffffffc"
abbreviation (input) DISPATCH_GROUP_VALUE_MAX :: u32 where "DISPATCH_GROUP_VALUE_MAX \<equiv> 4"
abbreviation (input) DISPATCH_GROUP_HAS_NOTIFS :: u64 where "DISPATCH_GROUP_HAS_NOTIFS \<equiv> 2"
abbreviation (input) DISPATCH_GROUP_HAS_WAITERS :: u64 where "DISPATCH_GROUP_HAS_WAITERS \<equiv> 1"

definition dg_state_value :: "u64 \<Rightarrow> u32" where
  "dg_state_value st = drop_bit 2 (- (ucast st AND 0xfffffffc))"

definition dg_state_gen :: "u64 \<Rightarrow> u32" where
  "dg_state_gen st = ucast (drop_bit 32 st)"

definition has_notifs :: "u64 \<Rightarrow> bool" where
  "has_notifs st \<longleftrightarrow> st AND DISPATCH_GROUP_HAS_NOTIFS \<noteq> 0"

definition has_waiters :: "u64 \<Rightarrow> bool" where
  "has_waiters st \<longleftrightarrow> st AND DISPATCH_GROUP_HAS_WAITERS \<noteq> 0"

definition no_value :: "u64 \<Rightarrow> bool" where
  "no_value st \<longleftrightarrow> st AND DISPATCH_GROUP_VALUE_MASK = 0"

section \<open>Threads and steps\<close>

text \<open>
  \<open>Outside\<close>: in no function. \<open>Retaining\<close>: in \<open>dispatch_group_enter\<close> on an empty group, after the subtraction and
  before \<open>_dispatch_retain\<close>. \<open>Leaving old\<close>: in the loop of \<open>dispatch_group_leave\<close>. \<open>Pushed\<close>: in
  \<open>_dispatch_group_notify\<close> after the push to an empty list and before \<open>_dispatch_retain\<close>; \<open>Notifying\<close>: after it. \<open>Waking st b\<close>: at the start of \<open>_dispatch_group_wake\<close>;
  \<open>Submitting cs st b\<close>: in its loop over the snapshot; \<open>Alerting st b\<close>: before \<open>_dispatch_wake_by_address\<close>;
  \<open>Releasing n\<close>: before the release. \<open>WaitOn g t\<close>, \<open>Asleep g t\<close>: before and inside \<open>_dispatch_wait_on_address\<close>;
  \<open>Awake g t b\<close>: after it, \<open>b\<close> for \<open>ETIMEDOUT\<close>.
\<close>

datatype group_pc =
    Outside
  | Retaining
  | Leaving u64
  | Pushed
  | Notifying
  | Waking u64 bool
  | Submitting "nat list" u64 bool
  | Alerting u64 bool
  | Releasing nat
  | WaitOn u32 dispatch_time
  | Asleep u32 dispatch_time
  | Awake u32 dispatch_time bool

record group =
  dg_state :: u64
  dg_notify :: "nat list"
  dg_refs :: int
  members :: "group_pc list"

text \<open>\<open>Entered\<close> and \<open>Left\<close> are the atomic operations of an enter and a leave; \<open>EnterReturned\<close> is the return of an enter.\<close>

datatype group_event = Entered | EnterReturned | Left | Registered nat | Submitted nat | Returned nat | Expired nat

type_synonym group_result = "(group \<times> group_event list) outcome"

definition move_to :: "nat \<Rightarrow> group_pc \<Rightarrow> group \<Rightarrow> group" where
  "move_to i pc dg = dg\<lparr>members := (members dg)[i := pc]\<rparr>"

text \<open>A group for \<open>n\<close> threads that has been entered \<open>k\<close> times.\<close>

definition dispatch_group_create_with_count :: "u32 \<Rightarrow> nat \<Rightarrow> group" where
  "dispatch_group_create_with_count k n =
    \<lparr>dg_state = (if k \<noteq> 0 then ucast (- k * 4) else 0), dg_notify = [], dg_refs = (if k \<noteq> 0 then 1 else 0),
     members = replicate n Outside\<rparr>"

definition dispatch_group_create :: "nat \<Rightarrow> group" where
  "dispatch_group_create n = dispatch_group_create_with_count 0 n"

definition dispatch_group_create_and_enter :: "nat \<Rightarrow> group" where
  "dispatch_group_create_and_enter n = dispatch_group_create_with_count 1 n"

text \<open>Whether disposing of the group passes its check.\<close>

definition dispatch_group_dispose :: "group \<Rightarrow> bool" where
  "dispatch_group_dispose dg \<longleftrightarrow> (ucast (dg_state dg) :: u32) = 0"

text \<open>The body of the loop in \<open>_dispatch_group_wait_slow\<close>, in two steps.\<close>

definition dispatch_wait_on_address :: "nat \<Rightarrow> u32 \<Rightarrow> dispatch_time \<Rightarrow> group \<Rightarrow> group_result" where
  "dispatch_wait_on_address i g t dg =
    (if dg_state_gen (dg_state dg) \<noteq> g then Next (move_to i (Awake g t False) dg, [])
     else Next (move_to i (Asleep g t) dg, []))"

definition dispatch_group_wait_slow :: "nat \<Rightarrow> u32 \<Rightarrow> dispatch_time \<Rightarrow> bool \<Rightarrow> group \<Rightarrow> group_result" where
  "dispatch_group_wait_slow i g t timed_out dg =
    (if g \<noteq> dg_state_gen (dg_state dg) then Next (move_to i Outside dg, [Returned i])
     else if timed_out then Next (move_to i Outside dg, [Expired i])
     else Next (move_to i (WaitOn g t) dg, []))"

definition dispatch_group_wait :: "nat \<Rightarrow> dispatch_time \<Rightarrow> group \<Rightarrow> group_result" where
  "dispatch_group_wait i t dg =
    (let old_state = dg_state dg; new_state = old_state OR DISPATCH_GROUP_HAS_WAITERS in
     if no_value old_state then Next (dg, [Returned i])
     else if t = DISPATCH_TIME_NOW then Next (dg, [Expired i])
     else if has_waiters old_state then Next (move_to i (WaitOn (dg_state_gen new_state) t) dg, [])
     else Next (move_to i (WaitOn (dg_state_gen new_state) t) (dg\<lparr>dg_state := new_state\<rparr>), []))"

text \<open>\<open>_dispatch_group_wake\<close> in four steps.\<close>

definition dispatch_group_wake :: "nat \<Rightarrow> u64 \<Rightarrow> bool \<Rightarrow> group \<Rightarrow> group_result" where
  "dispatch_group_wake i st needs_release dg =
    (if has_notifs st then
       if dg_notify dg = [] then Blocked
       else Next (move_to i (Submitting (dg_notify dg) st needs_release) (dg\<lparr>dg_notify := []\<rparr>), [])
     else Next (move_to i (Alerting st needs_release) dg, []))"

fun wake_submit :: "nat \<Rightarrow> nat list \<Rightarrow> u64 \<Rightarrow> bool \<Rightarrow> group \<Rightarrow> group_result" where
  "wake_submit i [] st needs_release dg = Next (move_to i (Alerting st needs_release) dg, [])"
| "wake_submit i (dc # dcs) st needs_release dg =
    Next (move_to i (if dcs = [] then Alerting st needs_release else Submitting dcs st needs_release) dg, [Submitted dc])"

fun awaken :: "group_pc \<Rightarrow> group_pc" where
  "awaken (Asleep g t) = Awake g t False"
| "awaken pc = pc"

definition dispatch_wake_by_address :: "nat \<Rightarrow> u64 \<Rightarrow> bool \<Rightarrow> group \<Rightarrow> group_result" where
  "dispatch_wake_by_address i st needs_release dg =
    (let refs = (if needs_release then 1 else 0) + (if has_notifs st then 1 else 0);
         dg = (if has_waiters st then dg\<lparr>members := map awaken (members dg)\<rparr> else dg)
     in Next (move_to i (Releasing refs) dg, []))"

definition wake_release :: "nat \<Rightarrow> nat \<Rightarrow> group \<Rightarrow> group_result" where
  "wake_release i n dg = Next (move_to i Outside (dg\<lparr>dg_refs := dg_refs dg - int n\<rparr>), [])"

definition cleared :: "u64 \<Rightarrow> u64" where
  "cleared old_state =
    (if no_value old_state
     then old_state AND NOT DISPATCH_GROUP_HAS_WAITERS AND NOT DISPATCH_GROUP_HAS_NOTIFS
     else old_state AND NOT DISPATCH_GROUP_HAS_NOTIFS)"

definition leave_loop :: "nat \<Rightarrow> u64 \<Rightarrow> group \<Rightarrow> group_result" where
  "leave_loop i old_state dg =
    (let new_state = cleared old_state in
     if old_state = new_state then Next (move_to i (Waking old_state True) dg, [])
     else if dg_state dg = old_state then Next (move_to i (Waking old_state True) (dg\<lparr>dg_state := new_state\<rparr>), [])
     else Next (move_to i (Leaving (dg_state dg)) dg, []))"

definition dispatch_group_leave :: "nat \<Rightarrow> group \<Rightarrow> group_result" where
  "dispatch_group_leave i dg =
    (let old_state = dg_state dg;
         old_value = (ucast (old_state AND DISPATCH_GROUP_VALUE_MASK) :: u32);
         dg = dg\<lparr>dg_state := old_state + DISPATCH_GROUP_VALUE_INTERVAL\<rparr>
     in if old_value = DISPATCH_GROUP_VALUE_1
        then Next (move_to i (Leaving (old_state + DISPATCH_GROUP_VALUE_INTERVAL)) dg, [Left])
        else if old_value = 0 then Crashed
        else Next (dg, [Left]))"

text \<open>The subtraction is on the lower 32 bits of the state word.\<close>

definition dispatch_group_enter :: "nat \<Rightarrow> group \<Rightarrow> group_result" where
  "dispatch_group_enter i dg =
    (let old_bits = (ucast (dg_state dg) :: u32);
         old_value = old_bits AND 0xfffffffc;
         dg = dg\<lparr>dg_state := push_bit 32 (drop_bit 32 (dg_state dg)) OR ucast (old_bits - 4)\<rparr>
     in if old_value = 0 then Next (move_to i Retaining dg, [Entered])
        else if old_value = DISPATCH_GROUP_VALUE_MAX then Crashed
        else Next (dg, [Entered, EnterReturned]))"

definition enter_retain :: "nat \<Rightarrow> group \<Rightarrow> group_result" where
  "enter_retain i dg = Next (move_to i Outside (dg\<lparr>dg_refs := dg_refs dg + 1\<rparr>), [EnterReturned])"

definition dispatch_group_notify :: "nat \<Rightarrow> nat \<Rightarrow> group \<Rightarrow> group_result" where
  "dispatch_group_notify i dsn dg =
    (let was_empty = (dg_notify dg = []);
         dg = dg\<lparr>dg_notify := dg_notify dg @ [dsn]\<rparr>
     in if was_empty then Next (move_to i Pushed dg, [Registered dsn])
        else Next (dg, [Registered dsn]))"

definition notify_retain :: "nat \<Rightarrow> group \<Rightarrow> group_result" where
  "notify_retain i dg = Next (move_to i Notifying (dg\<lparr>dg_refs := dg_refs dg + 1\<rparr>), [])"

definition notify_loop :: "nat \<Rightarrow> group \<Rightarrow> group_result" where
  "notify_loop i dg =
    (let old_state = dg_state dg; new_state = old_state OR DISPATCH_GROUP_HAS_NOTIFS in
     if (ucast old_state :: u32) = 0 then Next (move_to i (Waking new_state False) dg, [])
     else Next (move_to i Outside (dg\<lparr>dg_state := new_state\<rparr>), []))"

text \<open>A call, the next step of a call, the expiry of a timed wait, or a wake-up for no reason.\<close>

datatype group_action = Enter | Leave | WaitFor dispatch_time | Notify nat | Go | TimeUp | Spurious

fun group_exec :: "nat \<times> group_action \<Rightarrow> group \<Rightarrow> group_result" where
  "group_exec (i, a) dg =
    (if i \<ge> length (members dg) then Blocked
     else case (members dg ! i, a) of
       (Outside, Enter) \<Rightarrow> dispatch_group_enter i dg
     | (Outside, Leave) \<Rightarrow> dispatch_group_leave i dg
     | (Outside, WaitFor t) \<Rightarrow> dispatch_group_wait i t dg
     | (Outside, Notify dsn) \<Rightarrow> dispatch_group_notify i dsn dg
     | (Retaining, Go) \<Rightarrow> enter_retain i dg
     | (Leaving old_state, Go) \<Rightarrow> leave_loop i old_state dg
     | (Pushed, Go) \<Rightarrow> notify_retain i dg
     | (Notifying, Go) \<Rightarrow> notify_loop i dg
     | (Waking st b, Go) \<Rightarrow> dispatch_group_wake i st b dg
     | (Submitting dcs st b, Go) \<Rightarrow> wake_submit i dcs st b dg
     | (Alerting st b, Go) \<Rightarrow> dispatch_wake_by_address i st b dg
     | (Releasing n, Go) \<Rightarrow> wake_release i n dg
     | (WaitOn g t, Go) \<Rightarrow> dispatch_wait_on_address i g t dg
     | (WaitOn g t, TimeUp) \<Rightarrow>
         if t = DISPATCH_TIME_AT then Next (move_to i (Awake g t True) dg, []) else Blocked
     | (Asleep g t, TimeUp) \<Rightarrow>
         if t = DISPATCH_TIME_AT then Next (move_to i (Awake g t True) dg, []) else Blocked
     | (Asleep g t, Spurious) \<Rightarrow> Next (move_to i (Awake g t False) dg, [])
     | (Awake g t b, Go) \<Rightarrow> dispatch_group_wait_slow i g t b dg
     | _ \<Rightarrow> Blocked)"

fun group_run :: "(nat \<times> group_action) list \<Rightarrow> group \<Rightarrow> group_result" where
  "group_run [] dg = Next (dg, [])"
| "group_run (a # as) dg =
    (case group_exec a dg of
       Blocked \<Rightarrow> Blocked
     | Crashed \<Rightarrow> Crashed
     | Next (dg, es) \<Rightarrow>
         (case group_run as dg of
            Blocked \<Rightarrow> Blocked
          | Crashed \<Rightarrow> Crashed
          | Next (dg, fs) \<Rightarrow> Next (dg, es @ fs)))"

interpretation grp: interleaved group_exec group_run
  by unfold_locales simp_all

section \<open>The parts of the state word\<close>

text \<open>The value and the generation as numbers.\<close>

definition val :: "u64 \<Rightarrow> nat" where
  "val st = unat st div 4 mod 2 ^ 30"

definition gen :: "u64 \<Rightarrow> nat" where
  "gen st = unat st div 4 div 2 ^ 30"

definition flags :: "u64 \<Rightarrow> nat" where
  "flags st = unat st mod 4"

lemma parts: "unat st = 4 * (2 ^ 30 * gen st + val st) + flags st" "val st < 2 ^ 30" "flags st < 4" "gen st < 2 ^ 32"
proof -
  show "unat st = 4 * (2 ^ 30 * gen st + val st) + flags st"
    unfolding gen_def val_def flags_def by (simp only: mult_div_mod_eq)
  show "val st < 2 ^ 30" "flags st < 4" by (simp_all add: val_def flags_def)
  have "unat st < 2 ^ 64" using unat_bound [of st] by simp
  then show "gen st < 2 ^ 32" by (simp add: gen_def div_mult2_eq [symmetric] less_mult_imp_div_less)
qed

lemma parts_unique:
  assumes "unat st = 4 * (2 ^ 30 * g + v) + f" "v < 2 ^ 30" "f < 4"
  shows "gen st = g" "val st = v" "flags st = f"
proof -
  have "(4 * x + f) div 4 = x" "(4 * x + f) mod 4 = f" for x using assms(3) by simp_all
  then have "unat st div 4 = 2 ^ 30 * g + v" "unat st mod 4 = f" unfolding assms(1) by blast+
  moreover have "(2 ^ 30 * g + v) div 2 ^ 30 = g" "(2 ^ 30 * g + v) mod 2 ^ 30 = v" using assms(2) by simp_all
  ultimately show "gen st = g" "val st = v" "flags st = f" by (simp_all only: gen_def val_def flags_def)
qed

lemma parts_fit: "v < 2 ^ 30 \<Longrightarrow> g < 2 ^ 32 \<Longrightarrow> f < 4 \<Longrightarrow> 4 * (2 ^ 30 * g + v) + f < (2 ^ 64 :: nat)"
  by simp

lemma value_mask: "st AND 0xfffffffc = push_bit 2 (take_bit 30 (drop_bit 2 st))" for st :: "'a::len word"
proof -
  have e: "(0xfffffffc :: 'a word) = push_bit 2 (mask 30)" by (simp add: mask_eq_exp_minus_1 push_bit_eq_mult)
  show ?thesis unfolding e
  proof (rule bit_word_eqI)
    fix n assume n: "n < LENGTH('a)"
    show "bit (st AND push_bit 2 (mask 30)) n \<longleftrightarrow> bit (push_bit 2 (take_bit 30 (drop_bit 2 st))) n"
    proof (cases "2 \<le> n")
      case True
      then obtain m where "n = 2 + m" using le_Suc_ex by blast
      then show ?thesis using n by (auto simp: bit_and_iff bit_push_bit_iff bit_mask_iff bit_take_bit_iff bit_drop_bit_eq)
    qed (simp add: bit_and_iff bit_push_bit_iff)
  qed
qed

lemma unat_value_mask: "unat (st AND 0xfffffffc :: u64) = 4 * val st"
proof -
  have v: "unat (take_bit 30 (drop_bit 2 st)) = val st"
    by (simp add: take_bit_eq_mod drop_bit_eq_div unat_mod_distrib unat_div_distrib val_def)
  then show ?thesis
    using parts(2) [of st] unfolding value_mask push_bit_eq_mult by (simp add: unat_word_ariths)
qed

lemma no_value_val: "no_value st \<longleftrightarrow> val st = 0"
  unfolding no_value_def unat_eq_zero [symmetric] unat_value_mask by simp

lemma and_exp_bit: "st AND 2 ^ k \<noteq> 0 \<longleftrightarrow> bit st k" for st :: "'a::len word"
proof -
  have b: "bit (st AND 2 ^ k) n \<longleftrightarrow> n = k \<and> bit st k" for n by (auto simp: bit_and_iff bit_exp_iff dest: bit_imp_le_length)
  show ?thesis
  proof
    assume "bit st k"
    then have "bit (st AND 2 ^ k) k" using b by simp
    then show "st AND 2 ^ k \<noteq> 0" by auto
  next
    assume "st AND 2 ^ k \<noteq> 0"
    then obtain n where "bit (st AND 2 ^ k) n" by (auto simp: bit_eq_iff)
    then show "bit st k" using b by simp
  qed
qed

lemma bit_unat: "bit (st :: u64) k \<longleftrightarrow> odd (unat st div 2 ^ k)"
  unfolding bit_iff_odd [symmetric, of "unat st" k] by (simp add: bit_unsigned_iff)

lemma has_flags: "has_waiters st \<longleftrightarrow> odd (flags st)" "has_notifs st \<longleftrightarrow> 2 \<le> flags st"
proof -
  have "has_waiters st \<longleftrightarrow> odd (unat st)" using and_exp_bit [of st 0] bit_unat [of st 0] by (simp add: has_waiters_def)
  also have "\<dots> \<longleftrightarrow> odd (flags st)" unfolding flags_def by presburger
  finally show "has_waiters st \<longleftrightarrow> odd (flags st)" .
  have "has_notifs st \<longleftrightarrow> odd (unat st div 2)" using and_exp_bit [of st 1] bit_unat [of st 1] by (simp add: has_notifs_def)
  also have "\<dots> \<longleftrightarrow> 2 \<le> flags st" unfolding flags_def by presburger
  finally show "has_notifs st \<longleftrightarrow> 2 \<le> flags st" .
qed

lemma flags_eq: "flags st = of_bool (has_waiters st) + 2 * of_bool (has_notifs st)"
proof -
  have "flags st = 0 \<or> flags st = 1 \<or> flags st = 2 \<or> flags st = 3" using parts(3) [of st] by arith
  then show ?thesis by (auto simp: has_flags)
qed

subsection \<open>What the operations do to the parts\<close>

lemma dg_state_gen_gen: "unat (dg_state_gen st) = gen st"
proof -
  have "unat (drop_bit 32 st) = gen st"
    by (simp add: drop_bit_eq_div unat_div_distrib gen_def div_mult2_eq [symmetric])
  then show ?thesis using parts(4) [of st] by (simp add: dg_state_gen_def unsigned_ucast_eq take_bit_nat_eq_self)
qed

lemma state_eqI:
  assumes "gen st = gen st'" "val st = val st'" "flags st = flags st'"
  shows "st = st'"
  using assms parts(1) [of st] parts(1) [of st'] by (metis word_unat_eq_iff)

lemma high_part:
  "4 * (2 ^ 30 * g + v) + f = 4 * (2 ^ 30 * (g mod 2 ^ 32) + v) + f + 2 ^ 64 * (g div 2 ^ 32)" for g v f :: nat
proof -
  have "4 * (2 ^ 30 * (r + 2 ^ 32 * q) + v) + f = 4 * (2 ^ 30 * r + v) + f + 2 ^ 64 * q" for r q :: nat by simp
  from this [of "g mod 2 ^ 32" "g div 2 ^ 32"] show ?thesis by (simp only: mod_mult_div_eq)
qed

lemma add_interval:
  "val (st + 4) = (if val st = 2 ^ 30 - 1 then 0 else val st + 1)"
  "gen (st + 4) = (if val st = 2 ^ 30 - 1 then (gen st + 1) mod 2 ^ 32 else gen st)"
  "flags (st + 4) = flags st"
proof -
  let ?v = "if val st = 2 ^ 30 - 1 then 0 else val st + 1" and ?g = "if val st = 2 ^ 30 - 1 then gen st + 1 else gen st"
  note p = parts [of st]
  have v: "?v < 2 ^ 30" using p(2) by auto
  have g: "?g mod 2 ^ 32 < 2 ^ 32" by simp
  have "unat st + 4 = 4 * (2 ^ 30 * ?g + ?v) + flags st"
    using p(1) by (cases "val st = 2 ^ 30 - 1") (simp_all add: algebra_simps)
  also have "\<dots> = 4 * (2 ^ 30 * (?g mod 2 ^ 32) + ?v) + flags st + 2 ^ 64 * (?g div 2 ^ 32)"
    by (rule high_part)
  finally have "(unat st + 4) mod 2 ^ 64 = 4 * (2 ^ 30 * (?g mod 2 ^ 32) + ?v) + flags st"
    using parts_fit [OF v g p(3)] by (simp only: mod_mult_self2 mod_less)
  then have "unat (st + 4) = 4 * (2 ^ 30 * (?g mod 2 ^ 32) + ?v) + flags st" by (simp add: unat_word_ariths)
  from parts_unique [OF this v p(3)] p(4)
  show "val (st + 4) = ?v" "flags (st + 4) = flags st"
    "gen (st + 4) = (if val st = 2 ^ 30 - 1 then (gen st + 1) mod 2 ^ 32 else gen st)" by (simp_all split: if_splits)
qed

lemma ucast_eq_parts:
  "unat (ucast st :: u32) = 4 * val st + flags st"
proof -
  have "unat (ucast st :: u32) = unat st mod 2 ^ 32" by (simp add: unsigned_ucast_eq take_bit_eq_mod)
  also have "\<dots> = (4 * val st + flags st + 2 ^ 32 * gen st) mod 2 ^ 32"
    by (subst parts(1)) (simp add: algebra_simps)
  also have "\<dots> = 4 * val st + flags st" using parts(2,3) [of st] by simp
  finally show ?thesis .
qed

lemma low_zero: "(ucast st :: u32) = 0 \<longleftrightarrow> val st = 0 \<and> flags st = 0"
  unfolding unat_eq_zero [symmetric] ucast_eq_parts by simp

lemma low_value: "unat (ucast st AND 0xfffffffc :: u32) = 4 * val st"
proof -
  have "unat (take_bit 30 (drop_bit 2 (ucast st :: u32))) = (4 * val st + flags st) div 4 mod 2 ^ 30"
    by (simp add: take_bit_eq_mod drop_bit_eq_div unat_mod_distrib unat_div_distrib ucast_eq_parts)
  also have "\<dots> = val st" using parts(2,3) [of st] by simp
  finally show ?thesis using parts(2) [of st] unfolding value_mask push_bit_eq_mult by (simp add: unat_word_ariths)
qed

lemma low_value_eq:
  "ucast st AND 0xfffffffc = (0 :: u32) \<longleftrightarrow> val st = 0" "ucast st AND 0xfffffffc = (4 :: u32) \<longleftrightarrow> val st = 1"
  using low_value [of st] by (simp_all add: word_unat_eq_iff)

lemma masked_value: "unat (ucast (st AND 0xfffffffc :: u64) :: u32) = 4 * val st"
  using parts(2) [of st] by (simp add: unsigned_ucast_eq unat_value_mask take_bit_nat_eq_self)

lemma masked_value_eq:
  "ucast (st AND 0xfffffffc :: u64) = (0 :: u32) \<longleftrightarrow> val st = 0"
  "ucast (st AND 0xfffffffc :: u64) = (0xfffffffc :: u32) \<longleftrightarrow> val st = 2 ^ 30 - 1"
  using masked_value [of st] by (simp_all add: word_unat_eq_iff)

lemma dg_state_value_val: "unat (dg_state_value st) = (2 ^ 30 - val st) mod 2 ^ 30"
proof -
  let ?w = "ucast st AND 0xfffffffc :: u32"
  have "unat (- ?w) = (2 ^ 32 - 4 * val st) mod 2 ^ 32"
  proof -
    have "unat (- ?w) = unat (0 - ?w)" by simp
    also have "\<dots> = (if unat ?w \<le> 0 then 0 else 2 ^ 32 - unat ?w)" by (simp only: unat_sub_if') simp
    finally show ?thesis unfolding low_value using parts(2) [of st] by simp
  qed
  moreover have "unat (drop_bit 2 (- ?w)) = unat (- ?w) div 4" by (simp add: drop_bit_eq_div unat_div_distrib)
  moreover have "(2 ^ 32 - 4 * val st) mod 2 ^ 32 div 4 = (2 ^ 30 - val st) mod 2 ^ 30"
    using parts(2) [of st] by (cases "val st = 0") auto
  ultimately show ?thesis by (simp add: dg_state_value_def)
qed

lemma enter_state:
  fixes st :: u64
  defines "st' \<equiv> push_bit 32 (drop_bit 32 st) OR ucast ((ucast st :: u32) - 4)"
  shows "val st' = (if val st = 0 then 2 ^ 30 - 1 else val st - 1)" "gen st' = gen st" "flags st' = flags st"
proof -
  let ?v = "if val st = 0 then 2 ^ 30 - 1 else val st - 1" and ?l = "(ucast st :: u32) - 4"
  note p = parts [of st]
  have v: "?v < 2 ^ 30" using p(2) by auto
  have l: "unat ?l = 4 * ?v + flags st"
  proof (cases "val st = 0")
    case True
    then have "unat (ucast st :: u32) = flags st" by (simp add: ucast_eq_parts)
    then show ?thesis using True p(3) by (simp add: unat_sub_if')
  next
    case False
    then show ?thesis using p(2,3) by (simp add: unat_sub_if' ucast_eq_parts)
  qed
  have d: "push_bit 32 (drop_bit 32 st) AND ucast ?l = 0"
    by (rule bit_word_eqI) (auto simp: bit_and_iff bit_push_bit_iff bit_ucast_iff dest: bit_imp_le_length)
  have h: "unat (push_bit 32 (drop_bit 32 st)) = 2 ^ 32 * gen st"
  proof -
    have "unat (drop_bit 32 st) = gen st"
      by (simp add: drop_bit_eq_div unat_div_distrib gen_def div_mult2_eq [symmetric])
    then show ?thesis using p(4) by (simp add: push_bit_eq_mult unat_word_ariths)
  qed
  have c: "unat (ucast ?l :: u64) = 4 * ?v + flags st" using l by (simp add: unat_ucast_up)
  have "unat st' = 2 ^ 32 * gen st + (4 * ?v + flags st)"
    using parts_fit [OF v p(4,3)] h c unfolding st'_def disjunctive_add_eq_or [OF d, symmetric]
    by (simp only: unat_word_ariths) simp
  then have "unat st' = 4 * (2 ^ 30 * gen st + ?v) + flags st" by simp
  from parts_unique [OF this v p(3)] show "val st' = ?v" "gen st' = gen st" "flags st' = flags st" by blast+
qed

lemma bit_flags: "has_waiters st \<longleftrightarrow> bit st 0" "has_notifs st \<longleftrightarrow> bit st 1"
  using and_exp_bit [of st 0] and_exp_bit [of st 1] by (simp_all add: has_waiters_def has_notifs_def)

lemma high_parts:
  assumes "\<And>n. 2 \<le> n \<Longrightarrow> n < 64 \<Longrightarrow> bit st n = bit st' n"
  shows "val st = val st'" "gen st = gen st'"
proof -
  have "drop_bit 2 st = drop_bit 2 st'"
  proof (rule bit_word_eqI)
    fix n assume "n < LENGTH(64)"
    show "bit (drop_bit 2 st) n = bit (drop_bit 2 st') n"
      using assms [of "2 + n"] by (cases "2 + n < 64") (auto simp: bit_drop_bit_eq dest: bit_imp_le_length)
  qed
  then have "unat st div 4 = unat st' div 4"
    by (metis drop_bit_eq_div power2_eq_square num_double numeral_times_numeral unat_drop_bit_eq)
  then show "val st = val st'" "gen st = gen st'" by (simp_all add: val_def gen_def)
qed

lemma set_waiters:
  "val (st OR 1) = val st" "gen (st OR 1) = gen st" "has_waiters (st OR 1)" "has_notifs (st OR 1) = has_notifs st"
  using high_parts [of "st OR 1" st] by (simp_all add: bit_flags bit_or_iff bit_1_iff)

lemma set_notifs:
  "val (st OR 2) = val st" "gen (st OR 2) = gen st" "has_notifs (st OR 2)" "has_waiters (st OR 2) = has_waiters st"
  using high_parts [of "st OR 2" st] by (simp_all add: bit_flags bit_or_iff bit_2_iff)

lemma bit_clear:
  "bit (st AND NOT 1 AND NOT 2) n \<longleftrightarrow> bit st n \<and> n \<noteq> 0 \<and> n \<noteq> 1"
  "bit (st AND NOT 2) n \<longleftrightarrow> bit st n \<and> n \<noteq> 1" for st :: u64
  by (simp only: bit_and_iff bit_not_iff bit_1_iff bit_2_iff; auto dest: bit_imp_le_length)+

lemma cleared_parts:
  "val (cleared st) = val st" "gen (cleared st) = gen st" "\<not> has_notifs (cleared st)"
  "has_waiters (cleared st) \<longleftrightarrow> has_waiters st \<and> val st \<noteq> 0"
proof -
  have b: "bit (cleared st) n \<longleftrightarrow> bit st n \<and> n \<noteq> 1 \<and> (no_value st \<longrightarrow> n \<noteq> 0)" for n
    unfolding cleared_def by (cases "no_value st") (auto simp only: if_True if_False bit_clear)
  then show "val (cleared st) = val st" "gen (cleared st) = gen st" using high_parts [of "cleared st" st] by simp_all
  show "\<not> has_notifs (cleared st)" "has_waiters (cleared st) \<longleftrightarrow> has_waiters st \<and> val st \<noteq> 0"
    unfolding bit_flags b no_value_val by auto
qed

lemma cleared_same: "cleared st = st \<longleftrightarrow> \<not> has_notifs st \<and> (val st = 0 \<longrightarrow> \<not> has_waiters st)"
proof
  assume "cleared st = st"
  then show "\<not> has_notifs st \<and> (val st = 0 \<longrightarrow> \<not> has_waiters st)" using cleared_parts [of st] by metis
next
  assume "\<not> has_notifs st \<and> (val st = 0 \<longrightarrow> \<not> has_waiters st)"
  then show "cleared st = st"
    by (intro state_eqI) (use cleared_parts [of st] in \<open>auto simp: flags_eq\<close>)
qed

lemma same_flags: "flags st = flags st' \<Longrightarrow> has_waiters st = has_waiters st' \<and> has_notifs st = has_notifs st'"
  by (simp add: has_flags)

section \<open>The steps of a thread\<close>

lemma move_to_simps [simp]:
  "dg_state (move_to i pc dg) = dg_state dg" "dg_notify (move_to i pc dg) = dg_notify dg"
  "dg_refs (move_to i pc dg) = dg_refs dg" "members (move_to i pc dg) = (members dg)[i := pc]"
  by (simp_all add: move_to_def)

lemma or_waiters_same: "has_waiters st \<Longrightarrow> st OR 1 = st"
  by (rule state_eqI) (simp_all add: set_waiters flags_eq)

lemma add_flags: "has_waiters (st + 4) = has_waiters st" "has_notifs (st + 4) = has_notifs st"
  using same_flags [OF add_interval(3)] by blast+

lemma members_outside: "members dg ! i = Outside \<Longrightarrow> (members dg)[i := Outside] = members dg"
  by (metis list_update_id)

text \<open>The members after a step that takes thread \<open>i\<close> to \<open>pc\<close> and no other.\<close>

definition becomes :: "nat \<Rightarrow> group_pc \<Rightarrow> group \<Rightarrow> group \<Rightarrow> bool" where
  "becomes i pc dg dg' \<longleftrightarrow> members dg' = (members dg)[i := pc]"

lemma enter_cases:
  assumes "dispatch_group_enter i dg = Next (dg', es)" "members dg ! i = Outside"
  shows "becomes i (if val (dg_state dg) = 0 then Retaining else Outside) dg dg'"
    "es = (if val (dg_state dg) = 0 then [Entered] else [Entered, EnterReturned])"
    "val (dg_state dg) \<noteq> 1" "dg_notify dg' = dg_notify dg" "dg_refs dg' = dg_refs dg"
    "val (dg_state dg') = (if val (dg_state dg) = 0 then 2 ^ 30 - 1 else val (dg_state dg) - 1)"
    "gen (dg_state dg') = gen (dg_state dg)" "flags (dg_state dg') = flags (dg_state dg)"
  using assms members_outside [of dg i] enter_state [of "dg_state dg"]
  by (auto simp: dispatch_group_enter_def Let_def becomes_def low_value_eq split: if_splits)

lemma leave_cases:
  assumes "dispatch_group_leave i dg = Next (dg', es)" "members dg ! i = Outside"
  obtains (last) "dg' = move_to i (Leaving (dg_state dg + 4)) (dg\<lparr>dg_state := dg_state dg + 4\<rparr>)" "es = [Left]"
      "val (dg_state dg) = 2 ^ 30 - 1"
    | (other) "dg' = move_to i Outside (dg\<lparr>dg_state := dg_state dg + 4\<rparr>)" "es = [Left]"
      "val (dg_state dg) \<noteq> 2 ^ 30 - 1" "val (dg_state dg) \<noteq> 0"
  using assms members_outside [of dg i]
  by (auto simp: dispatch_group_leave_def Let_def masked_value_eq move_to_def split: if_splits)

lemma wait_cases:
  assumes "dispatch_group_wait i t dg = Next (dg', es)" "members dg ! i = Outside"
  obtains (now) "dg' = move_to i Outside dg" "es = [Returned i] \<and> val (dg_state dg) = 0 \<or> es = [Expired i]"
    | (wait) "dg' = move_to i (WaitOn (dg_state_gen (dg_state dg OR 1)) t) (dg\<lparr>dg_state := dg_state dg OR 1\<rparr>)"
      "val (dg_state dg) \<noteq> 0" "es = []"
  using assms members_outside [of dg i] or_waiters_same [of "dg_state dg"]
  by (auto simp: dispatch_group_wait_def Let_def no_value_val move_to_def split: if_splits)

lemma notify_cases:
  assumes "dispatch_group_notify i dsn dg = Next (dg', es)" "members dg ! i = Outside"
  obtains (first) "dg_notify dg = []" "es = [Registered dsn]"
      "dg' = move_to i Pushed (dg\<lparr>dg_notify := [dsn]\<rparr>)"
    | (later) "dg_notify dg \<noteq> []" "es = [Registered dsn]"
      "dg' = move_to i Outside (dg\<lparr>dg_notify := dg_notify dg @ [dsn]\<rparr>)"
  using assms members_outside [of dg i]
  by (auto simp: dispatch_group_notify_def Let_def move_to_def split: if_splits)

lemma leave_loop_cases:
  assumes "leave_loop i old_state dg = Next (dg', es)"
  obtains (none) "cleared old_state = old_state" "dg' = move_to i (Waking old_state True) dg" "es = []"
    | (cas) "cleared old_state \<noteq> old_state" "old_state = dg_state dg" "es = []"
      "dg' = move_to i (Waking old_state True) (dg\<lparr>dg_state := cleared old_state\<rparr>)"
    | (retry) "cleared old_state \<noteq> old_state" "dg' = move_to i (Leaving (dg_state dg)) dg" "es = []"
proof -
  consider (1) "old_state = cleared old_state" | (2) "old_state \<noteq> cleared old_state" "dg_state dg = old_state"
    | (3) "old_state \<noteq> cleared old_state" "dg_state dg \<noteq> old_state" by blast
  then show thesis
  proof cases
    case 1
    then show thesis using assms none unfolding leave_loop_def Let_def by simp
  next
    case 2
    then have "dg' = move_to i (Waking old_state True) (dg\<lparr>dg_state := cleared old_state\<rparr>)" "es = []"
      using assms unfolding leave_loop_def Let_def by simp_all
    then show thesis using cas 2 by metis
  next
    case 3
    then have "dg' = move_to i (Leaving (dg_state dg)) dg" "es = []"
      using assms unfolding leave_loop_def Let_def by simp_all
    then show thesis using retry 3 by metis
  qed
qed

lemma notify_loop_cases:
  assumes "notify_loop i dg = Next (dg', es)"
  obtains (empty) "val (dg_state dg) = 0" "flags (dg_state dg) = 0" "es = []"
      "dg' = move_to i (Waking (dg_state dg OR 2) False) dg"
    | (set) "\<not> (val (dg_state dg) = 0 \<and> flags (dg_state dg) = 0)" "es = []"
      "dg' = move_to i Outside (dg\<lparr>dg_state := dg_state dg OR 2\<rparr>)"
  using assms by (auto simp: notify_loop_def Let_def low_zero split: if_splits)

text \<open>All steps: the thread, where it was, and what the step is. Only calls produce \<open>Left\<close> and \<open>Entered\<close>.\<close>

lemma group_exec_cases:
  assumes "group_exec (i, a) dg = Next (dg', es)"
  obtains (enter) "i < length (members dg)" "members dg ! i = Outside" "dispatch_group_enter i dg = Next (dg', es)"
    | (leave) "i < length (members dg)" "members dg ! i = Outside" "dispatch_group_leave i dg = Next (dg', es)"
    | (wait) t where "i < length (members dg)" "members dg ! i = Outside" "dispatch_group_wait i t dg = Next (dg', es)"
    | (notify) dsn where "i < length (members dg)" "members dg ! i = Outside" "dispatch_group_notify i dsn dg = Next (dg', es)"
    | (retain) "i < length (members dg)" "members dg ! i = Retaining" "es = [EnterReturned]"
      "dg' = move_to i Outside (dg\<lparr>dg_refs := dg_refs dg + 1\<rparr>)"
    | (leaving) old_state where "i < length (members dg)" "members dg ! i = Leaving old_state"
      "leave_loop i old_state dg = Next (dg', es)"
    | (pushed) "i < length (members dg)" "members dg ! i = Pushed" "es = []"
      "dg' = move_to i Notifying (dg\<lparr>dg_refs := dg_refs dg + 1\<rparr>)"
    | (notifying) "i < length (members dg)" "members dg ! i = Notifying" "notify_loop i dg = Next (dg', es)"
    | (capture) st b where "i < length (members dg)" "members dg ! i = Waking st b" "has_notifs st" "dg_notify dg \<noteq> []"
      "dg' = move_to i (Submitting (dg_notify dg) st b) (dg\<lparr>dg_notify := []\<rparr>)" "es = []"
    | (skip) st b where "i < length (members dg)" "members dg ! i = Waking st b" "\<not> has_notifs st"
      "dg' = move_to i (Alerting st b) dg" "es = []"
    | (submit) dcs st b pc where "i < length (members dg)" "members dg ! i = Submitting dcs st b"
      "wake_submit i dcs st b dg = Next (dg', es)"
      "pc = Alerting st b \<or> (\<exists>dcs'. pc = Submitting dcs' st b)" "dg' = move_to i pc dg" "set es \<inter> {Entered, EnterReturned, Left} = {}"
    | (alert) st b where "i < length (members dg)" "members dg ! i = Alerting st b" "es = []"
      "dg' = move_to i (Releasing ((if b then 1 else 0) + (if has_notifs st then 1 else 0)))
        (if has_waiters st then dg\<lparr>members := map awaken (members dg)\<rparr> else dg)"
    | (release) n where "i < length (members dg)" "members dg ! i = Releasing n" "es = []"
      "dg' = move_to i Outside (dg\<lparr>dg_refs := dg_refs dg - int n\<rparr>)"
    | (sleep) g t where "i < length (members dg)" "members dg ! i = WaitOn g t" "es = []"
      "dg_state_gen (dg_state dg) = g" "dg' = move_to i (Asleep g t) dg"
    | (wake_up) g t b where "i < length (members dg)" "members dg ! i = WaitOn g t \<or> members dg ! i = Asleep g t" "es = []"
      "dg' = move_to i (Awake g t b) dg"
    | (again) g t b pc where "i < length (members dg)" "members dg ! i = Awake g t b" "set es \<inter> {Entered, EnterReturned, Left} = {}"
      "pc = Outside \<or> pc = WaitOn g t" "dg' = move_to i pc dg" "set es \<subseteq> {Returned i, Expired i}"
proof -
  have i: "i < length (members dg)" using assms by (auto split: if_splits)
  note e = assms [unfolded group_exec.simps]
  show thesis
  proof (cases "members dg ! i")
    case Outside
    then show thesis using e i enter leave wait notify by (cases a) simp_all
  next
    case Retaining
    then have "enter_retain i dg = Next (dg', es)" using e i by (cases a) simp_all
    then show thesis using retain [OF i Retaining] by (simp add: enter_retain_def)
  next
    case Pushed
    then have "notify_retain i dg = Next (dg', es)" using e i by (cases a) simp_all
    then show thesis using pushed [OF i Pushed] by (simp add: notify_retain_def)
  next
    case (Leaving old_state)
    then show thesis using e i leaving [OF i Leaving] by (cases a) simp_all
  next
    case Notifying
    then show thesis using e i notifying by (cases a) simp_all
  next
    case (Waking st b)
    then have "dispatch_group_wake i st b dg = Next (dg', es)" using e i by (cases a) simp_all
    then show thesis using capture [OF i Waking] skip [OF i Waking]
      by (cases "has_notifs st"; cases "dg_notify dg = []") (simp_all add: dispatch_group_wake_def)
  next
    case (Submitting dcs st b)
    then have r: "wake_submit i dcs st b dg = Next (dg', es)" using e i by (cases a) simp_all
    show thesis
    proof (cases dcs)
      case Nil
      then show thesis using r submit [OF i Submitting r, of "Alerting st b"] by simp
    next
      case (Cons dc dcs')
      then show thesis
        using r by (intro submit [OF i Submitting r, of "if dcs' = [] then Alerting st b else Submitting dcs' st b"]) auto
    qed
  next
    case (Alerting st b)
    then have "dispatch_wake_by_address i st b dg = Next (dg', es)" using e i by (cases a) simp_all
    then show thesis using alert [OF i Alerting] by (simp add: dispatch_wake_by_address_def Let_def)
  next
    case (Releasing n)
    then have "wake_release i n dg = Next (dg', es)" using e i by (cases a) simp_all
    then show thesis using release [OF i Releasing] by (simp add: wake_release_def)
  next
    case (WaitOn g t)
    then have "dispatch_wait_on_address i g t dg = Next (dg', es) \<or> dg' = move_to i (Awake g t True) dg \<and> es = []"
      using e i by (cases a) (auto split: if_splits)
    then show thesis using sleep [OF i WaitOn] wake_up [OF i, of g t] WaitOn
      by (auto simp: dispatch_wait_on_address_def split: if_splits)
  next
    case (Asleep g t)
    then have "es = [] \<and> (dg' = move_to i (Awake g t True) dg \<or> dg' = move_to i (Awake g t False) dg)"
      using e i by (cases a) (auto split: if_splits)
    then show thesis using wake_up [OF i, of g t] Asleep by auto
  next
    case (Awake g t b)
    then have "dispatch_group_wait_slow i g t b dg = Next (dg', es)" using e i by (cases a) simp_all
    then have pc: "dg' = move_to i (if g \<noteq> dg_state_gen (dg_state dg) \<or> b then Outside else WaitOn g t) dg"
      "set es \<subseteq> {Returned i, Expired i}"
      by (auto simp: dispatch_group_wait_slow_def split: if_splits)
    have "set es \<inter> {Entered, EnterReturned, Left} = {}" using pc(2) by blast
    from again [OF i Awake this _ pc] show thesis by simp
  qed
qed

end
