(* ===== verification/Dispatch_Group_Inv.thy ===== *)
theory Dispatch_Group_Inv
  imports Dispatch_Group
begin

text \<open>
  Invariants of the groups of libdispatch over all interleavings, and what they give: the count of enters and
  leaves, the references a group holds to itself, wake-ups and notifications that are not lost, what a successful
  wait has seen, and a notification that comes while the group is in use.
\<close>

section \<open>References and pending notifications\<close>

text \<open>
  The references a thread will give back before it is outside; the one it is to take for an enter; and its claim on
  the notification list: a thread that is to set the flag, or that is to take the list.
\<close>

fun owed :: "group_pc \<Rightarrow> int" where
  "owed (Leaving st) = 1"
| "owed Notifying = 1"
| "owed (Waking st b) = of_bool b + of_bool (has_notifs st)"
| "owed (Submitting dcs st b) = of_bool b + of_bool (has_notifs st)"
| "owed (Alerting st b) = of_bool b + of_bool (has_notifs st)"
| "owed (Releasing n) = int n"
| "owed pc = 0"

fun pending :: "group_pc \<Rightarrow> int" where
  "pending Retaining = 1"
| "pending pc = 0"

fun claim :: "group_pc \<Rightarrow> int" where
  "claim Pushed = 1"
| "claim Notifying = 1"
| "claim (Waking st b) = of_bool (has_notifs st)"
| "claim pc = 0"

definition total :: "(group_pc \<Rightarrow> int) \<Rightarrow> group_pc list \<Rightarrow> int" where
  "total f pcs = sum_list (map f pcs)"

lemma total_update: "i < length pcs \<Longrightarrow> total f (pcs[i := pc]) = total f pcs - f (pcs ! i) + f pc"
proof (induction pcs arbitrary: i)
  case (Cons x pcs)
  then show ?case by (cases i) (simp_all add: total_def)
qed simp

lemma total_awaken: "(\<And>g t. f (Asleep g t) = f (Awake g t False)) \<Longrightarrow> total f (map awaken pcs) = total f pcs"
proof -
  assume a: "\<And>g t. f (Asleep g t) = f (Awake g t False)"
  have "f (awaken pc) = f pc" for pc using a by (cases pc) simp_all
  then show ?thesis by (simp add: total_def comp_def)
qed

lemma owed_claim_nonneg [simp]: "0 \<le> owed pc" "0 \<le> claim pc" "0 \<le> pending pc"
  by (cases pc; simp)+

lemma total_nonneg: "(\<And>pc. 0 \<le> f pc) \<Longrightarrow> 0 \<le> total f pcs"
  unfolding total_def by (induction pcs) (simp_all add: add_nonneg_nonneg)

lemma total_ge:
  assumes "i < length pcs" "\<And>pc. 0 \<le> f pc"
  shows "f (pcs ! i) \<le> total f pcs"
proof -
  have "total f (drop (Suc i) pcs) \<ge> 0" "total f (take i pcs) \<ge> 0" using total_nonneg assms(2) by blast+
  moreover have "total f pcs = total f (take i pcs) + f (pcs ! i) + total f (drop (Suc i) pcs)"
    unfolding total_def by (subst id_take_nth_drop [OF assms(1)]) simp
  ultimately show ?thesis by linarith
qed

definition claim_inv :: "group \<Rightarrow> bool" where
  "claim_inv dg \<longleftrightarrow> total claim (members dg) + of_bool (has_notifs (dg_state dg)) = of_bool (dg_notify dg \<noteq> [])"

definition refs_inv :: "group \<Rightarrow> bool" where
  "refs_inv dg \<longleftrightarrow> dg_refs dg =
    of_bool (val (dg_state dg) \<noteq> 0) + of_bool (has_notifs (dg_state dg)) + total owed (members dg) -
    total pending (members dg)"

lemma claim_one:
  assumes "claim_inv dg" "i < length (members dg)" "claim (members dg ! i) = 1"
  shows "dg_notify dg \<noteq> []" "\<not> has_notifs (dg_state dg)" "total claim (members dg) = 1"
proof -
  have "1 \<le> total claim (members dg)" using total_ge [OF assms(2), of claim] assms(3) by simp
  then show "dg_notify dg \<noteq> []" "\<not> has_notifs (dg_state dg)" "total claim (members dg) = 1"
    using assms(1) unfolding claim_inv_def
    by (cases "dg_notify dg = []"; cases "has_notifs (dg_state dg)"; simp)+
qed

lemma claim_inv_step:
  assumes "claim_inv dg" "group_exec (i, a) dg = Next (dg', es)"
  shows "claim_inv dg'"
  using assms(2)
proof (cases rule: group_exec_cases)
  case enter
  note e = enter_cases [OF enter(3,2)]
  then show ?thesis using assms(1) enter(1,2) same_flags [of "dg_state dg" "dg_state dg'"]
    by (simp add: claim_inv_def becomes_def total_update)
next
  case leave
  show ?thesis using leave(3,2)
    by (cases rule: leave_cases) (use assms(1) leave(1,2) in \<open>simp_all add: claim_inv_def total_update add_flags\<close>)
next
  case (wait t)
  show ?thesis using wait(3,2)
    by (cases rule: wait_cases) (use assms(1) wait(1,2) in \<open>simp_all add: claim_inv_def total_update set_waiters\<close>)
next
  case (notify dsn)
  show ?thesis using notify(3,2)
    by (cases rule: notify_cases) (use assms(1) notify(1,2) in \<open>simp_all add: claim_inv_def total_update\<close>)
next
  case (leaving old_state)
  show ?thesis using leaving(3)
    by (cases rule: leave_loop_cases)
      (use assms(1) leaving(1,2) in \<open>simp_all add: claim_inv_def total_update cleared_parts cleared_same\<close>)
next
  case notifying
  note o = claim_one [OF assms(1) notifying(1)]
  show ?thesis using notifying(3)
    by (cases rule: notify_loop_cases)
      (use assms(1) notifying(1,2) o in \<open>simp_all add: claim_inv_def total_update set_notifs\<close>)
next
  case (capture st b)
  note o = claim_one [OF assms(1) capture(1)]
  show ?thesis using capture assms(1) o by (simp add: claim_inv_def total_update)
next
  case (submit dcs st b pc)
  then show ?thesis using assms(1) by (auto simp: claim_inv_def total_update)
next
  case (alert st b)
  then show ?thesis using assms(1) by (simp add: claim_inv_def total_update total_awaken)
next
  case (wake_up g t b)
  then show ?thesis using assms(1) by (auto simp: claim_inv_def total_update)
next
  case (again g t b pc)
  then show ?thesis using assms(1) by (auto simp: claim_inv_def total_update)
qed (use assms(1) in \<open>simp_all add: claim_inv_def total_update\<close>)

lemma refs_inv_step:
  assumes "refs_inv dg" "claim_inv dg" "group_exec (i, a) dg = Next (dg', es)"
  shows "refs_inv dg'"
  using assms(3)
proof (cases rule: group_exec_cases)
  case enter
  note e = enter_cases [OF enter(3,2)]
  then show ?thesis using assms(1) enter(1,2) same_flags [of "dg_state dg" "dg_state dg'"]
    by (simp add: refs_inv_def becomes_def total_update)
next
  case leave
  show ?thesis using leave(3,2)
    by (cases rule: leave_cases) (use assms(1) leave(1,2) in \<open>simp_all add: refs_inv_def total_update add_interval add_flags\<close>)
next
  case (wait t)
  show ?thesis using wait(3,2)
    by (cases rule: wait_cases) (use assms(1) wait(1,2) in \<open>simp_all add: refs_inv_def total_update set_waiters\<close>)
next
  case (notify dsn)
  show ?thesis using notify(3,2)
    by (cases rule: notify_cases) (use assms(1) notify(1,2) in \<open>simp_all add: refs_inv_def total_update\<close>)
next
  case (leaving old_state)
  show ?thesis using leaving(3)
    by (cases rule: leave_loop_cases)
      (use assms(1) leaving(1,2) in \<open>simp_all add: refs_inv_def total_update cleared_parts cleared_same\<close>)
next
  case notifying
  note o = claim_one [OF assms(2) notifying(1)]
  show ?thesis using notifying(3)
    by (cases rule: notify_loop_cases)
      (use assms(1) notifying(1,2) o in \<open>simp_all add: refs_inv_def total_update set_notifs\<close>)
next
  case (submit dcs st b pc)
  then show ?thesis using assms(1) by (auto simp: refs_inv_def total_update)
next
  case (alert st b)
  then show ?thesis using assms(1) by (cases b; cases "has_notifs st") (simp_all add: refs_inv_def total_update total_awaken)
next
  case (wake_up g t b)
  then show ?thesis using assms(1) by (auto simp: refs_inv_def total_update)
next
  case (again g t b pc)
  then show ?thesis using assms(1) by (auto simp: refs_inv_def total_update)
qed (use assms(1) in \<open>simp_all add: refs_inv_def total_update\<close>)

text \<open>Inside \<open>_dispatch_group_wake\<close> there is always something to release.\<close>

fun releases :: "group_pc \<Rightarrow> bool" where
  "releases (Waking st b) \<longleftrightarrow> b \<or> has_notifs st"
| "releases (Submitting dcs st b) \<longleftrightarrow> b \<or> has_notifs st"
| "releases (Alerting st b) \<longleftrightarrow> b \<or> has_notifs st"
| "releases (Releasing n) \<longleftrightarrow> 0 < n"
| "releases pc \<longleftrightarrow> True"

lemma releases_awaken: "releases (awaken pc) = releases pc"
  by (cases pc) simp_all

lemma list_all_update: "list_all P xs \<Longrightarrow> P x \<Longrightarrow> list_all P (xs[i := x])"
  by (auto simp: list_all_iff dest: set_update_subset_insert [THEN subsetD])

lemma list_all_awaken: "list_all releases (map awaken pcs) = list_all releases pcs"
  by (simp add: list_all_iff releases_awaken)

lemma releases_step:
  assumes "list_all releases (members dg)" "group_exec (i, a) dg = Next (dg', es)"
  shows "list_all releases (members dg')"
proof -
  have n: "i < length (members dg) \<Longrightarrow> releases (members dg ! i)" using assms(1) by (simp add: list_all_length)
  note u = list_all_update [OF assms(1)]
  from assms(2) show ?thesis
  proof (cases rule: group_exec_cases)
    case enter
    then show ?thesis using enter_cases [OF enter(3,2)] u by (simp add: becomes_def)
  next
    case leave
    show ?thesis using leave(3,2) by (cases rule: leave_cases) (simp_all add: u)
  next
    case (wait t)
    show ?thesis using wait(3,2) by (cases rule: wait_cases) (simp_all add: u)
  next
    case (notify dsn)
    show ?thesis using notify(3,2) by (cases rule: notify_cases) (simp_all add: u)
  next
    case (leaving old_state)
    show ?thesis using leaving(3) by (cases rule: leave_loop_cases) (simp_all add: u)
  next
    case notifying
    show ?thesis using notifying(3) by (cases rule: notify_loop_cases) (simp_all add: u set_notifs)
  next
    case (submit dcs st b pc)
    then show ?thesis using n by (auto intro: u)
  next
    case (alert st b)
    then show ?thesis using n assms(1)
      by (auto intro!: list_all_update simp: list_all_awaken)
  next
    case (again g t b pc)
    then show ?thesis by (auto intro: u)
  qed (use n u in simp_all)
qed

section \<open>The value and the generation\<close>

text \<open>The number of times the group is entered; the word holds its negation.\<close>

definition entered :: "u64 \<Rightarrow> int" where
  "entered st = int (unat (dg_state_value st))"

lemma entered_val: "entered st = (if val st = 0 then 0 else 2 ^ 30 - int (val st))"
  using parts(2) [of st] by (simp add: entered_def dg_state_value_val of_nat_diff)

lemma entered_zero: "entered st = 0 \<longleftrightarrow> val st = 0"
  using parts(2) [of st] by (simp add: entered_val)

lemma group_exec_count:
  assumes "group_exec (i, a) dg = Next (dg', es)"
  shows "entered (dg_state dg') = entered (dg_state dg) + occurs Entered es - occurs Left es"
  using assms
proof (cases rule: group_exec_cases)
  case enter
  show ?thesis using enter_cases [OF enter(3,2)] by (auto simp: entered_val of_nat_diff)
next
  case leave
  show ?thesis using leave(3,2) by (cases rule: leave_cases) (auto simp: entered_val add_interval)
next
  case (wait t)
  show ?thesis using wait(3,2) by (cases rule: wait_cases) (auto simp: entered_val set_waiters)
next
  case (notify dsn)
  show ?thesis using notify(3,2) by (cases rule: notify_cases) simp_all
next
  case (leaving old_state)
  show ?thesis using leaving(3) by (cases rule: leave_loop_cases) (simp_all add: entered_val cleared_parts)
next
  case notifying
  show ?thesis using notifying(3) by (cases rule: notify_loop_cases) (simp_all add: entered_val set_notifs)
qed (simp_all add: occurs_none)

text \<open>The generation moves only when the value reaches zero, and then by one.\<close>

lemma group_exec_gen:
  assumes "group_exec (i, a) dg = Next (dg', es)"
  shows "gen (dg_state dg') = gen (dg_state dg) \<or>
    val (dg_state dg') = 0 \<and> gen (dg_state dg') = (gen (dg_state dg) + 1) mod 2 ^ 32 \<and> es = [Left]"
  using assms
proof (cases rule: group_exec_cases)
  case enter
  then show ?thesis using enter_cases [OF enter(3,2)] by simp
next
  case leave
  show ?thesis using leave(3,2) by (cases rule: leave_cases) (simp_all add: add_interval)
next
  case (wait t)
  show ?thesis using wait(3,2) by (cases rule: wait_cases) (simp_all add: set_waiters)
next
  case (notify dsn)
  show ?thesis using notify(3,2) by (cases rule: notify_cases) simp_all
next
  case (leaving old_state)
  show ?thesis using leaving(3) by (cases rule: leave_loop_cases) (simp_all add: cleared_parts)
next
  case notifying
  show ?thesis using notifying(3) by (cases rule: notify_loop_cases) (simp_all add: set_notifs)
qed simp_all

section \<open>Waiting threads\<close>

text \<open>
  A thread waits for the end of a generation: the current one, which then has not ended and has the flag for
  waiters, or an earlier one.
\<close>

fun waits_for :: "u64 \<Rightarrow> group_pc \<Rightarrow> bool" where
  "waits_for st (WaitOn g t) \<longleftrightarrow> unat g < gen st \<or> unat g = gen st \<and> has_waiters st \<and> val st \<noteq> 0"
| "waits_for st (Asleep g t) \<longleftrightarrow> unat g < gen st \<or> unat g = gen st \<and> has_waiters st \<and> val st \<noteq> 0"
| "waits_for st (Awake g t b) \<longleftrightarrow> unat g < gen st \<or> unat g = gen st \<and> has_waiters st \<and> val st \<noteq> 0"
| "waits_for st pc \<longleftrightarrow> True"

fun alerts :: "group_pc \<Rightarrow> bool" where
  "alerts (Waking st b) \<longleftrightarrow> has_waiters st"
| "alerts (Submitting dcs st b) \<longleftrightarrow> has_waiters st"
| "alerts (Alerting st b) \<longleftrightarrow> has_waiters st"
| "alerts pc \<longleftrightarrow> False"

fun asleep :: "group_pc \<Rightarrow> bool" where
  "asleep (Asleep g t) \<longleftrightarrow> True"
| "asleep pc \<longleftrightarrow> False"

fun clears :: "group_pc \<Rightarrow> bool" where
  "clears (Leaving st) \<longleftrightarrow> cleared st \<noteq> st"
| "clears pc \<longleftrightarrow> False"

text \<open>
  A sleeper is promised a wake-up, by the flag or by a thread on its way to wake all; flags of an empty group
  are promised to be cleared.
\<close>

definition promised :: "u64 \<Rightarrow> group_pc list \<Rightarrow> bool" where
  "promised st pcs \<longleftrightarrow> (list_ex asleep pcs \<longrightarrow> has_waiters st \<or> list_ex alerts pcs)"

definition clear_inv :: "group \<Rightarrow> bool" where
  "clear_inv dg \<longleftrightarrow> (val (dg_state dg) = 0 \<and> flags (dg_state dg) \<noteq> 0 \<longrightarrow> list_ex clears (members dg))"

lemma list_ex_update:
  assumes "i < length xs"
  shows "list_ex P (xs[i := x]) \<longleftrightarrow> P x \<or> (\<exists>j<length xs. j \<noteq> i \<and> P (xs ! j))"
  using assms by (auto simp: list_ex_length nth_list_update)

lemma list_ex_kept: "list_ex P xs \<Longrightarrow> i < length xs \<Longrightarrow> \<not> P (xs ! i) \<or> P x \<Longrightarrow> list_ex P (xs[i := x])"
  unfolding list_ex_length by (auto simp: nth_list_update)

lemma flags_zero: "flags st = 0 \<longleftrightarrow> \<not> has_waiters st \<and> \<not> has_notifs st"
  by (simp add: flags_eq)

lemma clear_inv_step:
  assumes "clear_inv dg" "group_exec (i, a) dg = Next (dg', es)"
  shows "clear_inv dg'"
proof -
  note k = list_ex_kept [of clears "members dg" i]
  from assms(2) show ?thesis
  proof (cases rule: group_exec_cases)
    case enter
    then show ?thesis using enter_cases [OF enter(3,2)] by (auto simp: clear_inv_def)
  next
    case leave
    show ?thesis using leave(3,2)
    proof (cases rule: leave_cases)
      case last
      show ?thesis unfolding clear_inv_def last(1)
        using leave(1) last(3) by (auto simp: list_ex_update add_interval add_flags cleared_same flags_zero)
    next
      case other
      then show ?thesis by (simp add: clear_inv_def add_interval)
    qed
  next
    case (wait t)
    show ?thesis using wait(3,2)
      by (cases rule: wait_cases) (use assms(1) k wait(1,2) in \<open>simp_all add: clear_inv_def set_waiters\<close>)
  next
    case (notify dsn)
    show ?thesis using notify(3,2)
      by (cases rule: notify_cases) (use assms(1) k notify(1,2) in \<open>simp_all add: clear_inv_def\<close>)
  next
    case (leaving old_state)
    show ?thesis using leaving(3)
    proof (cases rule: leave_loop_cases)
      case none
      then show ?thesis using assms(1) k leaving(1,2) by (simp add: clear_inv_def)
    next
      case cas
      then show ?thesis by (auto simp: clear_inv_def cleared_parts flags_zero)
    next
      case retry
      then show ?thesis using leaving(1) by (simp add: clear_inv_def list_ex_update cleared_same flags_zero) blast
    qed
  next
    case notifying
    show ?thesis using notifying(3)
      by (cases rule: notify_loop_cases) (use assms(1) k notifying(1,2) in \<open>auto simp: clear_inv_def set_notifs\<close>)
  next
    case (submit dcs st b pc)
    then show ?thesis using assms(1) k by (auto simp: clear_inv_def)
  next
    case (alert st b)
    have "clears (awaken pc) = clears pc" for pc by (cases pc) simp_all
    then have m: "list_ex clears (map awaken pcs) = list_ex clears pcs" for pcs by (simp add: list_ex_iff)
    show ?thesis using assms(1) k alert list_ex_kept [of clears "map awaken (members dg)" i]
      by (simp add: clear_inv_def m)
  next
    case (wake_up g t b)
    then show ?thesis using assms(1) k by (auto simp: clear_inv_def)
  next
    case (again g t b pc)
    then show ?thesis using assms(1) k by (auto simp: clear_inv_def)
  qed (use assms(1) k in \<open>simp_all add: clear_inv_def\<close>)
qed

text \<open>A state word follows another: in the same generation what waiting threads rely on stays.\<close>

definition follows :: "u64 \<Rightarrow> u64 \<Rightarrow> bool" where
  "follows st st' \<longleftrightarrow> gen st' = gen st \<and> (has_waiters st \<and> val st \<noteq> 0 \<longrightarrow> has_waiters st' \<and> val st' \<noteq> 0) \<or>
    gen st' = Suc (gen st)"

lemma follows_refl [simp]: "follows st st"
  by (simp add: follows_def)

lemma waits_for_follows: "waits_for st pc \<Longrightarrow> follows st st' \<Longrightarrow> waits_for st' pc"
  by (cases pc) (auto simp: follows_def)

lemma group_exec_follows:
  assumes "group_exec (i, a) dg = Next (dg', es)" "gen (dg_state dg) + 1 < 2 ^ 32"
  shows "follows (dg_state dg) (dg_state dg')"
  using assms(1)
proof (cases rule: group_exec_cases)
  case enter
  then show ?thesis using enter_cases [OF enter(3,2)] same_flags [of "dg_state dg" "dg_state dg'"]
    by (auto simp: follows_def)
next
  case leave
  show ?thesis using leave(3,2)
    by (cases rule: leave_cases) (use assms(2) in \<open>auto simp: follows_def add_interval add_flags\<close>)
next
  case (wait t)
  show ?thesis using wait(3,2) by (cases rule: wait_cases) (auto simp: follows_def set_waiters)
next
  case (notify dsn)
  show ?thesis using notify(3,2) by (cases rule: notify_cases) simp_all
next
  case (leaving old_state)
  show ?thesis using leaving(3) by (cases rule: leave_loop_cases) (auto simp: follows_def cleared_parts)
next
  case notifying
  show ?thesis using notifying(3) by (cases rule: notify_loop_cases) (auto simp: follows_def set_notifs)
qed simp_all

lemma waits_for_step:
  assumes "list_all (waits_for (dg_state dg)) (members dg)" "group_exec (i, a) dg = Next (dg', es)"
    "gen (dg_state dg) + 1 < 2 ^ 32"
  shows "list_all (waits_for (dg_state dg')) (members dg')"
proof -
  have l: "list_all (waits_for (dg_state dg')) (members dg)"
    using assms(1) waits_for_follows [OF _ group_exec_follows [OF assms(2,3)]] by (simp add: list_all_iff)
  then have n: "i < length (members dg) \<Longrightarrow> waits_for (dg_state dg') (members dg ! i)" by (simp add: list_all_length)
  note u = list_all_update [OF l]
  from assms(2) show ?thesis
  proof (cases rule: group_exec_cases)
    case enter
    then show ?thesis using enter_cases [OF enter(3,2)] u by (simp add: becomes_def)
  next
    case leave
    show ?thesis using leave(3,2) by (cases rule: leave_cases) (use u in simp_all)
  next
    case (wait t)
    show ?thesis using wait(3,2)
      by (cases rule: wait_cases) (use u in \<open>simp_all add: dg_state_gen_gen set_waiters\<close>)
  next
    case (notify dsn)
    show ?thesis using notify(3,2) by (cases rule: notify_cases) (use u in simp_all)
  next
    case (leaving old_state)
    show ?thesis using leaving(3) by (cases rule: leave_loop_cases) (use u in simp_all)
  next
    case notifying
    show ?thesis using notifying(3) by (cases rule: notify_loop_cases) (use u in simp_all)
  next
    case (submit dcs st b pc)
    then show ?thesis using u by auto
  next
    case (alert st b)
    have "waits_for w (awaken pc) = waits_for w pc" for w pc by (cases pc) simp_all
    then have "list_all (waits_for w) (map awaken pcs) = list_all (waits_for w) pcs" for w pcs by (simp add: list_all_iff)
    then show ?thesis using l alert by (auto intro!: list_all_update)
  next
    case (wake_up g t b)
    then show ?thesis using n u by auto
  next
    case (again g t b pc)
    then show ?thesis using n u by auto
  qed (use n u in simp_all)
qed

lemma promised_move:
  assumes "promised st pcs" "i < length pcs" "\<not> asleep pc" "alerts (pcs ! i) \<Longrightarrow> alerts pc"
    "has_waiters st \<Longrightarrow> has_waiters st' \<or> alerts pc"
  shows "promised st' (pcs[i := pc])"
proof -
  have "list_ex asleep (pcs[i := pc]) \<Longrightarrow> list_ex asleep pcs"
    using list_ex_update [OF assms(2), of asleep pc] assms(3) unfolding list_ex_length [of asleep pcs] by blast
  moreover have "list_ex alerts pcs \<Longrightarrow> list_ex alerts (pcs[i := pc])" 
    using assms(4) by (intro list_ex_kept [OF _ assms(2)]) blast+
  moreover have "alerts pc \<Longrightarrow> list_ex alerts (pcs[i := pc])" using assms(2) by (simp add: list_ex_update)
  ultimately show ?thesis using assms(1,5) unfolding promised_def by blast
qed

lemma promised_step:
  assumes "promised (dg_state dg) (members dg)" "list_all (waits_for (dg_state dg)) (members dg)"
    "group_exec (i, a) dg = Next (dg', es)"
  shows "promised (dg_state dg') (members dg')"
proof -
  note m = promised_move [OF assms(1), of i]
  from assms(3) show ?thesis
  proof (cases rule: group_exec_cases)
    case enter
    note e = enter_cases [OF enter(3,2)]
    then show ?thesis using m [of Outside] m [of Retaining] enter(1,2) same_flags [of "dg_state dg" "dg_state dg'"]
      by (simp add: becomes_def)
  next
    case leave
    show ?thesis using leave(3,2)
      by (cases rule: leave_cases) (use m leave(1,2) in \<open>simp_all add: add_flags\<close>)
  next
    case (wait t)
    show ?thesis using wait(3,2) by (cases rule: wait_cases) (use m wait(1,2) in \<open>simp_all add: set_waiters\<close>)
  next
    case (notify dsn)
    show ?thesis using notify(3,2) by (cases rule: notify_cases) (use m notify(1,2) in simp_all)
  next
    case (leaving old_state)
    show ?thesis using leaving(3) by (cases rule: leave_loop_cases) (use m leaving(1,2) in simp_all)
  next
    case notifying
    show ?thesis using notifying(3)
      by (cases rule: notify_loop_cases) (use m notifying(1,2) in \<open>simp_all add: set_notifs\<close>)
  next
    case (submit dcs st b pc)
    then show ?thesis using m by auto
  next
    case (alert st b)
    have "\<not> asleep (awaken pc)" for pc by (cases pc) simp_all
    then have "has_waiters st \<Longrightarrow> \<not> list_ex asleep (members dg')"
      using alert(1,4) by (auto simp: list_ex_update)
    then show ?thesis using m alert by (cases "has_waiters st") (simp_all add: promised_def)
  next
    case (sleep g t)
    have "waits_for (dg_state dg) (members dg ! i)" using assms(2) sleep(1) by (simp add: list_all_length)
    then have "has_waiters (dg_state dg)" using sleep dg_state_gen_gen [of "dg_state dg"] by auto
    then show ?thesis using sleep(5) by (simp add: promised_def)
  next
    case (wake_up g t b)
    then show ?thesis using m by auto
  next
    case (again g t b pc)
    then show ?thesis using m by auto
  qed (use m in simp_all)
qed

section \<open>Notifications\<close>

fun unsubmitted :: "nat \<Rightarrow> group_pc \<Rightarrow> int" where
  "unsubmitted dsn (Submitting dcs st b) = int (count_list dcs dsn)"
| "unsubmitted dsn pc = 0"

definition notify_inv :: "nat \<Rightarrow> group_event list \<Rightarrow> group \<Rightarrow> bool" where
  "notify_inv x es dg \<longleftrightarrow> occurs (Registered x) es =
    occurs (Submitted x) es + int (count_list (dg_notify dg) x) + total (unsubmitted x) (members dg)"

lemma notify_inv_move:
  assumes "notify_inv x es dg"
    and "occurs (Registered x) fs - occurs (Submitted x) fs = int (count_list (dg_notify dg') x) -
      int (count_list (dg_notify dg) x) + total (unsubmitted x) (members dg') - total (unsubmitted x) (members dg)"
  shows "notify_inv x (es @ fs) dg'"
  using assms unfolding notify_inv_def occurs_simps by linarith

lemma notify_inv_step:
  assumes "notify_inv x es dg" "group_exec (i, a) dg = Next (dg', fs)"
  shows "notify_inv x (es @ fs) dg'"
proof (rule notify_inv_move [OF assms(1)])
  let ?d = "occurs (Registered x) fs - occurs (Submitted x) fs = int (count_list (dg_notify dg') x) -
      int (count_list (dg_notify dg) x) + total (unsubmitted x) (members dg') - total (unsubmitted x) (members dg)"
  from assms(2) show ?d
  proof (cases rule: group_exec_cases)
    case enter
    then show ?thesis using enter_cases [OF enter(3,2)] by (simp add: becomes_def total_update)
  next
    case leave
    show ?thesis using leave(3,2) by (cases rule: leave_cases) (use leave(1,2) in \<open>simp_all add: total_update\<close>)
  next
    case (wait t)
    show ?thesis using wait(3,2) by (cases rule: wait_cases) (use wait(1,2) in \<open>auto simp: total_update\<close>)
  next
    case (notify dsn)
    show ?thesis using notify(3,2) by (cases rule: notify_cases) (use notify(1,2) in \<open>auto simp: total_update\<close>)
  next
    case (leaving old_state)
    show ?thesis using leaving(3)
      by (cases rule: leave_loop_cases) (use leaving(1,2) in \<open>simp_all add: total_update\<close>)
  next
    case notifying
    show ?thesis using notifying(3)
      by (cases rule: notify_loop_cases) (use notifying(1,2) in \<open>simp_all add: total_update\<close>)
  next
    case (submit dcs st b pc)
    show ?thesis using submit(1,2,3) by (cases dcs) (auto simp: total_update)
  next
    case (alert st b)
    then show ?thesis by (simp add: total_update total_awaken)
  next
    case (wake_up g t b)
    then show ?thesis by (auto simp: total_update)
  next
    case (again g t b pc)
    have "Registered x \<notin> set fs" "Submitted x \<notin> set fs" using again(6) by blast+
    then show ?thesis using again by (auto simp: total_update occurs_none)
  qed (simp_all add: total_update)
qed

section \<open>Histories\<close>

lemma create_state:
  assumes "unat k < 2 ^ 30"
  shows "val (dg_state (dispatch_group_create_with_count k n)) = (2 ^ 30 - unat k) mod 2 ^ 30"
    "gen (dg_state (dispatch_group_create_with_count k n)) = 0"
    "flags (dg_state (dispatch_group_create_with_count k n)) = 0"
proof -
  let ?st = "dg_state (dispatch_group_create_with_count k n)" and ?v = "(2 ^ 30 - unat k) mod 2 ^ 30"
  have "unat ?st = 4 * (2 ^ 30 * 0 + ?v) + 0"
  proof (cases "k = 0")
    case False
    then have k: "0 < unat k" by (simp add: unat_gt_0)
    have u: "unat (k * 4) = 4 * unat k" using assms by (simp add: unat_word_ariths)
    have "unat (- k * 4) = unat (0 - k * 4)" by simp
    also have "\<dots> = 2 ^ 32 - 4 * unat k" using k u by (simp only: unat_sub_if') simp
    finally show ?thesis
      using False k assms by (simp add: dispatch_group_create_with_count_def unat_ucast_up)
  qed (simp add: dispatch_group_create_with_count_def)
  from parts_unique [OF this] show "val ?st = ?v" "gen ?st = 0" "flags ?st = 0" by simp_all
qed

lemma members_create [simp]: "members (dispatch_group_create_with_count k n) = replicate n Outside"
  by (simp add: dispatch_group_create_with_count_def)

lemma group_exec_length:
  assumes "group_exec (i, a) dg = Next (dg', es)"
  shows "length (members dg') = length (members dg)"
  using assms
proof (cases rule: group_exec_cases)
  case enter
  then show ?thesis using enter_cases [OF enter(3,2)] by (simp add: becomes_def)
next
  case leave
  show ?thesis using leave(3,2) by (cases rule: leave_cases) simp_all
next
  case (wait t)
  show ?thesis using wait(3,2) by (cases rule: wait_cases) simp_all
next
  case (notify dsn)
  show ?thesis using notify(3,2) by (cases rule: notify_cases) simp_all
next
  case (leaving old_state)
  show ?thesis using leaving(3) by (cases rule: leave_loop_cases) simp_all
next
  case notifying
  show ?thesis using notifying(3) by (cases rule: notify_loop_cases) simp_all
qed simp_all

definition group_inv :: "u32 \<Rightarrow> nat \<Rightarrow> group_event list \<Rightarrow> group \<Rightarrow> bool" where
  "group_inv k n es dg \<longleftrightarrow> length (members dg) = n \<and> claim_inv dg \<and> refs_inv dg \<and> list_all releases (members dg) \<and>
    clear_inv dg \<and> (\<forall>x. notify_inv x es dg) \<and>
    entered (dg_state dg) = int (unat k) + occurs Entered es - occurs Left es"

definition sleep_inv :: "group_event list \<Rightarrow> group \<Rightarrow> bool" where
  "sleep_inv es dg \<longleftrightarrow> (occurs Left es < 2 ^ 32 - 1 \<longrightarrow> int (gen (dg_state dg)) \<le> occurs Left es \<and>
    list_all (waits_for (dg_state dg)) (members dg) \<and> promised (dg_state dg) (members dg))"

lemma total_replicate: "f Outside = 0 \<Longrightarrow> total f (replicate n Outside) = 0"
  by (simp add: total_def sum_list_replicate)

lemma group_inv_create:
  assumes "unat k < 2 ^ 30"
  shows "group_inv k n [] (dispatch_group_create_with_count k n)"
proof -
  let ?dg = "dispatch_group_create_with_count k n"
  note c = create_state [OF assms, of n]
  have "(2 ^ 30 - unat k) mod 2 ^ 30 = (0 :: nat) \<longleftrightarrow> k = 0"
    using assms by (cases "k = 0") (simp_all add: unat_gt_0)
  then have v: "val (dg_state ?dg) = 0 \<longleftrightarrow> k = 0" unfolding c(1) .
  have "\<not> has_notifs (dg_state ?dg)" using c(3) by (simp add: flags_zero)
  moreover have "dg_notify ?dg = []" "dg_refs ?dg = of_bool (k \<noteq> 0)"
    by (simp_all add: dispatch_group_create_with_count_def)
  moreover have "entered (dg_state ?dg) = int (unat k)"
  proof (cases "k = 0")
    case False
    then have "0 < unat k" by (simp add: unat_gt_0)
    then show ?thesis using v False assms by (simp add: entered_val c(1) of_nat_diff)
  qed (use v in \<open>simp add: entered_val\<close>)
  ultimately show ?thesis using v c(3)
    by (simp add: group_inv_def claim_inv_def refs_inv_def clear_inv_def notify_inv_def total_replicate list_all_iff)
qed

lemma group_inv_step:
  assumes "group_inv k n es dg" "group_exec a dg = Next (dg', fs)"
  shows "group_inv k n (es @ fs) dg'"
proof -
  obtain i b where a: "a = (i, b)" by (cases a)
  note i = assms(1) [unfolded group_inv_def] and e = assms(2) [unfolded a]
  show ?thesis unfolding group_inv_def
    using i group_exec_length [OF e] claim_inv_step [OF _ e] refs_inv_step [OF _ _ e] releases_step [OF _ e]
      clear_inv_step [OF _ e] notify_inv_step [OF _ e] group_exec_count [OF e]
    by simp
qed

lemma sleep_inv_step:
  assumes "sleep_inv es dg" "group_exec a dg = Next (dg', fs)"
  shows "sleep_inv (es @ fs) dg'"
  unfolding sleep_inv_def
proof (intro impI)
  obtain i b where a: "a = (i, b)" by (cases a)
  note e = assms(2) [unfolded a]
  assume l: "occurs Left (es @ fs) < 2 ^ 32 - 1"
  have "occurs Left es \<le> occurs Left (es @ fs)" by simp
  with l have "occurs Left es < 2 ^ 32 - 1" by linarith
  then have i: "int (gen (dg_state dg)) \<le> occurs Left es" "list_all (waits_for (dg_state dg)) (members dg)"
    "promised (dg_state dg) (members dg)" using assms(1) by (simp_all add: sleep_inv_def)
  have "int (gen (dg_state dg) + 1) < int (2 ^ 32)" using i(1) \<open>occurs Left es < 2 ^ 32 - 1\<close> by simp
  then have g: "gen (dg_state dg) + 1 < 2 ^ 32" by (simp only: of_nat_less_iff)
  have "int (gen (dg_state dg')) \<le> occurs Left (es @ fs)"
    using group_exec_gen [OF e] i(1) g by (auto intro: add_increasing2)
  then show "int (gen (dg_state dg')) \<le> occurs Left (es @ fs) \<and>
      list_all (waits_for (dg_state dg')) (members dg') \<and> promised (dg_state dg') (members dg')"
    using waits_for_step [OF i(2) e g] promised_step [OF i(3,2) e] by blast
qed

lemma group_inv_run:
  assumes "group_run as (dispatch_group_create_with_count k n) = Next (dg, es)" "unat k < 2 ^ 30"
  shows "group_inv k n es dg"
  using grp.run_invariant [where good = "group_inv k n", OF assms(1) group_inv_create [OF assms(2)] group_inv_step]
  by simp

lemma sleep_inv_create: "unat k < 2 ^ 30 \<Longrightarrow> sleep_inv [] (dispatch_group_create_with_count k n)"
  using create_state [of k n] by (simp add: sleep_inv_def promised_def list_all_iff list_ex_iff)

lemma sleep_inv_run:
  assumes "group_run as (dispatch_group_create_with_count k n) = Next (dg, es)" "unat k < 2 ^ 30"
  shows "sleep_inv es dg"
  using grp.run_invariant [where good = sleep_inv, OF assms(1) sleep_inv_create [OF assms(2)] sleep_inv_step]
  by simp

section \<open>What the group promises\<close>

lemma crash_enter_leave:
  assumes "i < length (members dg)" "members dg ! i = Outside"
  shows "group_exec (i, Leave) dg = Crashed \<longleftrightarrow> entered (dg_state dg) = 0"
    "group_exec (i, Enter) dg = Crashed \<longleftrightarrow> entered (dg_state dg) = 2 ^ 30 - 1"
proof -
  show "group_exec (i, Leave) dg = Crashed \<longleftrightarrow> entered (dg_state dg) = 0"
    using assms unfolding entered_zero by (auto simp: dispatch_group_leave_def Let_def masked_value_eq)
  have "entered (dg_state dg) = 2 ^ 30 - 1 \<longleftrightarrow> val (dg_state dg) = 1" by (simp add: entered_val)
  then show "group_exec (i, Enter) dg = Crashed \<longleftrightarrow> entered (dg_state dg) = 2 ^ 30 - 1"
    using assms by (auto simp: dispatch_group_enter_def Let_def low_value_eq)
qed

text \<open>
  C23: in every execution, by any number of threads in any order, the value in the state word is the initial
  count plus the enters less the leaves, and the two client crashes are exact: a leave crashes when the count is
  zero, and an enter when it is the largest the 30 bits can hold.
\<close>

theorem dispatch_group_value:
  assumes "group_run as (dispatch_group_create_with_count k n) = Next (dg, es)" "unat k < 2 ^ 30"
  shows "int (unat (dg_state_value (dg_state dg))) = int (unat k) + occurs Entered es - occurs Left es \<and>
    (\<forall>i. i < n \<longrightarrow> members dg ! i = Outside \<longrightarrow>
      (group_exec (i, Leave) dg = Crashed \<longleftrightarrow> int (unat k) + occurs Entered es = occurs Left es) \<and>
      (group_exec (i, Enter) dg = Crashed \<longleftrightarrow> int (unat k) + occurs Entered es = occurs Left es + (2 ^ 30 - 1)))"
proof -
  have i: "length (members dg) = n" "entered (dg_state dg) = int (unat k) + occurs Entered es - occurs Left es"
    using group_inv_run [OF assms] by (simp_all add: group_inv_def)
  have "(group_exec (i, Leave) dg = Crashed \<longleftrightarrow> int (unat k) + occurs Entered es = occurs Left es) \<and>
      (group_exec (i, Enter) dg = Crashed \<longleftrightarrow> int (unat k) + occurs Entered es = occurs Left es + (2 ^ 30 - 1))"
    if "i < n" "members dg ! i = Outside" for i
    using crash_enter_leave [of i dg] that i by linarith
  then show ?thesis using i(2) by (simp only: entered_def) blast
qed

theorem dispatch_group_value_witness:
  "\<exists>dg es. group_run [(0, Enter), (0, Go), (1, Enter), (0, Leave)] (dispatch_group_create_with_count 0 2) = Next (dg, es) \<and>
    int (unat (dg_state_value (dg_state dg))) = int (unat (0 :: u32)) + occurs Entered es - occurs Left es"
proof -
  let ?dg = "\<lparr>dg_state = 0xfffffffc, dg_notify = [], dg_refs = 1, members = [Outside, Outside]\<rparr>"
  have r: "group_run [(0, Enter), (0, Go), (1, Enter), (0, Leave)] (dispatch_group_create_with_count 0 2) =
    Next (?dg, [Entered, EnterReturned, Entered, EnterReturned, Left])" by code_simp
  show ?thesis using dispatch_group_value [OF r] r by auto
qed

text \<open>
  The discipline of the clients: a leave is called for an enter that has returned, or for one of the \<open>m\<close> that
  the group was created with.
\<close>

fun matched :: "int \<Rightarrow> group_event list \<Rightarrow> bool" where
  "matched m [] \<longleftrightarrow> True"
| "matched m (e # es) \<longleftrightarrow>
    (case e of EnterReturned \<Rightarrow> matched (m + 1) es | Left \<Rightarrow> 0 < m \<and> matched (m - 1) es | _ \<Rightarrow> matched m es)"

lemma matched_append:
  "matched m (es @ fs) \<longleftrightarrow> matched m es \<and> matched (m + occurs EnterReturned es - occurs Left es) fs"
  by (induction es arbitrary: m) (auto simp: algebra_simps split: group_event.splits)

lemma matched_count: "matched m es \<Longrightarrow> 0 \<le> m \<Longrightarrow> occurs Left es \<le> m + occurs EnterReturned es"
  by (induction es arbitrary: m) (force split: group_event.splits)+

text \<open>Under it at most one thread is between the subtraction and the reference for it, and the group is not empty then.\<close>

definition pending_inv :: "u32 \<Rightarrow> group_event list \<Rightarrow> group \<Rightarrow> bool" where
  "pending_inv k es dg \<longleftrightarrow>
    entered (dg_state dg) = int (unat k) + occurs EnterReturned es - occurs Left es + total pending (members dg) \<and>
    (matched (int (unat k)) es \<longrightarrow> total pending (members dg) \<le> 1)"

lemma group_exec_pending:
  assumes "group_exec (i, a) dg = Next (dg', es)"
  shows "total pending (members dg') = total pending (members dg) + occurs Entered es - occurs EnterReturned es \<and>
    (occurs Entered es \<le> occurs EnterReturned es \<or> entered (dg_state dg) = 0 \<and> es = [Entered])"
  using assms
proof (cases rule: group_exec_cases)
  case enter
  then show ?thesis using enter_cases [OF enter(3,2)] by (auto simp: becomes_def total_update entered_zero)
next
  case leave
  show ?thesis using leave(3,2) by (cases rule: leave_cases) (use leave(1,2) in \<open>simp_all add: total_update\<close>)
next
  case (wait t)
  show ?thesis using wait(3,2) by (cases rule: wait_cases) (use wait(1,2) in \<open>auto simp: total_update\<close>)
next
  case (notify dsn)
  show ?thesis using notify(3,2) by (cases rule: notify_cases) (use notify(1,2) in \<open>simp_all add: total_update\<close>)
next
  case (leaving old_state)
  show ?thesis using leaving(3) by (cases rule: leave_loop_cases) (use leaving(1,2) in \<open>simp_all add: total_update\<close>)
next
  case notifying
  show ?thesis using notifying(3) by (cases rule: notify_loop_cases) (use notifying(1,2) in \<open>simp_all add: total_update\<close>)
next
  case (submit dcs st b pc)
  then show ?thesis by (auto simp: total_update occurs_none)
next
  case (wake_up g t b)
  then show ?thesis by (auto simp: total_update)
next
  case (again g t b pc)
  then show ?thesis by (auto simp: total_update occurs_none)
qed (simp_all add: total_update total_awaken)

lemma pending_inv_step:
  assumes "pending_inv k es dg" "group_exec a dg = Next (dg', fs)"
  shows "pending_inv k (es @ fs) dg'"
proof -
  obtain i b where a: "a = (i, b)" by (cases a)
  note p = group_exec_pending [OF assms(2) [unfolded a]]
  have c: "entered (dg_state dg') =
      int (unat k) + occurs EnterReturned (es @ fs) - occurs Left (es @ fs) + total pending (members dg')"
    using assms(1) p group_exec_count [OF assms(2) [unfolded a]] by (simp add: pending_inv_def)
  have "total pending (members dg') \<le> 1" if m: "matched (int (unat k)) (es @ fs)"
  proof -
    have m: "matched (int (unat k)) es" using m by (simp add: matched_append)
    then have t: "total pending (members dg) \<le> 1" using assms(1) by (simp add: pending_inv_def)
    show ?thesis
    proof (cases "entered (dg_state dg) = 0 \<and> fs = [Entered]")
      case True
      then have "total pending (members dg) \<le> 0"
        using matched_count [OF m] assms(1) by (simp add: pending_inv_def)
      then show ?thesis using p True by simp
    qed (use p t in linarith)
  qed
  then show ?thesis using c by (simp add: pending_inv_def)
qed

text \<open>
  Inside \<open>dispatch_group_leave\<close> after the last leave, inside \<open>_dispatch_group_notify\<close> after the first push, and
  inside \<open>_dispatch_group_wake\<close> the thread uses the group on a reference the group holds to itself.
\<close>

fun uses_group :: "group_pc \<Rightarrow> bool" where
  "uses_group (Leaving st) \<longleftrightarrow> True"
| "uses_group Notifying \<longleftrightarrow> True"
| "uses_group (Waking st b) \<longleftrightarrow> True"
| "uses_group (Submitting dcs st b) \<longleftrightarrow> True"
| "uses_group (Alerting st b) \<longleftrightarrow> True"
| "uses_group (Releasing n) \<longleftrightarrow> True"
| "uses_group pc \<longleftrightarrow> False"

lemma uses_owed: "uses_group pc \<Longrightarrow> releases pc \<Longrightarrow> 0 < owed pc"
  by (cases pc) auto

lemma go_enabled:
  assumes "claim_inv dg" "i < length (members dg)" "members dg ! i \<noteq> Outside" "\<not> asleep (members dg ! i)"
  shows "\<exists>dg' fs. group_exec (i, Go) dg = Next (dg', fs)"
proof (cases "members dg ! i")
  case (Waking st b)
  then have "has_notifs st \<Longrightarrow> dg_notify dg \<noteq> []" using claim_one(1) [OF assms(1,2)] by simp
  then show ?thesis using assms(2) Waking by (simp add: dispatch_group_wake_def)
next
  case (Submitting dcs st b)
  then show ?thesis using assms(2) by (cases dcs) simp_all
qed (use assms(2-4) in \<open>simp_all add: enter_retain_def notify_retain_def leave_loop_def notify_loop_def dispatch_wake_by_address_def wake_release_def
  dispatch_wait_on_address_def dispatch_group_wait_slow_def Let_def\<close>)

lemma pending_inv_run:
  assumes "group_run as (dispatch_group_create_with_count k n) = Next (dg, es)" "unat k < 2 ^ 30"
  shows "pending_inv k es dg"
proof -
  have "pending_inv k [] (dispatch_group_create_with_count k n)"
    using group_inv_create [OF assms(2), of n] by (simp add: pending_inv_def group_inv_def total_replicate)
  from grp.run_invariant [where good = "pending_inv k", OF assms(1) this pending_inv_step] show ?thesis by simp
qed

lemma owed_le_refs:
  assumes "group_run as (dispatch_group_create_with_count k n) = Next (dg, es)" "unat k < 2 ^ 30"
    and "matched (int (unat k)) es"
  shows "total owed (members dg) \<le> dg_refs dg"
proof -
  have r: "refs_inv dg" using group_inv_run [OF assms(1,2)] by (simp add: group_inv_def)
  have p: "total pending (members dg) \<le> entered (dg_state dg)" "total pending (members dg) \<le> 1"
    using pending_inv_run [OF assms(1,2)] matched_count [OF assms(3)] assms(3) by (simp_all add: pending_inv_def)
  then have "total pending (members dg) \<le> of_bool (val (dg_state dg) \<noteq> 0)"
    using entered_zero [of "dg_state dg"] by (cases "val (dg_state dg) = 0") simp_all
  moreover have "(0 :: int) \<le> of_bool (has_notifs (dg_state dg))" by simp
  ultimately show ?thesis using r unfolding refs_inv_def by linarith
qed

text \<open>
  C21: the group is alive while it is used, when each leave is called for an enter that has returned. The
  references the group holds to itself never go below zero, although an enter on an empty group takes its reference
  only after the subtraction, and other threads may run in between; while a thread is between the last leave, or the
  reference taken for the first notification, and the release at the end of \<open>_dispatch_group_wake\<close>, at least one is
  held; and such a thread can always go on: the snapshot of the notification list, which would spin on an empty list,
  never finds it empty.
\<close>

theorem dispatch_group_references:
  assumes "group_run as (dispatch_group_create_with_count k n) = Next (dg, es)" "unat k < 2 ^ 30"
    and "matched (int (unat k)) es"
  shows "0 \<le> dg_refs dg \<and>
    (\<forall>i. i < n \<longrightarrow> uses_group (members dg ! i) \<longrightarrow>
      0 < dg_refs dg \<and> (\<exists>dg' fs. group_exec (i, Go) dg = Next (dg', fs)))"
proof -
  have i: "length (members dg) = n" "claim_inv dg" "list_all releases (members dg)"
    using group_inv_run [OF assms(1,2)] by (simp_all add: group_inv_def)
  have t: "total owed (members dg) \<le> dg_refs dg" by (rule owed_le_refs [OF assms])
  have "0 < dg_refs dg \<and> (\<exists>dg' fs. group_exec (i, Go) dg = Next (dg', fs))"
    if "i < n" "uses_group (members dg ! i)" for i
  proof -
    have "0 < owed (members dg ! i)" using that i(1,3) by (intro uses_owed) (simp_all add: list_all_length)
    then have "0 < dg_refs dg" using total_ge [of i "members dg" owed] that(1) i(1) t by simp
    moreover have "members dg ! i \<noteq> Outside" "\<not> asleep (members dg ! i)" using that(2) by (cases "members dg ! i"; simp)+
    ultimately show ?thesis using go_enabled [OF i(2)] that(1) i(1) by blast
  qed
  moreover have "0 \<le> dg_refs dg" using t total_nonneg [of owed "members dg"] by simp
  ultimately show ?thesis by blast
qed

theorem dispatch_group_references_witness:
  "\<exists>dg es. group_run [(0, Enter), (1, Enter), (1, Leave), (0, Go), (0, Notify 1), (0, Go), (0, Go), (0, Leave), (0, Go)]
      (dispatch_group_create_with_count 0 2) = Next (dg, es) \<and> uses_group (members dg ! 0) \<and> 0 < dg_refs dg"
proof -
  let ?dg = "\<lparr>dg_state = 0x100000000, dg_notify = [1], dg_refs = 2, members = [Waking 0x100000002 True, Outside]\<rparr>"
  have r: "group_run [(0, Enter), (1, Enter), (1, Leave), (0, Go), (0, Notify 1), (0, Go), (0, Go), (0, Leave), (0, Go)]
    (dispatch_group_create_with_count 0 2) =
    Next (?dg, [Entered, Entered, EnterReturned, Left, EnterReturned, Registered 1, Left])" by code_simp
  have "0 < dg_refs ?dg" using dispatch_group_references [OF r] by auto
  then show ?thesis using r by auto
qed

text \<open>
  The condition is needed: a leave by another thread between the subtraction and the reference of the only enter
  releases what has not been taken yet.
\<close>

theorem dispatch_group_leave_before_retain:
  "group_run [(0, Enter), (1, Leave), (1, Go), (1, Go), (1, Go), (1, Go)] (dispatch_group_create 2) =
    Next (\<lparr>dg_state = 0x100000000, dg_notify = [], dg_refs = -1, members = [Retaining, Outside]\<rparr>, [Entered, Left])"
  by code_simp

lemma total_zero: "list_all (\<lambda>pc. f pc = 0) pcs \<Longrightarrow> total f pcs = 0"
  unfolding total_def by (induction pcs) simp_all

text \<open>
  C20: no wake-up and no notification is lost. When the value is zero and no thread can go on, every thread is
  outside, so no call of \<open>dispatch_group_wait\<close> still sleeps; the notification list is empty and every registered
  notification has been submitted exactly once; the group holds no reference to itself, and disposing of it does
  not crash. The generation has 32 bits: fewer than \<open>2 ^ 32 - 1\<close> leaves keep it from coming round.
\<close>

theorem dispatch_group_no_lost_wakeup:
  assumes "group_run as (dispatch_group_create_with_count k n) = Next (dg, es)" "unat k < 2 ^ 30"
    and "occurs Left es < 2 ^ 32 - 1" "dg_state_value (dg_state dg) = 0" "\<forall>i. group_exec (i, Go) dg = Blocked"
  shows "(\<forall>i. i < n \<longrightarrow> members dg ! i = Outside) \<and> dg_notify dg = [] \<and>
    (\<forall>x. occurs (Registered x) es = occurs (Submitted x) es) \<and> dg_refs dg = 0 \<and> dispatch_group_dispose dg"
proof -
  have i: "length (members dg) = n" "claim_inv dg" "refs_inv dg" "clear_inv dg" "\<And>x. notify_inv x es dg"
    using group_inv_run [OF assms(1,2)] by (simp_all add: group_inv_def)
  have p: "promised (dg_state dg) (members dg)" using sleep_inv_run [OF assms(1,2)] assms(3) by (simp add: sleep_inv_def)
  have v: "val (dg_state dg) = 0" using assms(4) entered_zero [of "dg_state dg"] by (simp add: entered_def)
  have q: "pc = Outside \<or> asleep pc" if "pc \<in> set (members dg)" for pc
    using that go_enabled [OF i(2)] assms(5) unfolding in_set_conv_nth by (metis outcome.distinct(3))
  have "\<not> clears pc" "\<not> alerts pc" if "pc \<in> set (members dg)" for pc using q [OF that] by (cases pc; simp)+
  then have c: "\<not> list_ex clears (members dg)" "\<not> list_ex alerts (members dg)" by (auto simp: list_ex_iff)
  have f: "flags (dg_state dg) = 0" using i(4) v c(1) by (auto simp: clear_inv_def)
  then have h: "\<not> has_waiters (dg_state dg)" "\<not> has_notifs (dg_state dg)" by (simp_all add: flags_zero)
  then have "\<not> list_ex asleep (members dg)" using p c(2) by (simp add: promised_def)
  then have o: "\<forall>pc\<in>set (members dg). pc = Outside" using q by (auto simp: list_ex_iff)
  then have t: "f Outside = 0 \<Longrightarrow> total f (members dg) = 0" for f by (intro total_zero) (auto simp: list_all_iff)
  have d: "dg_notify dg = []" using i(2) h(2) t [of claim] by (simp add: claim_inv_def split: if_splits)
  moreover have "dg_refs dg = 0" using i(3) v h(2) t [of owed] t [of pending] by (simp add: refs_inv_def)
  moreover have "occurs (Registered x) es = occurs (Submitted x) es" for x
    using i(5) [of x] d t [of "unsubmitted x"] by (simp add: notify_inv_def)
  ultimately show ?thesis using o i(1) v f by (simp add: dispatch_group_dispose_def low_zero)
qed

theorem dispatch_group_no_lost_wakeup_witness:
  "\<exists>dg es. group_run [(0, Enter), (1, WaitFor DISPATCH_TIME_FOREVER), (0, Go), (1, Go), (0, Notify 7), (0, Go), (0, Go), (0, Leave),
      (0, Go), (0, Go), (0, Go), (0, Go), (0, Go), (1, Go)] (dispatch_group_create_with_count 0 2) = Next (dg, es) \<and>
    dg_notify dg = [] \<and> dg_refs dg = 0 \<and> dispatch_group_dispose dg"
proof -
  let ?dg = "\<lparr>dg_state = 0x100000000, dg_notify = [], dg_refs = 0, members = [Outside, Outside]\<rparr>"
  have r: "group_run [(0, Enter), (1, WaitFor DISPATCH_TIME_FOREVER), (0, Go), (1, Go), (0, Notify 7), (0, Go), (0, Go), (0, Leave),
      (0, Go), (0, Go), (0, Go), (0, Go), (0, Go), (1, Go)] (dispatch_group_create_with_count 0 2) =
    Next (?dg, [Entered, EnterReturned, Registered 7, Left, Submitted 7, Returned 1])" by code_simp
  have v: "dg_state_value (dg_state ?dg) = 0" by code_simp
  have "\<forall>i. group_exec (i, Go) ?dg = Blocked" by (auto simp: less_Suc_eq nth_Cons')
  from dispatch_group_no_lost_wakeup [OF r _ _ v this] show ?thesis using r by auto
qed

lemma group_exec_others:
  assumes "group_exec (j, a) dg = Next (dg', es)" "i \<noteq> j" "i < length (members dg)"
  shows "(members dg' ! i = members dg ! i \<or> members dg' ! i = awaken (members dg ! i)) \<and> Returned i \<notin> set es"
  using assms(1)
proof (cases rule: group_exec_cases)
  case enter
  then show ?thesis using enter_cases [OF enter(3,2)] assms(2) by (simp add: becomes_def)
next
  case leave
  show ?thesis using leave(3,2) by (cases rule: leave_cases) (use assms(2) in simp_all)
next
  case (wait t)
  show ?thesis using wait(3,2) by (cases rule: wait_cases) (use assms(2) in auto)
next
  case (notify dsn)
  show ?thesis using notify(3,2) by (cases rule: notify_cases) (use assms(2) in simp_all)
next
  case (leaving old_state)
  show ?thesis using leaving(3) by (cases rule: leave_loop_cases) (use assms(2) in simp_all)
next
  case notifying
  show ?thesis using notifying(3) by (cases rule: notify_loop_cases) (use assms(2) in simp_all)
next
  case (submit dcs st b pc)
  then show ?thesis using assms(2) by (cases dcs) auto
next
  case (alert st b)
  then show ?thesis using assms(2,3) by simp
next
  case (again g t b pc)
  then show ?thesis using assms(2) by auto
qed (use assms(2) in simp_all)

text \<open>A thread in \<open>dispatch_group_wait\<close> for the current generation, or outside.\<close>

definition waits_current :: "nat \<Rightarrow> group \<Rightarrow> bool" where
  "waits_current i dg \<longleftrightarrow> i < length (members dg) \<and>
    (case members dg ! i of
       Outside \<Rightarrow> True
     | WaitOn g t \<Rightarrow> unat g = gen (dg_state dg)
     | Asleep g t \<Rightarrow> unat g = gen (dg_state dg)
     | Awake g t b \<Rightarrow> unat g = gen (dg_state dg)
     | _ \<Rightarrow> False)"

definition continues :: "nat \<Rightarrow> nat \<times> group_action \<Rightarrow> bool" where
  "continues i a \<longleftrightarrow> fst a = i \<longrightarrow> snd a = Go \<or> snd a = TimeUp \<or> snd a = Spurious"

lemma waits_current_step:
  assumes "waits_current i dg" "group_exec a dg = Next (dg', es)" "continues i a" "gen (dg_state dg') = gen (dg_state dg)"
  shows "waits_current i dg' \<and> Returned i \<notin> set es"
proof -
  obtain j b where a: "a = (j, b)" by (cases a)
  note e = assms(2) [unfolded a]
  have l: "i < length (members dg)" using assms(1) by (simp add: waits_current_def)
  show ?thesis
  proof (cases "j = i")
    case False
    then show ?thesis using group_exec_others [OF e _ l] assms(1,4) group_exec_length [OF e]
      by (cases "members dg ! i") (auto simp: waits_current_def)
  next
    case True
    have b: "b = Go \<or> b = TimeUp \<or> b = Spurious" using assms(3) a True by (simp add: continues_def)
    show ?thesis
    proof (cases "members dg ! i")
      case (WaitOn g t)
      then show ?thesis using e True l b assms(1,4)
        by (auto simp: waits_current_def dispatch_wait_on_address_def split: if_splits)
    next
      case (Asleep g t)
      then show ?thesis using e True l b assms(1,4) by (auto simp: waits_current_def split: if_splits)
    next
      case (Awake g t c)
      then have "g = dg_state_gen (dg_state dg)"
        using assms(1) by (simp add: waits_current_def word_unat_eq_iff dg_state_gen_gen)
      then show ?thesis using Awake e True l b assms(1,4)
        by (auto simp: waits_current_def dispatch_group_wait_slow_def split: if_splits)
    qed (use e True l b assms(1) in \<open>auto simp: waits_current_def\<close>)
  qed
qed

lemma returned_after_empty:
  assumes "group_run as dg = Next (dg', es)" "waits_current i dg" "list_all (continues i) as" "Returned i \<in> set es"
  shows "\<exists>bs cs s fs. as = bs @ cs \<and> group_run bs dg = Next (s, fs) \<and> val (dg_state s) = 0"
  using assms
proof (induction as arbitrary: dg es)
  case (Cons a as)
  from Cons.prems(1) obtain u fs gs where r: "group_exec a dg = Next (u, fs)" "group_run as u = Next (dg', gs)" "es = fs @ gs"
    unfolding grp.run_Cons by blast
  obtain j b where a: "a = (j, b)" by (cases a)
  have o: "group_run [a] dg = Next (u, fs)" unfolding grp.run_Cons using r(1) by simp
  show ?case
  proof (cases "val (dg_state u) = 0")
    case True
    then show ?thesis using o by (intro exI [of _ "[a]"] exI [of _ as]) auto
  next
    case False
    then have "gen (dg_state u) = gen (dg_state dg)" using group_exec_gen [OF r(1) [unfolded a]] by simp
    then have "waits_current i u \<and> Returned i \<notin> set fs"
      using waits_current_step [OF Cons.prems(2) r(1)] Cons.prems(3) by simp
    then obtain bs cs s hs where "as = bs @ cs" "group_run bs u = Next (s, hs)" "val (dg_state s) = 0"
      using Cons.IH [OF r(2)] Cons.prems(3,4) r(3) by auto
    then have "a # as = (a # bs) @ cs" "group_run (a # bs) dg = Next (s, fs @ hs)" "val (dg_state s) = 0"
      using r(1) unfolding grp.run_Cons by auto
    then show ?thesis by blast
  qed
qed simp

text \<open>
  C22: a wait that returns zero has seen the group empty. In every execution of any group from a call of
  \<open>dispatch_group_wait\<close> on, up to a return of that call with success, there is a moment between the two at which
  the value is zero, whatever other threads enter and leave meanwhile and whatever spurious wake-ups there are.
\<close>

theorem dispatch_group_wait_sound:
  assumes "group_run ((i, WaitFor t) # as) dg = Next (dg', es)" "members dg ! i = Outside"
    and "list_all (continues i) as" "Returned i \<in> set es"
  shows "\<exists>bs cs s fs. (i, WaitFor t) # as = bs @ cs \<and> group_run bs dg = Next (s, fs) \<and>
    dg_state_value (dg_state s) = 0"
proof -
  from assms(1) obtain u fs gs where
    r: "group_exec (i, WaitFor t) dg = Next (u, fs)" "group_run as u = Next (dg', gs)" "es = fs @ gs"
    unfolding grp.run_Cons by blast
  have l: "i < length (members dg)" using r(1) by (auto split: if_splits)
  then have w: "dispatch_group_wait i t dg = Next (u, fs)" using r(1) assms(2) by simp
  have z: "dg_state_value st = 0 \<longleftrightarrow> val st = 0" for st
    using entered_zero [of st] by (simp only: entered_def of_nat_eq_0_iff unat_eq_zero)
  have s: "group_run [(i, WaitFor t)] dg = Next (u, fs)" unfolding grp.run_Cons using r(1) by simp
  show ?thesis
  proof (cases "Returned i \<in> set fs")
    case True
    have "val (dg_state dg) = 0" using w assms(2) by (cases rule: wait_cases) (use True in auto)
    then have "(i, WaitFor t) # as = [] @ ((i, WaitFor t) # as) \<and> group_run [] dg = Next (dg, []) \<and>
        dg_state_value (dg_state dg) = 0" using z by simp
    then show ?thesis by blast
  next
    case False
    then have g: "Returned i \<in> set gs" using assms(4) r(3) by simp
    have c: "waits_current i u"
      using w assms(2) by (cases rule: wait_cases) (use l in \<open>simp_all add: waits_current_def dg_state_gen_gen\<close>)
    from returned_after_empty [OF r(2) c assms(3) g] obtain bs cs s hs
      where "as = bs @ cs" "group_run bs u = Next (s, hs)" "val (dg_state s) = 0" by blast
    then have "(i, WaitFor t) # as = ((i, WaitFor t) # bs) @ cs"
      "group_run ((i, WaitFor t) # bs) dg = Next (s, fs @ hs)" "dg_state_value (dg_state s) = 0"
      using r(1) z unfolding grp.run_Cons by auto
    then show ?thesis by blast
  qed
qed

theorem dispatch_group_wait_sound_witness:
  "\<exists>bs cs s fs. [(1, WaitFor DISPATCH_TIME_FOREVER), (1, Go), (0, Leave), (0, Go), (0, Go), (0, Go), (0, Go), (0, Enter), (0, Go), (1, Go)] = bs @ cs \<and>
    group_run bs (dispatch_group_create_and_enter 2) = Next (s, fs) \<and> dg_state_value (dg_state s) = 0"
proof -
  let ?as = "[(1, Go), (0, Leave), (0, Go), (0, Go), (0, Go), (0, Go), (0, Enter), (0, Go), (1, Go)] :: (nat \<times> group_action) list"
  let ?dg = "\<lparr>dg_state = 0x1fffffffc, dg_notify = [], dg_refs = 1, members = [Outside, Outside]\<rparr>"
  have r: "group_run ((1, WaitFor DISPATCH_TIME_FOREVER) # ?as) (dispatch_group_create_and_enter 2) =
    Next (?dg, [Left, Entered, EnterReturned, Returned 1])" by code_simp
  moreover have "members (dispatch_group_create_and_enter 2) ! 1 = Outside" by code_simp
  moreover have "list_all (continues 1) ?as" by (simp add: continues_def)
  ultimately show ?thesis by (rule dispatch_group_wait_sound) simp
qed

text \<open>
  A notification can be submitted while the group is not empty. One thread enters, registers the first
  notification and leaves, and clears the flags of the word; before it takes the list another thread enters and
  registers the second notification, which joins the list that is already claimed. The first thread then submits
  both, and the second one was registered, and is submitted, with the other thread still in the group.
\<close>

theorem dispatch_group_notify_not_empty:
  "group_run [(0, Enter), (0, Go), (0, Notify 1), (0, Go), (0, Go), (0, Leave), (0, Go), (1, Enter), (1, Go), (1, Notify 2),
      (0, Go), (0, Go), (0, Go)] (dispatch_group_create 2) =
    Next (\<lparr>dg_state = 0x1fffffffc, dg_notify = [], dg_refs = 3, members = [Alerting 0x100000002 True, Outside]\<rparr>,
      [Entered, EnterReturned, Registered 1, Left, Entered, EnterReturned, Registered 2, Submitted 1, Submitted 2]) \<and>
    dg_state_value 0x1fffffffc = 1"
  by code_simp

end
