(* ===== verification/In_Cksum.thy ===== *)
theory In_Cksum
  imports Prelude
begin

text \<open>
  The Internet checksum of \<open>xnu/bsd/netinet/cpu_in_cksum_gen.c\<close>: the sum of the 16-bit words of a range of bytes in a chain of
  mbufs or in contiguous memory, in one's complement arithmetic. The model follows the loops of the code, with 64-bit and
  with 32-bit accumulators, their wrap-around and every load; the proofs show that no accumulator overflows, that nothing is
  read outside the mbufs, and that the result is the one's complement sum of the range however it is cut into mbufs.
\<close>

section \<open>One's complement sums\<close>

text \<open>
  The representative of \<open>n\<close> in 16-bit one's complement arithmetic that adding with end-around carry gives:
  zero for zero, and otherwise a value from 1 to 65535.
\<close>

definition ones :: "nat \<Rightarrow> nat" where
  "ones n = (if n = 0 then 0 else (n - 1) mod 65535 + 1)"

lemma ones_le: "ones n \<le> 65535"
proof -
  have "(n - 1) mod 65535 < 65535" by simp
  then show ?thesis unfolding ones_def by auto
qed

lemma ones_zero [simp]: "ones n = 0 \<longleftrightarrow> n = 0"
  by (simp add: ones_def)

lemma ones_pos [simp]: "0 < ones n \<longleftrightarrow> 0 < n"
  by (simp add: ones_def)

lemma ones_mod: "ones n mod 65535 = n mod 65535"
proof (cases "n = 0")
  case False
  then have "((n - 1) mod 65535 + 1) mod 65535 = (n - 1 + 1) mod 65535" by (simp only: mod_add_left_eq)
  then show ?thesis using False by (simp add: ones_def)
qed (simp add: ones_def)

lemma ones_small: "n \<le> 65535 \<Longrightarrow> ones n = n"
  by (cases "n = 0") (auto simp: ones_def)

lemma ones_unique:
  assumes "0 < a" "a \<le> 65535" "0 < b" "b \<le> 65535" "a mod 65535 = b mod (65535 :: nat)"
  shows "a = b"
  using assms by (cases "a = 65535"; cases "b = 65535") auto

lemma ones_cong:
  assumes "m mod 65535 = n mod 65535" "m = 0 \<longleftrightarrow> n = 0"
  shows "ones m = ones n"
proof (cases "n = 0")
  case False
  then show ?thesis using assms ones_le [of m] ones_le [of n] by (intro ones_unique [of "ones m" "ones n"]) (simp_all add: ones_mod)
qed (use assms in simp)

lemma ones_eqD:
  assumes "ones m = ones n"
  shows "m mod 65535 = n mod 65535" "m = 0 \<longleftrightarrow> n = 0"
  using ones_mod [of m] ones_mod [of n] ones_zero [of m] ones_zero [of n] assms by simp_all

lemma ones_idem [simp]: "ones (ones n) = ones n"
  by (rule ones_cong) (simp_all add: ones_mod)

lemma ones_add_cong:
  assumes "ones a = ones b" "ones c = ones d"
  shows "ones (a + c) = ones (b + d)"
  using ones_eqD [OF assms(1)] ones_eqD [OF assms(2)] by (intro ones_cong) (auto intro: mod_add_cong)

lemma ones_mult_cong:
  assumes "ones a = ones b"
  shows "ones (k * a) = ones (k * b)"
  using ones_eqD [OF assms] by (intro ones_cong) (auto intro: mod_mult_cong)

lemma ones_add: "ones (ones a + b) = ones (a + b)" "ones (a + ones b) = ones (a + b)"
  by (rule ones_add_cong; simp)+

text \<open>Powers of \<open>2 ^ 16\<close> are one; in particular cutting a number in such digits and adding them changes nothing.\<close>

lemma radix_one: "16 dvd h \<Longrightarrow> (2 ^ h) mod 65535 = (1 :: nat)"
proof -
  assume "16 dvd h"
  then obtain k where "h = 16 * k" by auto
  then have "(2 ^ h :: nat) = 65536 ^ k" by (simp add: power_mult)
  also have "\<dots> mod 65535 = (65536 mod 65535) ^ k mod 65535" by (simp only: power_mod)
  finally show ?thesis by simp
qed

lemma ones_radix:
  assumes "16 dvd h"
  shows "ones (2 ^ h * a + b) = ones (a + b)"
proof (rule ones_cong)
  have "(2 ^ h * a) mod 65535 = a mod (65535 :: nat)"
    using mod_mult_left_eq [of "2 ^ h" "65535 :: nat" a] radix_one [OF assms] by simp
  then show "(2 ^ h * a + b) mod 65535 = (a + b) mod 65535" by (intro mod_add_cong) simp_all
qed simp

lemma ones_fold: "16 dvd h \<Longrightarrow> ones (n div 2 ^ h + n mod 2 ^ h) = ones n"
  using ones_radix [of h "n div 2 ^ h" "n mod 2 ^ h"] by simp

section \<open>The sum of a stream of bytes\<close>

text \<open>
  The sum of the 16-bit words of a stream, a byte at an even position the lower and one at an odd position the upper half
  of its word; \<open>odd_pos\<close> says whether the stream starts at an odd position.
\<close>

primrec stream_sum :: "bool \<Rightarrow> u8 list \<Rightarrow> nat" where
  "stream_sum odd_pos [] = 0"
| "stream_sum odd_pos (b # bs) = (if odd_pos then 256 else 1) * unat b + stream_sum (\<not> odd_pos) bs"

lemma stream_sum_append:
  "stream_sum p (xs @ ys) = stream_sum p xs + stream_sum (p \<noteq> odd (length xs)) ys"
proof (induction xs arbitrary: p)
  case (Cons x xs)
  then show ?case by (cases p) simp_all
qed simp

text \<open>Swapping the bytes of a sum is moving the stream by one position.\<close>

lemma ones_swap: "ones (256 * stream_sum p bs) = ones (stream_sum (\<not> p) bs)"
proof (induction bs arbitrary: p)
  case (Cons b bs)
  have "ones (256 * ((if p then 256 else 1) * unat b)) = ones ((if \<not> p then 256 else 1) * unat b)"
    using ones_radix [of 16 "unat b" 0] by simp
  from ones_add_cong [OF this Cons.IH [of "\<not> p"]] show ?case by (simp add: algebra_simps)
qed simp

text \<open>The value of bytes in little-endian order.\<close>

primrec le :: "u8 list \<Rightarrow> nat" where
  "le [] = 0"
| "le (b # bs) = unat b + 256 * le bs"

lemma ones_le_stream: "ones (le bs) = ones (stream_sum False bs)"
proof (induction bs)
  case (Cons b bs)
  have "ones (256 * le bs) = ones (stream_sum True bs)"
    using ones_mult_cong [OF Cons.IH, of 256] ones_swap [of False bs] by simp
  from ones_add_cong [OF refl this, of "unat b"] show ?case by simp
qed simp

lemma le_less: "le bs < 256 ^ length bs"
proof (induction bs)
  case (Cons b bs)
  have "unat b < 256" using unat_bound [of b] by simp
  then have "unat b + 256 * le bs < 256 * (le bs + 1)" by simp
  also have "\<dots> \<le> 256 * 256 ^ length bs" using Cons.IH by (intro mult_le_mono) simp_all
  finally show ?case by simp
qed simp

section \<open>cpu_in_cksum_gen.c\<close>

text \<open>
  A read outside the memory of an mbuf and a panic are faults. \<open>mbuf\<close> has the address of its data, of which only the
  alignment matters, its length, and the memory from that address on. The parts that the versions for 32-bit and for 64-bit
  accumulators share are on words of any length; \<open>u\<close> is the size of the loads, two or four bytes.
\<close>

datatype cksum_fault = Overread | Panic

record mbuf =
  m_addr :: nat
  m_len :: int
  m_data :: "u8 list"

definition load :: "nat \<Rightarrow> u8 list \<Rightarrow> nat \<Rightarrow> cksum_fault + 'a::len word" where
  "load n bs p = (if p + n \<le> length bs then Inr (of_nat (le (take n (drop p bs)))) else Inl Overread)"

text \<open>\<open>k\<close> lines \<open>partial += *(uintN_t *)(data + ...)\<close>.\<close>

primrec add_loads :: "nat \<Rightarrow> nat \<Rightarrow> u8 list \<Rightarrow> nat \<Rightarrow> 'a::len word \<Rightarrow> cksum_fault + 'a word" where
  "add_loads 0 u bs p partial = Inr partial"
| "add_loads (Suc k) u bs p partial = bindS (load u bs p) (\<lambda>w. add_loads k u bs (p + u) (partial + w))"

definition swap_bytes :: "'a::len word \<Rightarrow> 'a word" where
  "swap_bytes partial = push_bit 8 partial + drop_bit (LENGTH('a) - 8) partial"

definition add_halves :: "'a::len word \<Rightarrow> 'a word \<Rightarrow> 'a word" where
  "add_halves csum partial = csum + drop_bit (LENGTH('a) div 2) partial + take_bit (LENGTH('a) div 2) partial"

text \<open>The loop over blocks of sixteen loads, with its reduction before the accumulator can overflow.\<close>

function sum_blocks :: "nat \<Rightarrow> bool \<Rightarrow> u8 list \<Rightarrow> nat \<Rightarrow> int \<Rightarrow> 'a::len word \<Rightarrow> 'a word \<Rightarrow>
    cksum_fault + (nat \<times> int \<times> 'a word \<times> 'a word)" where
  "sum_blocks u needs_swap bs p mlen partial csum =
    (if 0 < u \<and> mlen \<ge> 16 * int u
     then bindS (add_loads 16 u bs p partial) (\<lambda>partial.
       if partial AND push_bit (LENGTH('a) - 2) 3 \<noteq> 0
       then sum_blocks u needs_swap bs (p + 16 * u) (mlen - 16 * int u) 0
         (add_halves csum (if needs_swap then swap_bytes partial else partial))
       else sum_blocks u needs_swap bs (p + 16 * u) (mlen - 16 * int u) partial csum)
     else Inr (p, mlen, partial, csum))"
  by pat_completeness auto

termination
  by (relation "measure (\<lambda>(u, needs_swap, bs, p, mlen, partial, csum). nat mlen)") auto

text \<open>\<open>if (mlen & N)\<close> with the loads for \<open>N = k * u\<close> bytes.\<close>

definition add_if :: "nat \<Rightarrow> nat \<Rightarrow> u8 list \<Rightarrow> int \<Rightarrow> nat \<times> 'a::len word \<Rightarrow> cksum_fault + (nat \<times> 'a word)" where
  "add_if k u bs mlen = (\<lambda>(p, partial).
    if mlen AND int (k * u) \<noteq> 0
    then bindS (add_loads k u bs p partial) (\<lambda>partial. Inr (p + k * u, partial)) else Inr (p, partial))"

definition add_rest :: "nat \<Rightarrow> u8 list \<Rightarrow> int \<Rightarrow> nat \<times> 'a::len word \<Rightarrow> cksum_fault + (nat \<times> 'a word)" where
  "add_rest u bs mlen st =
    bindS (add_if 8 u bs mlen st) (\<lambda>st. bindS (add_if 4 u bs mlen st) (\<lambda>st. bindS (add_if 2 u bs mlen st) (add_if 1 u bs mlen)))"

text \<open>The byte before the first aligned word, the byte after the last one, and the reduction after an mbuf.\<close>

definition leading_byte :: "nat \<Rightarrow> u8 list \<Rightarrow> nat \<Rightarrow> int \<Rightarrow> bool \<Rightarrow> cksum_fault + (nat \<times> int \<times> 'a::len word \<times> bool)" where
  "leading_byte addr bs p mlen started_on_odd =
    (if odd (addr + p) then bindS (load 1 bs p) (\<lambda>b. Inr (p + 1, mlen - 1, push_bit 8 b, \<not> started_on_odd))
     else Inr (p, mlen, 0, started_on_odd))"

definition trailing_byte :: "u8 list \<Rightarrow> int \<Rightarrow> bool \<Rightarrow> nat \<times> 'a::len word \<Rightarrow> cksum_fault + ('a word \<times> bool)" where
  "trailing_byte bs mlen started_on_odd = (\<lambda>(p, partial).
    if mlen AND 1 \<noteq> 0 then bindS (load 1 bs p) (\<lambda>b. Inr (partial + b, \<not> started_on_odd)) else Inr (partial, started_on_odd))"

definition reduce_sum :: "bool \<Rightarrow> 'a::len word \<Rightarrow> 'a word \<Rightarrow> 'a word" where
  "reduce_sum needs_swap partial csum =
    (let csum = add_halves csum (if needs_swap then swap_bytes partial else partial)
     in drop_bit (LENGTH('a) div 2) csum + take_bit (LENGTH('a) div 2) csum)"

subsection \<open>64-bit accumulators\<close>

text \<open>From the loop over the blocks to the test of \<open>mlen & 2\<close>.\<close>

definition sum_words64 :: "bool \<Rightarrow> u8 list \<Rightarrow> nat \<Rightarrow> int \<Rightarrow> u64 \<Rightarrow> u64 \<Rightarrow> cksum_fault + (nat \<times> int \<times> u64 \<times> u64)" where
  "sum_words64 needs_swap bs p mlen partial csum =
    bindS (sum_blocks 4 needs_swap bs p mlen partial csum) (\<lambda>(p, mlen, partial, csum).
    bindS (add_rest 4 bs mlen (p, partial)) (\<lambda>st.
    bindS (add_if 1 2 bs mlen st) (\<lambda>(p, partial). Inr (p, mlen, partial, csum))))"

definition sum_mbuf64 :: "nat \<Rightarrow> u8 list \<Rightarrow> nat \<Rightarrow> int \<Rightarrow> bool \<Rightarrow> u64 \<Rightarrow> cksum_fault + (bool \<times> u64)" where
  "sum_mbuf64 addr bs p mlen started_on_odd csum =
    bindS (leading_byte addr bs p mlen started_on_odd) (\<lambda>(p, mlen, partial, needs_swap).
    bindS (if (addr + p) AND 2 \<noteq> 0
           then if mlen < 2 then Inr (p, mlen, partial, csum)
                else bindS (load 2 bs p) (\<lambda>w. sum_words64 needs_swap bs (p + 2) (mlen - 2) (partial + w) csum)
           else sum_words64 needs_swap bs p mlen partial csum) (\<lambda>(p, mlen, partial, csum).
    bindS (trailing_byte bs mlen needs_swap (p, partial)) (\<lambda>(partial, started_on_odd).
    Inr (started_on_odd, reduce_sum needs_swap partial csum))))"

text \<open>
  The loops over the chain, with the sum of one mbuf as a parameter. \<open>None\<close> is running out of mbufs.
\<close>

fun sum_chain :: "(nat \<Rightarrow> u8 list \<Rightarrow> nat \<Rightarrow> int \<Rightarrow> bool \<Rightarrow> 'a::len word \<Rightarrow> cksum_fault + (bool \<times> 'a word)) \<Rightarrow>
    int \<Rightarrow> bool \<Rightarrow> 'a word \<Rightarrow> mbuf list \<Rightarrow> cksum_fault + 'a word option" where
  "sum_chain sum_mbuf len started_on_odd csum [] = Inr (if len > 0 then None else Some csum)"
| "sum_chain sum_mbuf len started_on_odd csum (m # ms) =
    (if len > 0
     then let mlen = m_len m in
       if mlen = 0 then sum_chain sum_mbuf len started_on_odd csum ms
       else let mlen = (if mlen > len then len else mlen) in
         bindS (sum_mbuf (m_addr m) (m_data m) 0 mlen started_on_odd csum) (\<lambda>(started_on_odd, csum).
         sum_chain sum_mbuf (len - mlen) started_on_odd csum ms)
     else Inr (Some csum))"

fun skip_chain :: "(nat \<Rightarrow> u8 list \<Rightarrow> nat \<Rightarrow> int \<Rightarrow> bool \<Rightarrow> 'a::len word \<Rightarrow> cksum_fault + (bool \<times> 'a word)) \<Rightarrow>
    int \<Rightarrow> int \<Rightarrow> 'a word \<Rightarrow> mbuf list \<Rightarrow> cksum_fault + 'a word option" where
  "skip_chain sum_mbuf len off csum [] = Inr None"
| "skip_chain sum_mbuf len off csum (m # ms) =
    (let mlen = m_len m in
     if mlen > off
     then let mlen = (if mlen - off > len then len else mlen - off) in
       bindS (sum_mbuf (m_addr m) (m_data m) (nat off) mlen False csum) (\<lambda>(started_on_odd, csum).
       sum_chain sum_mbuf (len - mlen) started_on_odd csum ms)
     else if len = 0 then Inr (Some csum)
     else skip_chain sum_mbuf len (off - mlen) csum ms)"

definition final_acc64 :: "u64 \<Rightarrow> u32" where
  "final_acc64 csum =
    (let acc = ucast (drop_bit 48 csum + (drop_bit 32 csum AND 0xffff) + (drop_bit 16 csum AND 0xffff) + (csum AND 0xffff)) :: u32;
         acc = drop_bit 16 acc + (acc AND 0xffff);
         acc = drop_bit 16 acc + (acc AND 0xffff)
     in acc AND 0xffff)"

definition os_cpu_in_cksum_mbuf :: "mbuf list \<Rightarrow> int \<Rightarrow> int \<Rightarrow> u32 \<Rightarrow> cksum_fault + u32" where
  "os_cpu_in_cksum_mbuf m len off initial_sum =
    (if len < 0 \<or> off < 0 then Inl Panic
     else bindS (skip_chain sum_mbuf64 len off (ucast initial_sum) m) (\<lambda>r.
       case r of None \<Rightarrow> Inr (- 1) | Some csum \<Rightarrow> Inr (final_acc64 csum)))"

subsection \<open>32-bit accumulators\<close>

definition sum_mbuf32 :: "nat \<Rightarrow> u8 list \<Rightarrow> nat \<Rightarrow> int \<Rightarrow> bool \<Rightarrow> u32 \<Rightarrow> cksum_fault + (bool \<times> u32)" where
  "sum_mbuf32 addr bs p mlen started_on_odd csum =
    bindS (leading_byte addr bs p mlen started_on_odd) (\<lambda>(p, mlen, partial, needs_swap).
    bindS (sum_blocks 2 needs_swap bs p mlen partial csum) (\<lambda>(p, mlen, partial, csum).
    bindS (add_rest 2 bs mlen (p, partial)) (\<lambda>st.
    bindS (trailing_byte bs mlen needs_swap st) (\<lambda>(partial, started_on_odd).
    Inr (started_on_odd, reduce_sum needs_swap partial csum)))))"

definition final_acc32 :: "u32 \<Rightarrow> u32" where
  "final_acc32 csum =
    (let acc = (drop_bit 16 csum AND 0xffff) + (csum AND 0xffff);
         acc = drop_bit 16 acc + (acc AND 0xffff)
     in acc AND 0xffff)"

definition os_cpu_in_cksum_mbuf_32 :: "mbuf list \<Rightarrow> int \<Rightarrow> int \<Rightarrow> u32 \<Rightarrow> cksum_fault + u32" where
  "os_cpu_in_cksum_mbuf_32 m len off initial_sum =
    (if len < 0 \<or> off < 0 then Inl Panic
     else bindS (skip_chain sum_mbuf32 len off (drop_bit 16 initial_sum + (initial_sum AND 0xffff)) m) (\<lambda>r.
       case r of None \<Rightarrow> Inr (- 1) | Some csum \<Rightarrow> Inr (final_acc32 csum)))"

subsection \<open>Contiguous data\<close>

definition fold_64 :: "u64 \<Rightarrow> u64" where
  "fold_64 csum =
    (let csum = drop_bit 32 csum + (csum AND 0xffffffff);
         csum = drop_bit 16 csum + (csum AND 0xffff);
         csum = drop_bit 16 csum + (csum AND 0xffff);
         csum = drop_bit 16 csum + (csum AND 0xffff)
     in csum AND 0xffff)"

function small_loop :: "u8 list \<Rightarrow> nat \<Rightarrow> u32 \<Rightarrow> u64 \<Rightarrow> cksum_fault + u64" where
  "small_loop bs p len csum =
    (if len = 0 then Inr csum
     else bindS (load 4 bs p) (\<lambda>w. small_loop bs (p + 4) (len - 4) (csum + w)))"
  by pat_completeness auto

termination
  by (relation "measure (\<lambda>(bs, p, len, csum). length bs - p)") (auto simp: load_def split: if_splits)

declare sum_blocks.simps [simp del] small_loop.simps [simp del]

definition os_cpu_in_cksum :: "nat \<Rightarrow> u8 list \<Rightarrow> u32 \<Rightarrow> u32 \<Rightarrow> cksum_fault + u32" where
  "os_cpu_in_cksum addr data len initial_sum =
    (if len \<le> 64 \<and> len AND 3 = 0
     then bindS (if len = 20 then add_loads 5 4 data 0 (ucast initial_sum)
                 else if len = 32 then add_loads 8 4 data 0 (ucast initial_sum)
                 else small_loop data 0 len (ucast initial_sum)) (\<lambda>csum. Inr (ucast (fold_64 csum)))
     else os_cpu_in_cksum_mbuf [\<lparr>m_addr = addr, m_len = sint len, m_data = data\<rparr>] (sint len) 0 initial_sum)"

section \<open>Sums of words\<close>

text \<open>The accumulator of \<open>16 u\<close> bits and its halves of \<open>8 u\<close> bits, the size of a load.\<close>

lemma unat_load:
  assumes "p + n \<le> length bs" "8 * n \<le> LENGTH('a::len)"
  shows "\<exists>w. load n bs p = Inr (w :: 'a word) \<and> unat w = le (take n (drop p bs))"
proof -
  have "le (take n (drop p bs)) < 256 ^ length (take n (drop p bs))" by (rule le_less)
  also have "\<dots> = 2 ^ (8 * n)" using assms(1) by (simp add: power_mult)
  also have "\<dots> \<le> 2 ^ LENGTH('a)" using assms(2) by (intro power_increasing) simp_all
  finally have "unat (of_nat (le (take n (drop p bs))) :: 'a word) = le (take n (drop p bs))"
    by (simp add: unat_of_nat)
  then show ?thesis using assms(1) by (simp add: load_def)
qed

lemma take_more: "take (m + n) (drop p xs) = take m (drop p xs) @ take n (drop (p + m) xs)"
  by (simp add: take_add add.commute)

lemma stream_sum_take_more:
  assumes "p + m \<le> length bs"
  shows "stream_sum b (take (m + n) (drop p bs)) =
    stream_sum b (take m (drop p bs)) + stream_sum (b \<noteq> odd m) (take n (drop (p + m) bs))"
  using assms by (simp add: take_more stream_sum_append min_absorb2)

lemma stream_sum_take_even:
  assumes "p + m \<le> length bs" "even m"
  shows "stream_sum b (take (m + n) (drop p bs)) = stream_sum b (take m (drop p bs)) + stream_sum b (take n (drop (p + m) bs))"
  using stream_sum_take_more [OF assms(1), of b n] assms(2) by simp

lemma add_loads_sum:
  assumes "p + k * u \<le> length bs" "even u" "8 * u \<le> LENGTH('a::len)" "unat (partial :: 'a word) + k * 256 ^ u \<le> 2 ^ LENGTH('a)"
  shows "\<exists>w. add_loads k u bs p partial = Inr w \<and> unat w \<le> unat partial + k * 256 ^ u \<and>
    ones (unat w) = ones (unat partial + stream_sum False (take (k * u) (drop p bs)))"
  using assms(1,4)
proof (induction k arbitrary: p partial)
  case (Suc k)
  obtain v :: "'a word" where v: "load u bs p = Inr v" "unat v = le (take u (drop p bs))"
    using unat_load [of p u bs] Suc.prems(1) assms(3) by auto
  have l: "unat v < 256 ^ u" using le_less [of "take u (drop p bs)"] Suc.prems(1) v(2) by simp
  have "unat partial + unat v < 2 ^ LENGTH('a)" using l Suc.prems(2) by simp
  then have a: "unat (partial + v) = unat partial + unat v" by (simp add: unat_word_ariths)
  obtain w where w: "add_loads k u bs (p + u) (partial + v) = Inr w" "unat w \<le> unat (partial + v) + k * 256 ^ u"
    "ones (unat w) = ones (unat (partial + v) + stream_sum False (take (k * u) (drop (p + u) bs)))"
    using Suc.IH [of "p + u" "partial + v"] Suc.prems l a by (auto simp: algebra_simps)
  have "ones (unat v) = ones (stream_sum False (take u (drop p bs)))" using v(2) ones_le_stream by simp
  then have "ones (unat (partial + v) + stream_sum False (take (k * u) (drop (p + u) bs))) =
      ones (unat partial + (stream_sum False (take u (drop p bs)) + stream_sum False (take (k * u) (drop (p + u) bs))))"
    unfolding a add.assoc by (intro ones_add_cong) simp_all
  also have "\<dots> = ones (unat partial + stream_sum False (take (Suc k * u) (drop p bs)))"
    using stream_sum_take_more [of p u bs False "k * u"] Suc.prems(1) assms(2) by simp
  finally show ?case using v(1) w a l by auto
qed simp

lemma unat_drop: "unat (drop_bit n w) = unat w div 2 ^ n"
  by (subst unat_drop_bit_eq) (simp add: drop_bit_eq_div)

lemma unat_take: "unat (take_bit n w) = unat w mod 2 ^ n"
  by (subst unsigned_take_bit_eq) (simp add: take_bit_eq_mod)

lemma unat_push: "unat (push_bit n (w :: 'a::len word)) = (2 ^ n * unat w) mod 2 ^ LENGTH('a)"
  by (subst unsigned_push_bit_eq) (simp add: push_bit_eq_mult take_bit_eq_mod mult.commute)

lemma top_two_bits:
  "(w :: 'a::len word) AND push_bit (LENGTH('a) - 2) 3 \<noteq> 0 \<longleftrightarrow> 2 ^ (LENGTH('a) - 2) \<le> unat w"
proof -
  have "w AND push_bit (LENGTH('a) - 2) 3 = push_bit (LENGTH('a) - 2) (drop_bit (LENGTH('a) - 2) w)"
  proof (rule bit_word_eqI)
    fix n assume n: "n < LENGTH('a)"
    have "bit (mask 2 :: 'a word) (n - (LENGTH('a) - 2))" if "LENGTH('a) - 2 \<le> n"
      using that n by (auto simp: bit_mask_iff)
    moreover have "(mask 2 :: 'a word) = 3" by (simp add: mask_eq_exp_minus_1)
    ultimately have "bit (3 :: 'a word) (n - (LENGTH('a) - 2))" if "LENGTH('a) - 2 \<le> n" using that by metis
    then show "bit (w AND push_bit (LENGTH('a) - 2) 3) n =
        bit (push_bit (LENGTH('a) - 2) (drop_bit (LENGTH('a) - 2) w)) n"
      using n by (auto simp: bit_and_iff bit_push_bit_iff bit_drop_bit_eq)
  qed
  moreover have "push_bit k (drop_bit k w) = 0 \<longleftrightarrow> drop_bit k w = 0" if "k < LENGTH('a)" for k
  proof
    assume z: "push_bit k (drop_bit k w) = 0"
    have "\<not> bit (drop_bit k w) n" for n
    proof
      assume b: "bit (drop_bit k w) n"
      then have "k + n < LENGTH('a)" by (auto simp: bit_drop_bit_eq dest: bit_imp_le_length)
      then have "bit (push_bit k (drop_bit k w)) (k + n)" using b by (simp add: bit_push_bit_iff)
      then show False using z by simp
    qed
    then show "drop_bit k w = 0" by (intro bit_word_eqI) simp
  qed simp
  moreover have "drop_bit k w = 0 \<longleftrightarrow> unat w < 2 ^ k" for k
    by (simp add: unat_eq_zero [symmetric] unat_drop div_eq_0_iff)
  moreover have "LENGTH('a) - 2 < LENGTH('a)" by simp
  ultimately show ?thesis by (metis not_less)
qed


lemma unat_swap_bytes:
  assumes "16 dvd LENGTH('a::len)" "8 \<le> LENGTH('a)"
  shows "ones (unat (swap_bytes (w :: 'a word))) = ones (256 * unat w)"
proof -
  let ?N = "LENGTH('a)" and ?a = "unat w div 2 ^ (LENGTH('a) - 8)" and ?r = "unat w mod 2 ^ (LENGTH('a) - 8)"
  have N: "2 ^ ?N = 256 * (2 ^ (?N - 8) :: nat)" using assms(2) power_add [of "2 :: nat" 8 "?N - 8"] by simp
  have w: "unat w = 2 ^ (?N - 8) * ?a + ?r" by simp
  have r: "?r < 2 ^ (?N - 8)" by simp
  have a: "?a < 256" using unat_bound [of w] N by (simp add: less_mult_imp_div_less mult.commute)
  have "256 * (2 ^ (?N - 8) * ?a + ?r) = 2 ^ ?N * ?a + 256 * ?r" unfolding N by (simp only: distrib_left mult.assoc)
  then have e: "256 * unat w = 2 ^ ?N * ?a + 256 * ?r" unfolding w [symmetric] .
  have "unat (push_bit 8 w) = (256 * unat w) mod 2 ^ ?N"
    by (simp add: unat_push)
  also have "\<dots> = (256 * ?r + 2 ^ ?N * ?a) mod 2 ^ ?N" by (simp only: e add.commute)
  finally have p: "unat (push_bit 8 w) = 256 * ?r" using r N by simp
  have "256 * ?r + ?a < 2 ^ ?N" using r a N by linarith
  then have "unat (swap_bytes w) = 256 * ?r + ?a"
    unfolding swap_bytes_def using p by (simp add: unat_word_ariths unat_drop)
  also have "ones \<dots> = ones (2 ^ ?N * ?a + 256 * ?r)" using ones_radix [OF assms(1), of ?a "256 * ?r"] by (simp add: add.commute)
  finally show ?thesis unfolding e .
qed

text \<open>What \<open>partial\<close> stands for in \<open>csum\<close>.\<close>

definition swapped :: "bool \<Rightarrow> 'a::len word \<Rightarrow> 'a word" where
  "swapped needs_swap partial = (if needs_swap then swap_bytes partial else partial)"

lemma unat_add_halves:
  assumes "LENGTH('a::len) = 2 * h" "unat csum + 2 * 2 ^ h \<le> 2 ^ LENGTH('a)" "16 dvd h" "0 < h"
  shows "unat (add_halves csum (x :: 'a word)) < unat csum + 2 * 2 ^ h"
    "ones (unat (add_halves csum x)) = ones (unat csum + unat x)"
proof -
  have q: "2 ^ LENGTH('a) = (2 ^ h * 2 ^ h :: nat)" by (simp add: assms(1) power_add [symmetric] mult_2)
  have "unat x < 2 ^ h * 2 ^ h" using unat_bound [of x] q by simp
  then have d: "unat x div 2 ^ h < 2 ^ h" by (simp add: less_mult_imp_div_less)
  have m: "unat x mod 2 ^ h < 2 ^ h" by simp
  have "unat csum + unat x div 2 ^ h + unat x mod 2 ^ h < 2 ^ LENGTH('a)" using d m assms(2) by linarith
  moreover have "unat (drop_bit h x) = unat x div 2 ^ h" "unat (take_bit h x) = unat x mod 2 ^ h"
    by (simp_all add: unat_drop unat_take)
  ultimately have e: "unat (add_halves csum x) = unat csum + unat x div 2 ^ h + unat x mod 2 ^ h"
    unfolding add_halves_def by (simp add: assms(1) unat_word_ariths)
  then show "unat (add_halves csum x) < unat csum + 2 * 2 ^ h" using d m by linarith
  show "ones (unat (add_halves csum x)) = ones (unat csum + unat x)"
    unfolding e add.assoc by (intro ones_add_cong ones_fold assms(3)) simp
qed

definition weight :: "bool \<Rightarrow> nat" where
  "weight needs_swap = (if needs_swap then 256 else 1)"

lemma ones_swapped_weight:
  "16 dvd LENGTH('a::len) \<Longrightarrow> 8 \<le> LENGTH('a) \<Longrightarrow> ones (unat (swapped s (w :: 'a word))) = ones (weight s * unat w)"
  by (simp add: swapped_def weight_def unat_swap_bytes)

lemma ones_weight: "ones (weight s * stream_sum b bs) = ones (stream_sum (b \<noteq> s) bs)"
  using ones_swap [of b bs] by (simp add: weight_def)

text \<open>The block loop on the two sizes of accumulators, \<open>E\<close> being an eighth of a half of the accumulator.\<close>

definition acc_size :: "nat \<Rightarrow> nat \<Rightarrow> nat \<Rightarrow> bool" where
  "acc_size N u E \<longleftrightarrow> N = 32 \<and> u = 2 \<and> E = 2 ^ 13 \<or> N = 64 \<and> u = 4 \<and> E = 2 ^ 29"

lemma acc_sizeD:
  assumes "acc_size N u E"
  shows "N = 16 * u" "N = 2 * (8 * u)" "0 < u" "even u" "16 dvd N" "16 dvd 8 * u" "8 \<le> N" "0 < E" "(256 :: nat) ^ u = 8 * E"
    "(2 :: nat) ^ (8 * u) = 8 * E" "2 ^ N = 64 * (E * E)" "2 ^ (N - 2) = 16 * (E * E)" "32 * E \<le> E * E"
  using assms by (auto simp: acc_size_def)

lemma sum_blocks_sum:
  fixes partial csum :: "'a::len word"
  assumes "acc_size LENGTH('a) u E" "p + m \<le> length bs" "unat partial < 2 ^ (LENGTH('a) - 2)"
    "E * unat csum + unat partial + m div (16 * u) * (128 * E) \<le> E * 2 ^ LENGTH('a)"
  shows "\<exists>partial' csum'. sum_blocks u s bs p (int m) partial csum =
      Inr (p + m div (16 * u) * (16 * u), int (m mod (16 * u)), partial', csum') \<and> unat partial' < 2 ^ (LENGTH('a) - 2) \<and>
    E * unat csum' + unat partial' \<le> E * unat csum + unat partial + m div (16 * u) * (128 * E) \<and>
    ones (unat csum' + weight s * unat partial') =
      ones (unat csum + weight s * (unat partial + stream_sum False (take (m div (16 * u) * (16 * u)) (drop p bs))))"
  using assms(2-4)
proof (induction m arbitrary: p partial csum rule: less_induct)
  case (less m)
  note d = acc_sizeD [OF assms(1)]
  show ?case
  proof (cases "16 * u \<le> m")
    case False
    then have "m div (16 * u) = 0" "m mod (16 * u) = m" by auto
    then show ?thesis using False less.prems by (subst sum_blocks.simps) auto
  next
    case True
    let ?m = "m - 16 * u" and ?w = "take (16 * u) (drop p bs)"
    let ?r = "take (?m div (16 * u) * (16 * u)) (drop (p + 16 * u) bs)"
    have q: "m div (16 * u) = Suc (?m div (16 * u))" "m mod (16 * u) = ?m mod (16 * u)" "?m < m" "int ?m = int m - 16 * int u"
      using True d(3) by (simp_all add: le_div_geq le_mod_geq)
    have t: "stream_sum False (take (m div (16 * u) * (16 * u)) (drop p bs)) = stream_sum False ?w + stream_sum False ?r"
      using stream_sum_take_more [of p "16 * u" bs False "?m div (16 * u) * (16 * u)"] less.prems(1) True q(1) by simp
    have "unat partial + 16 * 256 ^ u \<le> 2 ^ LENGTH('a)"
      using less.prems(2) d(13) unfolding d(9,11,12) by linarith
    then obtain w where w: "add_loads 16 u bs p partial = Inr w" "unat w \<le> unat partial + 16 * 256 ^ u"
      "ones (unat w) = ones (unat partial + stream_sum False ?w)"
      using add_loads_sum [of p 16 u bs partial] less.prems(1) True d by auto
    have w2: "unat w \<le> unat partial + 128 * E" using w(2) d(9) by simp
    have step: "sum_blocks u s bs p (int m) partial csum =
      (if 2 ^ (LENGTH('a) - 2) \<le> unat w
       then sum_blocks u s bs (p + 16 * u) (int ?m) 0 (add_halves csum (swapped s w))
       else sum_blocks u s bs (p + 16 * u) (int ?m) w csum)"
      using True d(3) w(1) top_two_bits [of w] q(4) by (subst sum_blocks.simps) (simp add: swapped_def)
    have p: "p + 16 * u + ?m \<le> length bs" using less.prems(1) True by simp
    have wt: "ones (a + weight s * (unat w + stream_sum False ?r)) =
        ones (a + weight s * (unat partial + (stream_sum False ?w + stream_sum False ?r)))" for a
    proof -
      have "ones (unat w + stream_sum False ?r) = ones (unat partial + stream_sum False ?w + stream_sum False ?r)"
        using w(3) by (intro ones_add_cong) simp_all
      from ones_add_cong [OF refl ones_mult_cong [OF this]] show ?thesis by (simp only: add.assoc)
    qed
    show ?thesis
    proof (cases "2 ^ (LENGTH('a) - 2) \<le> unat w")
      case False
      then obtain partial' csum' where "sum_blocks u s bs (p + 16 * u) (int ?m) w csum =
          Inr (p + 16 * u + ?m div (16 * u) * (16 * u), int (?m mod (16 * u)), partial', csum')"
        "unat partial' < 2 ^ (LENGTH('a) - 2)"
        "E * unat csum' + unat partial' \<le> E * unat csum + unat w + ?m div (16 * u) * (128 * E)"
        "ones (unat csum' + weight s * unat partial') = ones (unat csum + weight s * (unat w + stream_sum False ?r))"
        using less.IH [OF q(3) p, of w csum] less.prems(3) w2 q(1) by auto
      then show ?thesis using False step w2 wt [of "unat csum"] q t by (auto simp: algebra_simps)
    next
      case True
      let ?c = "add_halves csum (swapped s w)"
      have "16 * (E * E) \<le> unat w" using True unfolding d(12) .
      moreover have "E * unat csum + unat w \<le> E * (64 * (E * E))"
        using less.prems(3) w2 q(1) unfolding d(11) by (simp add: algebra_simps)
      ultimately have "E * (unat csum + 16 * E) \<le> E * (64 * (E * E))" by (simp add: algebra_simps)
      then have "unat csum + 2 * 2 ^ (8 * u) \<le> 2 ^ LENGTH('a)" using d(8) unfolding d(10,11) by (simp only: mult_le_cancel1) simp
      from unat_add_halves [OF d(2) this d(6), of "swapped s w"] d(3,10)
      have c: "unat ?c < unat csum + 16 * E" "ones (unat ?c) = ones (unat csum + unat (swapped s w))" by simp_all
      have "E * unat ?c \<le> E * (unat csum + 16 * E)" using c(1) by (intro mult_le_mono) simp_all
      then have e: "E * unat ?c \<le> E * unat csum + unat w" using \<open>16 * (E * E) \<le> unat w\<close> by (simp add: algebra_simps)
      then have "E * unat ?c + unat (0 :: 'a word) + ?m div (16 * u) * (128 * E) \<le> E * 2 ^ LENGTH('a)"
        using less.prems(3) w2 q(1) by (simp add: algebra_simps)
      then obtain partial' csum' where r: "sum_blocks u s bs (p + 16 * u) (int ?m) 0 ?c =
          Inr (p + 16 * u + ?m div (16 * u) * (16 * u), int (?m mod (16 * u)), partial', csum')"
        "unat partial' < 2 ^ (LENGTH('a) - 2)" "E * unat csum' + unat partial' \<le> E * unat ?c + ?m div (16 * u) * (128 * E)"
        "ones (unat csum' + weight s * unat partial') = ones (unat ?c + weight s * stream_sum False ?r)"
        using less.IH [OF q(3) p, of 0 ?c] by auto
      have o: "ones (unat ?c + weight s * stream_sum False ?r) = ones (unat csum + weight s * (unat w + stream_sum False ?r))"
      proof -
        have "ones (unat ?c) = ones (unat csum + weight s * unat w)"
          unfolding c(2) using ones_swapped_weight [OF d(5,7), of s w] by (intro ones_add_cong) simp_all
        from ones_add_cong [OF this refl] show ?thesis by (simp only: add.assoc distrib_left)
      qed
      have "sum_blocks u s bs p (int m) partial csum =
          Inr (p + m div (16 * u) * (16 * u), int (m mod (16 * u)), partial', csum')"
        unfolding step using True r(1) by (simp add: q(1,2))
      moreover have "E * unat csum' + unat partial' \<le> E * unat csum + unat partial + m div (16 * u) * (128 * E)"
        unfolding q(1) mult_Suc using r(3) e w2 by linarith
      ultimately show ?thesis using r(2,4) o wt [of "unat csum"] t by auto
    qed
  qed
qed

lemma mod_double: "m mod 2 ^ Suc j = m mod 2 ^ j + (if odd (m div 2 ^ j) then 2 ^ j else 0)" for m :: nat
proof -
  have "m mod (2 ^ j * 2) = 2 ^ j * (m div 2 ^ j mod 2) + m mod 2 ^ j" by (rule mod_mult2_eq)
  then show ?thesis by (simp add: mult.commute odd_iff_mod_2_eq_one even_iff_mod_2_eq_zero)
qed

lemma int_and_bit: "int m AND 2 ^ j \<noteq> 0 \<longleftrightarrow> odd (m div 2 ^ j)"
proof -
  have "int m AND 2 ^ j \<noteq> 0 \<longleftrightarrow> bit (int m) j" by (simp add: and_exp_eq_0_iff_not_bit)
  also have "\<dots> \<longleftrightarrow> odd (int (m div 2 ^ j))" by (simp add: bit_iff_odd zdiv_int)
  finally show ?thesis by simp
qed

lemma add_if_sum:
  fixes partial :: "'a::len word"
  assumes "k * u = 2 ^ j" "even u" "8 * u \<le> LENGTH('a)" "p + m \<le> length bs" "unat partial + k * 256 ^ u \<le> 2 ^ LENGTH('a)"
    "ones (unat partial) = ones (x + stream_sum False (take (m - m mod 2 ^ Suc j) (drop p bs)))"
  shows "\<exists>w. add_if k u bs (int m) (p + (m - m mod 2 ^ Suc j), partial) = Inr (p + (m - m mod 2 ^ j), w) \<and>
    unat w \<le> unat partial + k * 256 ^ u \<and> ones (unat w) = ones (x + stream_sum False (take (m - m mod 2 ^ j) (drop p bs)))"
proof -
  let ?c = "m - m mod 2 ^ Suc j"
  have i: "int (k * u) = 2 ^ j" using assms(1) by simp
  show ?thesis
  proof (cases "odd (m div 2 ^ j)")
    case False
    then have "m mod 2 ^ Suc j = m mod 2 ^ j" using mod_double [of m j] by simp
    then show ?thesis using False assms(6) int_and_bit [of m j] unfolding add_if_def i by simp
  next
    case True
    then have e: "m mod 2 ^ Suc j = m mod 2 ^ j + 2 ^ j" using mod_double [of m j] by simp
    have "m mod 2 ^ Suc j \<le> m" by (rule mod_less_eq_dividend)
    then have c: "m - m mod 2 ^ j = ?c + k * u" using e assms(1) by linarith
    have "even ?c"
    proof -
      have "?c = 2 ^ Suc j * (m div 2 ^ Suc j)" by (simp only: minus_mod_eq_mult_div)
      then show ?thesis by simp
    qed
    have b: "p + ?c + k * u \<le> length bs" using assms(4) c by linarith
    from add_loads_sum [OF b assms(2,3,5)] obtain w where w: "add_loads k u bs (p + ?c) partial = Inr w"
      "unat w \<le> unat partial + k * 256 ^ u" "ones (unat w) = ones (unat partial + stream_sum False (take (k * u) (drop (p + ?c) bs)))"
      by blast
    have "ones (unat w) = ones (x + stream_sum False (take ?c (drop p bs)) + stream_sum False (take (k * u) (drop (p + ?c) bs)))"
      unfolding w(3) using assms(6) by (intro ones_add_cong) simp_all
    also have "\<dots> = ones (x + stream_sum False (take (m - m mod 2 ^ j) (drop p bs)))"
      unfolding c using b by (subst stream_sum_take_even [OF _ \<open>even ?c\<close>]) (linarith, simp only: add.assoc)
    finally have o: "ones (unat w) = ones (x + stream_sum False (take (m - m mod 2 ^ j) (drop p bs)))" .
    have "int m AND 2 ^ j \<noteq> 0" using True int_and_bit by blast
    then have "add_if k u bs (int m) (p + ?c, partial) = Inr (p + (?c + k * u), w)"
      unfolding add_if_def i prod.case w(1) by (simp only: if_True bindS_simps add.assoc simp_thms)
    then show ?thesis using w(2) o unfolding c by blast
  qed
qed

lemma add_rest_sum:
  fixes partial :: "'a::len word"
  assumes "acc_size LENGTH('a) u E" "p + m \<le> length bs" "m < 16 * u" "unat partial < 2 ^ (LENGTH('a) - 2)"
  shows "\<exists>w. add_rest u bs (int m) (p, partial) = Inr (p + (m - m mod u), w) \<and> unat w \<le> unat partial + 120 * E \<and>
    ones (unat w) = ones (unat partial + stream_sum False (take (m - m mod u) (drop p bs)))"
proof -
  note d = acc_sizeD [OF assms(1)]
  have "u = 2 ^ 1 \<or> u = 2 ^ 2" using assms(1) by (auto simp: acc_size_def)
  then obtain i where i: "u = 2 ^ i" by blast
  have k: "8 * u = 2 ^ (i + 3)" "4 * u = 2 ^ (i + 2)" "2 * u = 2 ^ (i + 1)" "1 * u = 2 ^ i" using i by (simp_all add: power_add)
  have l: "8 * u \<le> LENGTH('a)" using d(1) by simp
  have cap: "unat partial + 15 * (8 * E) \<le> 2 ^ LENGTH('a)" using assms(4) d(13) unfolding d(11,12) by linarith
  have "m < 2 ^ Suc (i + 3)" using assms(3) unfolding power_Suc k(1) [symmetric] by simp
  then have "m mod 2 ^ Suc (i + 3) = m" by (rule mod_less)
  with cap obtain w1 where w1: "add_if 8 u bs (int m) (p, partial) = Inr (p + (m - m mod 2 ^ (i + 3)), w1)"
    "unat w1 \<le> unat partial + 8 * (8 * E)" "ones (unat w1) = ones (unat partial + stream_sum False (take (m - m mod 2 ^ (i + 3)) (drop p bs)))"
    using add_if_sum [OF k(1) d(4) l assms(2), of partial "unat partial"] unfolding d(9) by auto
  obtain w2 where w2: "add_if 4 u bs (int m) (p + (m - m mod 2 ^ (i + 3)), w1) = Inr (p + (m - m mod 2 ^ (i + 2)), w2)"
    "unat w2 \<le> unat w1 + 4 * (8 * E)" "ones (unat w2) = ones (unat partial + stream_sum False (take (m - m mod 2 ^ (i + 2)) (drop p bs)))"
    using add_if_sum [OF k(2) d(4) l assms(2), of w1 "unat partial"] w1 cap unfolding d(9) by (auto simp: numeral_3_eq_3)
  obtain w3 where w3: "add_if 2 u bs (int m) (p + (m - m mod 2 ^ (i + 2)), w2) = Inr (p + (m - m mod 2 ^ (i + 1)), w3)"
    "unat w3 \<le> unat w2 + 2 * (8 * E)" "ones (unat w3) = ones (unat partial + stream_sum False (take (m - m mod 2 ^ (i + 1)) (drop p bs)))"
    using add_if_sum [OF k(3) d(4) l assms(2), of w2 "unat partial"] w1 w2 cap unfolding d(9) by auto
  obtain w4 where w4: "add_if 1 u bs (int m) (p + (m - m mod 2 ^ (i + 1)), w3) = Inr (p + (m - m mod 2 ^ i), w4)"
    "unat w4 \<le> unat w3 + 8 * E" "ones (unat w4) = ones (unat partial + stream_sum False (take (m - m mod 2 ^ i) (drop p bs)))"
    using add_if_sum [OF k(4) d(4) l assms(2), of w3 "unat partial"] w1 w2 w3 cap unfolding d(9) by auto
  have "unat w4 \<le> unat partial + 120 * E" using w1(2) w2(2) w3(2) w4(2) by linarith
  then show ?thesis unfolding add_rest_def using w1(1) w2(1) w3(1) w4(1,3) i by simp
qed

section \<open>The sum of one mbuf\<close>

lemma leading_byte_sum:
  assumes "p + m \<le> length bs" "0 < m \<or> even (addr + p)" "32 \<le> LENGTH('a::len)"
  obtains p' m' s' and w :: "'a::len word" where
    "leading_byte addr bs p (int m) s = Inr (p', int m', w, s')" "p' + m' = p + m" "m' \<le> m" "unat w < 65536"
    "(s' \<noteq> odd m') = (s \<noteq> odd m)"
    "ones (weight s' * (unat w + stream_sum False (take m' (drop p' bs)))) = ones (stream_sum s (take m (drop p bs)))"
proof (cases "odd (addr + p)")
  case False
  then have "leading_byte addr bs p (int m) s = Inr (p, int m, 0 :: 'a word, s)" by (simp add: leading_byte_def)
  then show thesis using ones_weight [of s False "take m (drop p bs)"] by (intro that [of p m 0 s]) simp_all
next
  case True
  then have m: "0 < m" "p < length bs" using assms(1,2) by auto
  obtain v :: "'a word" where v: "load 1 bs p = Inr v" "unat v = le (take 1 (drop p bs))"
    using unat_load [where 'a = 'a, of p 1 bs] assms(1,3) m by auto
  have t: "take m (drop p bs) = bs ! p # take (m - 1) (drop (p + 1) bs)"
    using m by (metis Cons_nth_drop_Suc Suc_diff_1 Suc_eq_plus1 take_Suc_Cons)
  have u: "unat v = unat (bs ! p)" using v(2) m(2) by (simp add: Cons_nth_drop_Suc [symmetric])
  have "unat (bs ! p) < 256" using unat_bound [of "bs ! p"] by simp
  moreover have "256 * unat v < 2 ^ LENGTH('a)"
  proof -
    have "256 * unat v < 2 ^ 32" using calculation u by simp
    also have "\<dots> \<le> 2 ^ LENGTH('a)" using assms(3) by (intro power_increasing) simp_all
    finally show ?thesis .
  qed
  ultimately have w: "unat (push_bit 8 v) = 256 * unat (bs ! p)" "256 * unat (bs ! p) < 65536" using u by (simp_all add: unat_push)
  have "256 * unat (bs ! p) + stream_sum False (take (m - 1) (drop (p + 1) bs)) = stream_sum True (take m (drop p bs))"
    unfolding t by simp
  then have "ones (weight (\<not> s) * (256 * unat (bs ! p) + stream_sum False (take (m - 1) (drop (p + 1) bs)))) =
      ones (stream_sum s (take m (drop p bs)))" using ones_weight [of "\<not> s" True "take m (drop p bs)"] by (simp only: simp_thms)
  then show thesis using True m v(1) w by (intro that [of "p + 1" "m - 1" "push_bit 8 v" "\<not> s"]) (auto simp: leading_byte_def)
qed

lemma trailing_byte_sum:
  fixes partial :: "'a::len word"
  assumes "p + m \<le> length bs" "8 \<le> LENGTH('a)" "unat partial + 256 \<le> 2 ^ LENGTH('a)"
    "ones (unat partial) = ones (x + stream_sum False (take (m - m mod 2) (drop p bs)))"
  shows "\<exists>w. trailing_byte bs (int m) s (p + (m - m mod 2), partial) = Inr (w, s \<noteq> odd m) \<and>
    ones (unat w) = ones (x + stream_sum False (take m (drop p bs)))"
proof (cases "odd m")
  case False
  then have "m mod 2 = 0" "int m AND 1 = 0" using int_and_bit [of m 0] by (simp_all add: mod_2_eq_odd)
  then show ?thesis using assms(4) False by (simp add: trailing_byte_def)
next
  case True
  let ?c = "m - m mod 2"
  have c: "m = ?c + 1" "even ?c" "int m AND 1 \<noteq> 0" using True int_and_bit [of m 0] by (auto simp: odd_iff_mod_2_eq_one)
  have b: "p + ?c + 1 \<le> length bs" using assms(1) c(1) by linarith
  obtain v :: "'a word" where v: "load 1 bs (p + ?c) = Inr v" "unat v = le (take 1 (drop (p + ?c) bs))"
    using unat_load [where 'a = 'a, of "p + ?c" 1 bs] b assms(2) by auto
  have "unat v < 256" using le_less [of "take 1 (drop (p + ?c) bs)"] v(2) b by simp
  then have "unat (partial + v) = unat partial + unat v" using assms(3) by (simp add: unat_word_ariths)
  then have "ones (unat (partial + v)) = ones (x + stream_sum False (take ?c (drop p bs)) + stream_sum False (take 1 (drop (p + ?c) bs)))"
    using assms(4) ones_le_stream [of "take 1 (drop (p + ?c) bs)"] v(2) by (simp only:) (rule ones_add_cong)
  also have "\<dots> = ones (x + stream_sum False (take (?c + 1) (drop p bs)))"
    using b by (subst stream_sum_take_even [OF _ c(2)]) (linarith, simp only: add.assoc)
  finally have o: "ones (unat (partial + v)) = ones (x + stream_sum False (take m (drop p bs)))" using c(1) by simp
  have "trailing_byte bs (int m) s (p + ?c, partial) = Inr (partial + v, \<not> s)"
    unfolding trailing_byte_def prod.case v(1) using c(3) by simp
  then show ?thesis using o True by auto
qed

lemma reduce_sum_sum:
  assumes "acc_size LENGTH('a::len) u E" "unat csum + 16 * E \<le> 2 ^ LENGTH('a)"
  shows "unat (reduce_sum s partial (csum :: 'a word)) < 16 * E"
    "ones (unat (reduce_sum s partial csum)) = ones (unat csum + weight s * unat partial)"
proof -
  note d = acc_sizeD [OF assms(1)]
  let ?c = "add_halves csum (swapped s partial)"
  have "unat csum + 2 * 2 ^ (8 * u) \<le> 2 ^ LENGTH('a)" using assms(2) d(10) by simp
  from unat_add_halves(2) [OF d(2) this d(6)] d(3)
  have c: "ones (unat ?c) = ones (unat csum + unat (swapped s partial))" by simp
  have r: "reduce_sum s partial csum = add_halves 0 ?c"
    by (simp add: reduce_sum_def swapped_def add_halves_def Let_def)
  have "unat (0 :: 'a word) + 2 * 2 ^ (8 * u) \<le> 2 ^ LENGTH('a)" using assms(2) d(10) by simp
  from unat_add_halves [OF d(2) this d(6), of ?c] d(3,10)
  show "unat (reduce_sum s partial csum) < 16 * E" unfolding r by simp
  show "ones (unat (reduce_sum s partial csum)) = ones (unat csum + weight s * unat partial)"
    unfolding r using unat_add_halves(2) [OF d(2) \<open>unat 0 + _ \<le> _\<close> d(6), of ?c] d(3) c
      ones_add_cong [OF refl ones_swapped_weight [OF d(5,7), of s partial], of "unat csum"] by simp
qed

text \<open>The words after the blocks and the trailing byte complete the sum of the blocks.\<close>

lemma complete_sum:
  assumes "ones (c' + k * a) = ones (c + k * (a0 + s1))" "ones w = ones (a + s2)"
  shows "ones (c' + k * w) = ones (c + k * (a0 + (s1 + s2)))"
proof -
  have "ones (c' + k * w) = ones (c' + k * a + k * s2)"
    using ones_add_cong [OF refl ones_mult_cong [OF assms(2)]] by (simp only: distrib_left add.assoc)
  also have "\<dots> = ones (c + k * (a0 + s1) + k * s2)" using ones_add_cong [OF assms(1) refl] .
  finally show ?thesis by (simp only: distrib_left add.assoc)
qed

lemma blocks_rest_sum:
  fixes partial csum :: "'a::len word"
  assumes "acc_size LENGTH('a) u E" "p + m \<le> length bs" "unat csum < 16 * E" "unat partial < 2 ^ (LENGTH('a) - 2)"
    "m div (16 * u) * 128 + 48 * E \<le> 2 ^ LENGTH('a)"
  obtains q m1 partial1 w csum' where
    "sum_blocks u s bs p (int m) partial csum = Inr (p + q, int m1, partial1, csum')"
    "add_rest u bs (int m1) (p + q, partial1) = Inr (p + q + (m1 - m1 mod u), w)"
    "q + m1 = m" "even q" "unat csum' + 16 * E \<le> 2 ^ LENGTH('a)" "unat w + 131072 \<le> 2 ^ LENGTH('a)"
    "ones (unat w) = ones (unat partial1 + stream_sum False (take (m1 - m1 mod u) (drop (p + q) bs)))"
    "ones (unat csum' + weight s * unat partial1) =
      ones (unat csum + weight s * (unat partial + stream_sum False (take q (drop p bs))))"
proof -
  note d = acc_sizeD [OF assms(1)]
  let ?q = "m div (16 * u)"
  have "E * unat csum \<le> 16 * (E * E)" using assms(3) by simp
  then have "E * unat csum + unat partial + ?q * (128 * E) \<le> 16 * (E * E) + 16 * (E * E) + ?q * (128 * E)"
    using assms(4) unfolding d(12) by linarith
  also have "\<dots> = E * (?q * 128 + 32 * E)" by (simp add: algebra_simps)
  finally have b: "E * unat csum + unat partial + ?q * (128 * E) \<le> E * (?q * 128 + 32 * E)" .
  also have "\<dots> \<le> E * 2 ^ LENGTH('a)" using assms(5) by (intro mult_le_mono) simp_all
  finally have b2: "E * unat csum + unat partial + ?q * (128 * E) \<le> E * 2 ^ LENGTH('a)" .
  obtain partial1 csum' where s: "sum_blocks u s bs p (int m) partial csum = Inr (p + ?q * (16 * u), int (m mod (16 * u)), partial1, csum')"
    "unat partial1 < 2 ^ (LENGTH('a) - 2)" "E * unat csum' + unat partial1 \<le> E * unat csum + unat partial + ?q * (128 * E)"
    "ones (unat csum' + weight s * unat partial1) =
      ones (unat csum + weight s * (unat partial + stream_sum False (take (?q * (16 * u)) (drop p bs))))"
    using sum_blocks_sum [OF assms(1,2,4) b2] by blast
  have "E * unat csum' \<le> E * (?q * 128 + 32 * E)" using s(3) b by linarith
  then have c: "unat csum' + 16 * E \<le> 2 ^ LENGTH('a)" using d(8) assms(5) by simp
  have m: "?q * (16 * u) + m mod (16 * u) = m" by (rule div_mult_mod_eq)
  have "p + ?q * (16 * u) + m mod (16 * u) \<le> length bs" "m mod (16 * u) < 16 * u"
    using assms(2) d(3) m by (simp_all only: add.assoc) simp
  from add_rest_sum [OF assms(1) this s(2)] obtain w where
    w: "add_rest u bs (int (m mod (16 * u))) (p + ?q * (16 * u), partial1) =
        Inr (p + ?q * (16 * u) + (m mod (16 * u) - m mod (16 * u) mod u), w)"
      "unat w \<le> unat partial1 + 120 * E"
      "ones (unat w) = ones (unat partial1 + stream_sum False (take (m mod (16 * u) - m mod (16 * u) mod u) (drop (p + ?q * (16 * u)) bs)))"
    by blast
  have "unat w + 131072 \<le> 2 ^ LENGTH('a)"
    using w(2) s(2) assms(1) unfolding acc_size_def by auto
  then show thesis using that [OF s(1) w(1) m] c w(3) s(4) by simp
qed

lemma even_take_split:
  assumes "p + m \<le> length bs" "q + m1 = m" "even q"
  shows "stream_sum False (take m (drop p bs)) = stream_sum False (take q (drop p bs)) + stream_sum False (take m1 (drop (p + q) bs))"
  using assms stream_sum_take_even [of p q bs False m1] by simp

text \<open>
  The contract of the routine for one mbuf, for lengths up to \<open>limit\<close>: it does not read outside \<open>mlen\<close> bytes, adds
  their sum at the current position of the stream, keeps track of the position, and leaves the sum reduced.
\<close>

locale mbuf_sum =
  fixes sum_mbuf :: "nat \<Rightarrow> u8 list \<Rightarrow> nat \<Rightarrow> int \<Rightarrow> bool \<Rightarrow> 'a::len word \<Rightarrow> cksum_fault + (bool \<times> 'a word)"
    and limit bound :: nat
  assumes sum_mbuf: "p + m \<le> length bs \<Longrightarrow> 0 < m \<or> even (addr + p) \<Longrightarrow> m \<le> limit \<Longrightarrow> unat csum < bound \<Longrightarrow>
    \<exists>csum'. sum_mbuf addr bs p (int m) s csum = Inr (s \<noteq> odd m, csum') \<and> unat csum' < bound \<and>
      ones (unat csum') = ones (unat csum + stream_sum s (take m (drop p bs)))"

lemma sum_mbuf32_sum:
  assumes "p + m \<le> length bs" "0 < m \<or> even (addr + p)" "m \<le> 2 ^ 29" "unat csum < 2 ^ 17"
  shows "\<exists>csum'. sum_mbuf32 addr bs p (int m) s csum = Inr (s \<noteq> odd m, csum') \<and> unat csum' < 2 ^ 17 \<and>
    ones (unat csum') = ones (unat csum + stream_sum s (take m (drop p bs)))"
proof -
  have a: "acc_size LENGTH(32) 2 (2 ^ 13)" by (simp add: acc_size_def)
  obtain p' m' s' and v :: u32 where l: "leading_byte addr bs p (int m) s = Inr (p', int m', v, s')" "p' + m' = p + m"
    "m' \<le> m" "unat v < 65536" "(s' \<noteq> odd m') = (s \<noteq> odd m)"
    "ones (weight s' * (unat v + stream_sum False (take m' (drop p' bs)))) = ones (stream_sum s (take m (drop p bs)))"
    by (rule leading_byte_sum [where 'a = 32, OF assms(1,2)]) simp_all
  have p: "p' + m' \<le> length bs" using l(2) assms(1) by simp
  have "m' div 32 * 128 \<le> 4 * m'" using div_mult_mod_eq [of m' 32] by linarith
  then have c: "m' div (16 * 2) * 128 + 48 * 2 ^ 13 \<le> 2 ^ LENGTH(32)" using l(3) assms(3) by simp
  have v: "unat csum < 16 * 2 ^ 13" "unat v < 2 ^ (LENGTH(32) - 2)" using assms(4) l(4) by simp_all
  obtain q m1 partial1 w csum' where r:
    "sum_blocks 2 s' bs p' (int m') v csum = Inr (p' + q, int m1, partial1, csum')"
    "add_rest 2 bs (int m1) (p' + q, partial1) = Inr (p' + q + (m1 - m1 mod 2), w)" "q + m1 = m'" "even q"
    "unat csum' + 16 * 2 ^ 13 \<le> 2 ^ LENGTH(32)" "unat w + 131072 \<le> 2 ^ LENGTH(32)"
    "ones (unat w) = ones (unat partial1 + stream_sum False (take (m1 - m1 mod 2) (drop (p' + q) bs)))"
    "ones (unat csum' + weight s' * unat partial1) = ones (unat csum + weight s' * (unat v + stream_sum False (take q (drop p' bs))))"
    by (rule blocks_rest_sum [OF a p v c])
  have "p' + q + m1 \<le> length bs" using p r(3) by simp
  then obtain x where x: "trailing_byte bs (int m1) s' (p' + q + (m1 - m1 mod 2), w) = Inr (x, s' \<noteq> odd m1)"
    "ones (unat x) = ones (unat partial1 + stream_sum False (take m1 (drop (p' + q) bs)))"
    using trailing_byte_sum [OF _ _ _ r(7)] r(6) by auto
  have "ones (unat csum' + weight s' * unat x) = ones (unat csum + weight s' * (unat v + stream_sum False (take m' (drop p' bs))))"
    unfolding even_take_split [OF p r(3,4)] by (rule complete_sum [OF r(8) x(2)])
  then have "ones (unat csum' + weight s' * unat x) = ones (unat csum + stream_sum s (take m (drop p bs)))"
    using ones_add_cong [OF refl l(6), of "unat csum"] by simp
  moreover have "(s' \<noteq> odd m1) = (s \<noteq> odd m)" using l(5) r(3,4) by auto
  moreover have "sum_mbuf32 addr bs p (int m) s csum = Inr (s' \<noteq> odd m1, reduce_sum s' x csum')"
    unfolding sum_mbuf32_def l(1) bindS_simps prod.case r(1,2) x(1) ..
  ultimately show ?thesis using reduce_sum_sum [OF a r(5), of s' x] by (auto simp: power_add [symmetric])
qed

text \<open>The state before the trailing byte, as an accumulated sum over an even number of bytes and the rest.\<close>

definition before_trailing :: "bool \<Rightarrow> u8 list \<Rightarrow> nat \<Rightarrow> nat \<Rightarrow> u64 \<Rightarrow> u64 \<Rightarrow> nat \<times> int \<times> u64 \<times> u64 \<Rightarrow> bool" where
  "before_trailing s bs p m partial csum = (\<lambda>(p', mlen, w, csum'). \<exists>q m1 a. p' = p + q + (m1 - m1 mod 2) \<and> mlen = int m1 \<and>
    q + m1 = m \<and> even q \<and> unat csum' + 2 ^ 33 \<le> 2 ^ 64 \<and> unat w + 256 \<le> 2 ^ 64 \<and>
    ones (unat w) = ones (a + stream_sum False (take (m1 - m1 mod 2) (drop (p + q) bs))) \<and>
    ones (unat csum' + weight s * a) = ones (unat csum + weight s * (unat partial + stream_sum False (take q (drop p bs)))))"

lemma sum_words64_sum:
  assumes "p + m \<le> length bs" "m \<le> 2 ^ 31" "unat csum < 2 ^ 33" "unat partial < 2 ^ 62"
  shows "\<exists>r. sum_words64 s bs p (int m) partial csum = Inr r \<and> before_trailing s bs p m partial csum r"
proof -
  have a: "acc_size LENGTH(64) 4 (2 ^ 29)" by (simp add: acc_size_def)
  have "m div 64 * 128 \<le> 2 * m" using div_mult_mod_eq [of m 64] by linarith
  then have c: "m div (16 * 4) * 128 + 48 * 2 ^ 29 \<le> 2 ^ LENGTH(64)" using assms(2) by simp
  have v: "unat csum < 16 * 2 ^ 29" "unat partial < 2 ^ (LENGTH(64) - 2)" using assms(3,4) by simp_all
  obtain q m1 a w csum' where r: "sum_blocks 4 s bs p (int m) partial csum = Inr (p + q, int m1, a, csum')"
    "add_rest 4 bs (int m1) (p + q, a) = Inr (p + q + (m1 - m1 mod 4), w)" "q + m1 = m" "even q"
    "unat csum' + 16 * 2 ^ 29 \<le> 2 ^ LENGTH(64)" "unat w + 131072 \<le> 2 ^ LENGTH(64)"
    "ones (unat w) = ones (unat a + stream_sum False (take (m1 - m1 mod 4) (drop (p + q) bs)))"
    "ones (unat csum' + weight s * unat a) = ones (unat csum + weight s * (unat partial + stream_sum False (take q (drop p bs))))"
    by (rule blocks_rest_sum [OF \<open>acc_size LENGTH(64) 4 (2 ^ 29)\<close> assms(1) v c])
  have "p + q + m1 \<le> length bs" using assms(1) r(3) by simp
  moreover have "m1 - m1 mod 2 ^ Suc 1 = m1 - m1 mod 4" by simp
  moreover have "1 * 2 = (2 ^ 1 :: nat)" "8 * 2 \<le> LENGTH(64)" "unat w + 1 * 256 ^ 2 \<le> 2 ^ LENGTH(64)" using r(6) by simp_all
  ultimately obtain w' where w': "add_if 1 2 bs (int m1) (p + q + (m1 - m1 mod 4), w) = Inr (p + q + (m1 - m1 mod 2), w')"
    "unat w' \<le> unat w + 65536" "ones (unat w') = ones (unat a + stream_sum False (take (m1 - m1 mod 2) (drop (p + q) bs)))"
    using add_if_sum [of 1 2 1 "p + q" m1 bs w "unat a"] r(7) by auto
  have "sum_words64 s bs p (int m) partial csum = Inr (p + q + (m1 - m1 mod 2), int m1, w', csum')"
    unfolding sum_words64_def r(1) bindS_simps prod.case r(2) w'(1) ..
  moreover have "unat w' + 256 \<le> 2 ^ 64" "unat csum' + 2 ^ 33 \<le> 2 ^ 64" using w'(2) r(5,6) by simp_all
  ultimately show ?thesis unfolding before_trailing_def using r(3,4,8) w'(3) by auto
qed

lemma middle64_sum:
  assumes "p + m \<le> length bs" "m \<le> 2 ^ 31" "unat csum < 2 ^ 33" "unat v < 65536"
  shows "\<exists>r. (if (addr + p) AND 2 \<noteq> 0
      then if int m < 2 then Inr (p, int m, v, csum)
           else bindS (load 2 bs p) (\<lambda>w. sum_words64 s bs (p + 2) (int m - 2) (v + w) csum)
      else sum_words64 s bs p (int m) v csum) = Inr r \<and> before_trailing s bs p m v csum r"
proof -
  consider (aligned) "(addr + p) AND 2 = 0" | (short) "(addr + p) AND 2 \<noteq> 0" "m < 2" | (half) "(addr + p) AND 2 \<noteq> 0" "2 \<le> m"
    by linarith
  then show ?thesis
  proof cases
    case aligned
    then show ?thesis using sum_words64_sum [OF assms(1,2,3), of v s] assms(4) by simp
  next
    case short
    then have "m - m mod 2 = 0" by simp
    then have "before_trailing s bs p m v csum (p, int m, v, csum)"
      unfolding before_trailing_def prod.case using assms(3,4)
      by (intro exI [of _ 0] exI [of _ m] exI [of _ "unat v"]) simp
    then show ?thesis using short by simp
  next
    case half
    obtain w :: u64 where w: "load 2 bs p = Inr w" "unat w = le (take 2 (drop p bs))"
      using unat_load [where 'a = 64, of p 2 bs] assms(1) half(2) by auto
    have "unat w < 65536" using le_less [of "take 2 (drop p bs)"] w(2) assms(1) half(2) by simp
    then have u: "unat (v + w) = unat v + unat w" using assms(4) by (simp add: unat_word_ariths)
    have i: "int m - 2 = int (m - 2)" "p + 2 + (m - 2) \<le> length bs" using half(2) assms(1) by simp_all
    have b: "unat (v + w) < 2 ^ 62" "m - 2 \<le> 2 ^ 31" using u assms(2,4) \<open>unat w < 65536\<close> by simp_all
    from sum_words64_sum [OF i(2) b(2) assms(3) b(1), of s] obtain p' mlen w' csum' where r: "sum_words64 s bs (p + 2) (int (m - 2)) (v + w) csum = Inr (p', mlen, w', csum')"
      "before_trailing s bs (p + 2) (m - 2) (v + w) csum (p', mlen, w', csum')"
      by (metis prod_cases4)
    from r(2) obtain q m1 a where t: "p' = p + 2 + q + (m1 - m1 mod 2)" "mlen = int m1" "q + m1 = m - 2" "even q"
      "unat csum' + 2 ^ 33 \<le> 2 ^ 64" "unat w' + 256 \<le> 2 ^ 64"
      "ones (unat w') = ones (a + stream_sum False (take (m1 - m1 mod 2) (drop (p + 2 + q) bs)))"
      "ones (unat csum' + weight s * a) = ones (unat csum + weight s * (unat (v + w) + stream_sum False (take q (drop (p + 2) bs))))"
      unfolding before_trailing_def by blast
    have sp: "stream_sum False (take (2 + q) (drop p bs)) = stream_sum False (take 2 (drop p bs)) + stream_sum False (take q (drop (p + 2) bs))"
      using assms(1) half(2) by (intro stream_sum_take_even) simp_all
    have "ones (unat (v + w)) = ones (unat v + stream_sum False (take 2 (drop p bs)))"
      unfolding u w(2) using ones_le_stream by (intro ones_add_cong) simp_all
    from ones_add_cong [OF this refl]
    have "ones (unat (v + w) + stream_sum False (take q (drop (p + 2) bs))) = ones (unat v + stream_sum False (take (2 + q) (drop p bs)))"
      unfolding sp add.assoc .
    from ones_add_cong [OF refl ones_mult_cong [OF this]] have
      "ones (unat csum' + weight s * a) = ones (unat csum + weight s * (unat v + stream_sum False (take (2 + q) (drop p bs))))"
      unfolding t(8) .
    note o = this
    have e: "p' = p + (2 + q) + (m1 - m1 mod 2)" "2 + q + m1 = m" "even (2 + q)" using t(1,3,4) half(2) by simp_all
    have "before_trailing s bs p m v csum (p', mlen, w', csum')"
      unfolding before_trailing_def prod.case
      by (rule exI [of _ "2 + q"], rule exI [of _ m1], rule exI [of _ a], intro conjI e t(2,5,6) o t(7) [unfolded add.assoc [of p]])
    moreover have "\<not> int m < 2" using half(2) by simp
    ultimately show ?thesis using half(1) unfolding w(1) bindS_simps i(1) r(1)
      by (simp only: if_True if_False simp_thms sum.inject)
  qed
qed

lemma sum_mbuf64_sum:
  assumes "p + m \<le> length bs" "0 < m \<or> even (addr + p)" "m \<le> 2 ^ 31" "unat csum < 2 ^ 33"
  shows "\<exists>csum'. sum_mbuf64 addr bs p (int m) s csum = Inr (s \<noteq> odd m, csum') \<and> unat csum' < 2 ^ 33 \<and>
    ones (unat csum') = ones (unat csum + stream_sum s (take m (drop p bs)))"
proof -
  have a: "acc_size LENGTH(64) 4 (2 ^ 29)" by (simp add: acc_size_def)
  obtain p' m' s' and v :: u64 where l: "leading_byte addr bs p (int m) s = Inr (p', int m', v, s')" "p' + m' = p + m"
    "m' \<le> m" "unat v < 65536" "(s' \<noteq> odd m') = (s \<noteq> odd m)"
    "ones (weight s' * (unat v + stream_sum False (take m' (drop p' bs)))) = ones (stream_sum s (take m (drop p bs)))"
    by (rule leading_byte_sum [where 'a = 64, OF assms(1,2)]) simp_all
  have p: "p' + m' \<le> length bs" "m' \<le> 2 ^ 31" using l(2,3) assms(1,3) by simp_all
  from middle64_sum [OF p assms(4) l(4), of addr s'] obtain p1 mlen w csum' where
    r: "(if (addr + p') AND 2 \<noteq> 0
      then if int m' < 2 then Inr (p', int m', v, csum)
           else bindS (load 2 bs p') (\<lambda>w. sum_words64 s' bs (p' + 2) (int m' - 2) (v + w) csum)
      else sum_words64 s' bs p' (int m') v csum) = Inr (p1, mlen, w, csum')" "before_trailing s' bs p' m' v csum (p1, mlen, w, csum')"
    by auto
  from r(2) obtain q m1 x where t: "p1 = p' + q + (m1 - m1 mod 2)" "mlen = int m1" "q + m1 = m'" "even q"
      "unat csum' + 2 ^ 33 \<le> 2 ^ 64" "unat w + 256 \<le> 2 ^ 64"
      "ones (unat w) = ones (x + stream_sum False (take (m1 - m1 mod 2) (drop (p' + q) bs)))"
      "ones (unat csum' + weight s' * x) = ones (unat csum + weight s' * (unat v + stream_sum False (take q (drop p' bs))))"
    unfolding before_trailing_def by blast
  have "p' + q + m1 \<le> length bs" using p(1) t(3) by simp
  then obtain y where y: "trailing_byte bs (int m1) s' (p' + q + (m1 - m1 mod 2), w) = Inr (y, s' \<noteq> odd m1)"
    "ones (unat y) = ones (x + stream_sum False (take m1 (drop (p' + q) bs)))"
    using trailing_byte_sum [OF _ _ _ t(7)] t(6) by auto
  have "ones (unat csum' + weight s' * unat y) = ones (unat csum + weight s' * (unat v + stream_sum False (take m' (drop p' bs))))"
    unfolding even_take_split [OF p(1) t(3,4)] by (rule complete_sum [OF t(8) y(2)])
  then have "ones (unat csum' + weight s' * unat y) = ones (unat csum + stream_sum s (take m (drop p bs)))"
    using ones_add_cong [OF refl l(6), of "unat csum"] by simp
  moreover have "(s' \<noteq> odd m1) = (s \<noteq> odd m)" using l(5) t(3,4) by auto
  moreover have "sum_mbuf64 addr bs p (int m) s csum = Inr (s' \<noteq> odd m1, reduce_sum s' y csum')"
    unfolding sum_mbuf64_def l(1) bindS_simps prod.case r(1) t(1,2) y(1) ..
  moreover have "unat csum' + 16 * 2 ^ 29 \<le> 2 ^ LENGTH(64)" using t(5) by simp
  ultimately show ?thesis using reduce_sum_sum [OF a, of csum' s' y] by auto
qed

section \<open>Chains of mbufs\<close>

definition mbuf_ok :: "mbuf \<Rightarrow> bool" where
  "mbuf_ok m \<longleftrightarrow> 0 \<le> m_len m \<and> m_len m \<le> int (length (m_data m))"

definition mbuf_bytes :: "mbuf \<Rightarrow> u8 list" where
  "mbuf_bytes m = take (nat (m_len m)) (m_data m)"

definition flat :: "mbuf list \<Rightarrow> u8 list" where
  "flat ms = concat (map mbuf_bytes ms)"

lemma flat_simps [simp]: "flat [] = []" "flat (m # ms) = mbuf_bytes m @ flat ms"
  by (simp_all add: flat_def)

lemma mbuf_ok_length:
  assumes "mbuf_ok m"
  obtains l where "m_len m = int l" "l \<le> length (m_data m)" "mbuf_bytes m = take l (m_data m)" "length (mbuf_bytes m) = l"
  using assms by (intro that [of "nat (m_len m)"]) (auto simp: mbuf_ok_def mbuf_bytes_def)

context mbuf_sum
begin

lemma sum_chain_sum:
  assumes "list_all mbuf_ok ms" "len \<le> length (flat ms)" "len \<le> limit" "unat csum < bound"
  shows "\<exists>csum'. sum_chain sum_mbuf (int len) s csum ms = Inr (Some csum') \<and> unat csum' < bound \<and>
    ones (unat csum') = ones (unat csum + stream_sum s (take len (flat ms)))"
  using assms
proof (induction ms arbitrary: len s csum)
  case (Cons m ms)
  obtain l where l: "m_len m = int l" "l \<le> length (m_data m)" "mbuf_bytes m = take l (m_data m)" "length (mbuf_bytes m) = l"
    using Cons.prems(1) mbuf_ok_length [of m] by auto
  consider (none) "len = 0" | (empty) "0 < len" "l = 0" | (data) "0 < len" "0 < l" by blast
  then show ?case
  proof cases
    case none
    then show ?thesis using Cons.prems(4) by simp
  next
    case empty
    then show ?thesis using Cons.IH [of len csum s] Cons.prems l by simp
  next
    case data
    let ?k = "min l len"
    have k: "(if int l > int len then int len else int l) = int ?k" "int len - int ?k = int (len - ?k)" by auto
    have "0 + ?k \<le> length (m_data m)" "0 < ?k \<or> even (m_addr m + 0)" "?k \<le> limit" using l(2) data Cons.prems(3) by auto
    from sum_mbuf [OF this Cons.prems(4), of s] obtain c where
      c: "sum_mbuf (m_addr m) (m_data m) 0 (int ?k) s csum = Inr (s \<noteq> odd ?k, c)" "unat c < bound"
        "ones (unat c) = ones (unat csum + stream_sum s (take ?k (m_data m)))" by auto
    have "len - ?k \<le> length (flat ms)" "len - ?k \<le> limit" using Cons.prems(2,3) l(4) by auto
    from Cons.IH [OF _ this c(2), of "s \<noteq> odd ?k"] Cons.prems(1) obtain c' where
      c': "sum_chain sum_mbuf (int (len - ?k)) (s \<noteq> odd ?k) c ms = Inr (Some c')" "unat c' < bound"
        "ones (unat c') = ones (unat c + stream_sum (s \<noteq> odd ?k) (take (len - ?k) (flat ms)))" by auto
    have t: "take len (flat (m # ms)) = take ?k (m_data m) @ take (len - ?k) (flat ms)" using l(3,4) by (auto simp: min_def)
    have "stream_sum s (take len (flat (m # ms))) =
        stream_sum s (take ?k (m_data m)) + stream_sum (s \<noteq> odd ?k) (take (len - ?k) (flat ms))"
      unfolding t stream_sum_append using l(2) by (simp add: min_def)
    then have "ones (unat c') = ones (unat csum + stream_sum s (take len (flat (m # ms))))"
      using c'(3) ones_add_cong [OF c(3) refl] by (simp add: add.assoc)
    moreover have "sum_chain sum_mbuf (int len) s csum (m # ms) = Inr (Some c')"
      using data l(1) c(1) c'(1) unfolding sum_chain.simps Let_def l(1) k by simp
    ultimately show ?thesis using c'(2) by blast
  qed
qed simp

lemma skip_chain_sum:
  assumes "list_all mbuf_ok ms" "off + len \<le> length (flat ms)" "0 < len" "len \<le> limit" "unat csum < bound"
  shows "\<exists>csum'. skip_chain sum_mbuf (int len) (int off) csum ms = Inr (Some csum') \<and> unat csum' < bound \<and>
    ones (unat csum') = ones (unat csum + stream_sum False (take len (drop off (flat ms))))"
  using assms(1,2)
proof (induction ms arbitrary: off)
  case Nil
  then show ?case using assms(3) by simp
next
  case (Cons m ms)
  obtain l where l: "m_len m = int l" "l \<le> length (m_data m)" "mbuf_bytes m = take l (m_data m)" "length (mbuf_bytes m) = l"
    using Cons.prems(1) mbuf_ok_length [of m] by auto
  show ?case
  proof (cases "off < l")
    case False
    then have "int off - int l = int (off - l)" "off - l + len \<le> length (flat ms)" using Cons.prems(2) l(4) by auto
    then show ?thesis using Cons.IH [of "off - l"] Cons.prems(1) False l assms(3) by simp
  next
    case True
    let ?k = "min (l - off) len"
    have k: "(if int l - int off > int len then int len else int l - int off) = int ?k" "int len - int ?k = int (len - ?k)"
      using True by (auto simp: min_def of_nat_diff)
    have "off + ?k \<le> length (m_data m)" "0 < ?k \<or> even (m_addr m + off)" "?k \<le> limit" using l(2) True assms(3,4) by auto
    from sum_mbuf [OF this assms(5), of False] obtain c where
      c: "sum_mbuf (m_addr m) (m_data m) off (int ?k) False csum = Inr (odd ?k, c)" "unat c < bound"
        "ones (unat c) = ones (unat csum + stream_sum False (take ?k (drop off (m_data m))))" by auto
    have "len - ?k \<le> length (flat ms)" "len - ?k \<le> limit" using Cons.prems(2) l(4) assms(4) True by auto
    from sum_chain_sum [OF _ this c(2), of "odd ?k"] Cons.prems(1) obtain c' where
      c': "sum_chain sum_mbuf (int (len - ?k)) (odd ?k) c ms = Inr (Some c')" "unat c' < bound"
        "ones (unat c') = ones (unat c + stream_sum (odd ?k) (take (len - ?k) (flat ms)))" by auto
    have t: "take len (drop off (flat (m # ms))) = take ?k (drop off (m_data m)) @ take (len - ?k) (flat ms)"
    proof (cases "len \<le> l - off")
      case le: True
      then have "len + off \<le> l" using True by simp
      then show ?thesis using l(3,4) True le by (simp add: take_drop min_absorb1 min_absorb2)
    next
      case False
      then show ?thesis using l(3,4) True by (simp add: take_drop min_absorb1)
    qed
    have "stream_sum False (take len (drop off (flat (m # ms)))) =
        stream_sum False (take ?k (drop off (m_data m))) + stream_sum (odd ?k) (take (len - ?k) (flat ms))"
    proof -
      have "length (take ?k (drop off (m_data m))) = ?k" using l(2) True by simp
      then show ?thesis unfolding t stream_sum_append by simp
    qed
    then have "ones (unat c') = ones (unat csum + stream_sum False (take len (drop off (flat (m # ms)))))"
      using c'(3) ones_add_cong [OF c(3) refl] by (simp add: add.assoc)
    moreover have "skip_chain sum_mbuf (int len) (int off) csum (m # ms) = Inr (Some c')"
      using True l(1) c(1) c'(1) unfolding skip_chain.simps Let_def l(1) k by simp
    ultimately show ?thesis using c'(2) by blast
  qed
qed

end

interpretation acc32: mbuf_sum sum_mbuf32 "2 ^ 29" "2 ^ 17"
  by unfold_locales (rule sum_mbuf32_sum)

interpretation acc64: mbuf_sum sum_mbuf64 "2 ^ 31" "2 ^ 33"
  by unfold_locales (rule sum_mbuf64_sum)

section \<open>The Internet checksum\<close>

lemma and_ffff: "unat ((w :: 'a::len word) AND 0xffff) = unat w mod 65536"
proof -
  have "w AND 0xffff = take_bit 16 w" by (simp add: take_bit_eq_mask mask_eq_exp_minus_1)
  then show ?thesis by (simp add: unat_take)
qed

lemma of_nat_ones: "unat (w :: u32) = ones n \<Longrightarrow> w = of_nat (ones n)"
  using ones_le [of n] by (simp add: word_unat_eq_iff unat_of_nat)

lemma carry_small: "n < 131072 \<Longrightarrow> n div 65536 + n mod 65536 = (if n < 65536 then n else n - 65535)" for n :: nat
proof (cases "n < 65536")
  case False
  moreover assume "n < 131072"
  ultimately have "n div 65536 = 1" "n mod 65536 = n - 65536" by (simp_all add: div_if mod_if)
  then show ?thesis using False by simp
qed simp

lemma carry_last:
  assumes "n < 131071"
  shows "n div 65536 + n mod 65536 = ones n"
proof -
  have "n div 65536 + n mod 65536 \<le> 65535" using assms carry_small [of n] by auto
  from ones_small [OF this] show ?thesis using ones_fold [of 16 n] by simp
qed

definition fold16 :: "'a::len word \<Rightarrow> 'a word" where
  "fold16 w = drop_bit 16 w + (w AND 0xffff)"

lemma unat_fold16:
  assumes "32 \<le> LENGTH('a::len)"
  shows "unat (fold16 (w :: 'a word)) = unat w div 65536 + unat w mod 65536"
proof -
  have N: "(2 :: nat) ^ LENGTH('a) = 65536 * 2 ^ (LENGTH('a) - 16)" using assms power_add [of "2 :: nat" 16 "LENGTH('a) - 16"] by simp
  have "(2 :: nat) ^ 16 \<le> 2 ^ (LENGTH('a) - 16)" using assms by (intro power_increasing) simp_all
  moreover have "unat w div 65536 < 2 ^ (LENGTH('a) - 16)" using unat_bound [of w] unfolding N by (simp add: less_mult_imp_div_less mult.commute)
  moreover have "unat w mod 65536 < 65536" by simp
  ultimately have "unat w div 65536 + unat w mod 65536 < 2 ^ LENGTH('a)" unfolding N by simp
  then show ?thesis unfolding fold16_def by (simp add: unat_word_ariths unat_drop and_ffff)
qed

lemma fold16_twice:
  assumes "unat (v :: u32) < 262144"
  shows "unat (fold16 (fold16 v)) = ones (unat v)"
proof -
  have a: "unat (fold16 v) = unat v div 65536 + unat v mod 65536" by (rule unat_fold16) simp
  have "unat v div 65536 < 4" "unat v mod 65536 < 65536" using assms by (simp_all add: less_mult_imp_div_less)
  then have b: "unat (fold16 v) < 131071" unfolding a by linarith
  then have "unat (fold16 (fold16 v)) = ones (unat (fold16 v))" using unat_fold16 [of "fold16 v"] carry_last [OF b] by simp
  also have "\<dots> = ones (unat v)" unfolding a using ones_fold [of 16 "unat v"] by simp
  finally show ?thesis .
qed

lemma final_acc64_ones:
  "final_acc64 csum = of_nat (ones (unat csum))"
proof (rule of_nat_ones)
  let ?n = "unat csum" and ?d = "drop_bit 48 csum + (drop_bit 32 csum AND 0xffff) + (drop_bit 16 csum AND 0xffff) + (csum AND 0xffff)"
  let ?s = "?n div 2 ^ 48 + ?n div 2 ^ 32 mod 65536 + ?n div 2 ^ 16 mod 65536 + ?n mod 65536"
  have "?n div 2 ^ 48 < 65536" using unat_bound [of csum] by (simp add: less_mult_imp_div_less)
  moreover have "?n div 2 ^ 32 mod 65536 < 65536" "?n div 2 ^ 16 mod 65536 < 65536" "?n mod 65536 < 65536" by simp_all
  ultimately have s: "?s < 262144" by linarith
  then have "unat ?d = ?s" by (simp add: unat_word_ariths unat_drop and_ffff)
  then have d: "unat (ucast ?d :: u32) = ?s" using s by (simp add: unsigned_ucast_eq take_bit_nat_eq_self)
  have g: "ones (x div 65536 + (x mod 65536 + m)) = ones (x + m)" for x m
    using ones_add_cong [OF ones_fold [of 16 x] refl, of m] by (simp add: add.assoc)
  have o: "ones ?s = ones ?n"
    using g [of ?n 0] g [of "?n div 2 ^ 16" "?n mod 65536"] g [of "?n div 2 ^ 32" "?n div 2 ^ 16 mod 65536 + ?n mod 65536"]
    by (simp add: div_mult2_eq [symmetric] add.assoc)
  have f: "unat (fold16 (fold16 (ucast ?d :: u32))) = ones ?n"
    using fold16_twice [of "ucast ?d", unfolded d, OF s] o by (rule trans)
  have "final_acc64 csum = fold16 (fold16 (ucast ?d)) AND 0xffff" by (simp add: final_acc64_def fold16_def Let_def)
  then show "unat (final_acc64 csum) = ones ?n" using f ones_le [of ?n] by (simp add: and_ffff)
qed

lemma final_acc32_ones:
  assumes "unat csum < 131072"
  shows "final_acc32 csum = of_nat (ones (unat csum))"
proof (rule of_nat_ones)
  have f: "final_acc32 csum = fold16 (fold16 csum) AND 0xffff"
  proof -
    have "drop_bit 16 csum AND 0xffff = drop_bit 16 csum"
      by (rule word_unat_eq_iff [THEN iffD2])
        (use unat_bound [of csum] in \<open>simp add: and_ffff unat_drop less_mult_imp_div_less\<close>)
    then show ?thesis by (simp add: final_acc32_def fold16_def Let_def)
  qed
  have u: "unat (fold16 csum) = unat csum div 65536 + unat csum mod 65536" by (rule unat_fold16) simp
  have b: "unat (fold16 csum) < 131071" using carry_small [OF assms] assms unfolding u by auto
  have "unat (fold16 (fold16 csum)) = ones (unat (fold16 csum))" using unat_fold16 [of "fold16 csum"] carry_last [OF b] b by simp
  also have "\<dots> = ones (unat csum)" unfolding u using ones_fold [of 16 "unat csum"] by simp
  finally show "unat (final_acc32 csum) = ones (unat csum)" unfolding f using ones_le [of "unat csum"] by (simp add: and_ffff)
qed


lemma cksum64_value:
  assumes "list_all mbuf_ok ms" "0 < len" "len < 2 ^ 31" "0 \<le> off" "off + len \<le> int (length (flat ms))"
  shows "os_cpu_in_cksum_mbuf ms len off initial_sum =
    Inr (of_nat (ones (unat initial_sum + stream_sum False (take (nat len) (drop (nat off) (flat ms))))))"
proof -
  have n: "int (nat len) = len" "int (nat off) = off" using assms by simp_all
  have "nat off + nat len \<le> length (flat ms)" "0 < nat len" "nat len \<le> 2 ^ 31" using assms by simp_all
  moreover have i: "unat (ucast initial_sum :: u64) = unat initial_sum" by (simp add: unat_ucast_up)
  moreover have "unat (ucast initial_sum :: u64) < 2 ^ 33" unfolding i using unat_bound [of initial_sum] by simp
  ultimately obtain csum where c: "skip_chain sum_mbuf64 len off (ucast initial_sum) ms = Inr (Some csum)"
    "ones (unat csum) = ones (unat initial_sum + stream_sum False (take (nat len) (drop (nat off) (flat ms))))"
    using acc64.skip_chain_sum [OF assms(1), of "nat off" "nat len" "ucast initial_sum"] unfolding n by auto
  then show ?thesis using assms(2,4) by (simp add: os_cpu_in_cksum_mbuf_def final_acc64_ones)
qed

text \<open>
  C24: the checksum routine computes the Internet checksum. Over a chain of mbufs, wherever its data is cut and however
  each piece is aligned in memory, it reads only the given range, which is not empty, and returns the 16-bit one's
  complement sum of the range and the initial value.
\<close>

theorem os_cpu_in_cksum_mbuf_correct:
  assumes "list_all mbuf_ok ms" "0 < len" "len < 2 ^ 31" "0 \<le> off" "off + len \<le> int (length (flat ms))"
  shows "os_cpu_in_cksum_mbuf ms len off initial_sum =
    Inr (of_nat (ones (unat initial_sum + stream_sum False (take (nat len) (drop (nat off) (flat ms))))))"
  using cksum64_value [OF assms] .

text \<open>
  The version for 32-bit accumulators agrees with the one for 64-bit accumulators on every range of up to
  \<open>2 ^ 29\<close> bytes.
\<close>

theorem os_cpu_in_cksum_mbuf_widths_agree:
  assumes "list_all mbuf_ok ms" "0 < len" "len \<le> 2 ^ 29" "0 \<le> off" "off + len \<le> int (length (flat ms))"
  shows "os_cpu_in_cksum_mbuf_32 ms len off initial_sum = os_cpu_in_cksum_mbuf ms len off initial_sum"
proof -
  have n: "int (nat len) = len" "int (nat off) = off" using assms by simp_all
  let ?i = "fold16 initial_sum"
  have i: "unat ?i = unat initial_sum div 65536 + unat initial_sum mod 65536"
    by (rule unat_fold16) simp
  have "unat initial_sum div 65536 < 65536" "unat initial_sum mod 65536 < 65536"
    using unat_bound [of initial_sum] by (simp_all add: less_mult_imp_div_less)
  then have "unat ?i < 2 ^ 17" unfolding i by simp
  moreover have "nat off + nat len \<le> length (flat ms)" "0 < nat len" "nat len \<le> 2 ^ 29" using assms by simp_all
  ultimately obtain csum where c: "skip_chain sum_mbuf32 len off ?i ms = Inr (Some csum)" "unat csum < 2 ^ 17"
    "ones (unat csum) = ones (unat ?i + stream_sum False (take (nat len) (drop (nat off) (flat ms))))"
    using acc32.skip_chain_sum [OF assms(1), of "nat off" "nat len" ?i] unfolding n by auto
  have "ones (unat csum) = ones (unat initial_sum + stream_sum False (take (nat len) (drop (nat off) (flat ms))))"
    unfolding c(3) i using ones_fold [of 16 "unat initial_sum"] by (intro ones_add_cong) simp_all
  then have "os_cpu_in_cksum_mbuf_32 ms len off initial_sum =
      Inr (of_nat (ones (unat initial_sum + stream_sum False (take (nat len) (drop (nat off) (flat ms))))))"
    using assms(2,4) c(1,2) by (simp add: os_cpu_in_cksum_mbuf_32_def final_acc32_ones fold16_def [symmetric])
  moreover note cksum64_value [OF assms(1,2) _ assms(4,5)]
  ultimately show ?thesis using assms(3) by simp
qed


definition example_chain :: "mbuf list" where
  "example_chain = [\<lparr>m_addr = 1, m_len = 3, m_data = [1, 2, 3]\<rparr>, \<lparr>m_addr = 2, m_len = 2, m_data = [4, 5, 6]\<rparr>]"

theorem os_cpu_in_cksum_mbuf_correct_witness: "os_cpu_in_cksum_mbuf example_chain 4 1 0 = Inr 0x806"
  using os_cpu_in_cksum_mbuf_correct [of example_chain 4 1 0]
  by (simp add: example_chain_def mbuf_ok_def mbuf_bytes_def ones_def)

theorem os_cpu_in_cksum_mbuf_widths_agree_witness: "os_cpu_in_cksum_mbuf_32 example_chain 4 1 7 = os_cpu_in_cksum_mbuf example_chain 4 1 7"
  using os_cpu_in_cksum_mbuf_widths_agree [of example_chain 4 1 7]
  by (simp add: example_chain_def mbuf_ok_def mbuf_bytes_def)

subsection \<open>Contiguous data\<close>

lemma sint_small:
  assumes "unat (w :: u32) < 2 ^ 31"
  shows "sint w = int (unat w)"
proof -
  have "int (unat w) < int (2 ^ 31)" using assms by (simp only: of_nat_less_iff)
  then have "uint w < 2 ^ 31" by simp
  then have "signed_take_bit 31 (uint w) = uint w" using uint_ge_0 [of w] by (intro signed_take_bit_int_eq_self) linarith+
  then show ?thesis by (simp add: sint_uint)
qed

lemma small_loop_loads: "unat len = 4 * k \<Longrightarrow> small_loop bs p len csum = add_loads k 4 bs p csum"
proof (induction k arbitrary: p len csum)
  case 0
  then show ?case by (simp add: unat_eq_zero small_loop.simps)
next
  case (Suc k)
  then have "len \<noteq> 0" "unat (len - 4) = 4 * k" by (auto simp: unat_sub word_le_nat_alt)
  then show ?case using Suc.IH by (subst small_loop.simps) simp
qed

lemma fold16_thrice:
  assumes "unat (v :: u64) < 2 ^ 33"
  shows "unat (fold16 (fold16 (fold16 v))) = ones (unat v)"
proof -
  have u: "unat (fold16 w) = unat w div 65536 + unat w mod 65536" for w :: u64 by (rule unat_fold16) simp
  have o: "ones (unat (fold16 w)) = ones (unat w)" for w :: u64 unfolding u using ones_fold [of 16 "unat w"] by simp
  have "unat v div 65536 < 131072" "unat v mod 65536 < 65536" using assms by (simp_all add: less_mult_imp_div_less)
  then have b: "unat (fold16 v) < 196608" unfolding u by linarith
  then have "unat (fold16 v) div 65536 < 3" "unat (fold16 v) mod 65536 < 65536" by (simp_all add: less_mult_imp_div_less)
  then have "unat (fold16 (fold16 v)) < 131071" unfolding u [of "fold16 v"] by linarith
  from carry_last [OF this] show ?thesis unfolding u [of "fold16 (fold16 v)"] using o by simp
qed

lemma fold_64_ones:
  assumes "unat csum < 2 ^ 40"
  shows "unat (fold_64 csum) = ones (unat csum)"
proof -
  have m: "csum AND 0xffffffff = take_bit 32 csum" by (simp add: take_bit_eq_mask mask_eq_exp_minus_1)
  have "unat csum div 2 ^ 32 < 256" "unat csum mod 2 ^ 32 < 2 ^ 32" using assms by (simp_all add: less_mult_imp_div_less)
  then have s: "unat csum div 2 ^ 32 + unat csum mod 2 ^ 32 < 2 ^ 33" by simp
  then have a: "unat (drop_bit 32 csum + (csum AND 0xffffffff)) = unat csum div 2 ^ 32 + unat csum mod 2 ^ 32"
    unfolding m by (simp add: unat_word_ariths unat_drop unat_take)
  have "unat (fold16 (fold16 (fold16 (drop_bit 32 csum + (csum AND 0xffffffff))))) = ones (unat csum)"
    using fold16_thrice [of "drop_bit 32 csum + (csum AND 0xffffffff)"] s ones_fold [of 32 "unat csum"] unfolding a by simp
  then show ?thesis using ones_le [of "unat csum"] by (simp add: fold_64_def Let_def fold16_def [symmetric] and_ffff)
qed

lemma os_cpu_in_cksum_value:
  assumes "unat len \<le> length data" "unat len < 2 ^ 31"
  shows "os_cpu_in_cksum addr data len initial_sum =
    Inr (of_nat (ones (unat initial_sum + stream_sum False (take (unat len) data))))"
proof (cases "len \<le> 64 \<and> len AND 3 = 0")
  case True
  have "len AND 3 = take_bit 2 len" by (simp add: take_bit_eq_mask mask_eq_exp_minus_1)
  then have "unat len mod 4 = 0" using True unat_take [of 2 len] by simp
  then obtain k where k: "unat len = 4 * k" by auto
  have "unat len \<le> 64" using True by (simp add: word_le_nat_alt)
  then have k16: "k \<le> 16" using k by simp
  have i: "unat (ucast initial_sum :: u64) = unat initial_sum" by (simp add: unat_ucast_up)
  have "len = 20 \<Longrightarrow> k = 5" "len = 32 \<Longrightarrow> k = 8" using k by simp_all
  then have l: "(if len = 20 then add_loads 5 4 data 0 (ucast initial_sum)
      else if len = 32 then add_loads 8 4 data 0 (ucast initial_sum)
      else small_loop data 0 len (ucast initial_sum :: u64)) = add_loads k 4 data 0 (ucast initial_sum)"
    using small_loop_loads [OF k] \<open>len = 20 \<Longrightarrow> k = 5\<close> \<open>len = 32 \<Longrightarrow> k = 8\<close> by simp
  have "unat (ucast initial_sum :: u64) + k * 256 ^ 4 \<le> 2 ^ LENGTH(64)"
    using unat_bound [of initial_sum] k16 unfolding i by simp
  from add_loads_sum [where 'a = 64, OF _ _ _ this, of 0 data] obtain w where
    w: "add_loads k 4 data 0 (ucast initial_sum :: u64) = Inr w" "unat w \<le> unat initial_sum + k * 256 ^ 4"
      "ones (unat w) = ones (unat initial_sum + stream_sum False (take (unat len) data))"
    using assms(1) k unfolding i by (auto simp: mult.commute)
  have "unat w < 2 ^ 40" using w(2) unat_bound [of initial_sum] k16 by simp
  from fold_64_ones [OF this] have "unat (ucast (fold_64 w) :: u32) = ones (unat w)"
    using ones_le [of "unat w"] by (simp add: unsigned_ucast_eq take_bit_nat_eq_self)
  then have "ucast (fold_64 w) = (of_nat (ones (unat w)) :: u32)" by (rule of_nat_ones)
  then show ?thesis unfolding os_cpu_in_cksum_def l w(1) using True w(3) by simp
next
  case False
  obtain n where n: "unat len = n" by blast
  have s: "sint len = int n" using assms(2) n sint_small by metis
  have "len \<noteq> 0" using False by auto
  then have "0 < n" using unat_gt_0 [of len] n by simp
  let ?m = "\<lparr>m_addr = addr, m_len = int n, m_data = data\<rparr>"
  have f: "flat [?m] = take n data" by (simp add: mbuf_bytes_def)
  have "list_all mbuf_ok [?m]" "0 < int n" "int n < 2 ^ 31" "0 + int n \<le> int (length (flat [?m]))"
    using assms \<open>0 < n\<close> unfolding n f by (simp_all add: mbuf_ok_def)
  from cksum64_value [OF this(1-3) _ this(4), of initial_sum]
  have "os_cpu_in_cksum_mbuf [?m] (int n) 0 initial_sum = Inr (of_nat (ones (unat initial_sum + stream_sum False (take n data))))"
    unfolding f by simp
  moreover have "os_cpu_in_cksum addr data len initial_sum = os_cpu_in_cksum_mbuf [?m] (int n) 0 initial_sum"
    unfolding os_cpu_in_cksum_def s by (rule if_not_P [OF False])
  ultimately show ?thesis unfolding n by simp
qed

end
