(* ===== verification/In_Cksum_Packets.thy ===== *)
theory In_Cksum_Packets
  imports In_Cksum
begin

text \<open>
  The checksums of packets: \<open>in_cksum.c\<close>, \<open>in6_cksum.c\<close>, and the routines of \<open>uipc_mbuf.c\<close> and \<open>uipc_mbuf2.c\<close> that they use.
  Checksums of IPv4 and IPv6 segments with their pseudo headers, of IP headers, and the adjustment of a checksum
  that the hardware computed over too many octets.
\<close>

section \<open>The operations\<close>

text \<open>\<open>ADDCARRY\<close>.\<close>

lemma carry_decreases:
  assumes "drop_bit 16 (x :: 'a::len word) \<noteq> 0"
  shows "unat (fold16 x) < unat x"
proof -
  have d: "0 < unat x div 65536" using assms unat_gt_0 [of "drop_bit 16 x"] by (simp add: unat_drop)
  have "unat (fold16 x) \<le> unat x div 65536 + unat x mod 65536"
    unfolding fold16_def using unat_word_ariths(1) [of "drop_bit 16 x" "x AND 0xffff"] by (simp add: unat_drop and_ffff)
  also have "\<dots> < 65536 * (unat x div 65536) + unat x mod 65536" using d by linarith
  finally show ?thesis using mult_div_mod_eq [of 65536 "unat x"] by linarith
qed

function addcarry :: "'a::len word \<Rightarrow> 'a word" where
  "addcarry x = (if drop_bit 16 x \<noteq> 0 then addcarry (drop_bit 16 x + (x AND 0xffff)) else x)"
  by pat_completeness auto

termination
  by (relation "measure unat") (simp_all add: carry_decreases [unfolded fold16_def])

declare addcarry.simps [simp del]

definition b_sum16 :: "nat \<Rightarrow> u8 list \<Rightarrow> u32 \<Rightarrow> cksum_fault + u16" where
  "b_sum16 addr buf len = bindS (os_cpu_in_cksum addr buf len 0) (\<lambda>r. Inr (ucast r))"

definition in_addword :: "u16 \<Rightarrow> u16 \<Rightarrow> u16" where
  "in_addword a b = ucast (addcarry (ucast a + ucast b :: u64))"

text \<open>\<open>REDUCE16\<close>: the four 16-bit parts of the sum, then the two of their sum.\<close>

definition reduce16 :: "u64 \<Rightarrow> u16" where
  "reduce16 csum =
    (let l = ucast (csum AND 0xffff) + ucast (drop_bit 16 csum AND 0xffff) + ucast (drop_bit 32 csum AND 0xffff) +
           ucast (drop_bit 48 csum) :: u32;
         csum = ucast (l AND 0xffff) + ucast (drop_bit 16 l) :: u64
     in ucast (addcarry csum))"

definition in_pseudo :: "u32 \<Rightarrow> u32 \<Rightarrow> u32 \<Rightarrow> u16" where
  "in_pseudo a b c = reduce16 (ucast a + ucast b + ucast c)"

definition in_pseudo64 :: "u64 \<Rightarrow> u64 \<Rightarrow> u64 \<Rightarrow> u16" where
  "in_pseudo64 a b c = reduce16 (a + b + c)"

text \<open>The lengths of all mbufs, added in 32 bits.\<close>

definition m_length2 :: "mbuf list \<Rightarrow> u32" where
  "m_length2 ms = sum_list (map (\<lambda>m. word_of_int (m_len m)) ms)"

definition m_sum16 :: "mbuf list \<Rightarrow> u32 \<Rightarrow> u32 \<Rightarrow> cksum_fault + u16" where
  "m_sum16 m off len =
    (if m_length2 m < off + len then Inl Panic
     else bindS (os_cpu_in_cksum_mbuf m (sint len) (sint off) 0) (\<lambda>r. Inr (ucast r)))"

text \<open>\<open>m_copydata\<close>: skip to the offset, then copy from one mbuf after the other.\<close>

fun copy_data :: "mbuf list \<Rightarrow> int \<Rightarrow> int \<Rightarrow> cksum_fault + u8 list" where
  "copy_data [] off len = (if len > 0 then Inl Panic else Inr [])"
| "copy_data (m # ms) off len =
    (if len > 0
     then let k = min (m_len m - off) len in
       if k < 0 \<or> nat off + nat k > length (m_data m) then Inl Overread
       else bindS (copy_data ms 0 (len - k)) (\<lambda>bs. Inr (take (nat k) (drop (nat off) (m_data m)) @ bs))
     else Inr [])"

fun copy_skip :: "mbuf list \<Rightarrow> int \<Rightarrow> int \<Rightarrow> cksum_fault + u8 list" where
  "copy_skip [] off len = (if off > 0 then Inl Panic else copy_data [] off len)"
| "copy_skip (m # ms) off len =
    (if off > 0 \<and> \<not> off < m_len m then copy_skip ms (off - m_len m) len else copy_data (m # ms) off len)"

definition m_copydata :: "mbuf list \<Rightarrow> int \<Rightarrow> int \<Rightarrow> cksum_fault + u8 list" where
  "m_copydata m off len = (if off < 0 \<or> len < 0 then Inl Panic else copy_skip m off len)"

text \<open>\<open>htonl\<close> on a little-endian machine: the bytes of the number in big-endian order, read as a number.\<close>

definition be_bytes :: "u32 \<Rightarrow> u8 list" where
  "be_bytes x = [ucast (drop_bit 24 x), ucast (drop_bit 16 x), ucast (drop_bit 8 x), ucast x]"

definition htonl :: "u32 \<Rightarrow> u32" where
  "htonl x = of_nat (le (be_bytes x))"

definition hdr_aligned :: "nat \<Rightarrow> bool" where
  "hdr_aligned addr \<longleftrightarrow> addr AND 3 = 0"

text \<open>The header at the start of a chain: in place if it is contiguous and aligned, and otherwise copied.\<close>

definition header_bytes :: "nat \<Rightarrow> mbuf list \<Rightarrow> cksum_fault + u8 list" where
  "header_bytes n m =
    (if m_length2 m < of_nat n then Inl Panic
     else case m of
       [] \<Rightarrow> Inl Overread
     | m0 # ms \<Rightarrow> if 0 \<le> m_len m0 \<and> m_len m0 < int n \<or> \<not> hdr_aligned (m_addr m0) then m_copydata m 0 (int n) else Inr (m_data m0))"

text \<open>The inverted sum with the pseudo header, if there is one.\<close>

definition complement_sum :: "u16 \<Rightarrow> (cksum_fault + u16) option \<Rightarrow> cksum_fault + u16" where
  "complement_sum csum pseudo =
    bindS (case pseudo of
             Some r \<Rightarrow> bindS r (\<lambda>p. Inr (addcarry (ucast csum + ucast p :: u32)))
           | None \<Rightarrow> Inr (ucast csum)) (\<lambda>csum. Inr (ucast (NOT csum AND 0xffff)))"

text \<open>The source and destination address of an IPv4 header.\<close>

definition ip_pseudo :: "u8 list \<Rightarrow> u32 \<Rightarrow> cksum_fault + u16" where
  "ip_pseudo ip x = bindS (load 4 ip 12) (\<lambda>src. bindS (load 4 ip 16) (\<lambda>dst. Inr (in_pseudo src dst (htonl x))))"

definition inet_cksum :: "mbuf list \<Rightarrow> u32 \<Rightarrow> u32 \<Rightarrow> u32 \<Rightarrow> cksum_fault + u16" where
  "inet_cksum m nxt off len =
    bindS (m_sum16 m off len) (\<lambda>csum.
    complement_sum csum
      (if nxt \<noteq> 0 then Some (bindS (header_bytes 20 m) (\<lambda>ip. ip_pseudo ip (len + nxt))) else None))"

definition inet_cksum_simple :: "mbuf list \<Rightarrow> u32 \<Rightarrow> cksum_fault + u16" where
  "inet_cksum_simple m len = inet_cksum m 0 0 len"

definition inet_cksum_buffer :: "nat \<Rightarrow> u8 list \<Rightarrow> u32 \<Rightarrow> u32 \<Rightarrow> u32 \<Rightarrow> cksum_fault + u16" where
  "inet_cksum_buffer addr buffer nxt off len =
    (if off \<ge> len then Inl Panic
     else bindS (b_sum16 (addr + unat off) (drop (unat off) buffer) len) (\<lambda>csum.
       complement_sum csum (if nxt \<noteq> 0 then Some (ip_pseudo buffer (len + nxt)) else None)))"

definition in_cksum_hdr :: "nat \<Rightarrow> u8 list \<Rightarrow> cksum_fault + u16" where
  "in_cksum_hdr addr ip = bindS (b_sum16 addr ip 20) (\<lambda>csum. Inr (NOT csum AND 0xffff))"

definition in_cksum_hdr_opt :: "nat \<Rightarrow> u8 list \<Rightarrow> cksum_fault + u16" where
  "in_cksum_hdr_opt addr ip =
    bindS (load 1 ip 0) (\<lambda>vhl. bindS (b_sum16 addr ip (push_bit 2 (vhl AND 0x0f))) (\<lambda>csum. Inr (NOT csum AND 0xffff)))"

record ipstat =
  ips_rcv_swcsum :: u32
  ips_rcv_swcsum_bytes :: u32
  ips_snd_swcsum :: u32
  ips_snd_swcsum_bytes :: u32

definition count_swcsum :: "u32 \<Rightarrow> bool \<Rightarrow> ipstat \<Rightarrow> ipstat" where
  "count_swcsum hlen out st =
    (if out then st\<lparr>ips_snd_swcsum := ips_snd_swcsum st + 1, ips_snd_swcsum_bytes := ips_snd_swcsum_bytes st + hlen\<rparr>
     else st\<lparr>ips_rcv_swcsum := ips_rcv_swcsum st + 1, ips_rcv_swcsum_bytes := ips_rcv_swcsum_bytes st + hlen\<rparr>)"

definition ip_cksum_hdr_dir :: "mbuf list \<Rightarrow> u32 \<Rightarrow> bool \<Rightarrow> ipstat \<Rightarrow> cksum_fault + (u16 \<times> ipstat)" where
  "ip_cksum_hdr_dir m hlen out st =
    (case m of
       [] \<Rightarrow> Inl Overread
     | m0 # ms \<Rightarrow>
         bindS (if hlen = 20 \<and> (m_len m0 < 0 \<or> m_len m0 \<ge> 20) \<and> hdr_aligned (m_addr m0) then in_cksum_hdr (m_addr m0) (m_data m0)
                else inet_cksum m 0 0 hlen) (\<lambda>r. Inr (r, count_swcsum hlen out st)))"

definition ip_cksum_hdr_dir_buffer :: "nat \<Rightarrow> u8 list \<Rightarrow> u32 \<Rightarrow> u32 \<Rightarrow> bool \<Rightarrow> ipstat \<Rightarrow> cksum_fault + (u16 \<times> ipstat)" where
  "ip_cksum_hdr_dir_buffer addr buffer hlen len out st =
    bindS (if hlen = 20 \<and> len \<ge> 20 \<and> hdr_aligned addr then in_cksum_hdr addr buffer
           else inet_cksum_buffer addr buffer 0 0 hlen) (\<lambda>r. Inr (r, count_swcsum hlen out st))"

text \<open>IPv6: an address with a scope embedded in its second word is summed without that word.\<close>

definition scope_embed :: "u8 list \<Rightarrow> bool" where
  "scope_embed a \<longleftrightarrow>
    a ! 0 = 0xfe \<and> a ! 1 AND 0xc0 = 0x80 \<or>
    a ! 0 = 0xff \<and> a ! 1 AND 0xf0 \<noteq> 0x30 \<and> a ! 1 AND 0x0f = 2 \<or>
    a ! 0 = 0xff \<and> a ! 1 AND 0x0f = 1"

definition add_addr :: "u8 list \<Rightarrow> u32 \<Rightarrow> cksum_fault + u32" where
  "add_addr a csum =
    bindS (add_loads 1 2 a 0 csum) (\<lambda>csum.
    bindS (if \<not> scope_embed a then add_loads 1 2 a 2 csum else Inr csum) (add_loads 6 2 a 4))"

definition in6_pseudo :: "u8 list \<Rightarrow> u8 list \<Rightarrow> u32 \<Rightarrow> cksum_fault + u16" where
  "in6_pseudo src dst x =
    bindS (add_addr src 0) (\<lambda>csum. bindS (add_addr dst csum) (\<lambda>csum. Inr (ucast (addcarry (csum + x)))))"

text \<open>The addresses of an IPv6 header.\<close>

definition ip6_pseudo :: "u8 list \<Rightarrow> u32 \<Rightarrow> cksum_fault + u16" where
  "ip6_pseudo ip6 x =
    (if length ip6 < 40 then Inl Overread else in6_pseudo (take 16 (drop 8 ip6)) (take 16 (drop 24 ip6)) (htonl x))"

definition inet6_cksum :: "mbuf list \<Rightarrow> u32 \<Rightarrow> u32 \<Rightarrow> u32 \<Rightarrow> cksum_fault + u16" where
  "inet6_cksum m nxt off len =
    bindS (m_sum16 m off len) (\<lambda>csum.
    complement_sum csum
      (if nxt \<noteq> 0 then Some (bindS (header_bytes 40 m) (\<lambda>ip6. ip6_pseudo ip6 (nxt + len))) else None))"

definition inet6_cksum_buffer :: "nat \<Rightarrow> u8 list \<Rightarrow> u32 \<Rightarrow> u32 \<Rightarrow> u32 \<Rightarrow> cksum_fault + u16" where
  "inet6_cksum_buffer addr buffer nxt off len =
    (if off \<ge> len then Inl Panic
     else bindS (b_sum16 (addr + unat off) (drop (unat off) buffer) len) (\<lambda>csum.
       complement_sum csum (if nxt \<noteq> 0 then Some (ip6_pseudo buffer (nxt + len)) else None)))"

text \<open>
  \<open>m_adj_sum16\<close>: the sum of a frame from \<open>start\<close> on, adjusted to the data at \<open>dataoff\<close>; the mbuf where the octets after the
  data begin.
\<close>

fun find_off :: "mbuf list \<Rightarrow> u32 \<Rightarrow> cksum_fault + (mbuf list \<times> u32)" where
  "find_off [] off = (if off > 0 then Inl Panic else Inr ([], off))"
| "find_off (m # ms) off =
    (if off > 0 \<and> \<not> off < word_of_int (m_len m) then find_off ms (off - word_of_int (m_len m)) else Inr (m # ms, off))"

definition sum_excess :: "mbuf list \<Rightarrow> u32 \<Rightarrow> u32 \<Rightarrow> cksum_fault + u32" where
  "sum_excess m bytes len =
    bindS (m_sum16 m bytes len) (\<lambda>extra. bindS (find_off m bytes) (\<lambda>(ms, off).
      case ms of
        [] \<Rightarrow> Inl Overread
      | m0 # _ \<Rightarrow>
          let extra = ucast extra in
          Inr (if odd (m_addr m0 + unat off) then (push_bit 8 extra AND 0xffff) OR drop_bit 8 extra else extra)))"

definition ones_sub :: "u32 \<Rightarrow> u32 \<Rightarrow> u32" where
  "ones_sub csum total_sub =
    (if total_sub \<noteq> 0
     then if total_sub \<ge> csum then NOT (total_sub - csum) AND 0xffff else csum - total_sub
     else csum)"

definition m_adj_sum16 :: "mbuf list \<Rightarrow> u32 \<Rightarrow> u32 \<Rightarrow> u32 \<Rightarrow> u32 \<Rightarrow> u32 \<Rightarrow> cksum_fault + u16" where
  "m_adj_sum16 m pktlen start dataoff datalen csum =
    (let bytes = dataoff + datalen; len = dataoff - start in
     bindS (if sint len > 0 then bindS (m_sum16 m start len) (\<lambda>s. Inr (csum, ucast s))
            else if sint len < 0 then bindS (m_sum16 m dataoff (- len)) (\<lambda>s. Inr (csum + ucast s, 0))
            else Inr (csum, 0)) (\<lambda>(csum, total_sub).
     bindS (if sint (pktlen - bytes) > 0
            then bindS (sum_excess m bytes (pktlen - bytes)) (\<lambda>extra. Inr (fold16 (total_sub + extra)))
            else Inr total_sub) (\<lambda>total_sub.
     Inr (ucast (fold16 (fold16 (fold16 (ones_sub csum total_sub))) AND 0xffff)))))"

section \<open>Sums of packets\<close>

lemma addcarry_ones:
  assumes "32 \<le> LENGTH('a::len)"
  shows "unat (addcarry (x :: 'a word)) = ones (unat x)"
proof (induction x rule: addcarry.induct)
  case (1 x)
  show ?case
  proof (cases "drop_bit 16 x = 0")
    case True
    then have "unat x div 65536 = 0" using unat_drop [of 16 x] by simp
    then have "unat x \<le> 65535" by (simp add: div_eq_0_iff)
    then show ?thesis using True by (subst addcarry.simps) (simp add: ones_small)
  next
    case False
    then have "unat (addcarry x) = unat (addcarry (fold16 x))" by (subst addcarry.simps) (simp add: fold16_def)
    also have "\<dots> = ones (unat (fold16 x))" using 1 [OF False] by (simp add: fold16_def)
    also have "\<dots> = ones (unat x)" unfolding unat_fold16 [OF assms] using ones_fold [of 16 "unat x"] by simp
    finally show ?thesis .
  qed
qed

lemma unat_ucast_ones: "unat (w :: 'a::len word) = ones n \<Longrightarrow> unat (ucast w :: u16) = ones n"
  using ones_le [of n] by (simp add: unsigned_ucast_eq take_bit_nat_eq_self)

lemma unat_digit: "unat (ucast ((w :: u64) AND 0xffff) :: u32) = unat w mod 65536"
proof -
  have "unat w mod 65536 < 2 ^ LENGTH(32)" by (rule order.strict_trans [OF mod_less_divisor]) simp_all
  then show ?thesis unfolding unsigned_ucast_eq and_ffff [symmetric] by (rule take_bit_nat_eq_self)
qed

lemma reduce16_ones: "unat (reduce16 s) = ones (unat s)"
proof -
  let ?n = "unat s"
  define l where "l = (ucast (s AND 0xffff) + ucast (drop_bit 16 s AND 0xffff) + ucast (drop_bit 32 s AND 0xffff) +
           ucast (drop_bit 48 s) :: u32)"
  define d where "d = ?n mod 65536 + ?n div 2 ^ 16 mod 65536 + ?n div 2 ^ 32 mod 65536 + ?n div 2 ^ 48"
  have h: "?n div 2 ^ 48 < 65536" using unat_bound [of s] by (simp add: less_mult_imp_div_less)
  then have "unat (ucast (drop_bit 48 s) :: u32) = ?n div 2 ^ 48"
    using unat_drop [of 48 s] by (simp add: unsigned_ucast_eq take_bit_nat_eq_self)
  then have parts: "unat l = ((((?n mod 65536 + ?n div 2 ^ 16 mod 65536) mod 2 ^ 32) + ?n div 2 ^ 32 mod 65536) mod 2 ^ 32 + ?n div 2 ^ 48) mod 2 ^ 32"
    unfolding l_def by (simp add: unat_word_ariths unat_digit unat_drop)
  have b: "?n mod 65536 < 65536" "?n div 2 ^ 16 mod 65536 < 65536" "?n div 2 ^ 32 mod 65536 < 65536" by simp_all
  have l: "unat l = d" unfolding parts d_def using b h by simp
  have "d < 262144" unfolding d_def using b h by linarith
  then have q: "d div 65536 < 4" by (simp add: less_mult_imp_div_less)
  have e: "unat (ucast (l AND 0xffff) + ucast (drop_bit 16 l) :: u64) = d mod 65536 + d div 65536"
    using q by (simp add: unat_word_ariths unat_ucast_up and_ffff unat_drop l)
  have s4: "?n = 2 ^ 16 * (2 ^ 16 * (2 ^ 16 * (?n div 2 ^ 48) + ?n div 2 ^ 32 mod 65536) + ?n div 2 ^ 16 mod 65536) + ?n mod 65536"
  proof -
    have "?n = 65536 * (?n div 65536) + ?n mod 65536" by simp
    moreover have "?n div 65536 = 65536 * (?n div 65536 div 65536) + ?n div 65536 mod 65536" by simp
    moreover have "?n div 65536 div 65536 = 65536 * (?n div 65536 div 65536 div 65536) + ?n div 65536 div 65536 mod 65536" by simp
    ultimately show ?thesis by (simp add: div_mult2_eq [symmetric])
  qed
  have "ones ?n = ones d"
  proof -
    let ?a = "?n div 2 ^ 48" and ?b = "?n div 2 ^ 32 mod 65536" and ?c = "?n div 2 ^ 16 mod 65536" and ?e = "?n mod 65536"
    have "ones ?n = ones (2 ^ 16 * (2 ^ 16 * (2 ^ 16 * ?a + ?b) + ?c) + ?e)" using s4 by (rule arg_cong)
    also have "\<dots> = ones ((2 ^ 16 * (2 ^ 16 * ?a + ?b) + ?c) + ?e)" by (rule ones_radix) simp
    also have "\<dots> = ones (((2 ^ 16 * ?a + ?b) + ?c) + ?e)" by (rule ones_add_cong [OF ones_radix refl]) simp
    also have "\<dots> = ones (((?a + ?b) + ?c) + ?e)" by (intro ones_add_cong [OF ones_add_cong [OF ones_radix refl] refl]) simp
    finally show ?thesis unfolding d_def by (simp add: add_ac)
  qed
  moreover have "reduce16 s = ucast (addcarry (ucast (l AND 0xffff) + ucast (drop_bit 16 l) :: u64))"
    unfolding reduce16_def l_def Let_def ..
  moreover have "ones (d mod 65536 + d div 65536) = ones d" using ones_fold [of 16 d] by (simp add: add.commute)
  ultimately show ?thesis using addcarry_ones [of "ucast (l AND 0xffff) + ucast (drop_bit 16 l) :: u64"] e
    by (simp add: unat_ucast_ones)
qed

lemma in_pseudo_ones: "unat (in_pseudo a b c) = ones (unat a + unat b + unat c)"
proof -
  have "unat a < 2 ^ 32" "unat b < 2 ^ 32" "unat c < 2 ^ 32" using unat_bound [of a] unat_bound [of b] unat_bound [of c] by simp_all
  then have "unat (ucast a + ucast b + ucast c :: u64) = unat a + unat b + unat c"
    by (simp add: unat_word_ariths unat_ucast_up)
  then show ?thesis unfolding in_pseudo_def reduce16_ones by simp
qed

lemma in_pseudo64_ones: "unat a + unat b + unat c < 2 ^ 64 \<Longrightarrow> unat (in_pseudo64 a b c) = ones (unat a + unat b + unat c)"
  unfolding in_pseudo64_def reduce16_ones by (simp add: unat_word_ariths)

lemma in_addword_ones: "unat (in_addword a b) = ones (unat a + unat b)"
proof -
  have "unat a < 2 ^ 16" "unat b < 2 ^ 16" using unat_bound [of a] unat_bound [of b] by simp_all
  then have "unat (ucast a + ucast b :: u64) = unat a + unat b" by (simp add: unat_word_ariths unat_ucast_up)
  then show ?thesis using addcarry_ones [of "ucast a + ucast b :: u64"] unfolding in_addword_def by (simp add: unat_ucast_ones)
qed

lemma m_length2_flat: "list_all mbuf_ok ms \<Longrightarrow> m_length2 ms = of_nat (length (flat ms))"
proof (induction ms)
  case (Cons m ms)
  obtain l where l: "m_len m = int l" "length (mbuf_bytes m) = l" by (rule mbuf_ok_length [of m]) (use Cons.prems in auto)
  have "m_length2 (m # ms) = of_nat l + m_length2 ms" unfolding m_length2_def by (simp add: l(1))
  also have "m_length2 ms = of_nat (length (flat ms))" using Cons by simp
  finally show ?case using l(2) by simp
qed (simp add: m_length2_def)

lemma m_length2_less:
  assumes "list_all mbuf_ok ms" "length (flat ms) < 2 ^ 31"
  shows "m_length2 ms < w \<longleftrightarrow> length (flat ms) < unat w"
  using assms by (simp add: m_length2_flat word_less_nat_alt)

lemma ucast_of_nat_ones: "ucast (of_nat (ones n) :: u32) = (of_nat (ones n) :: u16)"
  using ones_le [of n] unat_ucast_ones [of "of_nat (ones n) :: u32" n] by (simp add: word_unat_eq_iff unat_of_nat)

lemma unat_of_nat_ones [simp]: "unat (of_nat (ones n) :: u16) = ones n"
  using ones_le [of n] by (simp add: unat_of_nat)

lemma m_sum16_value:
  assumes "list_all mbuf_ok ms" "length (flat ms) < 2 ^ 31" "0 < unat len" "unat off + unat len \<le> length (flat ms)"
  shows "m_sum16 ms off len = Inr (of_nat (ones (stream_sum False (take (unat len) (drop (unat off) (flat ms))))))"
proof -
  have "unat (off + len) = unat off + unat len" using assms(2,4) by (simp add: unat_word_ariths)
  moreover have "sint len = int (unat len)" "sint off = int (unat off)" using assms(2,4) by (simp_all add: sint_small)
  moreover note cksum64_value [OF assms(1), of "int (unat len)" "int (unat off)" 0]
  ultimately show ?thesis using assms unfolding m_sum16_def by (simp add: m_length2_less del: of_nat_unat) (simp add: ucast_of_nat_ones)
qed

lemma copy_data_flat:
  assumes "list_all mbuf_ok ms" "len \<le> length (flat ms)"
  shows "copy_data ms 0 (int len) = Inr (take len (flat ms))"
  using assms
proof (induction ms arbitrary: len)
  case (Cons m ms)
  obtain l where l: "m_len m = int l" "l \<le> length (m_data m)" "mbuf_bytes m = take l (m_data m)" "length (mbuf_bytes m) = l"
    using Cons.prems mbuf_ok_length [of m] by auto
  have k: "min (int l - 0) (int len) = int (min l len)" "int len - int (min l len) = int (len - l)" by auto
  have "len - l \<le> length (flat ms)" using Cons.prems(2) l(4) by simp
  from Cons.IH [OF _ this] Cons.prems(1) have "copy_data ms 0 (int (len - l)) = Inr (take (len - l) (flat ms))" by simp
  then show ?case using l unfolding copy_data.simps Let_def l(1) k by (simp add: min.commute)
qed simp

lemma m_copydata_flat:
  assumes "list_all mbuf_ok ms" "off + len \<le> length (flat ms)"
  shows "m_copydata ms (int off) (int len) = Inr (take len (drop off (flat ms)))"
proof -
  have "copy_skip ms (int off) (int len) = Inr (take len (drop off (flat ms)))"
    using assms
  proof (induction ms arbitrary: off)
    case (Cons m ms)
    obtain l where l: "m_len m = int l" "l \<le> length (m_data m)" "mbuf_bytes m = take l (m_data m)" "length (mbuf_bytes m) = l"
      using Cons.prems mbuf_ok_length [of m] by auto
    show ?case
    proof (cases "0 < off \<and> l \<le> off")
      case True
      then have "int off - int l = int (off - l)" "off - l + len \<le> length (flat ms)" using Cons.prems(2) l(4) by auto
      then show ?thesis using Cons.IH [of "off - l"] Cons.prems(1) True l by simp
    next
      case False
      let ?k = "min (l - off) len"
      have k: "min (int l - int off) (int len) = int ?k" "int len - int ?k = int (len - (l - off))" using False by (auto simp: min_def)
      have "len - (l - off) \<le> length (flat ms)" using Cons.prems(2) l(4) False by auto
      from copy_data_flat [OF _ this] Cons.prems(1)
      have "copy_data ms 0 (int (len - (l - off))) = Inr (take (len - (l - off)) (flat ms))" by simp
      moreover have "copy_skip (m # ms) (int off) (int len) = copy_data (m # ms) (int off) (int len)" using False l(1) by auto
      moreover have "take len (drop off (take l (m_data m))) = take ?k (drop off (m_data m))" by (simp add: drop_take min.commute)
      moreover have "off + ?k \<le> length (m_data m)" using False l(2) by auto
      ultimately show ?thesis using l False unfolding copy_data.simps Let_def l(1) k by (auto simp: min_def)
    qed
  qed simp
  then show ?thesis unfolding m_copydata_def by simp
qed

lemma header_bytes_flat:
  assumes "list_all mbuf_ok ms" "length (flat ms) < 2 ^ 31" "n \<le> length (flat ms)" "0 < n"
  obtains h where "header_bytes n ms = Inr h" "take n h = take n (flat ms)"
proof -
  obtain m ms' where ms: "ms = m # ms'" using assms(3,4) by (cases ms) auto
  obtain l where l: "m_len m = int l" "l \<le> length (m_data m)" "mbuf_bytes m = take l (m_data m)" "length (mbuf_bytes m) = l"
    using assms(1) mbuf_ok_length [of m] unfolding ms by auto
  have "\<not> m_length2 ms < of_nat n" using assms by (simp add: m_length2_less)
  moreover have "m_copydata ms 0 (int n) = Inr (take n (flat ms))" using m_copydata_flat [OF assms(1), of 0 n] assms(3) by simp
  ultimately show ?thesis
    using that [of "if l < n \<or> \<not> hdr_aligned (m_addr m) then take n (flat ms) else m_data m"] l ms
    unfolding header_bytes_def by (auto simp: min_def)
qed

lemma load_take: "p + k \<le> n \<Longrightarrow> take n h = take n h' \<Longrightarrow> n \<le> length h \<Longrightarrow> n \<le> length h' \<Longrightarrow> load k h p = load k h' p"
proof -
  assume a: "p + k \<le> n" "take n h = take n h'" "n \<le> length h" "n \<le> length h'"
  have k: "min k (n - p) = k" using a(1) by simp
  have "take k (drop p h) = take k (drop p (take n h))" unfolding drop_take take_take k ..
  also have "\<dots> = take k (drop p h')" unfolding a(2) drop_take take_take k ..
  finally show ?thesis using a unfolding load_def by simp
qed

subsection \<open>Pseudo headers\<close>

text \<open>
  The pseudo header of RFC 793: the addresses of the IPv4 header, a zero byte, the protocol, and the length of the segment.
\<close>

definition be16 :: "u32 \<Rightarrow> u8 list" where
  "be16 len = [ucast (drop_bit 8 len), ucast len]"

definition pseudo_header :: "u8 list \<Rightarrow> u32 \<Rightarrow> u32 \<Rightarrow> u8 list" where
  "pseudo_header ip nxt len = take 4 (drop 12 ip) @ take 4 (drop 16 ip) @ [0, ucast nxt] @ be16 len"

lemma unat_byte: "unat (ucast (drop_bit n (x :: u32)) :: u8) = unat x div 2 ^ n mod 256"
  by (simp add: unsigned_ucast_eq take_bit_eq_mod unat_drop)

lemma unat_low_byte: "unat (ucast (x :: u32) :: u8) = unat x mod 256"
  by (simp add: unsigned_ucast_eq take_bit_eq_mod)

lemma four_bytes: "n = 2 ^ 24 * (n div 2 ^ 24) + 2 ^ 16 * (n div 2 ^ 16 mod 256) + 2 ^ 8 * (n div 2 ^ 8 mod 256) + n mod 256" for n :: nat
proof -
  define p q r where "p = n div 256" and "q = p div 256" and "r = q div 256"
  define a b c where "a = n mod 256" and "b = p mod 256" and "c = q mod 256"
  have "n = 256 * p + a" "p = 256 * q + b" "q = 256 * r + c"
    unfolding p_def q_def r_def a_def b_def c_def by (simp_all only: mult_div_mod_eq)
  then have "n = 2 ^ 24 * r + 2 ^ 16 * c + 2 ^ 8 * b + a" by simp
  then show ?thesis unfolding a_def b_def c_def r_def q_def p_def by (simp add: div_mult2_eq [symmetric])
qed

lemma htonl_ones: "unat (htonl x) = le (be_bytes x)" "ones (le (be_bytes x)) = ones (256 * unat x)"
proof -
  have "length (be_bytes x) = 4" by (simp add: be_bytes_def)
  then have "le (be_bytes x) < 2 ^ 32" using le_less [of "be_bytes x"] by simp
  then show "unat (htonl x) = le (be_bytes x)" unfolding htonl_def by (rule of_nat_u32_small)
  let ?n = "unat x"
  let ?a = "?n div 2 ^ 24" and ?b = "?n div 2 ^ 16 mod 256" and ?c = "?n div 2 ^ 8 mod 256" and ?d = "?n mod 256"
  have "?a < 256" using unat_bound [of x] by (simp add: less_mult_imp_div_less)
  then have "le (be_bytes x) = ?a + 256 * (?b + 256 * (?c + 256 * ?d))" unfolding be_bytes_def by (simp add: unat_byte unat_low_byte unat_drop)
  also have "\<dots> = 2 ^ 16 * (?c + 256 * ?d) + (?a + 256 * ?b)" by simp
  finally have l: "ones (le (be_bytes x)) = ones ((?c + 256 * ?d) + (?a + 256 * ?b))" using ones_radix [of 16 "?c + 256 * ?d"] by simp
  have "?n = 2 ^ 24 * ?a + 2 ^ 16 * ?b + 2 ^ 8 * ?c + ?d" by (rule four_bytes)
  then have "256 * ?n = 2 ^ 32 * ?a + (2 ^ 16 * (256 * ?b) + (2 ^ 16 * ?c + 256 * ?d))" by simp
  then have "ones (256 * ?n) = ones (2 ^ 32 * ?a + (2 ^ 16 * (256 * ?b) + (2 ^ 16 * ?c + 256 * ?d)))" by (rule arg_cong)
  also have "\<dots> = ones (?a + (2 ^ 16 * (256 * ?b) + (2 ^ 16 * ?c + 256 * ?d)))" by (rule ones_radix) simp
  also have "\<dots> = ones (?a + (256 * ?b + (2 ^ 16 * ?c + 256 * ?d)))" by (rule ones_add_cong [OF refl ones_radix]) simp
  also have "\<dots> = ones (?a + (256 * ?b + (?c + 256 * ?d)))"
    by (rule ones_add_cong [OF refl ones_add_cong [OF refl ones_radix]]) simp
  finally show "ones (le (be_bytes x)) = ones (256 * unat x)" unfolding l by (simp add: add_ac)
qed

lemma htonl_length_ones:
  assumes "unat nxt < 256" "unat len < 65536"
  shows "ones (unat (htonl (len + nxt))) = ones (stream_sum False ([0, ucast nxt] @ be16 len))"
proof -
  let ?n = "unat len"
  have s: "unat (len + nxt) = ?n + unat nxt" using assms by (simp add: unat_word_ariths)
  obtain q r where q: "?n div 256 = q" "?n mod 256 = r" by blast
  then have "?n = 256 * q + r" using mult_div_mod_eq [of 256 ?n] by simp
  then have "256 * (?n + unat nxt) = 65536 * (?n div 256) + (256 * (?n mod 256) + 256 * unat nxt)" unfolding q by simp
  then have "ones (256 * (?n + unat nxt)) = ones (65536 * (?n div 256) + (256 * (?n mod 256) + 256 * unat nxt))" by (rule arg_cong)
  also have "\<dots> = ones (?n div 256 + (256 * (?n mod 256) + 256 * unat nxt))" using ones_radix [of 16] by simp
  moreover have "?n div 256 < 256" using assms(2) by (simp add: less_mult_imp_div_less)
  ultimately show ?thesis unfolding htonl_ones s using assms(1) by (simp add: be16_def unat_byte unat_low_byte unat_drop add_ac)
qed

lemma load_ones:
  assumes "p + n \<le> length bs" "8 * n \<le> LENGTH('a::len)"
  obtains w :: "'a::len word" where "load n bs p = Inr w" "ones (unat w) = ones (stream_sum False (take n (drop p bs)))"
  using unat_load [OF assms] by (auto simp: ones_le_stream)

lemma ip_pseudo_ones:
  assumes "20 \<le> length ip" "unat nxt < 256" "unat len < 65536"
  obtains p where "ip_pseudo ip (len + nxt) = Inr p" "unat p = ones (stream_sum False (pseudo_header ip nxt len))"
proof -
  obtain src :: u32 where src: "load 4 ip 12 = Inr src" "ones (unat src) = ones (stream_sum False (take 4 (drop 12 ip)))"
    by (rule load_ones [of 12 4 ip, where 'a = 32]) (use assms(1) in simp_all)
  obtain dst :: u32 where dst: "load 4 ip 16 = Inr dst" "ones (unat dst) = ones (stream_sum False (take 4 (drop 16 ip)))"
    by (rule load_ones [of 16 4 ip, where 'a = 32]) (use assms(1) in simp_all)
  let ?l = "[0, ucast nxt] @ be16 len"
  have "ones (unat src + unat dst + unat (htonl (len + nxt))) =
      ones (stream_sum False (take 4 (drop 12 ip)) + stream_sum False (take 4 (drop 16 ip)) + stream_sum False ?l)"
    by (intro ones_add_cong src(2) dst(2) htonl_length_ones [OF assms(2,3)])
  moreover have "stream_sum False (pseudo_header ip nxt len) =
      stream_sum False (take 4 (drop 12 ip)) + stream_sum False (take 4 (drop 16 ip)) + stream_sum False ?l"
    unfolding pseudo_header_def stream_sum_append using assms(1) by simp
  ultimately show ?thesis using that src(1) dst(1) by (simp add: ip_pseudo_def in_pseudo_ones)
qed

subsection \<open>Complementing\<close>

lemma unat_complement:
  assumes "unat (w :: u32) \<le> 65535"
  shows "unat (NOT w AND 0xffff) = 65535 - unat w"
proof -
  have "NOT w = - 1 - w" by (simp add: not_eq_complement)
  moreover have "unat (- 1 :: u32) = 2 ^ 32 - 1" by (simp add: unsigned_minus_1_eq_mask mask_eq_exp_minus_1)
  ultimately have "unat (NOT w) = 2 ^ 32 - 1 - unat w" using unat_sub [of w "- 1"] by simp
  also have "\<dots> = 65535 * 65536 + (65535 - unat w)" using assms by simp
  finally show ?thesis unfolding and_ffff using mod_mult_self3 [of 65535 65536 "65535 - unat w"] by simp
qed

lemma complement_ones:
  assumes "unat (w :: u32) = ones n"
  shows "(ucast (NOT w AND 0xffff) :: u16) = of_nat (65535 - ones n)"
proof -
  have "unat (ucast (NOT w AND 0xffff) :: u16) = 65535 - ones n"
    using unat_complement [of w] assms ones_le [of n] by (simp add: unsigned_ucast_eq take_bit_nat_eq_self)
  then show ?thesis by (simp add: word_unat_eq_iff unat_of_nat)
qed

lemma complement_sum_none: "complement_sum (of_nat (ones a)) None = Inr (of_nat (65535 - ones a))"
proof -
  have "unat (ucast (of_nat (ones a) :: u16) :: u32) = ones a" by (simp add: unat_ucast_up)
  from complement_ones [OF this] show ?thesis unfolding complement_sum_def by simp
qed

lemma complement_sum_some:
  assumes "unat p = ones b"
  shows "complement_sum (of_nat (ones a)) (Some (Inr p)) = Inr (of_nat (65535 - ones (b + a)))"
proof -
  have "unat (ucast (of_nat (ones a) :: u16) + ucast p :: u32) = ones a + ones b"
    using ones_le [of a] ones_le [of b] assms by (simp add: unat_word_ariths unat_ucast_up)
  then have "unat (addcarry (ucast (of_nat (ones a) :: u16) + ucast p :: u32)) = ones (b + a)"
    using addcarry_ones [of "ucast (of_nat (ones a) :: u16) + ucast p :: u32"] by (simp add: ones_add add.commute)
  from complement_ones [OF this] show ?thesis unfolding complement_sum_def by simp
qed

subsection \<open>The checksum of a packet\<close>

text \<open>The bytes that the checksum of a segment covers.\<close>

definition covered :: "u8 list \<Rightarrow> u32 \<Rightarrow> u32 \<Rightarrow> u32 \<Rightarrow> u8 list" where
  "covered pkt nxt off len = (if nxt \<noteq> 0 then pseudo_header pkt nxt len else []) @ take (unat len) (drop (unat off) pkt)"

lemma pseudo_header_take: "20 \<le> length h \<Longrightarrow> take 20 h = take 20 h' \<Longrightarrow> 20 \<le> length h' \<Longrightarrow> pseudo_header h nxt len = pseudo_header h' nxt len"
proof -
  assume "20 \<le> length h" "take 20 h = take 20 h'" "20 \<le> length h'"
  then have "take 4 (drop 12 (take 20 h)) = take 4 (drop 12 (take 20 h'))" "take 4 (drop 16 (take 20 h)) = take 4 (drop 16 (take 20 h'))" by simp_all
  then show ?thesis unfolding pseudo_header_def drop_take take_take by simp
qed

lemma take_eq_length: "take n h = take n h' \<Longrightarrow> n \<le> length h' \<Longrightarrow> n \<le> length h"
  by (metis length_take min_def not_le_imp_less less_imp_le)

lemma stream_sum_covered:
  assumes "nxt \<noteq> 0 \<Longrightarrow> 20 \<le> length pkt"
  shows "stream_sum False (covered pkt nxt off len) =
    (if nxt \<noteq> 0 then stream_sum False (pseudo_header pkt nxt len) else 0) + stream_sum False (take (unat len) (drop (unat off) pkt))"
proof (cases "nxt = 0")
  case False
  then have "length (pseudo_header pkt nxt len) = 12" using assms by (simp add: pseudo_header_def be16_def)
  then show ?thesis using False by (simp add: covered_def stream_sum_append)
qed (simp add: covered_def)

lemma inet_cksum_value:
  assumes "list_all mbuf_ok ms" "length (flat ms) < 2 ^ 31" "0 < unat len" "unat off + unat len \<le> length (flat ms)"
    "nxt = 0 \<or> 20 \<le> length (flat ms) \<and> unat nxt < 256 \<and> unat len < 65536"
  shows "inet_cksum ms nxt off len = Inr (of_nat (65535 - ones (stream_sum False (covered (flat ms) nxt off len))))"
proof (cases "nxt = 0")
  case True
  then show ?thesis
    using m_sum16_value [OF assms(1-4)] stream_sum_covered [of nxt "flat ms" off len] by (simp add: inet_cksum_def complement_sum_none)
next
  case False
  then have n: "20 \<le> length (flat ms)" "unat nxt < 256" "unat len < 65536" using assms(5) by simp_all
  obtain h where h: "header_bytes 20 ms = Inr h" "take 20 h = take 20 (flat ms)"
    by (rule header_bytes_flat [OF assms(1,2) n(1)]) simp_all
  have l: "20 \<le> length h" using take_eq_length [OF h(2) n(1)] .
  obtain p where p: "ip_pseudo h (len + nxt) = Inr p" "unat p = ones (stream_sum False (pseudo_header h nxt len))"
    by (rule ip_pseudo_ones [OF l n(2,3)])
  have "pseudo_header h nxt len = pseudo_header (flat ms) nxt len" by (rule pseudo_header_take [OF l h(2) n(1)])
  with p(2) have "unat p = ones (stream_sum False (pseudo_header (flat ms) nxt len))" by simp
  from complement_sum_some [OF this] show ?thesis using False m_sum16_value [OF assms(1-4)] h(1) p(1) stream_sum_covered [of nxt "flat ms" off len] n(1)
    by (simp add: inet_cksum_def)
qed

subsection \<open>Storing and verifying\<close>

text \<open>A 16-bit field of a packet in the byte order of the machine.\<close>

definition put16 :: "nat \<Rightarrow> u16 \<Rightarrow> u8 list \<Rightarrow> u8 list" where
  "put16 c w pkt = pkt[c := ucast w, Suc c := ucast (drop_bit 8 w)]"

lemma stream_sum_update:
  "i < length bs \<Longrightarrow> stream_sum p (bs[i := b]) + (if p \<noteq> odd i then 256 else 1) * unat (bs ! i) =
    stream_sum p bs + (if p \<noteq> odd i then 256 else 1) * unat b"
proof (induction bs arbitrary: i p)
  case (Cons x bs)
  show ?case
  proof (cases i)
    case (Suc j)
    then show ?thesis using Cons.IH [of j "\<not> p"] Cons.prems by (cases p) auto
  qed auto
qed simp

lemma unat_bytes16: "unat (ucast (w :: u16) :: u8) + 256 * unat (ucast (drop_bit 8 w) :: u8) = unat w"
proof -
  have "unat w div 256 < 256" using unat_bound [of w] by (simp add: less_mult_imp_div_less)
  then show ?thesis by (simp add: unsigned_ucast_eq take_bit_eq_mod unat_drop)
qed

lemma stream_sum_put16:
  assumes "even c" "Suc c < length pkt" "pkt ! c = 0" "pkt ! Suc c = 0"
  shows "stream_sum False (put16 c w pkt) = stream_sum False pkt + unat w"
  using assms stream_sum_update [of c pkt False "ucast w"] stream_sum_update [of "Suc c" "pkt[c := ucast w]" False "ucast (drop_bit 8 w)"]
    unat_bytes16 [of w] by (simp add: put16_def)

text \<open>The field of the segment within the bytes covered.\<close>

lemma covered_put16:
  assumes "unat off + unat len \<le> length pkt" "unat off \<le> c" "Suc c < unat off + unat len" "nxt = 0 \<or> 20 \<le> c"
  shows "covered (put16 c w pkt) nxt off len = (if nxt \<noteq> 0 then pseudo_header pkt nxt len else []) @
    put16 (c - unat off) w (take (unat len) (drop (unat off) pkt))"
proof -
  have "take (unat len) (drop (unat off) (put16 c w pkt)) = put16 (c - unat off) w (take (unat len) (drop (unat off) pkt))"
    using assms by (auto simp: put16_def drop_update_swap take_update_swap Suc_diff_le)
  moreover have "pseudo_header (put16 c w pkt) nxt len = pseudo_header pkt nxt len" if "20 \<le> c"
  proof -
    have "take 20 (put16 c w pkt) = take 20 pkt" using that by (simp add: put16_def)
    moreover have "20 \<le> length pkt" "20 \<le> length (put16 c w pkt)" using that assms by (simp_all add: put16_def)
    ultimately show ?thesis by (intro pseudo_header_take)
  qed
  ultimately show ?thesis using assms(4) by (auto simp: covered_def)
qed

lemma ones_complete: "ones (n + (65535 - ones n)) = 65535"
proof -
  have "ones (n + (65535 - ones n)) = ones (ones n + (65535 - ones n))" by (simp add: ones_add)
  also have "\<dots> = ones 65535" using ones_le [of n] by simp
  finally show ?thesis by (simp add: ones_small)
qed

definition packet_ok :: "mbuf list \<Rightarrow> u32 \<Rightarrow> u32 \<Rightarrow> u32 \<Rightarrow> bool" where
  "packet_ok ms nxt off len \<longleftrightarrow>
    list_all mbuf_ok ms \<and> length (flat ms) < 2 ^ 31 \<and> 0 < unat len \<and> unat off + unat len \<le> length (flat ms) \<and>
    (nxt = 0 \<or> 20 \<le> length (flat ms) \<and> unat nxt < 256 \<and> unat len < 65536)"

lemma packet_cksum:
  "packet_ok ms nxt off len \<Longrightarrow>
    inet_cksum ms nxt off len = Inr (of_nat (65535 - ones (stream_sum False (covered (flat ms) nxt off len))))"
  unfolding packet_ok_def by (intro inet_cksum_value) simp_all

lemma packet_cksum_zero:
  assumes "packet_ok ms nxt off len"
  shows "inet_cksum ms nxt off len = Inr 0 \<longleftrightarrow> ones (stream_sum False (covered (flat ms) nxt off len)) = 65535"
proof -
  let ?n = "ones (stream_sum False (covered (flat ms) nxt off len))"
  have "(of_nat (65535 - ?n) :: u16) = 0 \<longleftrightarrow> 65535 - ?n = 0"
    by (simp add: word_unat_eq_iff unat_of_nat)
  then show ?thesis using packet_cksum [OF assms] ones_le [of "stream_sum False (covered (flat ms) nxt off len)"] by simp
qed

lemma packet_ok_same_length:
  "packet_ok ms nxt off len \<Longrightarrow> list_all mbuf_ok ms' \<Longrightarrow> length (flat ms') = length (flat ms) \<Longrightarrow> packet_ok ms' nxt off len"
  unfolding packet_ok_def by simp

text \<open>
  C25: round trip of the checksum. When the result of \<open>inet_cksum\<close> on a packet whose checksum field is zero is stored in that
  field, then \<open>inet_cksum\<close> on the packet gives zero, also when the packet has been cut into mbufs differently.
\<close>

theorem inet_cksum_roundtrip:
  assumes "packet_ok ms nxt off len" "even (c - unat off)" "unat off \<le> c" "Suc c < unat off + unat len" "nxt = 0 \<or> 20 \<le> c"
    "flat ms ! c = 0" "flat ms ! Suc c = 0" "inet_cksum ms nxt off len = Inr ck"
    "list_all mbuf_ok ms'" "flat ms' = put16 c ck (flat ms)"
  shows "inet_cksum ms' nxt off len = Inr 0"
proof -
  let ?seg = "take (unat len) (drop (unat off) (flat ms))" and ?i = "c - unat off"
  let ?S = "stream_sum False (covered (flat ms) nxt off len)"
  have l: "unat off + unat len \<le> length (flat ms)" "nxt \<noteq> 0 \<Longrightarrow> 20 \<le> length (flat ms)" using assms(1) unfolding packet_ok_def by auto
  have "Suc ?i < length ?seg" "?seg ! ?i = 0" "?seg ! Suc ?i = 0" using l assms(3-7) by (simp_all add: Suc_diff_le)
  from stream_sum_put16 [OF assms(2) this]
  have seg: "stream_sum False (put16 ?i ck ?seg) = stream_sum False ?seg + unat ck" .
  have "stream_sum False (covered (flat ms') nxt off len) = ?S + unat ck"
  proof (cases "nxt = 0")
    case False
    then have "length (pseudo_header (flat ms) nxt len) = 12" using l(2) by (simp add: pseudo_header_def be16_def)
    then show ?thesis unfolding assms(10) covered_put16 [OF l(1) assms(3,4,5)]
      using False seg stream_sum_covered [of nxt "flat ms" off len] l(2) by (simp add: stream_sum_append)
  next
    case True
    then show ?thesis unfolding assms(10) covered_put16 [OF l(1) assms(3,4,5)] using seg by (simp add: covered_def)
  qed
  moreover have "unat ck = 65535 - ones ?S" using assms(8) unfolding packet_cksum [OF assms(1)] by (auto simp: unat_of_nat)
  ultimately have "ones (stream_sum False (covered (flat ms') nxt off len)) = 65535" using ones_complete by simp
  moreover have "packet_ok ms' nxt off len" using assms(1,9,10) by (auto intro: packet_ok_same_length simp: put16_def)
  ultimately show ?thesis by (simp add: packet_cksum_zero)
qed

lemma ones_differ:
  assumes "S' + k * a = S + k * b" "a \<noteq> b" "a < 256" "b < 256" "k = 1 \<or> k = (256 :: nat)" "ones S = 65535"
  shows "ones S' \<noteq> 65535"
proof
  assume "ones S' = 65535"
  with assms(6) have "S' mod 65535 = 0" "S mod 65535 = 0" using ones_mod [of S] ones_mod [of S'] by simp_all
  then have "(k * a) mod 65535 = (S' + k * a) mod 65535" "(S + k * b) mod 65535 = (k * b) mod 65535"
    using mod_add_left_eq [of S' 65535 "k * a"] mod_add_left_eq [of S 65535 "k * b"] by simp_all
  with assms(1) have "(k * a) mod 65535 = (k * b) mod 65535" by simp
  moreover have "k * a < 65535" "k * b < 65535" using assms(3-5) by auto
  ultimately show False using assms(2,5) by auto
qed

text \<open>
  C26: a packet that verifies no longer does when any one byte of the segment is changed. With a pseudo header the byte is one
  after the 20 bytes of the IP header, from which the pseudo header is taken.
\<close>

theorem inet_cksum_detects_byte:
  assumes "packet_ok ms nxt off len" "inet_cksum ms nxt off len = Inr 0" "unat off \<le> i" "i < unat off + unat len" "nxt = 0 \<or> 20 \<le> i"
    "list_all mbuf_ok ms'" "flat ms' = (flat ms)[i := b]" "b \<noteq> flat ms ! i"
  shows "\<exists>r. inet_cksum ms' nxt off len = Inr r \<and> r \<noteq> 0"
proof -
  let ?seg = "take (unat len) (drop (unat off) (flat ms))" 
  obtain j where j: "i = unat off + j" using assms(3) le_Suc_ex by blast
  let ?S = "stream_sum False (covered (flat ms) nxt off len)" and ?S' = "stream_sum False (covered (flat ms') nxt off len)"
  let ?k = "if odd j then 256 else 1 :: nat"
  have l: "unat off + unat len \<le> length (flat ms)" "nxt \<noteq> 0 \<Longrightarrow> 20 \<le> length (flat ms)" using assms(1) unfolding packet_ok_def by auto
  have ok: "packet_ok ms' nxt off len" using assms(1,6,7) by (auto intro: packet_ok_same_length)
  have seg: "take (unat len) (drop (unat off) (flat ms')) = ?seg[j := b]"
    unfolding assms(7) j by (simp add: drop_update_swap take_update_swap)
  have "j < length ?seg" "?seg ! j = flat ms ! i" using l assms(4) j by simp_all
  from stream_sum_update [OF this(1), of False b] this(2)
  have u: "stream_sum False (?seg[j := b]) + ?k * unat (flat ms ! i) = stream_sum False ?seg + ?k * unat b" by simp
  have "pseudo_header (flat ms') nxt len = pseudo_header (flat ms) nxt len" if "nxt \<noteq> 0"
  proof (rule pseudo_header_take)
    show "take 20 (flat ms') = take 20 (flat ms)" unfolding assms(7) using assms(5) that by simp
  qed (use l that assms(7) in simp_all)
  then obtain P where "?S = P + stream_sum False ?seg" "?S' = P + stream_sum False (?seg[j := b])"
    using l stream_sum_covered [of nxt "flat ms" off len] stream_sum_covered [of nxt "flat ms'" off len] unfolding seg
    by (simp add: assms(7))
  then have "?S' + ?k * unat (flat ms ! i) = ?S + ?k * unat b" using u by (simp only: add.assoc)
  moreover have "unat (flat ms ! i) \<noteq> unat b" using assms(8) by (simp add: word_unat_eq_iff)
  moreover have "unat (flat ms ! i) < 256" "unat b < 256" using unat_bound [of b] unat_bound [of "flat ms ! i"] by simp_all
  moreover have "ones ?S = 65535" using assms(1,2) by (simp add: packet_cksum_zero)
  ultimately have "ones ?S' \<noteq> 65535" by (intro ones_differ [of ?S' ?k "unat (flat ms ! i)" ?S "unat b"]) simp_all
  then show ?thesis using packet_cksum_zero [OF ok] packet_cksum [OF ok] by simp
qed

subsection \<open>Contiguous packets and IP headers\<close>

lemma b_sum16_value:
  assumes "unat len \<le> length buf" "unat len < 2 ^ 31"
  shows "b_sum16 addr buf len = Inr (of_nat (ones (stream_sum False (take (unat len) buf))))"
  unfolding b_sum16_def os_cpu_in_cksum_value [OF assms] by (simp add: ucast_of_nat_ones)

text \<open>
  \<open>inet_cksum_buffer\<close>, on a packet in contiguous memory, gives what \<open>inet_cksum\<close> gives on any chain of mbufs with the same
  bytes, when the offset of the segment is less than its length.
\<close>

theorem inet_cksum_buffer_agrees:
  assumes "packet_ok ms nxt off len" "off < len"
  shows "inet_cksum_buffer addr (flat ms) nxt off len = inet_cksum ms nxt off len"
proof -
  have l: "unat len \<le> length (drop (unat off) (flat ms))" "unat len < 2 ^ 31" "unat off + unat len \<le> length (flat ms)"
    using assms(1) by (auto simp: packet_ok_def)
  have o: "\<not> len \<le> off" using assms(2) by simp
  note b = b_sum16_value [OF l(1,2), of "addr + unat off"]
  show ?thesis
  proof (cases "nxt = 0")
    case True
    then show ?thesis using o stream_sum_covered [of nxt "flat ms" off len]
      unfolding inet_cksum_buffer_def b packet_cksum [OF assms(1)] by (simp add: complement_sum_none)
  next
    case False
    then have n: "20 \<le> length (flat ms)" "unat nxt < 256" "unat len < 65536" using assms(1) by (auto simp: packet_ok_def)
    obtain p where p: "ip_pseudo (flat ms) (len + nxt) = Inr p" "unat p = ones (stream_sum False (pseudo_header (flat ms) nxt len))"
      by (rule ip_pseudo_ones [OF n])
    show ?thesis using False o n(1) stream_sum_covered [of nxt "flat ms" off len] complement_sum_some [OF p(2)] p(1)
      unfolding inet_cksum_buffer_def b packet_cksum [OF assms(1)] by simp
  qed
qed

lemma in_cksum_hdr_value:
  assumes "20 \<le> length ip"
  shows "in_cksum_hdr addr ip = Inr (of_nat (65535 - ones (stream_sum False (take 20 ip))))"
proof -
  have "(0xffff :: u16) = - 1" by simp
  then have "NOT w AND 0xffff = NOT w" for w :: u16 by (simp only: and.right_neutral)
  then have "NOT w AND 0xffff = - 1 - w" for w :: u16 by (simp add: not_eq_complement)
  moreover have "unat (- 1 - w) = 65535 - unat w" for w :: u16
    using unat_sub [of w "- 1"] by (simp add: unsigned_minus_1_eq_mask mask_eq_exp_minus_1)
  ultimately have u: "unat (NOT w AND 0xffff) = 65535 - unat w" for w :: u16 by simp
  have "unat (of_nat (65535 - n) :: u16) = 65535 - n" for n by (simp only: unat_of_nat) simp
  then have "NOT (of_nat (ones n) :: u16) AND 0xffff = of_nat (65535 - ones n)" for n
    by (simp only: word_unat_eq_iff u unat_of_nat_ones)
  then show ?thesis using b_sum16_value [of 20 ip addr] assms by (simp add: in_cksum_hdr_def)
qed

text \<open>
  The short cut of \<open>ip_cksum_hdr_dir\<close> for a header of 20 contiguous and aligned bytes does not change its result, which is
  that of \<open>inet_cksum\<close>; the statistics count one packet and the bytes of the header in the direction of the packet.
\<close>

theorem ip_cksum_hdr_dir_agrees:
  assumes "packet_ok m 0 0 hlen"
  shows "ip_cksum_hdr_dir m hlen out st = bindS (inet_cksum m 0 0 hlen) (\<lambda>r. Inr (r, count_swcsum hlen out st))"
proof -
  obtain m0 ms where m: "m = m0 # ms" using assms by (cases m) (auto simp: packet_ok_def)
  obtain l where l: "m_len m0 = int l" "l \<le> length (m_data m0)" "mbuf_bytes m0 = take l (m_data m0)" "length (mbuf_bytes m0) = l"
    using assms mbuf_ok_length [of m0] unfolding m packet_ok_def by auto
  show ?thesis
  proof (cases "hlen = 20 \<and> l \<ge> 20 \<and> hdr_aligned (m_addr m0)")
    case True
    then have "take 20 (flat m) = take 20 (m_data m0)" using l m by simp
    then have "inet_cksum m 0 0 hlen = in_cksum_hdr (m_addr m0) (m_data m0)"
      using packet_cksum [OF assms] in_cksum_hdr_value [of "m_data m0" "m_addr m0"] True l(2) by (simp add: covered_def)
    then show ?thesis using True l(1) by (simp add: ip_cksum_hdr_dir_def m)
  qed (auto simp: ip_cksum_hdr_dir_def m l(1))
qed

subsection \<open>IPv6\<close>

text \<open>An address as it is on the wire, without the scope that the kernel embeds in its second word, and the pseudo header.\<close>

definition wire_addr :: "u8 list \<Rightarrow> u8 list" where
  "wire_addr a = take 2 a @ (if scope_embed a then [0, 0] else take 2 (drop 2 a)) @ take 12 (drop 4 a)"

definition pseudo_header6 :: "u8 list \<Rightarrow> u32 \<Rightarrow> u32 \<Rightarrow> u8 list" where
  "pseudo_header6 ip6 nxt len =
    wire_addr (take 16 (drop 8 ip6)) @ wire_addr (take 16 (drop 24 ip6)) @ be_bytes len @ [0, 0, 0, ucast nxt]"

lemma add_addr_sum:
  assumes "length a = 16" "unat csum \<le> 2 ^ 20"
  shows "\<exists>w. add_addr a csum = Inr w \<and> unat w \<le> unat csum + 8 * 65536 \<and>
    ones (unat w) = ones (unat csum + stream_sum False (wire_addr a))"
proof -
  have s: "\<exists>v. add_loads k 2 a p w = Inr v \<and> unat v \<le> unat w + k * 65536 \<and>
      ones (unat v) = ones (unat w + stream_sum False (take (k * 2) (drop p a)))"
    if "p + k * 2 \<le> 16" "unat w \<le> 2 ^ 21" for p k and w :: u32
    using add_loads_sum [of p k 2 a w] that assms(1) by simp
  obtain w1 where w1: "add_loads 1 2 a 0 csum = Inr w1" "unat w1 \<le> unat csum + 65536"
    "ones (unat w1) = ones (unat csum + stream_sum False (take 2 a))"
    using s [of 0 1 csum] assms(2) by auto
  let ?m = "if scope_embed a then [0, 0] else take 2 (drop 2 a)"
  obtain w2 where w2: "(if \<not> scope_embed a then add_loads 1 2 a 2 w1 else Inr w1) = Inr w2" "unat w2 \<le> unat w1 + 65536"
    "ones (unat w2) = ones (unat w1 + stream_sum False ?m)"
    using s [of 2 1 w1] w1(2) assms(2) by (cases "scope_embed a") auto
  obtain w3 where w3: "add_loads 6 2 a 4 w2 = Inr w3" "unat w3 \<le> unat w2 + 6 * 65536"
    "ones (unat w3) = ones (unat w2 + stream_sum False (take 12 (drop 4 a)))"
    using s [of 4 6 w2] w1(2) w2(2) assms(2) by auto
  have "ones (unat w3) = ones (unat csum + stream_sum False (take 2 a) + stream_sum False ?m + stream_sum False (take 12 (drop 4 a)))"
    unfolding w3(3) by (rule ones_add_cong [OF _ refl]) (simp only: w2(3), rule ones_add_cong [OF w1(3) refl])
  also have "unat csum + stream_sum False (take 2 a) + stream_sum False ?m + stream_sum False (take 12 (drop 4 a)) =
      unat csum + stream_sum False (wire_addr a)"
    using assms(1) by (simp add: wire_addr_def stream_sum_append)
  finally show ?thesis using w1(1,2) w2(1,2) w3(1,2) by (simp add: add_addr_def)
qed

lemma bytes_bound: "a < 256 \<Longrightarrow> b < 256 \<Longrightarrow> c < 256 \<Longrightarrow> d \<le> 254 \<Longrightarrow> a + 256 * (b + 256 * (c + 256 * d)) < (4278190080 :: nat)"
  by simp

lemma htonl_bound: "unat x mod 256 \<noteq> 255 \<Longrightarrow> unat (htonl x) < 4278190080"
proof -
  assume "unat x mod 256 \<noteq> 255"
  moreover have "unat x mod 256 < 256" by simp
  ultimately have d: "unat x mod 256 \<le> 254" by linarith
  have b: "unat (ucast (drop_bit n x) :: u8) < 256" for n using unat_bound [of "ucast (drop_bit n x) :: u8"] by simp
  have "le (be_bytes x) = unat (ucast (drop_bit 24 x) :: u8) + 256 * (unat (ucast (drop_bit 16 x) :: u8) +
      256 * (unat (ucast (drop_bit 8 x) :: u8) + 256 * (unat x mod 256)))" by (simp add: be_bytes_def unat_low_byte)
  then show ?thesis unfolding htonl_ones using bytes_bound [OF b [of 24] b [of 16] b [of 8] d] by simp
qed

lemma in6_pseudo_ones:
  assumes "40 \<le> length ip6" "unat nxt < 256" "unat nxt + unat len < 2 ^ 32" "unat (nxt + len) mod 256 \<noteq> 255"
  obtains p where "ip6_pseudo ip6 (nxt + len) = Inr p" "unat p = ones (stream_sum False (pseudo_header6 ip6 nxt len))"
proof -
  let ?src = "take 16 (drop 8 ip6)" and ?dst = "take 16 (drop 24 ip6)" and ?l = "be_bytes len @ [0, 0, 0, ucast nxt]"
  have l: "length ?src = 16" "length ?dst = 16" using assms(1) by simp_all
  obtain s where s: "add_addr ?src 0 = Inr s" "unat s \<le> 8 * 65536" "ones (unat s) = ones (stream_sum False (wire_addr ?src))"
    using add_addr_sum [OF l(1), of 0] by auto
  obtain d where d: "add_addr ?dst s = Inr d" "unat d \<le> unat s + 8 * 65536" "ones (unat d) = ones (unat s + stream_sum False (wire_addr ?dst))"
    using add_addr_sum [OF l(2), of s] s(2) by auto
  have "unat (nxt + len) = unat nxt + unat len" using assms(3) by (simp add: unat_word_ariths)
  then have "ones (unat (htonl (nxt + len))) = ones (256 * unat len + 256 * unat nxt)" unfolding htonl_ones by (simp add: add.commute)
  also have "\<dots> = ones (stream_sum False (be_bytes len) + 256 * unat nxt)"
    using htonl_ones(2) [of len] ones_le_stream [of "be_bytes len"] by (intro ones_add_cong [OF _ refl]) simp
  also have "stream_sum False (be_bytes len) + 256 * unat nxt = stream_sum False ?l"
    using assms(2) unfolding stream_sum_append by (simp add: be_bytes_def unat_low_byte)
  finally have h: "ones (unat (htonl (nxt + len))) = ones (stream_sum False ?l)" .
  have "unat (d + htonl (nxt + len)) = unat d + unat (htonl (nxt + len))"
    using htonl_bound [OF assms(4)] s(2) d(2) by (simp add: unat_word_ariths)
  then have "unat (addcarry (d + htonl (nxt + len))) = ones (unat d + unat (htonl (nxt + len)))"
    using addcarry_ones [of "d + htonl (nxt + len)"] by simp
  also have "\<dots> = ones (unat s + stream_sum False (wire_addr ?dst) + stream_sum False ?l)" by (rule ones_add_cong [OF d(3) h])
  also have "\<dots> = ones (stream_sum False (wire_addr ?src) + stream_sum False (wire_addr ?dst) + stream_sum False ?l)"
    by (rule ones_add_cong [OF ones_add_cong [OF s(3) refl] refl])
  also have "stream_sum False (wire_addr ?src) + stream_sum False (wire_addr ?dst) + stream_sum False ?l =
      stream_sum False (pseudo_header6 ip6 nxt len)"
    unfolding pseudo_header6_def using l by (simp add: stream_sum_append wire_addr_def)
  finally have "unat (ucast (addcarry (d + htonl (nxt + len))) :: u16) = ones (stream_sum False (pseudo_header6 ip6 nxt len))"
    by (rule unat_ucast_ones)
  then show ?thesis using that s(1) d(1) assms(1) by (simp add: ip6_pseudo_def in6_pseudo_def)
qed

definition covered6 :: "u8 list \<Rightarrow> u32 \<Rightarrow> u32 \<Rightarrow> u32 \<Rightarrow> u8 list" where
  "covered6 pkt nxt off len = pseudo_header6 pkt nxt len @ take (unat len) (drop (unat off) pkt)"

lemma pseudo_header6_take:
  assumes "take 40 h = take 40 h'"
  shows "pseudo_header6 h nxt len = pseudo_header6 h' nxt len"
proof -
  have "take 16 (drop 8 (take 40 h)) = take 16 (drop 8 (take 40 h'))" "take 16 (drop 24 (take 40 h)) = take 16 (drop 24 (take 40 h'))"
    using assms by simp_all
  then show ?thesis unfolding pseudo_header6_def drop_take take_take by simp
qed

text \<open>
  C27: \<open>inet6_cksum\<close> is the complement of the one's complement sum of the segment and of the IPv6 pseudo header, in which
  addresses have no embedded scope, unless the last byte of the sum of length and next header is 255.
\<close>

theorem inet6_cksum_correct:
  assumes "list_all mbuf_ok ms" "length (flat ms) < 2 ^ 31" "0 < unat len" "unat off + unat len \<le> length (flat ms)"
    "40 \<le> length (flat ms)" "nxt \<noteq> 0" "unat nxt < 256" "unat (nxt + len) mod 256 \<noteq> 255"
  shows "inet6_cksum ms nxt off len = Inr (of_nat (65535 - ones (stream_sum False (covered6 (flat ms) nxt off len))))"
proof -
  obtain h where h: "header_bytes 40 ms = Inr h" "take 40 h = take 40 (flat ms)"
    by (rule header_bytes_flat [OF assms(1,2,5)]) simp_all
  have l: "40 \<le> length h" using take_eq_length [OF h(2) assms(5)] .
  have "unat nxt + unat len < 2 ^ 32" using assms(2,4,7) by simp
  then obtain p where p: "ip6_pseudo h (nxt + len) = Inr p" "unat p = ones (stream_sum False (pseudo_header6 h nxt len))"
    by (rule in6_pseudo_ones [OF l assms(7) _ assms(8)])
  have "unat p = ones (stream_sum False (pseudo_header6 (flat ms) nxt len))"
    using p(2) pseudo_header6_take [OF h(2)] by simp
  from complement_sum_some [OF this]
  have "inet6_cksum ms nxt off len = Inr (of_nat (65535 - ones (stream_sum False (pseudo_header6 (flat ms) nxt len) +
      stream_sum False (take (unat len) (drop (unat off) (flat ms))))))"
    using assms(6) m_sum16_value [OF assms(1-4)] h(1) p(1) by (simp add: inet6_cksum_def)
  moreover have "even (length (pseudo_header6 (flat ms) nxt len))"
    using assms(5) by (simp add: pseudo_header6_def wire_addr_def be_bytes_def)
  ultimately show ?thesis by (simp add: covered6_def stream_sum_append)
qed

lemma add_loads_numeral:
  "add_loads (numeral v) u bs p partial = bindS (load u bs p) (\<lambda>w. add_loads (pred_numeral v) u bs (p + u) (partial + w))"
  by (simp add: numeral_eq_Suc)

definition example_addr :: "u8 list" where
  "example_addr = [32, 32, 32, 32, 32, 32, 32, 32, 32, 32, 32, 32, 32, 32, 32, 32]"

lemma example_addr:
  "length example_addr = 16" "stream_sum False example_addr = 0x10100" "wire_addr example_addr = example_addr"
  "add_addr example_addr 0 = Inr 0x10100" "add_addr example_addr 0x10100 = Inr 0x20200"
  by (simp_all add: example_addr_def wire_addr_def add_addr_def scope_embed_def load_def add_loads_numeral)

text \<open>
  When that byte is 255, the 32-bit addition of the length in \<open>in6_pseudo\<close> can lose a carry, and the sum is one too small: so
  for UDP and a length of 65518, between two addresses of bytes 32.
\<close>

theorem in6_pseudo_loses_carry:
  "ip6_pseudo (replicate 8 0 @ example_addr @ example_addr) (17 + 65518) = Inr 0x201 \<and>
   ones (stream_sum False (pseudo_header6 (replicate 8 0 @ example_addr @ example_addr) 17 65518)) = 0x202"
proof -
  have "htonl 65535 = 0xffff0000" by (simp add: htonl_def be_bytes_def)
  moreover have "addcarry (4295033344 :: u32) = 0x201"
  proof -
    have "(4295033344 :: u32) = 0x10200" by simp
    then show ?thesis by (simp only:) (simp add: addcarry.simps)
  qed
  moreover have "stream_sum False (be_bytes 65518 @ [0, 0, 0, 17]) = 0xffff" by (simp add: be_bytes_def)
  ultimately show ?thesis
    by (simp add: ip6_pseudo_def in6_pseudo_def pseudo_header6_def example_addr stream_sum_append ones_def)
qed

subsection \<open>Adjusting a sum\<close>

text \<open>Every mbuf starts at an address of the parity that its position in the stream has.\<close>

fun aligned :: "bool \<Rightarrow> mbuf list \<Rightarrow> bool" where
  "aligned p [] \<longleftrightarrow> True"
| "aligned p (m # ms) \<longleftrightarrow> odd (m_addr m) = p \<and> aligned (p \<noteq> odd (m_len m)) ms"

lemma find_off_parity:
  assumes "list_all mbuf_ok ms" "aligned p ms" "length (flat ms) < 2 ^ 31" "unat off < length (flat ms)"
  shows "\<exists>m0 rest d. find_off ms off = Inr (m0 # rest, d) \<and> odd (m_addr m0 + unat d) = (p \<noteq> odd (unat off))"
  using assms
proof (induction ms arbitrary: p off)
  case (Cons m ms)
  obtain l where l: "m_len m = int l" "length (mbuf_bytes m) = l"
    by (rule mbuf_ok_length [of m]) (use Cons.prems in auto)
  have u: "unat (word_of_int (int l) :: u32) = l" using Cons.prems(3) l(2) by simp
  show ?case
  proof (cases "off > 0 \<and> \<not> off < word_of_int (int l)")
    case True
    let ?off = "off - word_of_int (int l)"
    have le: "l \<le> unat off" using True u by (simp add: word_less_nat_alt)
    then have d: "unat ?off = unat off - l" using u unat_sub [of "word_of_int (int l)" off] by (simp add: word_le_nat_alt)
    obtain m0 rest d' where f: "find_off ms ?off = Inr (m0 # rest, d')" "odd (m_addr m0 + unat d') = ((p \<noteq> odd l) \<noteq> odd (unat ?off))"
    proof -
      have "unat ?off < length (flat ms)" "length (flat ms) < 2 ^ 31" "list_all mbuf_ok ms" "aligned (p \<noteq> odd l) ms"
        using Cons.prems l le unfolding d by simp_all
      from Cons.IH [OF this(3,4,2,1)] show ?thesis using that by blast
    qed
    have "((p \<noteq> odd l) \<noteq> odd (unat ?off)) = (p \<noteq> odd (unat off))" unfolding d using le by (cases p) auto
    then show ?thesis using f True l(1) by simp
  next
    case False
    then show ?thesis using Cons.prems(2) l(1) by auto
  qed
qed simp

lemma sint_of_int_32: "- (2 ^ 31) \<le> n \<Longrightarrow> n < 2 ^ 31 \<Longrightarrow> sint (of_int n :: u32) = n"
  by (simp add: signed_of_int signed_take_bit_int_eq_self)

lemma sint_diff:
  assumes "unat (a :: u32) < 2 ^ 31" "unat b < 2 ^ 31"
  shows "sint (a - b) = int (unat a) - int (unat b)"
proof -
  obtain m n where m: "unat a = m" "unat b = n" by blast
  have "a = of_int (int m)" "b = of_int (int n)" using m by auto
  then have "a - b = of_int (int m - int n)" by simp
  moreover have "int m < 2 ^ 31" "int n < 2 ^ 31" using assms m by simp_all
  ultimately show ?thesis unfolding m by (simp only:) (rule sint_of_int_32; linarith)
qed

lemma swap16:
  assumes "unat (w :: u32) < 65536"
  shows "unat ((push_bit 8 w AND 0xffff) OR drop_bit 8 w) = 256 * (unat w mod 256) + unat w div 256"
proof -
  have w: "w = take_bit 16 w" using assms by (simp add: word_unat_eq_iff unat_take)
  have "(push_bit 8 (take_bit 16 w) AND 0xffff) AND drop_bit 8 (take_bit 16 w) = 0" by (rule bit_eqI) (auto simp: bit_simps)
  then have "(push_bit 8 w AND 0xffff) AND drop_bit 8 w = 0" unfolding w [symmetric] .
  from disjunctive_add_eq_or [OF this]
  have o: "(push_bit 8 w AND 0xffff) OR drop_bit 8 w = (push_bit 8 w AND 0xffff) + drop_bit 8 w" ..
  have p: "unat (push_bit 8 w AND 0xffff) = 256 * (unat w mod 256)"
    using assms mult_mod_right [of 256 "unat w" 256] by (simp add: and_ffff unat_push)
  have "unat w div 256 < 256" "unat w mod 256 < 256" using assms by (simp_all add: less_mult_imp_div_less)
  then show ?thesis unfolding o by (simp add: unat_word_ariths p unat_drop)
qed

lemma swap16_ones:
  assumes "unat (w :: u32) = ones (stream_sum False bs)"
  shows "ones (unat ((push_bit 8 w AND 0xffff) OR drop_bit 8 w)) = ones (stream_sum True bs)"
proof -
  obtain n q r where n: "unat w = n" "n div 256 = q" "n mod 256 = r" by blast
  have "n = 256 * q + r" using n mult_div_mod_eq [of 256 n] by simp
  then have "256 * n = 2 ^ 16 * q + 256 * r" by simp
  then have "ones (256 * n) = ones (q + 256 * r)" using ones_radix [of 16 q "256 * r"] by simp
  moreover have "ones (256 * n) = ones (stream_sum True bs)"
    using ones_mult_cong [of n "stream_sum False bs" 256] assms n(1) ones_swap [of False bs] by simp
  moreover have "unat w < 65536" using ones_le [of "stream_sum False bs"] assms by simp
  ultimately show ?thesis by (simp add: swap16 n add.commute)
qed

lemma ones_sub_mod:
  assumes "unat csum < 131072" "unat t \<le> 65535"
  shows "(unat (ones_sub csum t) + unat t) mod 65535 = unat csum mod 65535" "unat (ones_sub csum t) < 131072"
proof -
  consider "t = 0" | "t \<noteq> 0" "csum \<le> t" | "t \<noteq> 0" "\<not> csum \<le> t" by blast
  then have "(unat (ones_sub csum t) + unat t) mod 65535 = unat csum mod 65535 \<and> unat (ones_sub csum t) < 131072"
  proof cases
    case 2
    then have "unat (t - csum) = unat t - unat csum" "unat csum \<le> unat t" by (simp_all add: unat_sub word_le_nat_alt)
    moreover from this have "unat (NOT (t - csum) AND 0xffff) = 65535 - (unat t - unat csum)"
      using assms(2) unat_complement [of "t - csum"] by simp
    moreover have "65535 - (unat t - unat csum) + unat t = 65535 + unat csum" using assms(2) \<open>unat csum \<le> unat t\<close> by simp
    ultimately show ?thesis using 2 by (simp add: ones_sub_def)
  next
    case 3
    then have "unat (csum - t) = unat csum - unat t" "unat t \<le> unat csum" by (simp_all add: unat_sub word_le_nat_alt)
    then show ?thesis using 3 assms(1) by (simp add: ones_sub_def)
  qed (use assms in \<open>simp add: ones_sub_def\<close>)
  then show "(unat (ones_sub csum t) + unat t) mod 65535 = unat csum mod 65535" "unat (ones_sub csum t) < 131072" by simp_all
qed

lemma fold16_last:
  assumes "unat (v :: u32) < 262144"
  shows "unat (ucast (fold16 (fold16 (fold16 v)) AND 0xffff) :: u16) = ones (unat v)"
proof -
  have "unat (fold16 (fold16 (fold16 v))) = ones (unat v)"
    using unat_fold16 [of "fold16 (fold16 v)"] fold16_twice [OF assms] ones_le [of "unat v"] by simp
  then have "unat (fold16 (fold16 (fold16 v)) AND 0xffff) = ones (unat v)" using ones_le [of "unat v"] by (simp add: and_ffff)
  then show ?thesis by (rule unat_ucast_ones)
qed

lemma sum_excess_ones:
  assumes "list_all mbuf_ok ms" "aligned p ms" "length (flat ms) < 2 ^ 31" "unat off < length (flat ms)" "unat len = length (flat ms) - unat off"
  shows "\<exists>e. sum_excess ms off len = Inr e \<and> unat e \<le> 65535 \<and>
    unat e mod 65535 = stream_sum (p \<noteq> odd (unat off)) (drop (unat off) (flat ms)) mod 65535"
proof -
  let ?bs = "drop (unat off) (flat ms)"
  have m: "m_sum16 ms off len = Inr (of_nat (ones (stream_sum False ?bs)))"
    using m_sum16_value [OF assms(1,3), of len off] assms(4,5) by simp
  obtain m0 rest d where f: "find_off ms off = Inr (m0 # rest, d)" "odd (m_addr m0 + unat d) = (p \<noteq> odd (unat off))"
    using find_off_parity [OF assms(1-4)] by blast
  define x where "x = (ucast (of_nat (ones (stream_sum False ?bs)) :: u16) :: u32)"
  have x: "unat x = ones (stream_sum False ?bs)" unfolding x_def by (simp add: unat_ucast_up)
  define e where "e = (if p \<noteq> odd (unat off) then (push_bit 8 x AND 0xffff) OR drop_bit 8 x else x)"
  have "sum_excess ms off len = Inr e" using m f unfolding sum_excess_def e_def x_def Let_def by simp
  moreover have "unat e \<le> 65535"
  proof -
    have l: "unat x < 65536" using x ones_le [of "stream_sum False ?bs"] by simp
    obtain q r where q: "unat x div 256 = q" "unat x mod 256 = r" by blast
    have "unat x mod 256 < 256" by simp
    with l have "q < 256" "r < 256" unfolding q by (simp_all add: q [symmetric] less_mult_imp_div_less)
    then have "256 * r + q \<le> 65535" by linarith
    then show ?thesis using l unfolding e_def by (simp add: swap16 q)
  qed
  moreover have "ones (unat e) = ones (stream_sum (p \<noteq> odd (unat off)) ?bs)"
    using swap16_ones [OF x] x unfolding e_def by (cases "p \<noteq> odd (unat off)") simp_all
  ultimately show ?thesis using ones_eqD(1) by blast
qed

lemma cancel_mod:
  assumes "(r + t) mod 65535 = s mod 65535" "s mod 65535 = (d + e) mod 65535" "t mod 65535 = e mod (65535 :: nat)"
  shows "r mod 65535 = d mod 65535"
proof -
  have "(r + e) mod 65535 = (d + e) mod 65535" using assms mod_add_right_eq [of r t 65535] mod_add_right_eq [of r e 65535] by simp
  then show ?thesis by (auto simp: nat_mod_eq_iff)
qed


lemma stage_start:
  assumes "list_all mbuf_ok ms" "length (flat ms) < 2 ^ 31" "unat dataoff \<le> length (flat ms)" "unat start \<le> length (flat ms)"
    "even (unat start) = even (unat dataoff)" "unat (csum :: u32) \<le> 65535"
    "unat csum mod 65535 = stream_sum False (drop (unat start) (flat ms)) mod 65535"
  shows "\<exists>c t. (if sint (dataoff - start) > 0 then bindS (m_sum16 ms start (dataoff - start)) (\<lambda>s. Inr (csum, ucast s))
      else if sint (dataoff - start) < 0 then bindS (m_sum16 ms dataoff (- (dataoff - start))) (\<lambda>s. Inr (csum + ucast s, 0))
      else Inr (csum, 0)) = Inr (c, t) \<and> unat c < 131072 \<and> unat (t :: u32) \<le> 65535 \<and>
    unat c mod 65535 = (stream_sum False (drop (unat dataoff) (flat ms)) + unat t) mod 65535"
proof -
  have i: "sint (dataoff - start) = int (unat dataoff) - int (unat start)" using assms(2-4) by (intro sint_diff) simp_all
  have cut: "stream_sum False (drop a (flat ms)) = stream_sum False (take (b - a) (drop a (flat ms))) + stream_sum False (drop b (flat ms))"
    if "a \<le> b" "b \<le> length (flat ms)" "even a = even b" for a b
    using stream_sum_append [of False "take (b - a) (drop a (flat ms))" "drop b (flat ms)"] that
      append_take_drop_id [of "b - a" "drop a (flat ms)"] by simp
  consider (gt) "unat start < unat dataoff" | (lt) "unat dataoff < unat start" | (eq) "unat dataoff = unat start" by linarith
  then show ?thesis
  proof cases
    case gt
    let ?A = "stream_sum False (take (unat dataoff - unat start) (drop (unat start) (flat ms)))"
    have d: "unat (dataoff - start) = unat dataoff - unat start" using gt by (simp add: unat_sub word_le_nat_alt)
    have "m_sum16 ms start (dataoff - start) = Inr (of_nat (ones ?A))"
      using m_sum16_value [OF assms(1,2), of "dataoff - start" start] gt assms(3) unfolding d by simp
    moreover have "unat csum mod 65535 = (stream_sum False (drop (unat dataoff) (flat ms)) + ones ?A) mod 65535"
      unfolding assms(7) cut [OF less_imp_le [OF gt] assms(3,5)] mod_add_cong [OF refl ones_mod [of ?A]] by (simp only: add.commute)
    moreover have "sint (dataoff - start) > 0" unfolding i using gt by linarith
    ultimately show ?thesis using assms(6) ones_le [of ?A] by (simp add: unat_ucast_up)
  next
    case lt
    let ?A = "stream_sum False (take (unat start - unat dataoff) (drop (unat dataoff) (flat ms)))"
    have d: "unat (- (dataoff - start)) = unat start - unat dataoff" using lt by (simp add: unat_sub word_le_nat_alt)
    have m: "m_sum16 ms dataoff (- (dataoff - start)) = Inr (of_nat (ones ?A))"
      using m_sum16_value [OF assms(1,2), of "- (dataoff - start)" dataoff] lt assms(4) unfolding d by simp
    have u: "unat (csum + ucast (of_nat (ones ?A) :: u16)) = unat csum + ones ?A"
      using assms(6) ones_le [of ?A] by (simp add: unat_word_ariths unat_ucast_up)
    have "(unat csum + ones ?A) mod 65535 = (stream_sum False (drop (unat start) (flat ms)) + ?A) mod 65535"
      by (rule mod_add_cong [OF assms(7) ones_mod])
    then have "(unat csum + ones ?A) mod 65535 = stream_sum False (drop (unat dataoff) (flat ms)) mod 65535"
      unfolding cut [OF less_imp_le [OF lt] assms(4) assms(5) [symmetric]] by (simp only: add.commute)
    moreover have "sint (dataoff - start) < 0" unfolding i using lt by linarith
    ultimately show ?thesis using m u assms(6) ones_le [of ?A] by simp
  next
    case eq
    then show ?thesis using i assms(6,7) by simp
  qed
qed

lemma stage_excess:
  assumes "list_all mbuf_ok ms" "aligned p ms" "length (flat ms) < 2 ^ 31" "unat pktlen = length (flat ms)" "unat bytes \<le> length (flat ms)" "unat t \<le> 65535"
  shows "\<exists>t'. (if sint (pktlen - bytes) > 0 then bindS (sum_excess ms bytes (pktlen - bytes)) (\<lambda>extra. Inr (fold16 (t + extra))) else Inr t) = Inr t' \<and>
    unat t' \<le> 65535 \<and> unat t' mod 65535 = (unat t + stream_sum (p \<noteq> odd (unat bytes)) (drop (unat bytes) (flat ms))) mod 65535"
proof (cases "unat bytes = length (flat ms)")
  case True
  then show ?thesis using assms by (simp add: sint_diff)
next
  case False
  then have l: "unat bytes < length (flat ms)" using assms(5) by simp
  let ?E = "stream_sum (p \<noteq> odd (unat bytes)) (drop (unat bytes) (flat ms))"
  have "sint (pktlen - bytes) = int (unat pktlen) - int (unat bytes)" using l assms(3,4) by (intro sint_diff) simp_all
  then have i: "sint (pktlen - bytes) > 0" using l unfolding assms(4) by linarith
  have "unat (pktlen - bytes) = length (flat ms) - unat bytes" using l assms(4) by (simp add: unat_sub word_le_nat_alt)
  then obtain e where e: "sum_excess ms bytes (pktlen - bytes) = Inr e" "unat e \<le> 65535" "unat e mod 65535 = ?E mod 65535"
    using sum_excess_ones [OF assms(1-3) l] by blast
  have a: "unat (t + e) = unat t + unat e" using e(2) assms(6) by (simp add: unat_word_ariths)
  have "unat (fold16 (t + e)) = ones (unat t + unat e)"
    using unat_fold16 [of "t + e"] carry_last [of "unat t + unat e"] e(2) assms(6) unfolding a by simp
  moreover have "ones (unat t + unat e) mod 65535 = (unat t + ?E) mod 65535"
    unfolding ones_mod using e(3) by (rule mod_add_cong [OF refl])
  ultimately show ?thesis using i e(1) ones_le [of "unat t + unat e"] by simp
qed


text \<open>
  C28: \<open>m_adj_sum16\<close> turns a sum over a frame from \<open>start\<close> to its end into the sum of the data, when \<open>start\<close> and the offset of the
  data have the same parity and every mbuf starts at an address whose parity is that of its position counted from \<open>start\<close>. The
  two agree modulo 65535, so that the two zeros of one's complement arithmetic are not told apart. Without either condition
  on parity the code is wrong, as the two lemmas at the end of the theory show.
\<close>

theorem m_adj_sum16_correct:
  assumes "list_all mbuf_ok ms" "aligned (odd (unat start)) ms" "length (flat ms) < 2 ^ 31" "unat pktlen = length (flat ms)"
    "unat dataoff + unat datalen \<le> length (flat ms)" "unat start \<le> length (flat ms)" "even (unat start) = even (unat dataoff)"
    "unat csum \<le> 65535" "unat csum mod 65535 = stream_sum False (drop (unat start) (flat ms)) mod 65535"
  shows "\<exists>r. m_adj_sum16 ms pktlen start dataoff datalen csum = Inr r \<and>
    unat r mod 65535 = stream_sum False (take (unat datalen) (drop (unat dataoff) (flat ms))) mod 65535"
proof -
  let ?d = "unat dataoff" and ?n = "unat datalen" and ?b = "flat ms"
  let ?bytes = "dataoff + datalen"
  have bytes: "unat ?bytes = ?d + ?n" using assms(3,5) by (simp add: unat_word_ariths)
  have d: "?d \<le> length ?b" using assms(5) by simp
  obtain c t where c: "(if sint (dataoff - start) > 0 then bindS (m_sum16 ms start (dataoff - start)) (\<lambda>s. Inr (csum, ucast s))
      else if sint (dataoff - start) < 0 then bindS (m_sum16 ms dataoff (- (dataoff - start))) (\<lambda>s. Inr (csum + ucast s, 0))
      else Inr (csum, 0)) = Inr (c, t :: u32)" "unat c < 131072" "unat t \<le> 65535"
    "unat c mod 65535 = (stream_sum False (drop ?d ?b) + unat t) mod 65535"
    using stage_start [OF assms(1,3) d assms(6-9)] by blast
  let ?E = "stream_sum (odd (unat start) \<noteq> odd (?d + ?n)) (drop (?d + ?n) ?b)" and ?D = "stream_sum False (take ?n (drop ?d ?b))"
  obtain t' where t': "(if sint (pktlen - ?bytes) > 0 then bindS (sum_excess ms ?bytes (pktlen - ?bytes)) (\<lambda>extra. Inr (fold16 (t + extra))) else Inr t) = Inr t'"
    "unat t' \<le> 65535" "unat t' mod 65535 = (unat t + ?E) mod 65535"
    using stage_excess [OF assms(1-4) _ c(3), of ?bytes] assms(5) unfolding bytes by blast
  have "stream_sum False (drop ?d ?b) = ?D + stream_sum (odd ?n) (drop (?d + ?n) ?b)"
    using stream_sum_append [of False "take ?n (drop ?d ?b)" "drop (?d + ?n) ?b"] append_take_drop_id [of ?n "drop ?d ?b"] assms(5)
    by (simp add: add.commute)
  also have "odd ?n = (odd (unat start) \<noteq> odd (?d + ?n))" using assms(7) by auto
  finally have s: "unat c mod 65535 = (?D + (unat t + ?E)) mod 65535" using c(4) by (simp add: add_ac)
  note o = ones_sub_mod [OF c(2) t'(2)]
  have "unat (ucast (fold16 (fold16 (fold16 (ones_sub c t'))) AND 0xffff) :: u16) = ones (unat (ones_sub c t'))"
    by (rule fold16_last) (use o(2) in simp)
  moreover have "unat (ones_sub c t') mod 65535 = ?D mod 65535" by (rule cancel_mod [OF o(1) s t'(3)])
  moreover have "m_adj_sum16 ms pktlen start dataoff datalen csum = Inr (ucast (fold16 (fold16 (fold16 (ones_sub c t'))) AND 0xffff))"
    unfolding m_adj_sum16_def Let_def c(1) bindS_simps prod.case t'(1) ..
  ultimately show ?thesis by (simp add: ones_mod)
qed

subsection \<open>Examples\<close>

text \<open>A UDP packet without data, and the same with its checksum, cut at an odd offset.\<close>

definition udp_packet :: "u8 \<Rightarrow> u8 \<Rightarrow> u8 list" where
  "udp_packet a b = [0x45, 0, 0, 28, 0, 0, 0, 0, 64, 17, 0, 0, 10, 0, 0, 1, 10, 0, 0, 2, 0, 53, 0, 53, 0, 8, a, b]"

definition whole_chain :: "u8 list \<Rightarrow> mbuf list" where
  "whole_chain bs = [\<lparr>m_addr = 0, m_len = int (length bs), m_data = bs\<rparr>]"

definition cut_chain :: "u8 list \<Rightarrow> mbuf list" where
  "cut_chain bs = [\<lparr>m_addr = 0, m_len = 21, m_data = bs\<rparr>, \<lparr>m_addr = 1, m_len = int (length bs) - 21, m_data = drop 21 bs\<rparr>]"

lemma whole_chain:
  "list_all mbuf_ok (whole_chain bs)" "flat (whole_chain bs) = bs"
  by (simp_all add: whole_chain_def mbuf_ok_def mbuf_bytes_def)

lemma cut_chain:
  assumes "21 \<le> length bs"
  shows "list_all mbuf_ok (cut_chain bs)" "flat (cut_chain bs) = bs"
proof -
  have "nat (int (length bs) - 21) = length bs - 21" using assms by simp
  then show "list_all mbuf_ok (cut_chain bs)" "flat (cut_chain bs) = bs"
    using assms by (simp_all add: cut_chain_def mbuf_ok_def mbuf_bytes_def)
qed

lemma udp_packet:
  "length (udp_packet a b) = 28" "udp_packet a b ! 26 = a" "udp_packet a b ! 27 = b"
  "put16 26 0x71eb (udp_packet a b) = udp_packet 0xeb 0x71" "(udp_packet a b)[27 := b'] = udp_packet a b'"
  "covered (udp_packet a b) 17 20 8 = [10, 0, 0, 1, 10, 0, 0, 2, 0, 17, 0, 8, 0, 53, 0, 53, 0, 8, a, b]"
  by (simp_all add: udp_packet_def put16_def covered_def pseudo_header_def be16_def)

lemma udp_packet_ok: "packet_ok (whole_chain (udp_packet a b)) 17 20 8" "packet_ok (cut_chain (udp_packet a b)) 17 20 8"
  by (simp_all add: packet_ok_def whole_chain cut_chain udp_packet)

lemma udp_cksum:
  "inet_cksum (whole_chain (udp_packet 0 0)) 17 20 8 = Inr 0x71eb"
  "inet_cksum (whole_chain (udp_packet 0xeb 0x71)) 17 20 8 = Inr 0"
  by (simp_all add: packet_cksum [OF udp_packet_ok(1)] whole_chain udp_packet ones_def)

theorem inet_cksum_roundtrip_witness:
  "inet_cksum (whole_chain (udp_packet 0 0)) 17 20 8 = Inr 0x71eb \<and> inet_cksum (cut_chain (udp_packet 0xeb 0x71)) 17 20 8 = Inr 0"
proof (rule conjI [OF udp_cksum(1)])
  show "inet_cksum (cut_chain (udp_packet 0xeb 0x71)) 17 20 8 = Inr 0"
    by (rule inet_cksum_roundtrip [OF udp_packet_ok(1) _ _ _ _ _ _ udp_cksum(1), of 26]) (simp_all add: whole_chain cut_chain udp_packet)
qed

theorem inet_cksum_detects_byte_witness:
  "\<exists>r. inet_cksum (cut_chain (udp_packet 0xeb 0x70)) 17 20 8 = Inr r \<and> r \<noteq> 0"
  by (rule inet_cksum_detects_byte [OF udp_packet_ok(1) udp_cksum(2), where i = 27 and b = "0x70"]) (simp_all add: whole_chain cut_chain udp_packet)

text \<open>An IPv6 packet with a segment of four bytes.\<close>

definition ip6_packet :: "u8 list" where
  "ip6_packet = [0x60, 0, 0, 0, 0, 4, 17, 64] @ example_addr @ example_addr @ [1, 2, 3, 4]"

lemma ip6_packet: "length ip6_packet = 44" "drop 40 ip6_packet = [1, 2, 3, 4]"
  "pseudo_header6 ip6_packet nxt len = example_addr @ example_addr @ be_bytes len @ [0, 0, 0, ucast nxt]"
  by (simp_all add: ip6_packet_def pseudo_header6_def example_addr)

theorem inet6_cksum_correct_witness: "inet6_cksum (cut_chain ip6_packet) 17 40 4 = Inr 0xe2f9"
proof -
  have "stream_sum False (covered6 ip6_packet 17 40 4) = 0x21d04"
    by (simp add: covered6_def ip6_packet stream_sum_append example_addr be_bytes_def)
  then show ?thesis
    using inet6_cksum_correct [of "cut_chain ip6_packet" 4 40 17] by (simp add: cut_chain ip6_packet ones_def)
qed

theorem m_adj_sum16_correct_witness:
  "\<exists>r. m_adj_sum16 (cut_chain (udp_packet 1 2)) 28 14 20 5 0x770b = Inr r \<and> unat r mod 65535 = 27136 mod 65535"
  using m_adj_sum16_correct [where ms = "cut_chain (udp_packet 1 2)" and start = 14 and pktlen = 28 and dataoff = 20 and datalen = 5 and csum = "0x770b"]
  by (simp add: cut_chain udp_packet) (simp add: udp_packet_def cut_chain_def)

subsection \<open>Where the code deviates\<close>

text \<open>
  For a length of zero and data at an odd address the loop reads the leading byte all the same; the length of \<open>- 1\<close> then has every
  bit set that the code tests, and it reads far past the end.
\<close>

lemma os_cpu_in_cksum_mbuf_zero_overreads:
  "os_cpu_in_cksum_mbuf [\<lparr>m_addr = 3, m_len = 2, m_data = [1, 2]\<rparr>] 0 0 0 = Inl Overread"
  by (simp add: os_cpu_in_cksum_mbuf_def sum_mbuf64_def leading_byte_def sum_words64_def sum_blocks.simps add_rest_def add_if_def
      load_def add_loads_numeral)

text \<open>\<open>in_pseudo64\<close> adds in 64 bits and loses the carry.\<close>

lemma in_pseudo64_loses_carry: "in_pseudo64 0xffffffffffffffff 1 0 = 0 \<and> ones (0xffffffffffffffff + 1 + 0) = 1"
  by (simp add: in_pseudo64_def reduce16_def addcarry.simps ones_def)

text \<open>
  \<open>inet_cksum_buffer\<close> compares the offset of the segment with its length, and panics on a UDP packet without data, on which
  \<open>inet_cksum\<close> succeeds.
\<close>

lemma inet_cksum_buffer_panics:
  "inet_cksum_buffer addr (udp_packet 0 0) 17 20 8 = Inl Panic \<and> inet_cksum (whole_chain (udp_packet 0 0)) 17 20 8 = Inr 0x71eb"
  by (simp add: inet_cksum_buffer_def udp_cksum)

text \<open>
  \<open>m_adj_sum16\<close> takes the parity of the excess octets from their address. In the chain of the example, with the second mbuf at
  an even address, the sum of the data comes out wrong.
\<close>

definition moved_chain :: "u8 list \<Rightarrow> mbuf list" where
  "moved_chain bs = [\<lparr>m_addr = 0, m_len = 21, m_data = bs\<rparr>, \<lparr>m_addr = 0, m_len = int (length bs) - 21, m_data = drop 21 bs\<rparr>]"

lemma moved_chain:
  assumes "21 \<le> length bs"
  shows "list_all mbuf_ok (moved_chain bs)" "flat (moved_chain bs) = bs"
  using cut_chain [OF assms] by (simp_all add: moved_chain_def cut_chain_def mbuf_ok_def mbuf_bytes_def)

lemma m_adj_sum16_address_parity:
  "m_adj_sum16 (moved_chain (udp_packet 1 2)) 28 14 20 5 0x770b = Inr 29431"
proof -
  have m: "m_sum16 (moved_chain (udp_packet 1 2)) 14 6 = Inr 778" "m_sum16 (moved_chain (udp_packet 1 2)) 25 3 = Inr 266"
    by (simp_all add: m_sum16_value moved_chain udp_packet, simp_all add: udp_packet_def ones_def)
  have f: "find_off (moved_chain (udp_packet 1 2)) 25 = Inr (tl (moved_chain (udp_packet 1 2)), 4)" by (simp add: moved_chain_def udp_packet)
  show ?thesis
    by (simp add: m_adj_sum16_def m sum_excess_def f, simp add: moved_chain_def ones_sub_def fold16_def)
qed

text \<open>
  The first octets are subtracted without a look at the parity of their number. With the data at offset 1 of a frame summed
  from offset 0, the data \<open>2, 3, 4\<close> sum up to \<open>0x306\<close>, and the result is \<open>0x603\<close>.
\<close>

lemma m_adj_sum16_offset_parity:
  "m_adj_sum16 (whole_chain [1, 2, 3, 4]) 4 0 1 3 0x604 = Inr 0x603 \<and>
    stream_sum False [1, 2, 3, 4] = 0x604 \<and> stream_sum False [2, 3, 4] = 0x306"
proof -
  have "m_sum16 (whole_chain [1, 2, 3, 4]) 0 1 = Inr 1"
    by (simp add: m_sum16_value whole_chain) (simp add: ones_def)
  then have "m_adj_sum16 (whole_chain [1, 2, 3, 4]) 4 0 1 3 0x604 = Inr 0x603"
    by (simp add: m_adj_sum16_def ones_sub_def fold16_def word_le_nat_alt)
  then show ?thesis by simp
qed

end
