(* ===== verification/Libc_Sort.thy ===== *)
theory Libc_Sort
  imports Prelude
begin

text \<open>
  The sorting and searching routines of \<open>Libc/stdlib/FreeBSD\<close>: \<open>heapsort.c\<close>, \<open>qsort.c\<close> and \<open>bsearch.c\<close>. The routines are modelled on arrays
  of elements with a comparison function as a parameter; at the end the exchange of two elements is refined to the bytes of the
  array. The proofs show first that for every comparison function the routines stay inside the array, come to an end
  and only move elements, and then that they sort when the comparison function is an order.
\<close>

section \<open>Arrays of elements\<close>

text \<open>
  An array is the list of its elements and a pointer into it the index of an element. A comparison or an exchange outside the array is
  a fault. The comparison function is any function of two elements.
\<close>

datatype sort_fault = Out_of_bounds

type_synonym 'a cmp = "'a \<Rightarrow> 'a \<Rightarrow> int"

definition cmp_at :: "'a cmp \<Rightarrow> 'a list \<Rightarrow> nat \<Rightarrow> nat \<Rightarrow> sort_fault + int" where
  "cmp_at cmp xs i j = (if i < length xs \<and> j < length xs then Inr (cmp (xs ! i) (xs ! j)) else Inl Out_of_bounds)"

definition swap_at :: "'a list \<Rightarrow> nat \<Rightarrow> nat \<Rightarrow> sort_fault + 'a list" where
  "swap_at xs i j = (if i < length xs \<and> j < length xs then Inr (xs[i := xs ! j, j := xs ! i]) else Inl Out_of_bounds)"

definition copy_at :: "'a list \<Rightarrow> nat \<Rightarrow> nat \<Rightarrow> sort_fault + 'a list" where
  "copy_at xs i j = (if i < length xs \<and> j < length xs then Inr (xs[i := xs ! j]) else Inl Out_of_bounds)"

definition read_at :: "'a list \<Rightarrow> nat \<Rightarrow> sort_fault + 'a" where
  "read_at xs i = (if i < length xs then Inr (xs ! i) else Inl Out_of_bounds)"

definition write_at :: "'a list \<Rightarrow> nat \<Rightarrow> 'a \<Rightarrow> sort_fault + 'a list" where
  "write_at xs i x = (if i < length xs then Inr (xs[i := x]) else Inl Out_of_bounds)"

text \<open>\<open>vecswap\<close>: \<open>n\<close> elements, one after the other.\<close>

primrec vecswap :: "nat \<Rightarrow> nat \<Rightarrow> nat \<Rightarrow> 'a list \<Rightarrow> sort_fault + 'a list" where
  "vecswap 0 i j xs = Inr xs"
| "vecswap (Suc n) i j xs = bindS (swap_at xs i j) (vecswap n (Suc i) (Suc j))"

section \<open>heapsort.c\<close>

text \<open>
  The elements are numbered from 1: number \<open>i\<close> of the part of the array that starts at \<open>a\<close>. Number 0 is outside.
\<close>

definition elem :: "nat \<Rightarrow> nat \<Rightarrow> 'a list \<Rightarrow> nat" where
  "elem a i xs = (if i = 0 then length xs else a + i - 1)"

definition larger_child :: "'a cmp \<Rightarrow> nat \<Rightarrow> nat \<Rightarrow> nat \<Rightarrow> 'a list \<Rightarrow> sort_fault + nat" where
  "larger_child cmp a nmemb child_i xs =
    (if child_i < nmemb
     then bindS (cmp_at cmp xs (elem a child_i xs) (elem a (Suc child_i) xs)) (\<lambda>c. Inr (if c < 0 then Suc child_i else child_i))
     else Inr child_i)"

lemma larger_child_bounds: "larger_child cmp a nmemb child_i xs = Inr c \<Longrightarrow> child_i \<le> c"
  by (auto simp: larger_child_def bindS_def split: if_splits sum.splits)

function create :: "'a cmp \<Rightarrow> nat \<Rightarrow> nat \<Rightarrow> nat \<Rightarrow> 'a list \<Rightarrow> sort_fault + 'a list" where
  "create cmp a nmemb par_i xs =
    (if par_i * 2 \<le> nmemb
     then bindS (larger_child cmp a nmemb (par_i * 2) xs) (\<lambda>child_i.
       bindS (cmp_at cmp xs (elem a child_i xs) (elem a par_i xs)) (\<lambda>c.
       if c \<le> 0 then Inr xs
       else bindS (swap_at xs (elem a par_i xs) (elem a child_i xs)) (create cmp a nmemb child_i)))
     else Inr xs)"
  by pat_completeness auto

termination
proof (relation "measure (\<lambda>(cmp, a, nmemb, par_i, xs). Suc nmemb - par_i)")
qed (auto simp: cmp_at_def elem_def split: if_splits dest!: larger_child_bounds)


declare create.simps [simp del]

text \<open>\<open>SELECT\<close>: the larger children move up until the hole is a leaf; then the hole moves up to the place of \<open>k\<close>.\<close>

function sink_hole :: "'a cmp \<Rightarrow> nat \<Rightarrow> nat \<Rightarrow> nat \<Rightarrow> 'a list \<Rightarrow> sort_fault + (nat \<times> 'a list)" where
  "sink_hole cmp a nmemb par_i xs =
    (if par_i * 2 \<le> nmemb
     then bindS (larger_child cmp a nmemb (par_i * 2) xs) (\<lambda>child_i.
       bindS (copy_at xs (elem a par_i xs) (elem a child_i xs)) (sink_hole cmp a nmemb child_i))
     else Inr (par_i, xs))"
  by pat_completeness auto

termination
proof (relation "measure (\<lambda>(cmp, a, nmemb, par_i, xs). Suc nmemb - par_i)")
qed (auto simp: copy_at_def elem_def split: if_splits dest!: larger_child_bounds)

function raise_hole :: "'a cmp \<Rightarrow> nat \<Rightarrow> 'a \<Rightarrow> nat \<Rightarrow> 'a list \<Rightarrow> sort_fault + 'a list" where
  "raise_hole cmp a k child_i xs =
    (let par_i = child_i div 2 in
     if child_i = 1 then write_at xs (elem a child_i xs) k
     else bindS (read_at xs (elem a par_i xs)) (\<lambda>p.
       if cmp k p < 0 then write_at xs (elem a child_i xs) k
       else bindS (copy_at xs (elem a child_i xs) (elem a par_i xs)) (raise_hole cmp a k par_i)))"
  by pat_completeness auto

termination
  by (relation "measure (\<lambda>(cmp, a, k, child_i, xs). child_i)") (auto simp: read_at_def elem_def split: if_splits)

declare sink_hole.simps [simp del] raise_hole.simps [simp del]

definition select :: "'a cmp \<Rightarrow> nat \<Rightarrow> nat \<Rightarrow> 'a \<Rightarrow> 'a list \<Rightarrow> sort_fault + 'a list" where
  "select cmp a nmemb k xs = bindS (sink_hole cmp a nmemb 1 xs) (\<lambda>(par_i, xs). raise_hole cmp a k par_i xs)"

primrec create_all :: "'a cmp \<Rightarrow> nat \<Rightarrow> nat \<Rightarrow> nat \<Rightarrow> 'a list \<Rightarrow> sort_fault + 'a list" where
  "create_all cmp a nmemb 0 xs = Inr xs"
| "create_all cmp a nmemb (Suc l) xs = bindS (create cmp a nmemb (Suc l) xs) (create_all cmp a nmemb l)"

fun select_all :: "'a cmp \<Rightarrow> nat \<Rightarrow> nat \<Rightarrow> 'a list \<Rightarrow> sort_fault + 'a list" where
  "select_all cmp a nmemb xs =
    (if nmemb > 1
     then bindS (read_at xs (elem a nmemb xs)) (\<lambda>k.
       bindS (copy_at xs (elem a nmemb xs) (elem a 1 xs)) (\<lambda>xs.
       bindS (select cmp a (nmemb - 1) k xs) (select_all cmp a (nmemb - 1))))
     else Inr xs)"

declare select_all.simps [simp del]

text \<open>
  The result is the return value, 0 or \<open>- 1\<close>, and the array; \<open>sz\<close> is the size of an element, of which only zero matters on this
  level, and \<open>avail\<close> says whether \<open>malloc\<close> finds room for one element.
\<close>

definition heapsort :: "'a cmp \<Rightarrow> nat \<Rightarrow> bool \<Rightarrow> nat \<Rightarrow> nat \<Rightarrow> 'a list \<Rightarrow> sort_fault + (int \<times> 'a list)" where
  "heapsort cmp sz avail a nmemb xs =
    (if nmemb \<le> 1 then Inr (0, xs)
     else if sz = 0 then Inr (- 1, xs)
     else if \<not> avail then Inr (- 1, xs)
     else bindS (create_all cmp a nmemb (nmemb div 2) xs) (\<lambda>xs.
       bindS (select_all cmp a nmemb xs) (\<lambda>xs. Inr (0, xs))))"

section \<open>qsort.c\<close>

definition med3 :: "'a cmp \<Rightarrow> 'a list \<Rightarrow> nat \<Rightarrow> nat \<Rightarrow> nat \<Rightarrow> sort_fault + nat" where
  "med3 cmp xs a b c =
    bindS (cmp_at cmp xs a b) (\<lambda>ab.
      if ab < 0
      then bindS (cmp_at cmp xs b c) (\<lambda>bc. if bc < 0 then Inr b else bindS (cmp_at cmp xs a c) (\<lambda>ac. Inr (if ac < 0 then c else a)))
      else bindS (cmp_at cmp xs b c) (\<lambda>bc. if bc > 0 then Inr b else bindS (cmp_at cmp xs a c) (\<lambda>ac. Inr (if ac < 0 then a else c))))"

text \<open>The index of the last bit set.\<close>

fun flsl :: "nat \<Rightarrow> nat" where
  "flsl n = (if n = 0 then 0 else Suc (flsl (n div 2)))"

declare flsl.simps [simp del]

definition DEPTH :: "nat \<Rightarrow> int" where
  "DEPTH n = 2 * (int (flsl n) - 1)"

text \<open>\<open>_isort\<close>: moving one element to its place, which stops with \<open>False\<close> after too many exchanges, and all of them.\<close>

fun insert_elem :: "'a cmp \<Rightarrow> nat \<Rightarrow> int \<Rightarrow> nat \<Rightarrow> int \<Rightarrow> 'a list \<Rightarrow> sort_fault + (bool \<times> int \<times> 'a list)" where
  "insert_elem cmp a swap_limit pl swap_cnt xs =
    (if pl > a
     then bindS (cmp_at cmp xs (pl - 1) pl) (\<lambda>c.
       if c > 0
       then bindS (swap_at xs pl (pl - 1)) (\<lambda>xs.
         if swap_limit \<noteq> 0
         then if swap_cnt + 1 > swap_limit then Inr (False, swap_cnt + 1, xs) else insert_elem cmp a swap_limit (pl - 1) (swap_cnt + 1) xs
         else insert_elem cmp a swap_limit (pl - 1) swap_cnt xs)
       else Inr (True, swap_cnt, xs))
     else Inr (True, swap_cnt, xs))"

declare insert_elem.simps [simp del]

function isort_loop :: "'a cmp \<Rightarrow> nat \<Rightarrow> nat \<Rightarrow> int \<Rightarrow> nat \<Rightarrow> int \<Rightarrow> 'a list \<Rightarrow> sort_fault + (bool \<times> 'a list)" where
  "isort_loop cmp a n swap_limit pm swap_cnt xs =
    (if pm < a + n
     then bindS (insert_elem cmp a swap_limit pm swap_cnt xs) (\<lambda>(go_on, swap_cnt, xs).
       if go_on then isort_loop cmp a n swap_limit (pm + 1) swap_cnt xs else Inr (False, xs))
     else Inr (True, xs))"
  by pat_completeness auto

termination
  by (relation "measure (\<lambda>(cmp, a, n, swap_limit, pm, swap_cnt, xs). a + n - pm)") auto

declare isort_loop.simps [simp del]

definition isort :: "'a cmp \<Rightarrow> nat \<Rightarrow> nat \<Rightarrow> int \<Rightarrow> 'a list \<Rightarrow> sort_fault + (bool \<times> 'a list)" where
  "isort cmp a n swap_limit xs = isort_loop cmp a n swap_limit (a + 1) 0 xs"

text \<open>
  The two scans of the partition, in which elements equal to the median go to the ends of the array, and the loop over them. A pointer never
  moves below the array.
\<close>

definition dec :: "nat \<Rightarrow> sort_fault + nat" where
  "dec p = (if p = 0 then Inl Out_of_bounds else Inr (p - 1))"

function scan_up :: "'a cmp \<Rightarrow> nat \<Rightarrow> nat \<Rightarrow> nat \<Rightarrow> nat \<Rightarrow> bool \<Rightarrow> 'a list \<Rightarrow> sort_fault + (nat \<times> nat \<times> bool \<times> 'a list)" where
  "scan_up cmp a pc pa pb swapped xs =
    (if pb \<le> pc
     then bindS (cmp_at cmp xs pb a) (\<lambda>cmp_result.
       if cmp_result \<le> 0
       then if cmp_result = 0
         then bindS (swap_at xs pa pb) (scan_up cmp a pc (pa + 1) (pb + 1) True)
         else scan_up cmp a pc pa (pb + 1) swapped xs
       else Inr (pa, pb, swapped, xs))
     else Inr (pa, pb, swapped, xs))"
  by pat_completeness auto

termination
  by (relation "measure (\<lambda>(cmp, a, pc, pa, pb, swapped, xs). Suc pc - pb)") auto

function scan_down :: "'a cmp \<Rightarrow> nat \<Rightarrow> nat \<Rightarrow> nat \<Rightarrow> nat \<Rightarrow> bool \<Rightarrow> 'a list \<Rightarrow> sort_fault + (nat \<times> nat \<times> bool \<times> 'a list)" where
  "scan_down cmp a pb pc pd swapped xs =
    (if pb \<le> pc
     then bindS (cmp_at cmp xs pc a) (\<lambda>cmp_result.
       if cmp_result \<ge> 0
       then bindS (dec pc) (\<lambda>pc'.
         if cmp_result = 0
         then bindS (swap_at xs pc pd) (\<lambda>xs. bindS (dec pd) (\<lambda>pd'. scan_down cmp a pb pc' pd' True xs))
         else scan_down cmp a pb pc' pd swapped xs)
       else Inr (pc, pd, swapped, xs))
     else Inr (pc, pd, swapped, xs))"
  by pat_completeness auto

termination
  by (relation "measure (\<lambda>(cmp, a, pb, pc, pd, swapped, xs). pc)") (auto simp: dec_def split: if_splits)

declare scan_up.simps [simp del] scan_down.simps [simp del]

lemma scan_up_bound: "scan_up cmp a pc pa pb swapped xs = Inr (pa', pb', s, ys) \<Longrightarrow> pb \<le> pb'"
proof (induction cmp a pc pa pb swapped xs rule: scan_up.induct)
  case (1 cmp a pc pa pb swapped xs)
  show ?case using 1(3) "1.IH" by (subst (asm) scan_up.simps) (fastforce simp: bindS_eq_Inr_iff split: if_splits)
qed

lemma scan_down_bound: "scan_down cmp a pb pc pd swapped xs = Inr (pc', pd', s, ys) \<Longrightarrow> pc' \<le> pc"
proof (induction cmp a pb pc pd swapped xs rule: scan_down.induct)
  case (1 cmp a pb pc pd swapped xs)
  show ?case using 1(3) "1.IH" by (subst (asm) scan_down.simps) (fastforce simp: bindS_eq_Inr_iff dec_def split: if_splits)
qed

function part_loop :: "'a cmp \<Rightarrow> nat \<Rightarrow> nat \<Rightarrow> nat \<Rightarrow> nat \<Rightarrow> nat \<Rightarrow> bool \<Rightarrow> 'a list \<Rightarrow>
    sort_fault + (nat \<times> nat \<times> nat \<times> nat \<times> bool \<times> 'a list)" where
  "part_loop cmp a pa pb pc pd swapped xs =
    bindS (scan_up cmp a pc pa pb swapped xs) (\<lambda>(pa, pb, swapped, xs).
    bindS (scan_down cmp a pb pc pd swapped xs) (\<lambda>(pc, pd, swapped, xs).
    if pb > pc then Inr (pa, pb, pc, pd, swapped, xs)
    else bindS (swap_at xs pb pc) (\<lambda>xs. bindS (dec pc) (\<lambda>pc. part_loop cmp a pa (pb + 1) pc pd True xs))))"
  by pat_completeness auto

termination
proof (relation "measure (\<lambda>(cmp, a, pa, pb, pc, pd, swapped, xs). Suc pc - pb)")
qed (auto simp: dec_def split: if_splits dest!: scan_up_bound scan_down_bound)

declare part_loop.simps [simp del]

text \<open>The pseudomedian, of three elements or, in large arrays, of nine.\<close>

definition median :: "'a cmp \<Rightarrow> nat \<Rightarrow> nat \<Rightarrow> 'a list \<Rightarrow> sort_fault + nat" where
  "median cmp a n xs =
    (let pl = a; pm = a + n div 2; pn = a + (n - 1) in
     if n > 40
     then let d = n div 8 in
       bindS (med3 cmp xs pl (pl + d) (pl + 2 * d)) (\<lambda>pl.
       bindS (med3 cmp xs (pm - d) pm (pm + d)) (\<lambda>pm.
       bindS (med3 cmp xs (pn - 2 * d) (pn - d) pn) (\<lambda>pn. med3 cmp xs pl pm pn)))
     else med3 cmp xs pl pm pn)"

text \<open>From the choice of the median to the exchanges that bring the elements equal to it to the middle.\<close>

definition partition_seg :: "'a cmp \<Rightarrow> nat \<Rightarrow> nat \<Rightarrow> 'a list \<Rightarrow> sort_fault + (nat \<times> nat \<times> bool \<times> 'a list)" where
  "partition_seg cmp a n xs =
    bindS (median cmp a n xs) (\<lambda>pm.
    bindS (swap_at xs a pm) (\<lambda>xs.
    bindS (part_loop cmp a (a + 1) (a + 1) (a + (n - 1)) (a + (n - 1)) False xs) (\<lambda>(pa, pb, pc, pd, swapped, xs).
    let pn = a + n; d1 = min (pa - a) (pb - pa) in
    bindS (vecswap d1 a (pb - d1) xs) (\<lambda>xs.
    let d1 = min (pd - pc) (pn - pd - 1) in
    bindS (vecswap d1 pb (pn - d1) xs) (\<lambda>xs. Inr (pb - pa, pd - pc, swapped, xs))))))"

text \<open>
  \<open>_qsort\<close> on \<open>n\<close> elements from \<open>a\<close> on; the recursive calls and the jumps to \<open>loop\<close> differ only in the order of the two parts.
  \<open>avail a n\<close> says whether \<open>heapsort\<close> finds memory when it is called for that part of the array. Elements have at least one byte; 1
  stands for their size in the call of \<open>heapsort\<close>.
\<close>

function qsort_seg :: "'a cmp \<Rightarrow> (nat \<Rightarrow> nat \<Rightarrow> bool) \<Rightarrow> nat \<Rightarrow> nat \<Rightarrow> int \<Rightarrow> 'a list \<Rightarrow> sort_fault + 'a list" where
  "qsort_seg cmp avail a n depth_limit xs =
    (if depth_limit \<le> 0 then bindS (heapsort cmp 1 (avail a n) a n xs) (\<lambda>(r, xs). Inr xs)
     else if n \<le> 7 then bindS (isort cmp a n 0 xs) (\<lambda>(r, xs). Inr xs)
     else bindS (partition_seg cmp a n xs) (\<lambda>(d1, d2, swapped, xs).
       bindS (if \<not> swapped then isort cmp a n (sint (word_of_nat (1 + n div 4) :: u32)) xs else Inr (False, xs)) (\<lambda>(sorted, xs).
       if sorted then Inr xs
       else let depth_limit = depth_limit - 1 in
         if d1 \<le> d2
         then bindS (if d1 > 1 then qsort_seg cmp avail a d1 depth_limit xs else Inr xs) (\<lambda>xs.
           if d2 > 1 then qsort_seg cmp avail (a + n - d2) d2 depth_limit xs else Inr xs)
         else bindS (if d2 > 1 then qsort_seg cmp avail (a + n - d2) d2 depth_limit xs else Inr xs) (\<lambda>xs.
           if d1 > 1 then qsort_seg cmp avail a d1 depth_limit xs else Inr xs))))"
  by pat_completeness auto

termination
  by (relation "measure (\<lambda>(cmp, avail, a, n, depth_limit, xs). nat depth_limit)") auto

declare qsort_seg.simps [simp del]

definition qsort :: "'a cmp \<Rightarrow> (nat \<Rightarrow> nat \<Rightarrow> bool) \<Rightarrow> 'a list \<Rightarrow> sort_fault + 'a list" where
  "qsort cmp avail xs = qsort_seg cmp avail 0 (length xs) (DEPTH (length xs)) xs"

section \<open>bsearch.c\<close>

fun bsearch_loop :: "('k \<Rightarrow> 'a \<Rightarrow> int) \<Rightarrow> 'k \<Rightarrow> 'a list \<Rightarrow> nat \<Rightarrow> nat \<Rightarrow> sort_fault + nat option" where
  "bsearch_loop cmp key xs base lim =
    (if lim \<noteq> 0
     then let p = base + lim div 2 in
       bindS (read_at xs p) (\<lambda>x.
         let c = cmp key x in
         if c = 0 then Inr (Some p)
         else if c > 0 then bsearch_loop cmp key xs (p + 1) ((lim - 1) div 2)
         else bsearch_loop cmp key xs base (lim div 2))
     else Inr None)"

declare bsearch_loop.simps [simp del]

definition bsearch :: "('k \<Rightarrow> 'a \<Rightarrow> int) \<Rightarrow> 'k \<Rightarrow> 'a list \<Rightarrow> nat \<Rightarrow> sort_fault + nat option" where
  "bsearch cmp key base nmemb = bsearch_loop cmp key base 0 nmemb"

section \<open>Permutations within a part of the array\<close>

text \<open>The array \<open>ys\<close> has the elements of \<open>xs\<close>, and the same outside the \<open>n\<close> positions from \<open>a\<close> on.\<close>

definition permutes :: "nat \<Rightarrow> nat \<Rightarrow> 'a list \<Rightarrow> 'a list \<Rightarrow> bool" where
  "permutes a n xs ys \<longleftrightarrow> length ys = length xs \<and> mset ys = mset xs \<and> (\<forall>i < length xs. i < a \<or> a + n \<le> i \<longrightarrow> ys ! i = xs ! i)"

lemma permutes_refl [simp]: "permutes a n xs xs"
  by (simp add: permutes_def)

lemma permutes_trans: "permutes a n xs ys \<Longrightarrow> permutes a n ys zs \<Longrightarrow> permutes a n xs zs"
  by (auto simp: permutes_def)

lemma permutes_mono: "permutes b m xs ys \<Longrightarrow> a \<le> b \<Longrightarrow> b + m \<le> a + n \<Longrightarrow> permutes a n xs ys"
  by (auto simp: permutes_def)

lemma permutes_length: "permutes a n xs ys \<Longrightarrow> length ys = length xs"
  by (simp add: permutes_def)

lemma swap_at_permutes:
  assumes "a + n \<le> length xs" "a \<le> i" "i < a + n" "a \<le> j" "j < a + n"
  shows "\<exists>ys. swap_at xs i j = Inr ys \<and> permutes a n xs ys"
  using assms mset_swap [of j xs i] by (auto simp: swap_at_def permutes_def)

lemma cmp_at_in:
  assumes "i < length xs" "j < length xs"
  shows "cmp_at cmp xs i j = Inr (cmp (xs ! i) (xs ! j))"
  using assms by (simp add: cmp_at_def)

lemma vecswap_permutes:
  assumes "a + n \<le> length xs" "a \<le> i" "i + m \<le> a + n" "a \<le> j" "j + m \<le> a + n"
  shows "\<exists>ys. vecswap m i j xs = Inr ys \<and> permutes a n xs ys"
  using assms
proof (induction m arbitrary: i j xs)
  case (Suc m)
  obtain ys where ys: "swap_at xs i j = Inr ys" "permutes a n xs ys" using swap_at_permutes [of a n xs i j] Suc.prems by auto
  then show ?case using Suc.IH [of ys "Suc i" "Suc j"] Suc.prems permutes_length [OF ys(2)] by (auto intro: permutes_trans)
qed simp

text \<open>Insertion sort.\<close>

lemma insert_elem_permutes:
  assumes "a + n \<le> length xs" "pl < a + n"
  shows "\<exists>r c ys. insert_elem cmp a swap_limit pl swap_cnt xs = Inr (r, c, ys) \<and> permutes a n xs ys"
  using assms
proof (induction cmp a swap_limit pl swap_cnt xs rule: insert_elem.induct)
  case (1 cmp a swap_limit pl swap_cnt xs)
  show ?case
  proof (cases "pl > a \<and> cmp (xs ! (pl - 1)) (xs ! pl) > 0")
    case False
    then show ?thesis using 1(3,4) by (subst insert_elem.simps) (auto simp: cmp_at_in)
  next
    case True
    then have "a \<le> pl" "a \<le> pl - 1" "pl - 1 < a + n" using 1(4) by auto
    then obtain ys where ys: "swap_at xs pl (pl - 1) = Inr ys" "permutes a n xs ys"
      using swap_at_permutes [OF 1(3) _ 1(4), of "pl - 1"] by blast
    have pl: "pl - 1 < a + n" using 1(4) by simp
    have c: "cmp_at cmp xs (pl - 1) pl = Inr (cmp (xs ! (pl - 1)) (xs ! pl))" using 1(3,4) by (intro cmp_at_in) auto
    have l: "length ys = length xs" using ys(2) by (rule permutes_length)
    note IH = 1(1) [OF _ c _ ys(1)] 1(2) [OF _ c _ ys(1)]
    consider (stop) "swap_limit \<noteq> 0" "swap_cnt + 1 > swap_limit" | (more) "swap_limit \<noteq> 0" "\<not> swap_cnt + 1 > swap_limit" | (free) "swap_limit = 0" by blast
    then show ?thesis
    proof cases
      case stop
      then show ?thesis using True c ys by (subst insert_elem.simps) auto
    next
      case more
      then obtain r k zs where "insert_elem cmp a swap_limit (pl - 1) (swap_cnt + 1) ys = Inr (r, k, zs)" "permutes a n ys zs"
        using IH(1) True 1(3) l pl by auto
      then show ?thesis using True c ys more permutes_trans by (subst insert_elem.simps) auto
    next
      case free
      then obtain r k zs where "insert_elem cmp a swap_limit (pl - 1) swap_cnt ys = Inr (r, k, zs)" "permutes a n ys zs"
        using IH(2) True 1(3) l pl by auto
      then show ?thesis using True c ys free permutes_trans by (subst insert_elem.simps) auto
    qed
  qed
qed

lemma isort_permutes:
  assumes "a + n \<le> length xs"
  shows "\<exists>r ys. isort cmp a n swap_limit xs = Inr (r, ys) \<and> permutes a n xs ys"
proof -
  have "\<exists>r ys. isort_loop cmp a n swap_limit pm swap_cnt xs = Inr (r, ys) \<and> permutes a n xs ys" for pm swap_cnt
    using assms
  proof (induction cmp a n swap_limit pm swap_cnt xs rule: isort_loop.induct)
    case (1 cmp a n swap_limit pm swap_cnt xs)
    show ?case
    proof (cases "pm < a + n")
      case False
      then show ?thesis by (subst isort_loop.simps) auto
    next
      case True
      obtain r k ys where ys: "insert_elem cmp a swap_limit pm swap_cnt xs = Inr (r, k, ys)" "permutes a n xs ys"
        using insert_elem_permutes [OF 1(2) True] by blast
      show ?thesis
      proof (cases r)
        case r: True
        then obtain r' zs where "isort_loop cmp a n swap_limit (pm + 1) k ys = Inr (r', zs)" "permutes a n ys zs"
          using 1(1) [OF True ys(1) refl refl r] 1(2) permutes_length [OF ys(2)] by auto
        then show ?thesis using True ys r permutes_trans by (subst isort_loop.simps) auto
      qed (use True ys in \<open>subst isort_loop.simps, auto\<close>)
    qed
  qed
  then show ?thesis by (simp add: isort_def)
qed

section \<open>The heap never leaves its part of the array\<close>

lemma elem_in:
  assumes "1 \<le> i" "i \<le> n" "a + n \<le> length xs"
  shows "a \<le> elem a i xs" "elem a i xs < a + n" "elem a i xs < length xs"
  using assms by (auto simp: elem_def)

lemma elem_length: "length ys = length xs \<Longrightarrow> elem a i ys = elem a i xs"
  by (simp add: elem_def)

lemma elem_update [simp]: "elem a i (xs[j := x]) = elem a i xs"
  by (simp add: elem_def)

lemma elem_inj: "1 \<le> i \<Longrightarrow> 1 \<le> j \<Longrightarrow> elem a i xs = elem a j xs \<longleftrightarrow> i = j"
  by (auto simp: elem_def)

lemma larger_child_in:
  assumes "a + n \<le> length xs" "1 \<le> c" "c \<le> n"
  shows "\<exists>c'. larger_child cmp a n c xs = Inr c' \<and> (c' = c \<or> c' = Suc c) \<and> c' \<le> n"
proof (cases "c < n")
  case True
  then have "1 \<le> Suc c" "Suc c \<le> n" by simp_all
  note e = elem_in(3) [OF assms(2,3,1)] elem_in(3) [OF this assms(1)]
  show ?thesis using True by (auto simp: larger_child_def cmp_at_in [OF e])
qed (use assms in \<open>simp add: larger_child_def\<close>)

lemma create_permutes:
  assumes "a + n \<le> length xs" "1 \<le> par_i"
  shows "\<exists>ys. create cmp a n par_i xs = Inr ys \<and> permutes a n xs ys"
  using assms
proof (induction cmp a n par_i xs rule: create.induct)
  case (1 cmp a n par_i xs)
  show ?case
  proof (cases "par_i * 2 \<le> n")
    case True
    obtain c where c: "larger_child cmp a n (par_i * 2) xs = Inr c" "c = par_i * 2 \<or> c = Suc (par_i * 2)" "c \<le> n"
      using larger_child_in [OF 1(2), of "par_i * 2"] True 1(3) by auto
    have p: "1 \<le> c" "par_i \<le> n" using c(2) True 1(3) by auto
    note ec = elem_in [OF p(1) c(3) 1(2)] and ep = elem_in [OF 1(3) p(2) 1(2)]
    have d: "cmp_at cmp xs (elem a c xs) (elem a par_i xs) = Inr (cmp (xs ! elem a c xs) (xs ! elem a par_i xs))"
      by (rule cmp_at_in [OF ec(3) ep(3)])
    show ?thesis
    proof (cases "cmp (xs ! elem a c xs) (xs ! elem a par_i xs) \<le> 0")
      case stop: True
      then show ?thesis using True c d by (subst create.simps) simp
    next
      case False
      obtain ys where ys: "swap_at xs (elem a par_i xs) (elem a c xs) = Inr ys" "permutes a n xs ys"
        using swap_at_permutes [OF 1(2) ep(1,2) ec(1,2)] by blast
      obtain zs where "create cmp a n c ys = Inr zs" "permutes a n ys zs"
        using 1(1) [OF True c(1) d False ys(1) _ p(1)] 1(2) permutes_length [OF ys(2)] by auto
      then show ?thesis using True c d False ys permutes_trans by (subst create.simps) auto
    qed
  qed (use 1 in \<open>subst create.simps, simp\<close>)
qed

lemma create_all_permutes:
  "a + n \<le> length xs \<Longrightarrow> \<exists>ys. create_all cmp a n l xs = Inr ys \<and> permutes a n xs ys"
proof (induction l arbitrary: xs)
  case (Suc l)
  obtain ys where ys: "create cmp a n (Suc l) xs = Inr ys" "permutes a n xs ys" using create_permutes [OF Suc.prems, of "Suc l"] by auto
  then show ?case using Suc.IH [of ys] Suc.prems permutes_length [OF ys(2)] by (auto intro: permutes_trans)
qed simp

text \<open>The array with the element \<open>k\<close> put into the hole is what is permuted.\<close>

lemma move_hole:
  assumes "a \<le> i" "i < a + n" "a \<le> j" "j < a + n" "a + n \<le> length xs"
  shows "permutes a n (xs[i := k]) ((xs[i := xs ! j])[j := k])"
proof (cases "i = j")
  case False
  have "permutes a n (xs[i := k]) ((xs[i := k])[j := (xs[i := k]) ! i, i := (xs[i := k]) ! j])"
    using mset_swap [of i "xs[i := k]" j] assms by (auto simp: permutes_def)
  moreover have "(xs[i := k])[j := (xs[i := k]) ! i, i := (xs[i := k]) ! j] = (xs[i := xs ! j])[j := k]"
    using False assms by (simp add: list_update_swap [of j i])
  ultimately show ?thesis by simp
qed simp

lemma sink_hole_permutes:
  assumes "a + n \<le> length xs" "1 \<le> i" "i \<le> n"
  shows "\<exists>j ys. sink_hole cmp a n i xs = Inr (j, ys) \<and> 1 \<le> j \<and> j \<le> n \<and> permutes a n (xs[elem a i xs := k]) (ys[elem a j ys := k])"
  using assms
proof (induction cmp a n i xs rule: sink_hole.induct)
  case (1 cmp a n i xs)
  show ?case
  proof (cases "i * 2 \<le> n")
    case True
    obtain c where c: "larger_child cmp a n (i * 2) xs = Inr c" "c = i * 2 \<or> c = Suc (i * 2)" "c \<le> n"
      using larger_child_in [OF 1(2), of "i * 2"] True 1(3) by auto
    have p: "1 \<le> c" using c(2) 1(3) by auto
    note ec = elem_in [OF p c(3) 1(2)] and ep = elem_in [OF 1(3,4,2)]
    have d: "copy_at xs (elem a i xs) (elem a c xs) = Inr (xs[elem a i xs := xs ! elem a c xs])" using ec ep by (simp add: copy_at_def)
    obtain j ys where "sink_hole cmp a n c (xs[elem a i xs := xs ! elem a c xs]) = Inr (j, ys)" "1 \<le> j" "j \<le> n"
      "permutes a n ((xs[elem a i xs := xs ! elem a c xs])[elem a c xs := k]) (ys[elem a j ys := k])"
      using 1(1) [OF True c(1) d _ p c(3)] 1(2) by auto
    then show ?thesis using True c(1) d move_hole [OF ep(1,2) ec(1,2) 1(2), of k] permutes_trans by (subst sink_hole.simps) auto
  qed (use 1 in \<open>subst sink_hole.simps, auto\<close>)
qed

lemma raise_hole_permutes:
  assumes "a + n \<le> length xs" "1 \<le> i" "i \<le> n"
  shows "\<exists>ys. raise_hole cmp a k i xs = Inr ys \<and> permutes a n (xs[elem a i xs := k]) ys"
  using assms
proof (induction cmp a k i xs rule: raise_hole.induct)
  case (1 cmp a k i xs)
  note ei = elem_in [OF 1(3,4,2)]
  show ?case
  proof (cases "i = 1")
    case True
    then show ?thesis using ei by (subst raise_hole.simps) (simp add: write_at_def)
  next
    case False
    then have p: "1 \<le> i div 2" "i div 2 \<le> n" using 1(3,4) by auto
    note ep = elem_in [OF p 1(2)]
    let ?ys = "xs[elem a i xs := xs ! elem a (i div 2) xs]"
    have d: "read_at xs (elem a (i div 2) xs) = Inr (xs ! elem a (i div 2) xs)" "copy_at xs (elem a i xs) (elem a (i div 2) xs) = Inr ?ys"
      using ei ep by (simp_all add: read_at_def copy_at_def)
    show ?thesis
    proof (cases "cmp k (xs ! elem a (i div 2) xs) < 0")
      case True
      then show ?thesis using False d ei by (subst raise_hole.simps) (simp add: write_at_def)
    next
      case c: False
      obtain zs where "raise_hole cmp a k (i div 2) ?ys = Inr zs" "permutes a n (?ys[elem a (i div 2) ?ys := k]) zs"
        using 1(1) [OF refl False d(1) c d(2) _ p] 1(2) by auto
      then show ?thesis using False c d move_hole [OF ei(1,2) ep(1,2) 1(2), of k] permutes_trans by (subst raise_hole.simps) auto
    qed
  qed
qed

lemma select_permutes:
  assumes "a + n \<le> length xs" "1 \<le> n"
  shows "\<exists>ys. select cmp a n k xs = Inr ys \<and> permutes a n (xs[a := k]) ys"
proof -
  have e: "elem a 1 xs = a" by (simp add: elem_def)
  obtain j ys where s: "sink_hole cmp a n 1 xs = Inr (j, ys)" "1 \<le> j" "j \<le> n" "permutes a n (xs[a := k]) (ys[elem a j ys := k])"
    using sink_hole_permutes [OF assms(1) order_refl assms(2)] unfolding e by blast
  have "length ys = length xs" using permutes_length [OF s(4)] by simp
  then obtain zs where "raise_hole cmp a k j ys = Inr zs" "permutes a n (ys[elem a j ys := k]) zs"
    using raise_hole_permutes [of a n ys j] assms(1) s(2,3) by auto
  then show ?thesis using s permutes_trans by (auto simp: select_def)
qed

lemma select_all_permutes:
  "a + n \<le> length xs \<Longrightarrow> \<exists>ys. select_all cmp a n xs = Inr ys \<and> permutes a n xs ys"
proof (induction cmp a n xs rule: select_all.induct)
  case (1 cmp a n xs)
  show ?case
  proof (cases "n > 1")
    case True
    have n: "1 \<le> n" "n \<le> n" "1 \<le> n - 1" using True by simp_all
    note en = elem_in [OF n(1,2) 1(2)]
    have e1: "elem a 1 xs = a" by (simp add: elem_def)
    have en': "elem a n xs = a + (n - 1)" using True by (simp add: elem_def)
    let ?k = "xs ! elem a n xs" and ?ys = "xs[elem a n xs := xs ! a]"
    have d: "read_at xs (elem a n xs) = Inr ?k" "copy_at xs (elem a n xs) (elem a 1 xs) = Inr ?ys"
      using en True 1(2) unfolding e1 by (simp_all add: read_at_def copy_at_def)
    obtain zs where zs: "select cmp a (n - 1) ?k ?ys = Inr zs" "permutes a (n - 1) (?ys[a := ?k]) zs"
    proof -
      have "a + (n - 1) \<le> length ?ys" using 1(2) by simp
      from select_permutes [OF this n(3)] show ?thesis using that by blast
    qed
    have "permutes a n xs (?ys[a := ?k])"
      using True 1(2) mset_swap [of a xs "a + (n - 1)"] unfolding en' by (auto simp: permutes_def)
    moreover have "permutes a n (?ys[a := ?k]) zs" using zs(2) by (rule permutes_mono) simp_all
    ultimately have p: "permutes a n xs zs" by (rule permutes_trans)
    obtain ws where "select_all cmp a (n - 1) zs = Inr ws" "permutes a (n - 1) zs ws"
    proof -
      have "a + (n - 1) \<le> length zs" using 1(2) permutes_length [OF p] by simp
      from 1(1) [OF True d zs(1) this] show ?thesis using that by blast
    qed
    then show ?thesis using True d zs(1) p permutes_trans permutes_mono [of a "n - 1" zs ws a n] by (subst select_all.simps) auto
  qed (use 1 in \<open>subst select_all.simps, simp\<close>)
qed

lemma heapsort_permutes:
  assumes "a + n \<le> length xs"
  shows "\<exists>r ys. heapsort cmp sz avail a n xs = Inr (r, ys) \<and> permutes a n xs ys"
proof -
  obtain ys where ys: "create_all cmp a n (n div 2) xs = Inr ys" "permutes a n xs ys" using create_all_permutes [OF assms] by blast
  obtain zs where "select_all cmp a n ys = Inr zs" "permutes a n ys zs"
    using select_all_permutes [of a n ys] assms permutes_length [OF ys(2)] by auto
  then show ?thesis using ys permutes_trans by (auto simp: heapsort_def)
qed

section \<open>Partitioning\<close>

text \<open>
  The state of the partition: the elements from \<open>a + 1\<close> on that compare equal to the median \<open>x\<close>, those that are less, then, from the other end,
  those that are equal and those that are greater.
\<close>

definition parted :: "'a cmp \<Rightarrow> nat \<Rightarrow> nat \<Rightarrow> 'a \<Rightarrow> nat \<Rightarrow> nat \<Rightarrow> nat \<Rightarrow> nat \<Rightarrow> 'a list \<Rightarrow> bool" where
  "parted cmp a n x pa pb pc pd xs \<longleftrightarrow>
    a + n \<le> length xs \<and> a < pa \<and> pa \<le> pb \<and> pb \<le> pc + 1 \<and> pc \<le> pd \<and> pd < a + n \<and> xs ! a = x \<and>
    (\<forall>i. a < i \<and> i < pa \<longrightarrow> cmp (xs ! i) x = 0) \<and> (\<forall>i. pa \<le> i \<and> i < pb \<longrightarrow> cmp (xs ! i) x < 0) \<and>
    (\<forall>i. pc < i \<and> i \<le> pd \<longrightarrow> cmp (xs ! i) x > 0) \<and> (\<forall>i. pd < i \<and> i < a + n \<longrightarrow> cmp (xs ! i) x = 0)"

lemma swap_at_eq: "i < length xs \<Longrightarrow> j < length xs \<Longrightarrow> swap_at xs i j = Inr (xs[i := xs ! j, j := xs ! i])"
  by (simp add: swap_at_def)

lemma nth_swap: "i < length xs \<Longrightarrow> j < length xs \<Longrightarrow>
    xs[i := xs ! j, j := xs ! i] ! k = (if k = i then xs ! j else if k = j then xs ! i else xs ! k)"
  by (auto simp: nth_list_update)

lemma swap_permutes:
  "a + n \<le> length xs \<Longrightarrow> a \<le> i \<Longrightarrow> i < a + n \<Longrightarrow> a \<le> j \<Longrightarrow> j < a + n \<Longrightarrow> permutes a n xs (xs[i := xs ! j, j := xs ! i])"
  using swap_at_permutes [of a n xs i j] by (auto simp: swap_at_def)

lemma parted_swap_up:
  assumes "parted cmp a n x pa pb pc pd xs" "pb \<le> pc" "cmp (xs ! pb) x = 0"
  shows "parted cmp a n x (pa + 1) (pb + 1) pc pd (xs[pa := xs ! pb, pb := xs ! pa])"
proof -
  have "pa < length xs" "pb < length xs" using assms(1,2) by (auto simp: parted_def)
  note nth_swap [OF this]
  moreover have "cmp (xs ! pa) x < 0 \<or> pa = pb" using assms(1) by (auto simp: parted_def)
  ultimately show ?thesis using assms by (auto simp: parted_def less_Suc_eq)
qed

lemma parted_swap_down:
  assumes "parted cmp a n x pa pb pc pd xs" "pb \<le> pc" "cmp (xs ! pc) x = 0"
  shows "parted cmp a n x pa pb (pc - 1) (pd - 1) (xs[pc := xs ! pd, pd := xs ! pc])"
proof -
  have "pc < length xs" "pd < length xs" "0 < pc" using assms(1,2) by (auto simp: parted_def)
  note nth_swap [OF this(1,2)] this(3)
  moreover have "cmp (xs ! pd) x > 0 \<or> pc = pd" using assms(1) by (auto simp: parted_def)
  moreover have "pc - 1 < i \<longleftrightarrow> pc < i \<or> i = pc" "i \<le> pd - 1 \<longleftrightarrow> i \<le> pd \<and> i \<noteq> pd" "pd - 1 < i \<longleftrightarrow> pd < i \<or> i = pd" for i
    using assms(1) \<open>0 < pc\<close> by (auto simp: parted_def)
  ultimately show ?thesis using assms by (auto simp: parted_def)
qed

lemma scan_up_parted:
  assumes "parted cmp a n x pa pb pc pd xs"
  shows "\<exists>pa' pb' s ys. scan_up cmp a pc pa pb swapped xs = Inr (pa', pb', s, ys) \<and> parted cmp a n x pa' pb' pc pd ys \<and>
    permutes (a + 1) (n - 1) xs ys \<and> (pb' \<le> pc \<longrightarrow> cmp (ys ! pb') x > 0)"
  using assms
proof (induction cmp a pc pa pb swapped xs rule: scan_up.induct)
  case (1 cmp a pc pa pb swapped xs)
  show ?case
  proof (cases "pb \<le> pc \<and> cmp (xs ! pb) x \<le> 0")
    case False
    then show ?thesis using 1(3) by (subst scan_up.simps) (auto simp: parted_def cmp_at_in)
  next
    case True
    have b: "pb < length xs" "a < length xs" "pa < length xs" "a < pa" "pa \<le> pb" "xs ! a = x" "pb < a + n" "a + n \<le> length xs"
      using True 1(3) by (auto simp: parted_def)
    then have c: "cmp_at cmp xs pb a = Inr (cmp (xs ! pb) x)" by (simp add: cmp_at_in)
    show ?thesis
    proof (cases "cmp (xs ! pb) x = 0")
      case eq: True
      let ?ys = "xs[pa := xs ! pb, pb := xs ! pa]"
      have "permutes (a + 1) (n - 1) xs ?ys" using b by (intro swap_permutes) auto
      moreover obtain pa' pb' s zs where "scan_up cmp a pc (pa + 1) (pb + 1) True ?ys = Inr (pa', pb', s, zs)" "parted cmp a n x pa' pb' pc pd zs"
        "permutes (a + 1) (n - 1) ?ys zs" "pb' \<le> pc \<longrightarrow> cmp (zs ! pb') x > 0"
        using 1(1) [OF _ c _ _ swap_at_eq [OF b(3,1)]] parted_swap_up [OF 1(3) _ eq] True eq by blast
      ultimately show ?thesis using True eq c swap_at_eq [OF b(3,1)] permutes_trans by (subst scan_up.simps) auto
    next
      case lt: False
      have "parted cmp a n x pa (pb + 1) pc pd xs" using 1(3) True lt by (auto simp: parted_def less_Suc_eq)
      then show ?thesis using 1(2) [OF _ c _ lt] True lt c by (subst scan_up.simps) auto
    qed
  qed
qed

lemma scan_down_parted:
  assumes "parted cmp a n x pa pb pc pd xs" "pb \<le> pc \<longrightarrow> cmp (xs ! pb) x > 0"
  shows "\<exists>pc' pd' s ys. scan_down cmp a pb pc pd swapped xs = Inr (pc', pd', s, ys) \<and> parted cmp a n x pa pb pc' pd' ys \<and>
    permutes (a + 1) (n - 1) xs ys \<and> (pb \<le> pc' \<longrightarrow> cmp (ys ! pb) x > 0 \<and> cmp (ys ! pc') x < 0)"
  using assms
proof (induction cmp a pb pc pd swapped xs rule: scan_down.induct)
  case (1 cmp a pb pc pd swapped xs)
  show ?case
  proof (cases "pb \<le> pc \<and> cmp (xs ! pc) x \<ge> 0")
    case False
    then show ?thesis using 1(3,4) by (subst scan_down.simps) (auto simp: parted_def cmp_at_in)
  next
    case True
    have b: "pc < length xs" "a < length xs" "pd < length xs" "a < pc" "pc \<le> pd" "xs ! a = x" "pd < a + n" "a + n \<le> length xs"
      using True 1(3) by (auto simp: parted_def)
    then have c: "cmp_at cmp xs pc a = Inr (cmp (xs ! pc) x)" and d: "dec pc = Inr (pc - 1)" "dec pd = Inr (pd - 1)"
      by (simp_all add: cmp_at_in dec_def)
    show ?thesis
    proof (cases "cmp (xs ! pc) x = 0")
      case eq: True
      let ?ys = "xs[pc := xs ! pd, pd := xs ! pc]"
      have "permutes (a + 1) (n - 1) xs ?ys" using b by (intro swap_permutes) auto
      moreover have "pb \<le> pc - 1 \<longrightarrow> cmp (?ys ! pb) x > 0" using 1(4) True b by (auto simp: nth_swap)
      moreover obtain pc' pd' s zs where "scan_down cmp a pb (pc - 1) (pd - 1) True ?ys = Inr (pc', pd', s, zs)" "parted cmp a n x pa pb pc' pd' zs"
        "permutes (a + 1) (n - 1) ?ys zs" "pb \<le> pc' \<longrightarrow> cmp (zs ! pb) x > 0 \<and> cmp (zs ! pc') x < 0"
        using 1(1) [OF _ c _ d(1) _ swap_at_eq [OF b(1,3)] d(2) parted_swap_down [OF 1(3) _ eq]] True eq calculation(2) by blast
      ultimately show ?thesis using True eq c d swap_at_eq [OF b(1,3)] permutes_trans by (subst scan_down.simps) auto
    next
      case gt: False
      have "pc - 1 < i \<longleftrightarrow> pc < i \<or> i = pc" for i using b(4) by auto
      then have "parted cmp a n x pa pb (pc - 1) pd xs" using 1(3) True gt b by (auto simp: parted_def)
      then show ?thesis using 1(2) [OF _ c _ d(1) gt] 1(4) True gt c d by (subst scan_down.simps) auto
    qed
  qed
qed

lemma part_loop_parted:
  assumes "parted cmp a n x pa pb pc pd xs"
  shows "\<exists>pa' pb' pc' pd' s ys. part_loop cmp a pa pb pc pd swapped xs = Inr (pa', pb', pc', pd', s, ys) \<and>
    parted cmp a n x pa' pb' pc' pd' ys \<and> pb' = pc' + 1 \<and> permutes (a + 1) (n - 1) xs ys"
  using assms
proof (induction cmp a pa pb pc pd swapped xs rule: part_loop.induct)
  case (1 cmp a pa pb pc pd swapped xs)
  obtain pa1 pb1 s1 ys where u: "scan_up cmp a pc pa pb swapped xs = Inr (pa1, pb1, s1, ys)" "parted cmp a n x pa1 pb1 pc pd ys"
    "permutes (a + 1) (n - 1) xs ys" "pb1 \<le> pc \<longrightarrow> cmp (ys ! pb1) x > 0" using scan_up_parted [OF 1(2)] by blast
  obtain pc1 pd1 s2 zs where d: "scan_down cmp a pb1 pc pd s1 ys = Inr (pc1, pd1, s2, zs)" "parted cmp a n x pa1 pb1 pc1 pd1 zs"
    "permutes (a + 1) (n - 1) ys zs" "pb1 \<le> pc1 \<longrightarrow> cmp (zs ! pb1) x > 0 \<and> cmp (zs ! pc1) x < 0"
    using scan_down_parted [OF u(2,4)] by blast
  note p = permutes_trans [OF u(3) d(3)]
  show ?case
  proof (cases "pb1 > pc1")
    case True
    then have "pb1 = pc1 + 1" using d(2) by (auto simp: parted_def)
    then show ?thesis using u(1) d(1,2) p True by (subst part_loop.simps) simp
  next
    case False
    let ?ws = "zs[pb1 := zs ! pc1, pc1 := zs ! pb1]"
    have "pb1 \<noteq> pc1" using False d(4) by auto
    then have b: "pb1 < length zs" "pc1 < length zs" "a + 1 \<le> pb1" "pc1 < a + n" "pb1 < a + n" "a + n \<le> length zs" "0 < pc1" "pb1 < pc1"
      using False d(2) by (simp_all add: parted_def)
    have "pc1 - 1 < i \<longleftrightarrow> pc1 < i \<or> i = pc1" for i using b(7) by auto
    then have parted: "parted cmp a n x pa1 (pb1 + 1) (pc1 - 1) pd1 ?ws"
      using d(2,4) False b nth_swap [OF b(1,2)] by (auto simp: parted_def less_Suc_eq)
    have "permutes (a + 1) (n - 1) zs ?ws" using b by (intro swap_permutes) auto
    with p have p: "permutes (a + 1) (n - 1) xs ?ws" by (rule permutes_trans)
    have e: "dec pc1 = Inr (pc1 - 1)" using b(7) by (simp add: dec_def)
    obtain pa' pb' pc' pd' s vs where
      "part_loop cmp a pa1 (pb1 + 1) (pc1 - 1) pd1 True ?ws = Inr (pa', pb', pc', pd', s, vs)"
      "parted cmp a n x pa' pb' pc' pd' vs" "pb' = pc' + 1" "permutes (a + 1) (n - 1) ?ws vs"
      using 1(1) [OF u(1) refl refl refl d(1) refl refl refl False swap_at_eq [OF b(1,2)] e parted] by blast
    then show ?thesis using u(1) d(1) False swap_at_eq [OF b(1,2)] e permutes_trans [OF p] by (subst part_loop.simps) auto
  qed
qed

subsection \<open>Bringing the equal elements to the middle\<close>

lemma vecswap_nth:
  assumes "i + m \<le> j" "j + m \<le> length xs"
  shows "\<exists>ys. vecswap m i j xs = Inr ys \<and> length ys = length xs \<and>
    (\<forall>k. ys ! k = (if i \<le> k \<and> k < i + m then xs ! (j + (k - i)) else if j \<le> k \<and> k < j + m then xs ! (i + (k - j)) else xs ! k))"
  using assms
proof (induction m arbitrary: i j xs)
  case (Suc m)
  have b: "i < length xs" "j < length xs" "i \<noteq> j" using Suc.prems by auto
  let ?xs = "xs[i := xs ! j, j := xs ! i]"
  obtain ys where ys: "vecswap m (Suc i) (Suc j) ?xs = Inr ys" "length ys = length xs"
    "\<forall>k. ys ! k = (if Suc i \<le> k \<and> k < Suc i + m then ?xs ! (Suc j + (k - Suc i)) else if Suc j \<le> k \<and> k < Suc j + m then ?xs ! (Suc i + (k - Suc j)) else ?xs ! k)"
    using Suc.IH [of "Suc i" "Suc j" ?xs] Suc.prems by auto
  have "ys ! k = (if i \<le> k \<and> k < i + Suc m then xs ! (j + (k - i)) else if j \<le> k \<and> k < j + Suc m then xs ! (i + (k - j)) else xs ! k)" for k
  proof -
    consider "k = i" | "k = j" | "Suc i \<le> k" "k < Suc i + m" | "Suc j \<le> k" "k < Suc j + m" | "k \<noteq> i" "k \<noteq> j" "\<not> (Suc i \<le> k \<and> k < Suc i + m)" "\<not> (Suc j \<le> k \<and> k < Suc j + m)"
      by blast
    then show ?thesis
    proof cases
      case 3
      then have "Suc j + (k - Suc i) = j + (k - i)" "j + (k - i) \<noteq> i" "j + (k - i) \<noteq> j" "k \<noteq> j" using Suc.prems by auto
      then show ?thesis using 3 ys(3) [THEN spec, of k] b by (simp add: nth_swap)
    next
      case 4
      then have "Suc i + (k - Suc j) = i + (k - j)" "i + (k - j) \<noteq> i" "i + (k - j) \<noteq> j" "k \<noteq> i" "\<not> k < i + Suc m" using Suc.prems by auto
      then show ?thesis using 4 ys(3) [THEN spec, of k] b by (simp add: nth_swap)
    next
      case 5
      have "ys ! k = ?xs ! k" using ys(3) [THEN spec, of k] unfolding if_not_P [OF 5(3)] if_not_P [OF 5(4)] .
      also have "\<dots> = xs ! k" using 5(1,2) by simp
      moreover have "\<not> (i \<le> k \<and> k < i + Suc m)" "\<not> (j \<le> k \<and> k < j + Suc m)" using 5 by auto
      ultimately show ?thesis by (simp only: if_False)
    qed (use ys(3) [THEN spec, of k] b Suc.prems in \<open>auto simp: nth_swap\<close>)
  qed
  then show ?case using ys(1,2) b by (simp add: swap_at_eq)
qed auto

text \<open>Two adjacent blocks change places, up to the order inside them, when as many elements as the shorter one has are exchanged.\<close>

lemma swap_blocks:
  assumes "i \<le> p" "p \<le> q" "q \<le> length xs" "\<forall>k. i \<le> k \<and> k < p \<longrightarrow> P (xs ! k)" "\<forall>k. p \<le> k \<and> k < q \<longrightarrow> Q (xs ! k)"
  shows "\<exists>ys. vecswap (min (p - i) (q - p)) i (q - min (p - i) (q - p)) xs = Inr ys \<and> length ys = length xs \<and>
    (\<forall>k. i \<le> k \<and> k < i + (q - p) \<longrightarrow> Q (ys ! k)) \<and> (\<forall>k. i + (q - p) \<le> k \<and> k < q \<longrightarrow> P (ys ! k)) \<and>
    (\<forall>k. k < i \<or> q \<le> k \<longrightarrow> ys ! k = xs ! k)"
proof -
  define m where "m = min (p - i) (q - p)"
  have m: "i + m \<le> p" "p \<le> q - m" "m \<le> q" "q - m + m = q" using assms(1,2) by (auto simp: m_def)
  have "i + m \<le> q - m" "q - m + m \<le> length xs" using m assms(3) by simp_all
  from vecswap_nth [OF this] obtain ys where ys: "vecswap m i (q - m) xs = Inr ys" "length ys = length xs" "\<forall>k. ys ! k = (if i \<le> k \<and> k < i + m then xs ! (q - m + (k - i)) else if q - m \<le> k \<and> k < q then xs ! (i + (k - (q - m))) else xs ! k)"
    unfolding m(4) by blast
  have Q: "Q (ys ! k)" if "i \<le> k" "k < i + (q - p)" for k
  proof (cases "k < i + m")
    case True
    then have "p \<le> q - m + (k - i)" "q - m + (k - i) < q" using m that by auto
    then show ?thesis using ys(3) [THEN spec, of k] True that assms(5) by simp
  next
    case False
    then have "m = p - i" "p \<le> k" "k < q - m" using that assms(1,2) by (auto simp: m_def)
    then show ?thesis using ys(3) [THEN spec, of k] False assms(5) by simp
  qed
  have P: "P (ys ! k)" if "i + (q - p) \<le> k" "k < q" for k
  proof (cases "q - m \<le> k")
    case True
    then have "\<not> k < i + m" "i + (k - (q - m)) < p" using m that by auto
    then show ?thesis using ys(3) [THEN spec, of k] True that assms(4) by simp
  next
    case False
    then have "m = q - p" "k < p" "\<not> k < i + m" "i \<le> k" using that assms(1,2) by (auto simp: m_def)
    then show ?thesis using ys(3) [THEN spec, of k] False assms(4) by simp
  qed
  have F: "ys ! k = xs ! k" if "k < i \<or> q \<le> k" for k
  proof -
    have "\<not> (i \<le> k \<and> k < i + m)" "\<not> (q - m \<le> k \<and> k < q)" using that m by auto
    then show ?thesis using ys(3) [THEN spec, of k] by (simp only: if_False)
  qed
  show ?thesis unfolding m_def [symmetric] using ys(1,2) Q P F by blast
qed

lemma med3_in:
  assumes "i < length xs" "j < length xs" "k < length xs"
  shows "\<exists>m. med3 cmp xs i j k = Inr m \<and> (m = i \<or> m = j \<or> m = k)"
  using assms by (auto simp: med3_def cmp_at_in)

lemma med3_range:
  assumes "a + n \<le> length xs" "a \<le> i" "i < a + n" "a \<le> j" "j < a + n" "a \<le> k" "k < a + n"
  shows "\<exists>m. med3 cmp xs i j k = Inr m \<and> a \<le> m \<and> m < a + n"
proof -
  have "i < length xs" "j < length xs" "k < length xs" using assms by linarith+
  from med3_in [OF this, of cmp] show ?thesis using assms by auto
qed

lemma median_in:
  assumes "a + n \<le> length xs" "7 < n"
  shows "\<exists>m. median cmp a n xs = Inr m \<and> a \<le> m \<and> m < a + n"
proof (cases "n > 40")
  case True
  let ?d = "n div 8"
  have "2 * ?d < n" "?d \<le> n div 2" "n div 2 + ?d < n" "n div 2 < n" "2 * ?d \<le> n - 1" "n - 1 < n" using assms(2) by linarith+
  then have d: "a \<le> a + ?d" "a + ?d < a + n" "a \<le> a + 2 * ?d" "a + 2 * ?d < a + n" "a \<le> a + n div 2 - ?d" "a + n div 2 - ?d < a + n"
    "a \<le> a + n div 2" "a + n div 2 < a + n" "a \<le> a + n div 2 + ?d" "a + n div 2 + ?d < a + n" "a \<le> a + (n - 1) - 2 * ?d" "a + (n - 1) - 2 * ?d < a + n"
    "a \<le> a + (n - 1) - ?d" "a + (n - 1) - ?d < a + n" "a \<le> a + (n - 1)" "a + (n - 1) < a + n" "a \<le> a" "a < a + n" by linarith+
  obtain l where l: "med3 cmp xs a (a + ?d) (a + 2 * ?d) = Inr l" "a \<le> l" "l < a + n"
    using med3_range [OF assms(1) d(17,18,1-4)] by blast
  obtain m where m: "med3 cmp xs (a + n div 2 - ?d) (a + n div 2) (a + n div 2 + ?d) = Inr m" "a \<le> m" "m < a + n"
    using med3_range [OF assms(1) d(5-10)] by blast
  obtain r where r: "med3 cmp xs (a + (n - 1) - 2 * ?d) (a + (n - 1) - ?d) (a + (n - 1)) = Inr r" "a \<le> r" "r < a + n"
    using med3_range [OF assms(1) d(11-16)] by blast
  show ?thesis using True l(1) m(1) r(1) med3_range [OF assms(1) l(2,3) m(2,3) r(2,3)] by (simp add: median_def Let_def)
next
  case False
  have "a \<le> a" "a < a + n" "a \<le> a + n div 2" "a + n div 2 < a + n" "a \<le> a + (n - 1)" "a + (n - 1) < a + n" using assms(2) by auto
  from med3_range [OF assms(1) this] show ?thesis using False by (simp add: median_def Let_def)
qed

text \<open>What the partition leaves, for any comparison function.\<close>

definition three_way :: "'a cmp \<Rightarrow> nat \<Rightarrow> nat \<Rightarrow> nat \<Rightarrow> nat \<Rightarrow> 'a list \<Rightarrow> bool" where
  "three_way cmp a n d1 d2 xs \<longleftrightarrow> d1 + d2 < n \<and> (\<exists>x.
    (\<forall>i. a \<le> i \<and> i < a + d1 \<longrightarrow> cmp (xs ! i) x < 0) \<and>
    (\<forall>i. a + d1 \<le> i \<and> i < a + n - d2 \<longrightarrow> xs ! i = x \<or> cmp (xs ! i) x = 0) \<and>
    (\<forall>i. a + n - d2 \<le> i \<and> i < a + n \<longrightarrow> cmp (xs ! i) x > 0))"

lemma partition_three_way:
  assumes "a + n \<le> length xs" "7 < n"
  shows "\<exists>d1 d2 s ys. partition_seg cmp a n xs = Inr (d1, d2, s, ys) \<and> permutes a n xs ys \<and> three_way cmp a n d1 d2 ys"
proof -
  obtain pm where pm: "median cmp a n xs = Inr pm" "a \<le> pm" "pm < a + n" using median_in [OF assms] by blast
  let ?xs = "xs[a := xs ! pm, pm := xs ! a]"
  have sw: "swap_at xs a pm = Inr ?xs" "permutes a n xs ?xs" using pm assms by (auto simp: swap_at_eq intro: swap_permutes)
  have "parted cmp a n (?xs ! a) (a + 1) (a + 1) (a + (n - 1)) (a + (n - 1)) ?xs" using assms by (auto simp: parted_def)
  from part_loop_parted [OF this, of False] obtain pa pb pc pd s ys where
    loop: "part_loop cmp a (a + 1) (a + 1) (a + (n - 1)) (a + (n - 1)) False ?xs = Inr (pa, pb, pc, pd, s, ys)"
    and parted: "parted cmp a n (?xs ! a) pa pb pc pd ys" and pb: "pb = pc + 1" and perm: "permutes (a + 1) (n - 1) ?xs ys" by blast
  define x where "x = ?xs ! a"
  let ?E = "\<lambda>y. y = x \<or> cmp y x = 0" and ?L = "\<lambda>y. cmp y x < 0" and ?G = "\<lambda>y. cmp y x > 0"
  have o: "a < pa" "pa \<le> pb" "pc \<le> pd" "pd < a + n" "a + n \<le> length ys" using parted by (auto simp: parted_def)
  note parted = parted [folded x_def, unfolded parted_def]
  have E: "\<forall>k. a \<le> k \<and> k < pa \<longrightarrow> ?E (ys ! k)" using parted by (metis le_neq_implies_less)
  have E': "\<forall>k. pd + 1 \<le> k \<and> k < a + n \<longrightarrow> ?E (ys ! k)" using parted by simp
  have L: "\<forall>k. pa \<le> k \<and> k < pb \<longrightarrow> ?L (ys ! k)" using parted by simp
  have G: "\<forall>k. pb \<le> k \<and> k < pd + 1 \<longrightarrow> ?G (ys ! k)" using parted pb by simp
  have "a \<le> pa" "pb \<le> length ys" using o pb by simp_all
  from swap_blocks [OF this(1) o(2) this(2) E L] obtain zs where
    zs: "vecswap (min (pa - a) (pb - pa)) a (pb - min (pa - a) (pb - pa)) ys = Inr zs" "length zs = length ys"
      "\<forall>k. a \<le> k \<and> k < a + (pb - pa) \<longrightarrow> ?L (zs ! k)" "\<forall>k. a + (pb - pa) \<le> k \<and> k < pb \<longrightarrow> ?E (zs ! k)"
      "\<forall>k. k < a \<or> pb \<le> k \<longrightarrow> zs ! k = ys ! k" by blast
  have zG: "\<forall>k. pb \<le> k \<and> k < pd + 1 \<longrightarrow> ?G (zs ! k)" and zE: "\<forall>k. pd + 1 \<le> k \<and> k < a + n \<longrightarrow> ?E (zs ! k)"
    using zs(5) G E' o pb by auto
  have "pb \<le> pd + 1" "pd + 1 \<le> a + n" "a + n \<le> length zs" using o pb zs(2) by simp_all
  from swap_blocks [OF this zG zE] obtain ws where
    ws: "vecswap (min (pd + 1 - pb) (a + n - (pd + 1))) pb (a + n - min (pd + 1 - pb) (a + n - (pd + 1))) zs = Inr ws" "length ws = length zs"
      "\<forall>k. pb \<le> k \<and> k < pb + (a + n - (pd + 1)) \<longrightarrow> ?E (ws ! k)" "\<forall>k. pb + (a + n - (pd + 1)) \<le> k \<and> k < a + n \<longrightarrow> ?G (ws ! k)"
      "\<forall>k. k < pb \<or> a + n \<le> k \<longrightarrow> ws ! k = zs ! k" by blast
  have e: "pd + 1 - pb = pd - pc" "a + n - (pd + 1) = a + n - pd - 1" "pb + (a + n - (pd + 1)) = a + n - (pd - pc)" "a + (pb - pa) \<le> pb"
    using o pb by auto
  have "cmp (ws ! i) x < 0" if "a \<le> i" "i < a + (pb - pa)" for i
    using that zs(3) ws(5) e(4) by (metis less_le_trans)
  moreover have "?E (ws ! i)" if "a + (pb - pa) \<le> i" "i < a + n - (pd - pc)" for i
    using that zs(4) ws(3,5) unfolding e(3) by (metis not_less)
  moreover have "pb - pa + (pd - pc) < n" using o pb by auto
  ultimately have "three_way cmp a n (pb - pa) (pd - pc) ws" using ws(4) unfolding three_way_def e(3) by blast
  moreover have "permutes a n xs ws"
  proof -
    have "permutes a n ?xs ys" by (rule permutes_mono [OF perm]) (use assms(2) in simp_all)
    moreover have "permutes a n ys zs"
      using vecswap_permutes [of a n ys a "min (pa - a) (pb - pa)" "pb - min (pa - a) (pb - pa)"] zs(1) o pb by auto
    moreover have "permutes a n zs ws"
      using vecswap_permutes [of a n zs pb "min (pd + 1 - pb) (a + n - (pd + 1))" "a + n - min (pd + 1 - pb) (a + n - (pd + 1))"] ws(1) zs(2) o pb by auto
    ultimately show ?thesis using sw(2) permutes_trans by blast
  qed
  moreover have "partition_seg cmp a n xs = Inr (pb - pa, pd - pc, s, ws)"
    using pm(1) sw(1) loop zs(1) ws(1) unfolding e(1,2) by (simp add: partition_seg_def Let_def)
  ultimately show ?thesis by blast
qed

section \<open>Insertion sort\<close>

text \<open>A comparison function that orders the elements: the comparison the other way round has the other sign, and it is transitive.\<close>

definition consistent :: "'a cmp \<Rightarrow> bool" where
  "consistent cmp \<longleftrightarrow> (\<forall>x y. cmp x y < 0 \<longleftrightarrow> cmp y x > 0) \<and> (\<forall>x y z. cmp x y \<le> 0 \<longrightarrow> cmp y z \<le> 0 \<longrightarrow> cmp x z \<le> 0)"

lemma consistentD:
  assumes "consistent cmp"
  shows "cmp x x = 0" "\<not> cmp x y \<le> 0 \<Longrightarrow> cmp y x < 0" "cmp x y < 0 \<Longrightarrow> cmp y x > 0" "cmp x y = 0 \<Longrightarrow> cmp y x = 0"
    "cmp x y \<le> 0 \<Longrightarrow> cmp y z \<le> 0 \<Longrightarrow> cmp x z \<le> 0"
proof -
  have s: "cmp u v < 0 \<longleftrightarrow> cmp v u > 0" for u v using assms unfolding consistent_def by blast
  show "cmp x x = 0" using s [of x x] by linarith
  show "\<not> cmp x y \<le> 0 \<Longrightarrow> cmp y x < 0" using s [of y x] by linarith
  show "cmp x y < 0 \<Longrightarrow> cmp y x > 0" using s [of x y] by linarith
  show "cmp x y = 0 \<Longrightarrow> cmp y x = 0" using s [of x y] s [of y x] by linarith
  show "cmp x y \<le> 0 \<Longrightarrow> cmp y z \<le> 0 \<Longrightarrow> cmp x z \<le> 0" using assms unfolding consistent_def by blast
qed

definition sorted_seg :: "'a cmp \<Rightarrow> nat \<Rightarrow> nat \<Rightarrow> 'a list \<Rightarrow> bool" where
  "sorted_seg cmp a n xs \<longleftrightarrow> (\<forall>i j. a \<le> i \<and> i < j \<and> j < a + n \<longrightarrow> cmp (xs ! i) (xs ! j) \<le> 0)"

text \<open>All pairs up to \<open>pm\<close> are in order but those whose second element is the one at \<open>pl\<close>.\<close>

definition sorted_but :: "'a cmp \<Rightarrow> nat \<Rightarrow> nat \<Rightarrow> nat \<Rightarrow> 'a list \<Rightarrow> bool" where
  "sorted_but cmp a pm pl xs \<longleftrightarrow> (\<forall>i j. a \<le> i \<and> i < j \<and> j \<le> pm \<and> j \<noteq> pl \<longrightarrow> cmp (xs ! i) (xs ! j) \<le> 0)"

lemma sorted_but_swap:
  assumes "consistent cmp" "sorted_but cmp a pm pl xs" "a < pl" "pl \<le> pm" "pm < length xs" "cmp (xs ! (pl - 1)) (xs ! pl) > 0"
  shows "sorted_but cmp a pm (pl - 1) (xs[pl := xs ! (pl - 1), pl - 1 := xs ! pl])"
  unfolding sorted_but_def
proof (intro allI impI)
  fix i j assume ij: "a \<le> i \<and> i < j \<and> j \<le> pm \<and> j \<noteq> pl - 1"
  have b: "pl < length xs" "pl - 1 < length xs" "pl - 1 \<noteq> pl" using assms(3-5) by auto
  note n = nth_swap [OF b(1,2)]
  have o: "cmp (xs ! u) (xs ! v) \<le> 0" if "a \<le> u" "u < v" "v \<le> pm" "v \<noteq> pl" for u v
    using assms(2) that unfolding sorted_but_def by blast
  have "cmp (xs ! pl) (xs ! (pl - 1)) \<le> 0" using consistentD(2) [OF assms(1)] assms(6) by (meson less_imp_le not_less)
  moreover have "i \<le> pl - 1" if "j = pl" using that ij by linarith
  ultimately show "cmp (xs[pl := xs ! (pl - 1), pl - 1 := xs ! pl] ! i) (xs[pl := xs ! (pl - 1), pl - 1 := xs ! pl] ! j) \<le> 0"
    unfolding n using ij o [of i j] o [of i "pl - 1"] o [of "pl - 1" j] o [of pl j] assms(3,4) b(3) by auto
qed

lemma sorted_but_stop:
  assumes "consistent cmp" "sorted_but cmp a pm pl xs" "a < pl \<Longrightarrow> pl \<le> pm \<Longrightarrow> cmp (xs ! (pl - 1)) (xs ! pl) \<le> 0" "a \<le> pm"
  shows "sorted_seg cmp a (Suc pm - a) xs"
  unfolding sorted_seg_def
proof (intro allI impI)
  fix i j assume ij: "a \<le> i \<and> i < j \<and> j < a + (Suc pm - a)"
  have o: "cmp (xs ! u) (xs ! v) \<le> 0" if "a \<le> u" "u < v" "v \<le> pm" "v \<noteq> pl" for u v
    using assms(2) that unfolding sorted_but_def by blast
  show "cmp (xs ! i) (xs ! j) \<le> 0"
  proof (cases "j = pl")
    case True
    then have pl: "a < pl" "pl \<le> pm" using ij by linarith+
    then have "cmp (xs ! (pl - 1)) (xs ! pl) \<le> 0" by (rule assms(3))
    moreover have "i = pl - 1 \<or> i < pl - 1 \<and> pl - 1 \<le> pm \<and> pl - 1 \<noteq> pl" using ij True pl by linarith
    then have "i = pl - 1 \<or> cmp (xs ! i) (xs ! (pl - 1)) \<le> 0" using ij o [of i "pl - 1"] by blast
    ultimately show ?thesis using True consistentD(5) [OF assms(1)] by blast
  qed (use ij o in auto)
qed

lemma insert_elem_sorts:
  assumes "consistent cmp" "insert_elem cmp a swap_limit pl swap_cnt xs = Inr (True, c, ys)" "sorted_but cmp a pm pl xs" "a \<le> pl" "pl \<le> pm" "pm < length xs"
  shows "sorted_seg cmp a (Suc pm - a) ys"
  using assms
proof (induction cmp a swap_limit pl swap_cnt xs rule: insert_elem.induct)
  case (1 cmp a swap_limit pl swap_cnt xs)
  have b: "pl < length xs" "pl - 1 < length xs" using 1(7,8) by auto
  show ?case
  proof (cases "pl > a \<and> cmp (xs ! (pl - 1)) (xs ! pl) > 0")
    case False
    then have "ys = xs" using 1(4) b by (subst (asm) insert_elem.simps) (auto simp: cmp_at_in split: if_splits)
    then show ?thesis using False sorted_but_stop [OF 1(3,5)] 1(6,7) by auto
  next
    case True
    note c = cmp_at_in [OF b(2,1), of cmp] and s = swap_at_eq [OF b]
    have but: "sorted_but cmp a pm (pl - 1) (xs[pl := xs ! (pl - 1), pl - 1 := xs ! pl])"
      using sorted_but_swap [OF 1(3,5) _ 1(7,8)] True by blast
    have pl: "a \<le> pl - 1" "pl - 1 \<le> pm" "pm < length (xs[pl := xs ! (pl - 1), pl - 1 := xs ! pl])" using True 1(7,8) by auto
    show ?thesis
    proof (cases "swap_limit \<noteq> 0")
      case lim: True
      then have "\<not> swap_cnt + 1 > swap_limit" "insert_elem cmp a swap_limit (pl - 1) (swap_cnt + 1) (xs[pl := xs ! (pl - 1), pl - 1 := xs ! pl]) = Inr (True, c, ys)"
        using 1(4) True c s by (subst (asm) insert_elem.simps, simp split: if_splits)+
      then show ?thesis using 1(1) [OF _ c _ s lim _ 1(3) _ but pl] True by blast
    next
      case lim: False
      then have "insert_elem cmp a swap_limit (pl - 1) swap_cnt (xs[pl := xs ! (pl - 1), pl - 1 := xs ! pl]) = Inr (True, c, ys)"
        using 1(4) True c s by (subst (asm) insert_elem.simps, simp)
      then show ?thesis using 1(2) [OF _ c _ s lim 1(3) _ but pl] True by blast
    qed
  qed
qed

lemma isort_sorts:
  assumes "consistent cmp" "isort cmp a n swap_limit xs = Inr (True, ys)" "a + n \<le> length xs"
  shows "sorted_seg cmp a n ys"
proof -
  have "isort_loop cmp a n swap_limit pm swap_cnt xs = Inr (True, ys) \<Longrightarrow> sorted_seg cmp a (pm - a) xs \<Longrightarrow> a < pm \<Longrightarrow> sorted_seg cmp a n ys" for pm swap_cnt
    using assms(1,3)
  proof (induction cmp a n swap_limit pm swap_cnt xs rule: isort_loop.induct)
    case (1 cmp a n swap_limit pm swap_cnt xs)
    show ?case
    proof (cases "pm < a + n")
      case False
      then have "ys = xs" using 1(2) by (subst (asm) isort_loop.simps) simp
      then show ?thesis using 1(3) False by (auto simp: sorted_seg_def)
    next
      case True
      obtain r k zs where zs: "insert_elem cmp a swap_limit pm swap_cnt xs = Inr (r, k, zs)" "permutes a n xs zs"
        using insert_elem_permutes [OF 1(6) True] by blast
      then have r: "r" "isort_loop cmp a n swap_limit (pm + 1) k zs = Inr (True, ys)"
        using 1(2) True by (subst (asm) isort_loop.simps, simp split: if_splits)+
      have "sorted_but cmp a pm pm xs" using 1(3,4) by (auto simp: sorted_seg_def sorted_but_def)
      then have "sorted_seg cmp a (Suc pm - a) zs" using insert_elem_sorts [OF 1(5), of a swap_limit pm swap_cnt xs k zs pm] zs(1) r(1) 1(4,6) True by auto
      then show ?thesis using 1(1) [OF True zs(1) refl refl r(1) r(2) _ _ 1(5)] 1(4,6) permutes_length [OF zs(2)] by simp
    qed
  qed
  from this [of "a + 1" 0] show ?thesis using assms(2) by (simp add: isort_def sorted_seg_def)
qed

text \<open>Insertion sort leaves the class of the element at every position as it is, when the classes are in order.\<close>

definition in_order :: "('a \<Rightarrow> int) \<Rightarrow> nat \<Rightarrow> nat \<Rightarrow> 'a list \<Rightarrow> bool" where
  "in_order g a n xs \<longleftrightarrow> (\<forall>i j. a \<le> i \<and> i < j \<and> j < a + n \<longrightarrow> g (xs ! i) \<le> g (xs ! j))"

lemma in_order_cong: "(\<And>i. g (ys ! i) = g (xs ! i)) \<Longrightarrow> in_order g a n ys = in_order g a n xs"
  by (simp add: in_order_def)

lemma insert_elem_class:
  assumes "\<And>u v. cmp u v > 0 \<Longrightarrow> g v \<le> g u" "in_order g a n xs" "pl < a + n" "a + n \<le> length xs"
    "insert_elem cmp a swap_limit pl swap_cnt xs = Inr (r, c, ys)"
  shows "g (ys ! i) = g (xs ! i)"
  using assms
proof (induction cmp a swap_limit pl swap_cnt xs rule: insert_elem.induct)
  case (1 cmp a swap_limit pl swap_cnt xs)
  have b: "pl < length xs" "pl - 1 < length xs" using 1(5,6) by auto
  show ?case
  proof (cases "pl > a \<and> cmp (xs ! (pl - 1)) (xs ! pl) > 0")
    case False
    then have "ys = xs" using 1(7) b by (subst (asm) insert_elem.simps) (auto simp: cmp_at_in split: if_splits)
    then show ?thesis by simp
  next
    case True
    note c = cmp_at_in [OF b(2,1), of cmp] and s = swap_at_eq [OF b]
    let ?zs = "xs[pl := xs ! (pl - 1), pl - 1 := xs ! pl]"
    have "a \<le> pl - 1" "pl - 1 < pl" using True by auto
    then have "g (xs ! (pl - 1)) \<le> g (xs ! pl)" using 1(4,5) unfolding in_order_def by blast
    moreover have "g (xs ! pl) \<le> g (xs ! (pl - 1))" using 1(3) True by blast
    ultimately have g: "g (?zs ! i) = g (xs ! i)" for i using nth_swap [OF b] by auto
    have p: "in_order g a n ?zs" "pl - 1 < a + n" "a + n \<le> length ?zs" using in_order_cong [OF g] 1(4-6) by auto
    consider (stop) "ys = ?zs" | (more) "swap_limit \<noteq> 0" "\<not> swap_cnt + 1 > swap_limit" "insert_elem cmp a swap_limit (pl - 1) (swap_cnt + 1) ?zs = Inr (r, c, ys)"
      | (free) "\<not> swap_limit \<noteq> 0" "insert_elem cmp a swap_limit (pl - 1) swap_cnt ?zs = Inr (r, c, ys)"
      using 1(7) True c s by (subst (asm) insert_elem.simps, simp split: if_splits)
    then show ?thesis
    proof cases
      case stop
      then show ?thesis using g by simp
    next
      case more
      then show ?thesis using 1(1) [OF _ c _ s more(1,2) 1(3) p more(3)] True g by simp
    next
      case free
      then show ?thesis using 1(2) [OF _ c _ s free(1) 1(3) p free(2)] True g by simp
    qed
  qed
qed

lemma isort_class:
  assumes "\<And>u v. cmp u v > 0 \<Longrightarrow> g v \<le> g u" "in_order g a n xs" "a + n \<le> length xs" "isort cmp a n swap_limit xs = Inr (r, ys)"
  shows "g (ys ! i) = g (xs ! i)"
proof -
  have "isort_loop cmp a n swap_limit pm swap_cnt xs = Inr (r, ys) \<Longrightarrow> g (ys ! i) = g (xs ! i)" for pm swap_cnt
    using assms(1-3)
  proof (induction cmp a n swap_limit pm swap_cnt xs rule: isort_loop.induct)
    case (1 cmp a n swap_limit pm swap_cnt xs)
    show ?case
    proof (cases "pm < a + n")
      case False
      then show ?thesis using 1(2) by (subst (asm) isort_loop.simps) simp
    next
      case True
      obtain go k zs where zs: "insert_elem cmp a swap_limit pm swap_cnt xs = Inr (go, k, zs)" "permutes a n xs zs"
        using insert_elem_permutes [OF 1(5) True] by blast
      have g: "g (zs ! i) = g (xs ! i)" for i by (rule insert_elem_class [OF 1(3,4) True 1(5) zs(1)])
      have l: "a + n \<le> length zs" using 1(5) permutes_length [OF zs(2)] by simp
      show ?thesis
      proof (cases go)
        case go: True
        then have "isort_loop cmp a n swap_limit (pm + 1) k zs = Inr (r, ys)" using 1(2) True zs(1) by (subst (asm) isort_loop.simps, simp)
        then show ?thesis using 1(1) [OF True zs(1) refl refl go _ 1(3) _ l] in_order_cong [OF g] 1(4) g by simp
      next
        case False
        then show ?thesis using 1(2) True zs(1) g by (subst (asm) isort_loop.simps, simp)
      qed
    qed
  qed
  then show ?thesis using assms(4) by (simp add: isort_def)
qed

lemma sgn_mono:
  assumes "consistent cmp" "cmp u v > 0"
  shows "sgn (cmp v x) \<le> sgn (cmp u x)"
proof -
  have vu: "cmp v u < 0" using assms by (simp add: consistentD(2))
  consider "cmp v x < 0" | "cmp v x = 0" | "cmp v x > 0" by linarith
  then show ?thesis
  proof cases
    case 2
    then have "cmp x u \<le> 0" using consistentD(4,5) [OF assms(1)] vu by (metis less_imp_le order_refl)
    then have "cmp u x \<ge> 0" using consistentD(3) [OF assms(1), of u x] by linarith
    then show ?thesis using 2 by (simp add: sgn_if)
  next
    case 3
    then have "cmp x v < 0" using consistentD(2) [OF assms(1), of v x] by simp
    then have "\<not> cmp u x \<le> 0" using consistentD(5) [OF assms(1), of u x v] assms(2) by linarith
    then show ?thesis using 3 by (simp add: sgn_if)
  qed (simp add: sgn_if)
qed

section \<open>Heapsort\<close>

text \<open>Element number \<open>i\<close> of the heap in the part that starts at \<open>a\<close>.\<close>

definition item :: "nat \<Rightarrow> 'a list \<Rightarrow> nat \<Rightarrow> 'a" where
  "item a xs i = xs ! (a + i - 1)"

lemma nth_elem: "1 \<le> i \<Longrightarrow> xs ! elem a i xs = item a xs i"
  by (simp add: elem_def item_def)

lemma item_update:
  assumes "1 \<le> i" "1 \<le> j" "a + j \<le> length xs"
  shows "item a (xs[elem a j xs := x]) i = (if i = j then x else item a xs i)"
proof -
  have "a + j - 1 = a + i - 1 \<longleftrightarrow> i = j" "a + j - 1 < length xs" "elem a j xs = a + j - 1" using assms by (auto simp: elem_def)
  then show ?thesis by (simp add: item_def nth_list_update)
qed

text \<open>Below the parents from \<open>l\<close> on all is in order, but for the children of \<open>p\<close>.\<close>

definition heap_but :: "'a cmp \<Rightarrow> nat \<Rightarrow> nat \<Rightarrow> nat \<Rightarrow> (nat \<Rightarrow> 'a) \<Rightarrow> bool" where
  "heap_but cmp n l p h \<longleftrightarrow>
    (\<forall>i. 2 \<le> i \<and> i \<le> n \<and> l \<le> i div 2 \<and> i div 2 \<noteq> p \<longrightarrow> cmp (h i) (h (i div 2)) \<le> 0) \<and>
    (\<forall>i. 2 \<le> i \<and> i \<le> n \<and> i div 2 = p \<and> l \<le> p div 2 \<longrightarrow> cmp (h i) (h (p div 2)) \<le> 0)"

definition heap_from :: "'a cmp \<Rightarrow> nat \<Rightarrow> nat \<Rightarrow> (nat \<Rightarrow> 'a) \<Rightarrow> bool" where
  "heap_from cmp n l h \<longleftrightarrow> (\<forall>i. 2 \<le> i \<and> i \<le> n \<and> l \<le> i div 2 \<longrightarrow> cmp (h i) (h (i div 2)) \<le> 0)"

lemma heap_but_swap:
  assumes "heap_but cmp n l p h" "1 \<le> p" "c div 2 = p" "2 \<le> c" "c \<le> n" "\<forall>i. 2 \<le> i \<and> i \<le> n \<and> i div 2 = p \<longrightarrow> cmp (h i) (h c) \<le> 0"
    "cmp (h p) (h c) \<le> 0" "\<forall>i. 1 \<le> i \<longrightarrow> h' i = (if i = p then h c else if i = c then h p else h i)" "1 \<le> l"
  shows "heap_but cmp n l c h'"
proof -
  have pc: "p < c" using assms(2,3) by linarith
  have half: "1 \<le> i div 2" "i div 2 \<noteq> i" if "2 \<le> i" for i :: nat using that by auto
  have h': "h' p = h c" "h' c = h p" "1 \<le> i \<Longrightarrow> i \<noteq> p \<Longrightarrow> i \<noteq> c \<Longrightarrow> h' i = h i" for i using assms(2,4,8) pc by auto
  have 1: "cmp (h i) (h (i div 2)) \<le> 0" if "2 \<le> i" "i \<le> n" "l \<le> i div 2" "i div 2 \<noteq> p" for i using assms(1) that unfolding heap_but_def by blast
  have 2: "cmp (h i) (h (p div 2)) \<le> 0" if "2 \<le> i" "i \<le> n" "i div 2 = p" "l \<le> p div 2" for i using assms(1) that unfolding heap_but_def by blast
  have "cmp (h' i) (h' (i div 2)) \<le> 0" if i: "2 \<le> i" "i \<le> n" "l \<le> i div 2" "i div 2 \<noteq> c" for i
  proof -
    consider "i div 2 = p" "i = c" | "i div 2 = p" "i \<noteq> c" | "i div 2 \<noteq> p" "i = p" | "i div 2 \<noteq> p" "i \<noteq> p" "i \<noteq> c" using assms(3) by blast
    then show ?thesis
    proof cases
      case 1
      then show ?thesis using h'(1,2) assms(7) by simp
    next
      case 2
      then have "i \<noteq> p" using half(2) [OF i(1)] by auto
      then show ?thesis using 2 h' i assms(6) by simp
    next
      case 3
      then show ?thesis using 2 [OF assms(4,5,3)] i h'(1) h'(3) [of "p div 2"] half by simp
    next
      case 4
      then show ?thesis using 1 [OF i(1-3)] h'(3) [of i] h'(3) [of "i div 2"] i half by simp
    qed
  qed
  moreover have "cmp (h' i) (h' (c div 2)) \<le> 0" if i: "2 \<le> i" "i \<le> n" "i div 2 = c" "l \<le> c div 2" for i
  proof -
    have "i \<noteq> c" "i \<noteq> p" "c \<noteq> p" using i pc half(2) [OF i(1)] by auto
    moreover from this have "cmp (h i) (h c) \<le> 0" using 1 [OF i(1,2)] i pc assms(3) by auto
    ultimately show ?thesis using h' i assms(3) by simp
  qed
  ultimately show ?thesis unfolding heap_but_def by blast
qed

text \<open>The larger child is a child, and no child is larger.\<close>

lemma larger_child_max:
  assumes "consistent cmp" "a + n \<le> length xs" "1 \<le> p" "p * 2 \<le> n"
  obtains c where "larger_child cmp a n (p * 2) xs = Inr c" "c div 2 = p" "2 \<le> c" "c \<le> n"
    "\<forall>i. 2 \<le> i \<and> i \<le> n \<and> i div 2 = p \<longrightarrow> cmp (item a xs i) (item a xs c) \<le> 0"
proof (cases "p * 2 < n")
  case True
  have b: "1 \<le> p * 2" "p * 2 \<le> n" "1 \<le> Suc (p * 2)" "Suc (p * 2) \<le> n" using True assms(3) by auto
  let ?x = "item a xs (p * 2)" and ?y = "item a xs (Suc (p * 2))"
  have l: "larger_child cmp a n (p * 2) xs = Inr (if cmp ?x ?y < 0 then Suc (p * 2) else p * 2)"
    using True cmp_at_in [OF elem_in(3) [OF b(1,2) assms(2)] elem_in(3) [OF b(3,4) assms(2)], of cmp]
    by (simp add: larger_child_def nth_elem [OF b(1)] nth_elem [OF b(3)])
  have i: "i = p * 2 \<or> i = Suc (p * 2)" if "i div 2 = p" for i using that by linarith
  have r: "cmp x x \<le> 0" for x using consistentD(1) [OF assms(1)] by simp
  have "\<not> cmp ?x ?y < 0 \<Longrightarrow> cmp ?y ?x \<le> 0" using consistentD(2) [OF assms(1), of ?y ?x] by linarith
  then have "cmp (item a xs i) (item a xs (if cmp ?x ?y < 0 then Suc (p * 2) else p * 2)) \<le> 0" if "i div 2 = p" for i
    using i [OF that] r by (cases "cmp ?x ?y < 0") auto
  then show ?thesis using b assms(3) by (intro that [OF l]) (simp_all split: if_split)
next
  case False
  then have n: "n = p * 2" using assms(4) by simp
  have "i = p * 2" if "i div 2 = p" "i \<le> n" for i using that n by linarith
  then have "\<forall>i. 2 \<le> i \<and> i \<le> n \<and> i div 2 = p \<longrightarrow> cmp (item a xs i) (item a xs (p * 2)) \<le> 0"
    using consistentD(1) [OF assms(1)] by (metis order_refl)
  then show ?thesis using False assms(3) n by (intro that [of "p * 2"]) (simp_all add: larger_child_def)
qed

lemma create_heap:
  assumes "consistent cmp" "a + n \<le> length xs" "heap_but cmp n l p (item a xs)" "1 \<le> l" "l \<le> p" "create cmp a n p xs = Inr ys"
  shows "heap_from cmp n l (item a ys)"
  using assms
proof (induction cmp a n p xs rule: create.induct)
  case (1 cmp a n p xs)
  have p: "1 \<le> p" using 1(5,6) by simp
  show ?case
  proof (cases "p * 2 \<le> n")
    case False
    then have "ys = xs" using 1(7) by (subst (asm) create.simps) simp
    moreover have "i div 2 \<noteq> p" if "i \<le> n" for i using False that by linarith
    ultimately show ?thesis using 1(4) by (simp add: heap_but_def heap_from_def)
  next
    case True
    obtain c where c: "larger_child cmp a n (p * 2) xs = Inr c" "c div 2 = p" "2 \<le> c" "c \<le> n"
      "\<forall>i. 2 \<le> i \<and> i \<le> n \<and> i div 2 = p \<longrightarrow> cmp (item a xs i) (item a xs c) \<le> 0" by (rule larger_child_max [OF 1(2,3) p True])
    have b: "1 \<le> c" "p \<le> n" using c True by auto
    note ec = elem_in [OF b(1) c(4) 1(3)] and ep = elem_in [OF p b(2) 1(3)]
    have d: "cmp_at cmp xs (elem a c xs) (elem a p xs) = Inr (cmp (item a xs c) (item a xs p))"
      using cmp_at_in [OF ec(3) ep(3)] by (simp only: nth_elem [OF p] nth_elem [OF b(1)])
    show ?thesis
    proof (cases "cmp (item a xs c) (item a xs p) \<le> 0")
      case stop: True
      then have "ys = xs" using 1(7) True c(1) d by (subst (asm) create.simps) simp
      moreover have "cmp (item a xs i) (item a xs p) \<le> 0" if "2 \<le> i" "i \<le> n" "i div 2 = p" for i
        using c(5) that stop consistentD(5) [OF 1(2)] by blast
      ultimately show ?thesis using 1(4) by (auto simp: heap_but_def heap_from_def)
    next
      case False
      let ?zs = "xs[elem a p xs := xs ! elem a c xs, elem a c xs := xs ! elem a p xs]"
      have s: "swap_at xs (elem a p xs) (elem a c xs) = Inr ?zs" by (rule swap_at_eq [OF ep(3) ec(3)])
      have pc: "p \<noteq> c" using c(2,3) by auto
      have "item a ?zs i = (if i = p then item a xs c else if i = c then item a xs p else item a xs i)" if "1 \<le> i" for i
      proof -
        have "item a ?zs i = (if i = c then xs ! elem a p xs else item a (xs[elem a p xs := xs ! elem a c xs]) i)"
          using item_update [OF that b(1), of a "xs[elem a p xs := xs ! elem a c xs]"] 1(3) c(4) by simp
        then show ?thesis using item_update [OF that p, of a xs] 1(3) b pc nth_elem [OF p, of xs a] nth_elem [OF b(1), of xs a] by auto
      qed
      then have but: "heap_but cmp n l c (item a ?zs)"
        using heap_but_swap [OF 1(4) p c(2-5) _ _ 1(5)] False consistentD(2) [OF 1(2), of "item a xs c" "item a xs p"] by auto
      have "create cmp a n c ?zs = Inr ys" using 1(7) True c(1) d False s by (subst (asm) create.simps) simp
      then show ?thesis using 1(1) [OF True c(1) d False s 1(2) _ but 1(5)] 1(3,6) c(2,3) by simp
    qed
  qed
qed

lemma create_all_heap:
  assumes "consistent cmp" "a + n \<le> length xs" "heap_from cmp n (Suc l) (item a xs)" "create_all cmp a n l xs = Inr ys"
  shows "heap_from cmp n 1 (item a ys)"
  using assms
proof (induction l arbitrary: xs)
  case (Suc l)
  obtain zs where zs: "create cmp a n (Suc l) xs = Inr zs" "permutes a n xs zs" using create_permutes [OF Suc.prems(2), of "Suc l" cmp] by auto
  have "heap_but cmp n (Suc l) (Suc l) (item a xs)" using Suc.prems(3) by (auto simp: heap_but_def heap_from_def)
  from create_heap [OF Suc.prems(1,2) this _ _ zs(1)] have "heap_from cmp n (Suc l) (item a zs)" by simp
  then show ?case using Suc.IH [of zs] Suc.prems zs permutes_length [OF zs(2)] by simp
qed simp

lemma permutes_seg:
  assumes "permutes a n xs ys" "a + n \<le> length xs"
  shows "mset (take n (drop a ys)) = mset (take n (drop a xs))"
proof -
  have l: "length ys = length xs" using assms(1) by (rule permutes_length)
  have split: "zs = take a zs @ take n (drop a zs) @ drop (a + n) zs" for zs :: "'a list"
    using append_take_drop_id [of a zs] append_take_drop_id [of n "drop a zs"] drop_drop [of n a zs] by (simp add: add.commute)
  have "take a ys = take a xs" using assms l by (intro nth_equalityI) (auto simp: permutes_def)
  moreover have "drop (a + n) ys = drop (a + n) xs" using assms l by (intro nth_equalityI) (auto simp: permutes_def)
  moreover have "mset ys = mset xs" using assms(1) by (simp add: permutes_def)
  ultimately show ?thesis
    using arg_cong [OF split [of xs], of mset] arg_cong [OF split [of ys], of mset] by (metis add_left_cancel add_right_cancel mset_append)
qed

lemma permutes_elem:
  assumes "permutes a n xs ys" "a + n \<le> length xs" "a \<le> i" "i < a + n"
  obtains j where "a \<le> j" "j < a + n" "ys ! i = xs ! j"
proof -
  have l: "length ys = length xs" using assms(1) by (rule permutes_length)
  have "ys ! i = take n (drop a ys) ! (i - a)" "i - a < length (take n (drop a ys))" using assms(2-4) l by auto
  then have "ys ! i \<in> set (take n (drop a ys))" using nth_mem by metis
  then have "ys ! i \<in> set (take n (drop a xs))" using permutes_seg [OF assms(1,2)] by (metis set_mset_mset)
  then obtain k where "k < n" "ys ! i = xs ! (a + k)" using assms(2) by (auto simp: in_set_conv_nth)
  then show ?thesis using that [of "a + k"] by simp
qed

subsection \<open>Moving the hole\<close>

definition hole_ok :: "'a cmp \<Rightarrow> nat \<Rightarrow> nat \<Rightarrow> (nat \<Rightarrow> 'a) \<Rightarrow> bool" where
  "hole_ok cmp n q h \<longleftrightarrow>
    (\<forall>i. 2 \<le> i \<and> i \<le> n \<and> i \<noteq> q \<and> i div 2 \<noteq> q \<longrightarrow> cmp (h i) (h (i div 2)) \<le> 0) \<and>
    (\<forall>i. 2 \<le> i \<and> i \<le> n \<and> i div 2 = q \<and> 2 \<le> q \<longrightarrow> cmp (h i) (h (q div 2)) \<le> 0)"

lemma half: "2 \<le> i \<Longrightarrow> 1 \<le> i div 2" "2 \<le> i \<Longrightarrow> i div 2 \<noteq> i" "2 \<le> i \<Longrightarrow> i div 2 < i" for i :: nat
  by auto

lemma hole_ok_down:
  assumes "hole_ok cmp n q h" "1 \<le> q" "c div 2 = q" "2 \<le> c" "c \<le> n" "\<forall>i. 2 \<le> i \<and> i \<le> n \<and> i div 2 = q \<longrightarrow> cmp (h i) (h c) \<le> 0"
    "\<forall>i. 1 \<le> i \<longrightarrow> h' i = (if i = q then h c else h i)"
  shows "hole_ok cmp n c h'"
proof -
  have h': "h' q = h c" "1 \<le> i \<Longrightarrow> i \<noteq> q \<Longrightarrow> h' i = h i" for i using assms(2,7) by auto
  have up: "cmp (h i) (h (i div 2)) \<le> 0" if "2 \<le> i" "i \<le> n" "i \<noteq> q" "i div 2 \<noteq> q" for i using assms(1) that unfolding hole_ok_def by blast
  have gp: "cmp (h i) (h (q div 2)) \<le> 0" if "2 \<le> i" "i \<le> n" "i div 2 = q" "2 \<le> q" for i using assms(1) that unfolding hole_ok_def by blast
  have qc: "q < c" using half(3) [OF assms(4)] assms(3) by simp
  have "cmp (h' i) (h' (i div 2)) \<le> 0" if i: "2 \<le> i" "i \<le> n" "i \<noteq> c" "i div 2 \<noteq> c" for i
  proof -
    consider "i div 2 = q" | "i = q" | "i div 2 \<noteq> q" "i \<noteq> q" by blast
    then show ?thesis
    proof cases
      case 1
      then have "i \<noteq> q" using half(2) [OF i(1)] by auto
      then show ?thesis using 1 h' i assms(6) by simp
    next
      case 2
      then have "h' (i div 2) = h (q div 2)" using h'(2) [of "q div 2"] half [of q] i(1) by simp
      then show ?thesis using 2 gp [OF assms(4,5,3)] i h'(1) by simp
    next
      case 3
      then show ?thesis using up [OF i(1,2)] h'(2) [of i] h'(2) [of "i div 2"] i half by simp
    qed
  qed
  moreover have "cmp (h' i) (h' (c div 2)) \<le> 0" if i: "2 \<le> i" "i \<le> n" "i div 2 = c" for i
  proof -
    have "i \<noteq> q" "i div 2 \<noteq> q" using i qc half(3) [OF i(1)] by auto
    then show ?thesis using up [OF i(1,2)] h' i assms(3) by simp
  qed
  ultimately show ?thesis unfolding hole_ok_def by blast
qed

lemma hole_ok_up:
  assumes "consistent cmp" "hole_ok cmp n q h" "2 \<le> q" "q \<le> n" "\<forall>i. 2 \<le> i \<and> i \<le> n \<and> i div 2 = q \<longrightarrow> cmp (h i) k \<le> 0"
    "cmp (h (q div 2)) k \<le> 0" "\<forall>i. 1 \<le> i \<longrightarrow> h' i = (if i = q then h (q div 2) else h i)"
  shows "hole_ok cmp n (q div 2) h' \<and> (\<forall>i. 2 \<le> i \<and> i \<le> n \<and> i div 2 = q div 2 \<longrightarrow> cmp (h' i) k \<le> 0)"
proof -
  let ?p = "q div 2"
  have h': "h' q = h ?p" "1 \<le> i \<Longrightarrow> i \<noteq> q \<Longrightarrow> h' i = h i" for i using assms(3,7) by auto
  have 1: "cmp (h i) (h (i div 2)) \<le> 0" if "2 \<le> i" "i \<le> n" "i \<noteq> q" "i div 2 \<noteq> q" for i using assms(2) that unfolding hole_ok_def by blast
  have 2: "cmp (h i) (h ?p) \<le> 0" if "2 \<le> i" "i \<le> n" "i div 2 = q" for i using assms(2,3) that unfolding hole_ok_def by blast
  note t = consistentD(5) [OF assms(1)]
  have pq: "?p < q" "1 \<le> ?p" using half [OF assms(3)] by auto
  have sib: "cmp (h i) (h ?p) \<le> 0" if "2 \<le> i" "i \<le> n" "i div 2 = ?p" "i \<noteq> q" for i using 1 [OF that(1,2,4)] that pq by simp
  have A: "cmp (h' i) (h' (i div 2)) \<le> 0" if i: "2 \<le> i" "i \<le> n" "i \<noteq> ?p" "i div 2 \<noteq> ?p" for i
  proof (cases "i div 2 = q")
    case True
    then have "i \<noteq> q" using half(2) [OF i(1)] by auto
    then show ?thesis using True 2 [OF i(1,2)] h' i by simp
  next
    case False
    moreover have "i \<noteq> q" using i(4) by auto
    ultimately show ?thesis using 1 [OF i(1,2)] h'(2) [of i] h'(2) [of "i div 2"] i half by simp
  qed
  have B: "cmp (h' i) (h' (?p div 2)) \<le> 0" if i: "2 \<le> i" "i \<le> n" "i div 2 = ?p" "2 \<le> ?p" for i
  proof -
    have pp: "?p div 2 < ?p" "1 \<le> ?p div 2" using half [OF i(4)] by auto
    have e: "h' (?p div 2) = h (?p div 2)" using h'(2) [of "?p div 2"] pp pq by simp
    have f: "cmp (h ?p) (h (?p div 2)) \<le> 0" using 1 [OF i(4)] pp pq assms(4) by simp
    show ?thesis
    proof (cases "i = q")
      case False
      then show ?thesis using t [OF sib [OF i(1-3) False] f] e h'(2) [of i] i by simp
    qed (use e f h'(1) in simp)
  qed
  have C: "cmp (h' i) k \<le> 0" if i: "2 \<le> i" "i \<le> n" "i div 2 = ?p" for i
  proof (cases "i = q")
    case False
    then show ?thesis using t [OF sib [OF i False] assms(6)] h'(2) [of i] i by simp
  qed (use assms(6) h'(1) in simp)
  show ?thesis unfolding hole_ok_def using A B C by blast
qed

lemma sink_hole_ok:
  assumes "consistent cmp" "a + n \<le> length xs" "1 \<le> q" "q \<le> n" "hole_ok cmp n q (item a xs)" "sink_hole cmp a n q xs = Inr (j, ys)"
  shows "hole_ok cmp n j (item a ys) \<and> n < j * 2 \<and> length ys = length xs"
  using assms
proof (induction cmp a n q xs rule: sink_hole.induct)
  case (1 cmp a n q xs)
  show ?case
  proof (cases "q * 2 \<le> n")
    case False
    then show ?thesis using 1(6,7) by (subst (asm) sink_hole.simps) auto
  next
    case True
    obtain c where c: "larger_child cmp a n (q * 2) xs = Inr c" "c div 2 = q" "2 \<le> c" "c \<le> n"
      "\<forall>i. 2 \<le> i \<and> i \<le> n \<and> i div 2 = q \<longrightarrow> cmp (item a xs i) (item a xs c) \<le> 0" by (rule larger_child_max [OF 1(2-4) True])
    have b: "1 \<le> c" using c(3) by simp
    let ?zs = "xs[elem a q xs := xs ! elem a c xs]"
    have d: "copy_at xs (elem a q xs) (elem a c xs) = Inr ?zs"
      using elem_in(3) [OF b c(4) 1(3)] elem_in(3) [OF 1(4,5,3)] by (simp add: copy_at_def)
    have "\<forall>i. 1 \<le> i \<longrightarrow> item a ?zs i = (if i = q then item a xs c else item a xs i)"
      using item_update [OF _ 1(4), of _ a xs] nth_elem [OF b, of xs a] 1(3,5) by simp
    from hole_ok_down [OF 1(6,4) c(2-5) this] have "hole_ok cmp n c (item a ?zs)" .
    moreover have "sink_hole cmp a n c ?zs = Inr (j, ys)" using 1(7) True c(1) d by (subst (asm) sink_hole.simps) simp
    ultimately show ?thesis using 1(1) [OF True c(1) d 1(2) _ b c(4)] 1(3) by simp
  qed
qed

lemma heap_fill:
  assumes "hole_ok cmp n q h" "1 \<le> q" "\<forall>i. 2 \<le> i \<and> i \<le> n \<and> i div 2 = q \<longrightarrow> cmp (h i) k \<le> 0" "2 \<le> q \<Longrightarrow> cmp k (h (q div 2)) \<le> 0"
    "\<forall>i. 1 \<le> i \<longrightarrow> h' i = (if i = q then k else h i)"
  shows "heap_from cmp n 1 h'"
  unfolding heap_from_def
proof (intro allI impI)
  fix i :: nat assume i: "2 \<le> i \<and> i \<le> n \<and> 1 \<le> i div 2"
  consider "i = q" | "i div 2 = q" "i \<noteq> q" | "i \<noteq> q" "i div 2 \<noteq> q" by blast
  then show "cmp (h' i) (h' (i div 2)) \<le> 0"
  proof cases
    case 1
    then show ?thesis using assms(4,5) i half(2) [of q] by simp
  next
    case 2
    then show ?thesis using assms(2,3,5) i by simp
  next
    case 3
    then show ?thesis using assms(1,5) i unfolding hole_ok_def by simp
  qed
qed

lemma raise_hole_heap:
  assumes "consistent cmp" "a + n \<le> length xs" "1 \<le> q" "q \<le> n" "hole_ok cmp n q (item a xs)"
    "\<forall>i. 2 \<le> i \<and> i \<le> n \<and> i div 2 = q \<longrightarrow> cmp (item a xs i) k \<le> 0" "raise_hole cmp a k q xs = Inr ys"
  shows "heap_from cmp n 1 (item a ys)"
  using assms
proof (induction cmp a k q xs rule: raise_hole.induct)
  case (1 cmp a k q xs)
  let ?p = "q div 2"
  have upd: "\<forall>i. 1 \<le> i \<longrightarrow> item a (xs[elem a q xs := x]) i = (if i = q then x else item a xs i)" for x
    using item_update [OF _ 1(4), of _ a xs] 1(3,5) by simp
  have w: "write_at xs (elem a q xs) k = Inr (xs[elem a q xs := k])" using elem_in(3) [OF 1(4,5,3)] by (simp add: write_at_def)
  show ?case
  proof (cases "q = 1")
    case True
    then have "ys = xs[elem a q xs := k]" using 1(8) w by (subst (asm) raise_hole.simps) simp
    then show ?thesis using heap_fill [OF 1(6,4,7) _ upd] True by simp
  next
    case False
    then have q: "2 \<le> q" "1 \<le> ?p" "?p \<le> n" using 1(4,5) by auto
    have e: "xs ! elem a ?p xs = item a xs ?p" by (rule nth_elem [OF q(2)])
    have d: "read_at xs (elem a ?p xs) = Inr (item a xs ?p)" "copy_at xs (elem a q xs) (elem a ?p xs) = Inr (xs[elem a q xs := item a xs ?p])"
      using elem_in(3) [OF q(2,3) 1(3)] elem_in(3) [OF 1(4,5,3)] e by (simp_all add: read_at_def copy_at_def)
    show ?thesis
    proof (cases "cmp k (item a xs ?p) < 0")
      case True
      then have "ys = xs[elem a q xs := k]" using 1(8) w d False by (subst (asm) raise_hole.simps) simp
      then show ?thesis using heap_fill [OF 1(6,4,7) _ upd] True by simp
    next
      case c: False
      then have "cmp (item a xs ?p) k \<le> 0" using consistentD(2) [OF 1(2), of "item a xs ?p" k] by linarith
      note u = hole_ok_up [OF 1(2,6) q(1) 1(5,7) this upd]
      have "raise_hole cmp a k ?p (xs[elem a q xs := item a xs ?p]) = Inr ys" using 1(8) d False c by (subst (asm) raise_hole.simps) (simp add: Let_def)
      then show ?thesis using 1(1) [OF refl False d(1) c d(2) 1(2) _ q(2,3)] u 1(3) by simp
    qed
  qed
qed

lemma select_heap:
  assumes "consistent cmp" "a + n \<le> length xs" "1 \<le> n" "hole_ok cmp n 1 (item a xs)" "select cmp a n k xs = Inr ys"
  shows "heap_from cmp n 1 (item a ys)"
proof -
  obtain j zs where z: "sink_hole cmp a n 1 xs = Inr (j, zs)" "1 \<le> j" "j \<le> n"
    using sink_hole_permutes [OF assms(2) _ assms(3)] by blast
  have h: "hole_ok cmp n j (item a zs)" "n < j * 2" "length zs = length xs"
    using sink_hole_ok [OF assms(1,2) _ assms(3,4) z(1)] by simp_all
  then have "\<forall>i. 2 \<le> i \<and> i \<le> n \<and> i div 2 = j \<longrightarrow> cmp (item a zs i) k \<le> 0" by auto
  moreover have "raise_hole cmp a k j zs = Inr ys" using assms(5) z(1) by (simp add: select_def)
  ultimately show ?thesis using raise_hole_heap [OF assms(1) _ z(2,3) h(1)] assms(2) h(3) by simp
qed

lemma heap_root:
  assumes "consistent cmp" "heap_from cmp n 1 h" "1 \<le> i" "i \<le> n"
  shows "cmp (h i) (h 1) \<le> 0"
  using assms(3,4)
proof (induction i rule: less_induct)
  case (less i)
  show ?case
  proof (cases "i = 1")
    case True
    then show ?thesis using consistentD(1) [OF assms(1)] by simp
  next
    case False
    then have i: "2 \<le> i" "1 \<le> i div 2" "i div 2 < i" "i div 2 \<le> n" using less.prems by auto
    have "cmp (h i) (h (i div 2)) \<le> 0" using assms(2) i less.prems unfolding heap_from_def by blast
    then show ?thesis using less.IH [OF i(3,2,4)] consistentD(5) [OF assms(1)] by blast
  qed
qed

text \<open>The heap in the first \<open>n\<close> elements, and after it, in order, elements that none in the heap exceeds.\<close>

definition heap_then_sorted :: "'a cmp \<Rightarrow> nat \<Rightarrow> nat \<Rightarrow> (nat \<Rightarrow> 'a) \<Rightarrow> bool" where
  "heap_then_sorted cmp n N h \<longleftrightarrow> heap_from cmp n 1 h \<and> (\<forall>i j. 1 \<le> i \<and> i < j \<and> n < j \<and> j \<le> N \<longrightarrow> cmp (h i) (h j) \<le> 0)"

lemma select_all_step:
  assumes "consistent cmp" "a + N \<le> length xs" "n \<le> N" "1 < n" "heap_then_sorted cmp n N (item a xs)"
    "ys = xs[a + (n - 1) := xs ! a]" "k = xs ! (a + (n - 1))" "select cmp a (n - 1) k ys = Inr zs" "permutes a (n - 1) (ys[a := k]) zs"
  shows "heap_then_sorted cmp (n - 1) N (item a zs)"
proof -
  have it: "item a us i = us ! (a + (i - 1))" if "1 \<le> i" for i and us :: "'a list" using that by (simp add: item_def)
  have heap: "heap_from cmp n 1 (item a xs)" and tail: "1 \<le> i \<Longrightarrow> i < j \<Longrightarrow> n < j \<Longrightarrow> j \<le> N \<Longrightarrow> cmp (item a xs i) (item a xs j) \<le> 0" for i j
    using assms(5) unfolding heap_then_sorted_def by blast+
  have same: "item a ys m = item a xs m" if "1 \<le> m" "m \<le> n - 1" for m using that assms(6) by (simp add: it)
  have "hole_ok cmp (n - 1) 1 (item a ys)"
    unfolding hole_ok_def
  proof (intro conjI allI impI)
    fix i :: nat assume i: "2 \<le> i \<and> i \<le> n - 1 \<and> i \<noteq> 1 \<and> i div 2 \<noteq> 1"
    then have "1 \<le> i div 2" "i div 2 \<le> n - 1" "i \<le> n" by auto
    then show "cmp (item a ys i) (item a ys (i div 2)) \<le> 0" using i same heap unfolding heap_from_def by simp
  qed simp
  moreover have l: "a + (n - 1) \<le> length ys" using assms(2,3,6) by simp
  ultimately have "heap_from cmp (n - 1) 1 (item a zs)" using select_heap [OF assms(1) l _ _ assms(8)] assms(4) by simp
  moreover have "cmp (item a zs i) (item a zs j) \<le> 0" if ij: "1 \<le> i" "i < j" "n - 1 < j" "j \<le> N" for i j
  proof -
    have out: "item a zs m = (if m = n then item a xs 1 else item a xs m)" if "n - 1 < m" "m \<le> N" for m
    proof -
      have "zs ! (a + (m - 1)) = ys[a := k] ! (a + (m - 1))" using assms(2,6,9) that assms(4) unfolding permutes_def by simp
      moreover have "a + (n - 1) = a + (m - 1) \<longleftrightarrow> m = n" "a + (m - 1) \<noteq> a" "1 \<le> m" using that assms(4) by auto
      ultimately show ?thesis using that assms(2-4,6) by (simp add: it nth_list_update del: add_diff_assoc)
    qed
    have inn: "\<exists>m. 1 \<le> m \<and> m \<le> n \<and> item a zs i = item a xs m" if "i \<le> n - 1"
    proof -
      have "a \<le> a + (i - 1)" "a + (i - 1) < a + (n - 1)" "a + (n - 1) \<le> length (ys[a := k])" using that ij(1) l by simp_all
      from permutes_elem [OF assms(9) this(3,1,2)] obtain q where q: "a \<le> q" "q < a + (n - 1)" "zs ! (a + (i - 1)) = ys[a := k] ! q" .
      then show ?thesis
      proof (cases "q = a")
        case True
        then show ?thesis using q ij(1) assms(2-4,6,7) by (intro exI [of _ n]) (simp add: it)
      next
        case False
        then have "item a zs i = item a xs (q - a + 1)" using q ij(1) assms(6) by (simp add: it)
        then show ?thesis using q by (intro exI [of _ "q - a + 1"]) auto
      qed
    qed
    show ?thesis
    proof (cases "i \<le> n - 1")
      case True
      from inn [OF this] obtain m where m: "1 \<le> m" "m \<le> n" "item a zs i = item a xs m" by blast
      show ?thesis using m heap_root [OF assms(1) heap m(1,2)] tail [of m j] out [OF ij(3,4)] ij by (cases "j = n") auto
    next
      case False
      then have "n < j" "j \<noteq> n" using ij by auto
      then show ?thesis using out [of i] out [OF ij(3,4)] tail [of i j] tail [of 1 j] ij False assms(4) by auto
    qed
  qed
  ultimately show ?thesis unfolding heap_then_sorted_def by blast
qed


lemma select_all_sorts:
  assumes "consistent cmp" "a + N \<le> length xs" "n \<le> N" "1 \<le> n" "heap_then_sorted cmp n N (item a xs)" "select_all cmp a n xs = Inr ys"
  shows "heap_then_sorted cmp 1 N (item a ys)"
  using assms
proof (induction cmp a n xs rule: select_all.induct)
  case (1 cmp a n xs)
  show ?case
  proof (cases "n > 1")
    case False
    then show ?thesis using 1(5,6,7) by (subst (asm) select_all.simps) (simp add: le_antisym)
  next
    case True
    let ?k = "xs ! (a + (n - 1))" and ?ys = "xs[a + (n - 1) := xs ! a]"
    have e: "elem a n xs = a + (n - 1)" "elem a 1 xs = a" using True by (simp_all add: elem_def)
    have l: "a + n \<le> length xs" "a + (n - 1) \<le> length ?ys" "1 \<le> n - 1" using 1(3,4) True by auto
    have "a + (n - 1) < length xs" "a < length xs" using l(1) True by linarith+
    then have d: "read_at xs (elem a n xs) = Inr ?k" "copy_at xs (elem a n xs) (elem a 1 xs) = Inr ?ys"
      unfolding e by (simp_all add: read_at_def copy_at_def)
    obtain zs where zs: "select cmp a (n - 1) ?k ?ys = Inr zs" "permutes a (n - 1) (?ys[a := ?k]) zs"
      using select_permutes [OF l(2,3)] by blast
    have h: "heap_then_sorted cmp (n - 1) N (item a zs)" by (rule select_all_step [OF 1(2-4) True 1(6) refl refl zs])
    have "select_all cmp a (n - 1) zs = Inr ys" using 1(7) True d zs(1) by (subst (asm) select_all.simps) simp
    then show ?thesis using 1(1) [OF True d zs(1) 1(2) _ _ l(3) h] 1(3,4) permutes_length [OF zs(2)] by simp
  qed
qed

lemma sorted_seg_items:
  assumes "heap_then_sorted cmp 1 n (item a xs)"
  shows "sorted_seg cmp a n xs"
  unfolding sorted_seg_def
proof (intro allI impI)
  fix i j assume ij: "a \<le> i \<and> i < j \<and> j < a + n"
  then have "cmp (item a xs (i - a + 1)) (item a xs (j - a + 1)) \<le> 0" using assms unfolding heap_then_sorted_def by (auto simp: less_diff_conv2)
  then show "cmp (xs ! i) (xs ! j) \<le> 0" using ij by (simp add: item_def)
qed

lemma heapsort_sorted:
  assumes "consistent cmp" "a + n \<le> length xs" "0 < sz"
  shows "\<exists>ys. heapsort cmp sz True a n xs = Inr (0, ys) \<and> permutes a n xs ys \<and> sorted_seg cmp a n ys"
proof (cases "n \<le> 1")
  case True
  then show ?thesis by (auto simp: heapsort_def sorted_seg_def)
next
  case False
  obtain ys where ys: "create_all cmp a n (n div 2) xs = Inr ys" "permutes a n xs ys" using create_all_permutes [OF assms(2)] by blast
  have l: "a + n \<le> length ys" using assms(2) permutes_length [OF ys(2)] by simp
  obtain zs where zs: "select_all cmp a n ys = Inr zs" "permutes a n ys zs" using select_all_permutes [OF l] by blast
  have "i div 2 < Suc (n div 2)" if "i \<le> n" for i using that by (simp add: div_le_mono less_Suc_eq_le)
  then have "heap_from cmp n (Suc (n div 2)) (item a xs)" unfolding heap_from_def by (metis not_less)
  from create_all_heap [OF assms(1,2) this ys(1)] have "heap_then_sorted cmp n n (item a ys)" by (simp add: heap_then_sorted_def)
  from sorted_seg_items [OF select_all_sorts [OF assms(1) l _ _ this zs(1)]] False have "sorted_seg cmp a n zs" by simp
  then show ?thesis using False assms(3) ys zs permutes_trans by (auto simp: heapsort_def)
qed

section \<open>Quicksort\<close>

definition classed :: "'a cmp \<Rightarrow> 'a \<Rightarrow> nat \<Rightarrow> nat \<Rightarrow> nat \<Rightarrow> nat \<Rightarrow> 'a list \<Rightarrow> bool" where
  "classed cmp x a n d1 d2 xs \<longleftrightarrow>
    (\<forall>i. a \<le> i \<and> i < a + n \<longrightarrow> sgn (cmp (xs ! i) x) = (if i < a + d1 then - 1 else if i < a + n - d2 then 0 else 1))"

lemma three_way_classed:
  assumes "consistent cmp" "three_way cmp a n d1 d2 xs"
  obtains x where "classed cmp x a n d1 d2 xs"
proof -
  from assms(2) obtain x where x: "\<forall>i. a \<le> i \<and> i < a + d1 \<longrightarrow> cmp (xs ! i) x < 0"
    "\<forall>i. a + d1 \<le> i \<and> i < a + n - d2 \<longrightarrow> xs ! i = x \<or> cmp (xs ! i) x = 0"
    "\<forall>i. a + n - d2 \<le> i \<and> i < a + n \<longrightarrow> cmp (xs ! i) x > 0" unfolding three_way_def by blast
  have "classed cmp x a n d1 d2 xs"
    unfolding classed_def
  proof (intro allI impI)
    fix i assume i: "a \<le> i \<and> i < a + n"
    show "sgn (cmp (xs ! i) x) = (if i < a + d1 then - 1 else if i < a + n - d2 then 0 else 1)"
      using i x(1) [rule_format, of i] x(2) [rule_format, of i] x(3) [rule_format, of i] consistentD(1) [OF assms(1), of x]
      by (cases "i < a + d1"; cases "i < a + n - d2") (auto simp: not_less)
  qed
  then show ?thesis by (rule that)
qed

lemma classed_in_order:
  assumes "classed cmp x a n d1 d2 xs" "d1 + d2 < n"
  shows "in_order (\<lambda>y. sgn (cmp y x)) a n xs"
  unfolding in_order_def
proof (intro allI impI)
  fix i j assume ij: "a \<le> i \<and> i < j \<and> j < a + n"
  then have "sgn (cmp (xs ! i) x) = (if i < a + d1 then - 1 else if i < a + n - d2 then 0 else 1)"
    "sgn (cmp (xs ! j) x) = (if j < a + d1 then - 1 else if j < a + n - d2 then 0 else 1)"
    using assms(1) unfolding classed_def by auto
  then show "sgn (cmp (xs ! i) x) \<le> sgn (cmp (xs ! j) x)" using ij assms(2) by auto
qed

text \<open>Sorting a part between positions of one class keeps the classes.\<close>

lemma classed_permutes:
  assumes "classed cmp x a n d1 d2 xs" "permutes b m xs ys" "a + n \<le> length xs" "b = a \<and> m = d1 \<or> b = a + n - d2 \<and> m = d2" "d1 + d2 < n"
  shows "classed cmp x a n d1 d2 ys"
  unfolding classed_def
proof (intro allI impI)
  fix i assume i: "a \<le> i \<and> i < a + n"
  have cl: "sgn (cmp (xs ! j) x) = (if j < a + d1 then - 1 else if j < a + n - d2 then 0 else 1)" if "a \<le> j" "j < a + n" for j
    using assms(1) that unfolding classed_def by blast
  show "sgn (cmp (ys ! i) x) = (if i < a + d1 then - 1 else if i < a + n - d2 then 0 else 1)"
  proof (cases "b \<le> i \<and> i < b + m")
    case True
    have "b + m \<le> length xs" using assms(3-5) by auto
    from permutes_elem [OF assms(2) this] True obtain j where j: "b \<le> j" "j < b + m" "ys ! i = xs ! j" by blast
    have "a \<le> j" "j < a + n" "j < a + d1 \<longleftrightarrow> i < a + d1" "j < a + n - d2 \<longleftrightarrow> i < a + n - d2" using j True assms(4,5) by auto
    then show ?thesis using cl [of j] j(3) by simp
  next
    case False
    then have "ys ! i = xs ! i" using assms(2,3) i unfolding permutes_def by auto
    then show ?thesis using cl i by simp
  qed
qed

lemma classed_sorted:
  assumes "consistent cmp" "classed cmp x a n d1 d2 xs" "sorted_seg cmp a d1 xs" "sorted_seg cmp (a + n - d2) d2 xs" "d1 + d2 < n"
  shows "sorted_seg cmp a n xs"
  unfolding sorted_seg_def
proof (intro allI impI)
  fix i j assume ij: "a \<le> i \<and> i < j \<and> j < a + n"
  have ci: "sgn (cmp (xs ! i) x) = (if i < a + d1 then - 1 else if i < a + n - d2 then 0 else 1)"
    and cj: "sgn (cmp (xs ! j) x) = (if j < a + d1 then - 1 else if j < a + n - d2 then 0 else 1)"
    using assms(2) ij unfolding classed_def by auto
  consider (left) "j < a + d1" | (right) "a + n - d2 \<le> i" | (mid) "i < a + n - d2" "a + d1 \<le> j" by linarith
  then show "cmp (xs ! i) (xs ! j) \<le> 0"
  proof cases
    case left
    then show ?thesis using assms(3) ij unfolding sorted_seg_def by blast
  next
    case right
    then show ?thesis using assms(4,5) ij unfolding sorted_seg_def by auto
  next
    case mid
    then have "cmp (xs ! i) x \<le> 0" "cmp (xs ! j) x \<ge> 0" using ci cj by (auto simp: sgn_if split: if_splits)
    then have "cmp (xs ! i) x \<le> 0" "cmp x (xs ! j) \<le> 0" using consistentD(2) [OF assms(1), of x "xs ! j"] by linarith+
    then show ?thesis using consistentD(5) [OF assms(1)] by blast
  qed
qed

lemma sorted_seg_frame:
  assumes "sorted_seg cmp a n xs" "permutes b m xs ys" "a + n \<le> b \<or> b + m \<le> a" "a + n \<le> length xs"
  shows "sorted_seg cmp a n ys"
proof -
  have "ys ! i = xs ! i" if "a \<le> i" "i < a + n" for i using assms that unfolding permutes_def by auto
  then show ?thesis using assms(1) unfolding sorted_seg_def by simp
qed

lemma isort_unlimited:
  assumes "isort cmp a n 0 xs = Inr (r, ys)" "a + n \<le> length xs"
  shows "r"
proof -
  have e: "insert_elem cmp a 0 pl swap_cnt vs = Inr (q, c, ws) \<Longrightarrow> q" for pl swap_cnt q c and vs ws :: "'a list"
  proof (induction cmp a "0 :: int" pl swap_cnt vs rule: insert_elem.induct)
    case (1 cmp a pl swap_cnt vs)
    show ?case using 1(3) by (subst (asm) insert_elem.simps) (auto simp: bindS_eq_Inr_iff split: if_splits dest: 1(2))
  qed
  have "isort_loop cmp a n 0 pm swap_cnt vs = Inr (r, ys) \<Longrightarrow> r" for pm swap_cnt vs
  proof (induction "a + n - pm" arbitrary: pm swap_cnt vs rule: less_induct)
    case less
    show ?case
    proof (cases "pm < a + n")
      case True
      then obtain q c ws where w: "insert_elem cmp a 0 pm swap_cnt vs = Inr (q, c, ws)" "(if q then isort_loop cmp a n 0 (pm + 1) c ws else Inr (False, ws)) = Inr (r, ys)"
        using less.prems by (subst (asm) isort_loop.simps) (auto simp: bindS_eq_Inr_iff)
      moreover have q using e [OF w(1)] .
      ultimately show ?thesis using less.hyps [of "pm + 1" c ws] True by simp
    qed (use less.prems in \<open>subst (asm) isort_loop.simps, simp\<close>)
  qed
  then show ?thesis using assms(1) by (simp add: isort_def)
qed

text \<open>Sorting the parts below and above the median, in either order.\<close>

lemma parts_correct:
  assumes zs: "a + n \<le> length zs" and d: "d1 + d2 < n"
    and part: "\<And>b m vs. b + m \<le> length vs \<Longrightarrow> \<exists>ws. part b m vs = Inr ws \<and> permutes b m vs ws \<and> (ok \<longrightarrow> sorted_seg cmp b m ws)"
    and ok: "ok \<Longrightarrow> consistent cmp \<and> (\<exists>x. classed cmp x a n d1 d2 zs)"
  shows "\<exists>ys. (if d1 \<le> d2 then bindS (part a d1 zs) (part (a + n - d2) d2) else bindS (part (a + n - d2) d2 zs) (part a d1)) = Inr ys \<and>
    permutes a n zs ys \<and> (ok \<longrightarrow> sorted_seg cmp a n ys)"
proof -
  have two: "\<exists>ys. bindS (part b m zs) (part b' m') = Inr ys \<and> permutes a n zs ys \<and> (ok \<longrightarrow> sorted_seg cmp a n ys)"
    if bm: "b = a \<and> m = d1 \<and> b' = a + n - d2 \<and> m' = d2 \<or> b = a + n - d2 \<and> m = d2 \<and> b' = a \<and> m' = d1" for b m b' m'
  proof -
    have l: "b + m \<le> length zs" "b' + m' \<le> length zs" "b + m \<le> b' \<or> b' + m' \<le> b" "a \<le> b" "b + m \<le> a + n" "a \<le> b'" "b' + m' \<le> a + n"
      using bm zs d by auto
    obtain vs where vs: "part b m zs = Inr vs" "permutes b m zs vs" "ok \<longrightarrow> sorted_seg cmp b m vs" using part [OF l(1)] by blast
    have lv: "length vs = length zs" using vs(2) by (rule permutes_length)
    obtain ws where ws: "part b' m' vs = Inr ws" "permutes b' m' vs ws" "ok \<longrightarrow> sorted_seg cmp b' m' ws" using part [of b' m' vs] l(2) lv by auto
    have "permutes a n zs ws" using permutes_trans [OF permutes_mono [OF vs(2) l(4,5)] permutes_mono [OF ws(2) l(6,7)]] .
    moreover have "sorted_seg cmp a n ws" if ok: ok
    proof -
      obtain x where c: "consistent cmp" "classed cmp x a n d1 d2 zs" using assms(4) ok by blast
      have "classed cmp x a n d1 d2 vs" by (rule classed_permutes [OF c(2) vs(2) zs _ d]) (use bm in auto)
      then have "classed cmp x a n d1 d2 ws" by (rule classed_permutes [OF _ ws(2) _ _ d]) (use bm zs lv in auto)
      moreover have "sorted_seg cmp b m ws" using sorted_seg_frame [OF _ ws(2)] vs(3) ok l(1,3) lv by auto
      ultimately show ?thesis using classed_sorted [OF c(1)] ws(3) ok bm d by auto
    qed
    ultimately show ?thesis using vs(1) ws(1) by auto
  qed
  show ?thesis using two [of a d1 "a + n - d2" d2] two [of "a + n - d2" d2 a d1] by auto
qed

lemma qsort_seg_correct:
  assumes "a + n \<le> length xs"
  shows "\<exists>ys. qsort_seg cmp avail a n depth xs = Inr ys \<and> permutes a n xs ys \<and>
    (consistent cmp \<and> (\<forall>b m. avail b m) \<longrightarrow> sorted_seg cmp a n ys)"
  using assms
proof (induction "nat depth" arbitrary: a n depth xs rule: less_induct)
  case less
  let ?ok = "consistent cmp \<and> (\<forall>b m. avail b m)"
  consider (heap) "depth \<le> 0" | (small) "\<not> depth \<le> 0" "n \<le> 7" | (large) "\<not> depth \<le> 0" "\<not> n \<le> 7" by blast
  then show ?case
  proof cases
    case heap
    obtain r ys where "heapsort cmp 1 (avail a n) a n xs = Inr (r, ys)" "permutes a n xs ys" using heapsort_permutes [OF less.prems] by blast
    moreover from this have "?ok \<longrightarrow> sorted_seg cmp a n ys" using heapsort_sorted [OF _ less.prems, of cmp 1] by auto
    ultimately show ?thesis using heap by (subst qsort_seg.simps) simp
  next
    case small
    obtain r ys where i: "isort cmp a n 0 xs = Inr (r, ys)" "permutes a n xs ys" using isort_permutes [OF less.prems] by blast
    moreover have r: r using isort_unlimited [OF i(1) less.prems] .
    ultimately have "?ok \<longrightarrow> sorted_seg cmp a n ys" using isort_sorts [of cmp a n 0 xs ys] less.prems by simp
    then show ?thesis using small i by (subst qsort_seg.simps) simp
  next
    case large
    obtain d1 d2 s ys where p: "partition_seg cmp a n xs = Inr (d1, d2, s, ys)" "permutes a n xs ys" "three_way cmp a n d1 d2 ys"
      using partition_three_way [OF less.prems] large(2) by (metis not_less)
    have ys: "a + n \<le> length ys" and d: "d1 + d2 < n" using less.prems p(2,3) by (simp_all add: permutes_def three_way_def)
    let ?lim = "sint (word_of_nat (1 + n div 4) :: u32)"
    obtain r zs where i: "(if \<not> s then isort cmp a n ?lim ys else Inr (False, ys)) = Inr (r, zs)" "permutes a n ys zs"
      using isort_permutes [OF ys, of cmp ?lim] by (cases s) auto
    have pz: "permutes a n xs zs" using p(2) i(2) by (rule permutes_trans)
    have zs: "a + n \<le> length zs" using less.prems permutes_length [OF pz] by simp
    show ?thesis
    proof (cases r)
      case True
      then have "isort cmp a n ?lim ys = Inr (True, zs)" using i(1) by (simp split: if_splits)
      then have "?ok \<longrightarrow> sorted_seg cmp a n zs" using isort_sorts ys by blast
      then show ?thesis using large p(1) i(1) True pz by (subst qsort_seg.simps) simp
    next
      case False
      define part where "part b m vs = (if 1 < m then qsort_seg cmp avail b m (depth - 1) vs else Inr vs)" for b m vs
      have part: "\<exists>ws. part b m vs = Inr ws \<and> permutes b m vs ws \<and> (?ok \<longrightarrow> sorted_seg cmp b m ws)" if "b + m \<le> length vs" for b m vs
        using less.hyps [of "depth - 1" b m vs] large(1) that by (auto simp: part_def sorted_seg_def)
      have q: "qsort_seg cmp avail a n depth xs =
          (if d1 \<le> d2 then bindS (part a d1 zs) (part (a + n - d2) d2) else bindS (part (a + n - d2) d2 zs) (part a d1))"
        using large p(1) i(1) False by (subst qsort_seg.simps) (simp add: part_def Let_def)
      have "consistent cmp \<and> (\<exists>x. classed cmp x a n d1 d2 zs)" if ok: "?ok"
      proof -
        obtain x where x: "classed cmp x a n d1 d2 ys" using three_way_classed [OF _ p(3)] ok by blast
        have "sgn (cmp (zs ! i) x) = sgn (cmp (ys ! i) x)" for i
        proof (cases s)
          case False
          with i(1) have "isort cmp a n ?lim ys = Inr (r, zs)" by simp
          moreover have "sgn (cmp v x) \<le> sgn (cmp u x)" if "cmp u v > 0" for u v using ok that sgn_mono [of cmp u v x] by simp
          ultimately show ?thesis using isort_class [where g = "\<lambda>y. sgn (cmp y x)" and cmp = cmp, OF _ classed_in_order [OF x d] ys] by blast
        qed (use i(1) in simp)
        then have "classed cmp x a n d1 d2 zs" using x unfolding classed_def by simp
        then show ?thesis using ok by blast
      qed
      from parts_correct [OF zs d part this] show ?thesis using q permutes_trans [OF pz] by auto
    qed
  qed
qed

section \<open>Properties\<close>

lemma sorted_seg_sorted_wrt: "sorted_seg cmp 0 (length xs) xs \<longleftrightarrow> sorted_wrt (\<lambda>x y. cmp x y \<le> 0) xs"
  by (auto simp: sorted_seg_def sorted_wrt_iff_nth_less)

lemma qsort_correct:
  obtains ys where "qsort cmp avail xs = Inr ys" "mset ys = mset xs"
    "consistent cmp \<and> (\<forall>b m. avail b m) \<longrightarrow> sorted_wrt (\<lambda>x y. cmp x y \<le> 0) ys"
proof -
  obtain ys where ys: "qsort cmp avail xs = Inr ys" "permutes 0 (length xs) xs ys"
    "consistent cmp \<and> (\<forall>b m. avail b m) \<longrightarrow> sorted_seg cmp 0 (length xs) ys"
    unfolding qsort_def using qsort_seg_correct [of 0 "length xs" xs cmp avail "DEPTH (length xs)"] by auto
  then have "length ys = length xs" "mset ys = mset xs" by (simp_all add: permutes_def)
  then show ?thesis using that ys(1,3) sorted_seg_sorted_wrt by metis
qed

text \<open>
  C29: whatever the comparison function answers and whether or not memory is found, \<open>qsort\<close> comes to an end without touching anything outside
  the array, and leaves a permutation of its elements.
\<close>

theorem qsort_safe: "\<exists>ys. qsort cmp avail xs = Inr ys \<and> mset ys = mset xs"
  using qsort_correct [of cmp avail xs] by blast

text \<open>
  C30: with a comparison function that orders the elements, and when \<open>heapsort\<close> finds memory, \<open>qsort\<close> sorts the array.
\<close>

theorem qsort_sorts:
  assumes "consistent cmp" "\<And>b m. avail b m"
  shows "\<exists>ys. qsort cmp avail xs = Inr ys \<and> mset ys = mset xs \<and> sorted_wrt (\<lambda>x y. cmp x y \<le> 0) ys"
  using qsort_correct [of cmp avail xs] assms by blast

text \<open>
  C31: \<open>heapsort\<close> sorts the array, with a comparison function that orders the elements, and returns 0; without memory, and for
  elements of size zero, it returns \<open>- 1\<close> for an array of more than one element and leaves it as it is.
\<close>

theorem heapsort_sorts:
  assumes "consistent cmp"
  shows "(0 < sz \<longrightarrow>
      (\<exists>ys. heapsort cmp sz True 0 (length xs) xs = Inr (0, ys) \<and> mset ys = mset xs \<and> sorted_wrt (\<lambda>x y. cmp x y \<le> 0) ys)) \<and>
    (1 < length xs \<longrightarrow> heapsort cmp sz False 0 (length xs) xs = Inr (- 1, xs) \<and> heapsort cmp 0 avail 0 (length xs) xs = Inr (- 1, xs))"
proof (intro conjI impI)
  assume "0 < sz"
  then obtain ys where ys: "heapsort cmp sz True 0 (length xs) xs = Inr (0, ys)" "permutes 0 (length xs) xs ys" "sorted_seg cmp 0 (length xs) ys"
    using heapsort_sorted [OF assms, of 0 "length xs" xs] by auto
  then have "length ys = length xs" "mset ys = mset xs" by (simp_all add: permutes_def)
  then show "\<exists>ys. heapsort cmp sz True 0 (length xs) xs = Inr (0, ys) \<and> mset ys = mset xs \<and> sorted_wrt (\<lambda>x y. cmp x y \<le> 0) ys"
    using ys(1,3) sorted_seg_sorted_wrt by metis
qed (simp_all add: heapsort_def)

definition killer :: "int list" where
  "killer = [0, 12, 2, 16, 4, 14, 6, 17, 8, 18, 10, 19, 1, 3, 5, 7, 9, 11, 13, 15, 20, 21, 22, 23]"

text \<open>
  When memory is short, \<open>qsort\<close> leaves arrays unsorted and says nothing, since \<open>_qsort\<close> drops the result of \<open>heapsort\<close>: so it does
  with this permutation of the first 24 numbers.
\<close>

theorem qsort_unsorted_without_memory:
  "qsort (\<lambda>x y. x - y) (\<lambda>a n. False) killer =
    Inr [0, 1, 2, 3, 4, 5, 6, 7, 8, 9, 10, 11, 12, 13, 14, 15, 18, 19, 16, 17, 20, 21, 22, 23]"
  by code_simp

subsection \<open>Binary search\<close>

text \<open>
  \<open>bsearch\<close> needs less than an order: the elements that the key exceeds come first and those that exceed the key last.
\<close>

definition searchable :: "('k \<Rightarrow> 'a \<Rightarrow> int) \<Rightarrow> 'k \<Rightarrow> 'a list \<Rightarrow> bool" where
  "searchable cmp key xs \<longleftrightarrow> (\<forall>i j. i < j \<and> j < length xs \<longrightarrow>
    (cmp key (xs ! i) < 0 \<longrightarrow> cmp key (xs ! j) < 0) \<and> (cmp key (xs ! j) > 0 \<longrightarrow> cmp key (xs ! i) > 0))"

lemma bsearch_loop_correct:
  assumes "searchable cmp key xs" "base + lim \<le> length xs" "\<And>i. i < length xs \<Longrightarrow> cmp key (xs ! i) = 0 \<Longrightarrow> base \<le> i \<and> i < base + lim"
  shows "\<exists>r. bsearch_loop cmp key xs base lim = Inr r \<and>
    (case r of Some p \<Rightarrow> p < length xs \<and> cmp key (xs ! p) = 0 | None \<Rightarrow> \<forall>p < length xs. cmp key (xs ! p) \<noteq> 0)"
  using assms
proof (induction cmp key xs base lim rule: bsearch_loop.induct)
  case (1 cmp key xs base lim)
  let ?p = "base + lim div 2"
  show ?case
  proof (cases "lim = 0")
    case True
    then have "\<forall>p < length xs. cmp key (xs ! p) \<noteq> 0" using 1(5) by fastforce
    then show ?thesis using True by (subst bsearch_loop.simps) auto
  next
    case False
    then have p: "?p < length xs" using 1(4) by linarith
    then have r: "read_at xs ?p = Inr (xs ! ?p)" by (simp add: read_at_def)
    have s: "i < j \<Longrightarrow> j < length xs \<Longrightarrow> (cmp key (xs ! i) < 0 \<longrightarrow> cmp key (xs ! j) < 0) \<and> (cmp key (xs ! j) > 0 \<longrightarrow> cmp key (xs ! i) > 0)" for i j
      using 1(3) unfolding searchable_def by blast
    consider (found) "cmp key (xs ! ?p) = 0" | (right) "cmp key (xs ! ?p) > 0" | (left) "cmp key (xs ! ?p) < 0" by linarith
    then show ?thesis
    proof cases
      case found
      then show ?thesis using False p r by (subst bsearch_loop.simps) (simp add: Let_def)
    next
      case right
      have e: "?p + 1 + (lim - 1) div 2 = base + lim" using False by presburger
      have "?p + 1 \<le> i \<and> i < ?p + 1 + (lim - 1) div 2" if "i < length xs" "cmp key (xs ! i) = 0" for i
        using s [of i ?p] right that p 1(5) [OF that] unfolding e by (metis Suc_eq_plus1 Suc_leI less_irrefl nat_neq_iff)
      moreover have "?p + 1 + (lim - 1) div 2 \<le> length xs" "cmp key (xs ! ?p) \<noteq> 0" using 1(4) right unfolding e by simp_all
      ultimately have "\<exists>r. bsearch_loop cmp key xs (?p + 1) ((lim - 1) div 2) = Inr r \<and>
          (case r of Some p \<Rightarrow> p < length xs \<and> cmp key (xs ! p) = 0 | None \<Rightarrow> \<forall>p < length xs. cmp key (xs ! p) \<noteq> 0)"
        using 1(1) [OF False refl r refl _ right 1(3)] by blast
      then show ?thesis using False r right by (subst bsearch_loop.simps) (simp add: Let_def)
    next
      case left
      have "i < ?p" if "i < length xs" "cmp key (xs ! i) = 0" for i
        using s [of ?p i] left that by (metis less_irrefl nat_neq_iff)
      then have "\<exists>r. bsearch_loop cmp key xs base (lim div 2) = Inr r \<and>
          (case r of Some p \<Rightarrow> p < length xs \<and> cmp key (xs ! p) = 0 | None \<Rightarrow> \<forall>p < length xs. cmp key (xs ! p) \<noteq> 0)"
        using 1(2) [OF _ refl r refl _ _ 1(3)] False left 1(4,5) p by auto
      then show ?thesis using False r left by (subst bsearch_loop.simps) (simp add: Let_def)
    qed
  qed
qed

lemma sorted_searchable:
  assumes "consistent cmp" "sorted_wrt (\<lambda>x y. cmp x y \<le> 0) xs"
  shows "searchable cmp key xs"
  unfolding searchable_def
proof (intro allI impI)
  fix i j assume "i < j \<and> j < length xs"
  then have o: "cmp (xs ! i) (xs ! j) \<le> 0" using assms(2) by (auto simp: sorted_wrt_iff_nth_less)
  have "cmp key (xs ! j) < 0" if k: "cmp key (xs ! i) < 0"
  proof (rule ccontr)
    assume "\<not> cmp key (xs ! j) < 0"
    then have "cmp (xs ! j) key \<le> 0" using consistentD(3) [OF assms(1), of "xs ! j" key] consistentD(2) [OF assms(1), of "xs ! j" key] by linarith
    then show False using consistentD(5) [OF assms(1) o] consistentD(3) [OF assms(1) k] by fastforce
  qed
  moreover have "cmp key (xs ! i) > 0" if k: "cmp key (xs ! j) > 0"
    using consistentD(5) [OF assms(1) _ o, of key] k by linarith
  ultimately show "(cmp key (xs ! i) < 0 \<longrightarrow> cmp key (xs ! j) < 0) \<and> (cmp key (xs ! j) > 0 \<longrightarrow> cmp key (xs ! i) > 0)" by blast
qed

text \<open>
  C32: in an array that \<open>qsort\<close> has sorted, \<open>bsearch\<close> with the same comparison function finds an element equal to the key if the original array
  has one, and reports that there is none otherwise.
\<close>

theorem bsearch_after_qsort:
  assumes "consistent cmp" "\<And>b m. avail b m" "qsort cmp avail xs = Inr ys"
  shows "\<exists>r. bsearch cmp key ys (length ys) = Inr r \<and>
    (case r of Some p \<Rightarrow> p < length ys \<and> cmp key (ys ! p) = 0 | None \<Rightarrow> \<forall>x \<in> set xs. cmp key x \<noteq> 0)"
proof -
  have ys: "mset ys = mset xs" "sorted_wrt (\<lambda>x y. cmp x y \<le> 0) ys"
    using qsort_correct [of cmp avail xs] assms by auto
  then have "set xs = set ys" by (metis set_mset_mset)
  obtain r where "bsearch cmp key ys (length ys) = Inr r"
    "case r of Some p \<Rightarrow> p < length ys \<and> cmp key (ys ! p) = 0 | None \<Rightarrow> \<forall>p < length ys. cmp key (ys ! p) \<noteq> 0"
    using bsearch_loop_correct [OF sorted_searchable [OF assms(1) ys(2), of key], of 0 "length ys"] unfolding bsearch_def by auto
  then show ?thesis using \<open>set xs = set ys\<close> by (cases r) (auto simp: in_set_conv_nth)
qed

lemma int_consistent: "consistent (\<lambda>x y :: int. x - y)"
  by (simp add: consistent_def)

theorem qsort_sorts_witness:
  "\<exists>ys. qsort (\<lambda>x y :: int. x - y) (\<lambda>a n. True) killer = Inr ys \<and> mset ys = mset killer \<and> sorted_wrt (\<lambda>x y. x - y \<le> 0) ys"
  using qsort_sorts [OF int_consistent, of "\<lambda>a n. True" killer] by simp

theorem heapsort_sorts_witness:
  "\<exists>ys. heapsort (\<lambda>x y :: int. x - y) 8 True 0 (length killer) killer = Inr (0, ys) \<and> mset ys = mset killer \<and> sorted_wrt (\<lambda>x y. x - y \<le> 0) ys"
  using heapsort_sorts [OF int_consistent, of 8 killer] by auto

theorem bsearch_after_qsort_witness: "bsearch (\<lambda>x y :: int. x - y) 2 [1, 2, 3] (length [1, 2, 3 :: int]) = Inr (Some 1)"
proof -
  have "qsort (\<lambda>x y :: int. x - y) (\<lambda>a n. True) [3, 1, 2] = Inr [1, 2, 3]" by code_simp
  from bsearch_after_qsort [OF int_consistent _ this, of 2] obtain r where
    r: "bsearch (\<lambda>x y :: int. x - y) 2 [1, 2, 3] (length [1, 2, 3 :: int]) = Inr r"
      "case r of Some p \<Rightarrow> p < length [1, 2, 3 :: int] \<and> 2 - [1, 2, 3] ! p = (0 :: int) | None \<Rightarrow> \<forall>x \<in> set [3, 1, 2 :: int]. 2 - x \<noteq> 0" by blast
  have "p = 1" if "p < length [1, 2, 3 :: int]" "2 - [1, 2, 3] ! p = (0 :: int)" for p using that by (cases p; cases "p - 1") auto
  then show ?thesis using r by (cases r) auto
qed

section \<open>Exchanging elements byte by byte\<close>

text \<open>
  The array as bytes, with elements of \<open>es\<close> bytes. \<open>swapfunc\<close> exchanges two areas in units of a \<open>long\<close>, an \<open>int\<close> or a \<open>char\<close>, whichever the
  alignment and the size of the elements allow.
\<close>

datatype unit_type = TLong | TInt | TChar

fun sizeof :: "unit_type \<Rightarrow> nat" where
  "sizeof TLong = 8"
| "sizeof TInt = 4"
| "sizeof TChar = 1"

definition get :: "nat \<Rightarrow> nat \<Rightarrow> u8 list \<Rightarrow> u8 list" where
  "get p n mem = take n (drop p mem)"

definition put :: "nat \<Rightarrow> u8 list \<Rightarrow> u8 list \<Rightarrow> u8 list" where
  "put p bs mem = take p mem @ bs @ drop (p + length bs) mem"

definition swap_unit :: "nat \<Rightarrow> nat \<Rightarrow> nat \<Rightarrow> u8 list \<Rightarrow> sort_fault + u8 list" where
  "swap_unit w p q mem =
    (if p + w \<le> length mem \<and> q + w \<le> length mem
     then let t = get p w mem; mem = put p (get q w mem) mem in Inr (put q t mem)
     else Inl Out_of_bounds)"

lemma length_swap_unit: "swap_unit w p q mem = Inr mem' \<Longrightarrow> length mem' = length mem \<and> p + w \<le> length mem"
  by (auto simp: swap_unit_def put_def get_def Let_def split: if_splits)

lemma sizeof_pos: "0 < sizeof ty"
  by (cases ty) simp_all

text \<open>The loop \<open>do ... while (--i > 0)\<close>.\<close>

function swap_units :: "unit_type \<Rightarrow> u64 \<Rightarrow> nat \<Rightarrow> nat \<Rightarrow> u8 list \<Rightarrow> sort_fault + u8 list" where
  "swap_units ty i p q mem =
    bindS (swap_unit (sizeof ty) p q mem) (\<lambda>mem'.
      if i - 1 > 0 then swap_units ty (i - 1) (p + sizeof ty) (q + sizeof ty) mem' else Inr mem')"
  by pat_completeness auto

termination
proof (relation "measure (\<lambda>(ty, i, p, q, mem). length mem - p)")
  fix ty i p q mem mem'
  assume "swap_unit (sizeof ty) p q mem = Inr mem'"
  then have "length mem' = length mem" "p + sizeof ty \<le> length mem" using length_swap_unit by blast+
  then show "((ty, i - 1, p + sizeof ty, q + sizeof ty, mem'), (ty, i, p, q, mem)) \<in> measure (\<lambda>(ty, i, p, q, mem). length mem - p)"
    using sizeof_pos [of ty] by simp
qed simp

declare swap_units.simps [simp del]

definition swapcode :: "unit_type \<Rightarrow> nat \<Rightarrow> nat \<Rightarrow> u64 \<Rightarrow> u8 list \<Rightarrow> sort_fault + u8 list" where
  "swapcode ty a b n mem = swap_units ty (n div of_nat (sizeof ty)) a b mem"

text \<open>\<open>SWAPINIT\<close>: 2 when the type does not fit, 0 when an element is one unit, 1 otherwise.\<close>

definition SWAPINIT :: "unit_type \<Rightarrow> nat \<Rightarrow> u64 \<Rightarrow> nat" where
  "SWAPINIT ty addr es =
    (if addr mod sizeof ty \<noteq> 0 \<or> es mod of_nat (sizeof ty) \<noteq> 0 then 2 else if es = of_nat (sizeof ty) then 0 else 1)"

definition swapfunc :: "nat \<Rightarrow> nat \<Rightarrow> u64 \<Rightarrow> nat \<Rightarrow> nat \<Rightarrow> u8 list \<Rightarrow> sort_fault + u8 list" where
  "swapfunc a b n swaptype_long swaptype_int mem =
    (if swaptype_long \<le> 1 then swapcode TLong a b n mem
     else if swaptype_int \<le> 1 then swapcode TInt a b n mem
     else swapcode TChar a b n mem)"

text \<open>The exchange of the elements at the offsets \<open>a\<close> and \<open>b\<close> of an array at the address \<open>addr\<close>.\<close>

definition swap_elems :: "nat \<Rightarrow> u64 \<Rightarrow> nat \<Rightarrow> nat \<Rightarrow> u8 list \<Rightarrow> sort_fault + u8 list" where
  "swap_elems addr es a b mem =
    (let swaptype_long = SWAPINIT TLong addr es; swaptype_int = SWAPINIT TInt addr es in
     if swaptype_long = 0 then swap_unit 8 a b mem
     else if swaptype_int = 0 then swap_unit 4 a b mem
     else swapfunc a b es swaptype_long swaptype_int mem)"

text \<open>The areas of \<open>n\<close> bytes at \<open>p\<close> and \<open>q\<close> have changed places.\<close>

definition exchanged :: "nat \<Rightarrow> nat \<Rightarrow> nat \<Rightarrow> u8 list \<Rightarrow> u8 list \<Rightarrow> bool" where
  "exchanged n p q mem mem' \<longleftrightarrow> length mem' = length mem \<and>
    (\<forall>k < length mem. mem' ! k = (if p \<le> k \<and> k < p + n then mem ! (q + (k - p)) else if q \<le> k \<and> k < q + n then mem ! (p + (k - q)) else mem ! k))"

definition apart :: "nat \<Rightarrow> nat \<Rightarrow> nat \<Rightarrow> bool" where
  "apart n p q \<longleftrightarrow> p + n \<le> q \<or> q + n \<le> p \<or> p = q"

lemma nth_put:
  assumes "p + length bs \<le> length mem" "k < length mem"
  shows "put p bs mem ! k = (if p \<le> k \<and> k < p + length bs then bs ! (k - p) else mem ! k)"
  using assms by (auto simp: put_def nth_append)

lemma nth_get: "p + n \<le> length mem \<Longrightarrow> k < n \<Longrightarrow> get p n mem ! k = mem ! (p + k)"
  by (simp add: get_def)

lemma swap_unit_exchanged:
  assumes "p + w \<le> length mem" "q + w \<le> length mem" "apart w p q"
  shows "\<exists>mem'. swap_unit w p q mem = Inr mem' \<and> exchanged w p q mem mem'"
proof -
  have g: "length (get p w mem) = w" "length (get q w mem) = w" using assms by (simp_all add: get_def)
  let ?m = "put p (get q w mem) mem"
  have l: "length ?m = length mem" using assms g by (simp add: put_def)
  have m: "?m ! k = (if p \<le> k \<and> k < p + w then mem ! (q + (k - p)) else mem ! k)" if "k < length mem" for k
    using nth_put [of p "get q w mem" mem k] that assms(1,2) g(2) nth_get [of q w mem "k - p"] by auto
  let ?r = "put q (get p w mem) ?m"
  have r: "?r ! k = (if q \<le> k \<and> k < q + w then mem ! (p + (k - q)) else ?m ! k)" if "k < length mem" for k
    using nth_put [of q "get p w mem" ?m k] that assms(1,2) g(1) nth_get [of p w mem "k - q"] l by auto
  have "length ?r = length mem" using assms g l by (simp add: put_def)
  moreover have "?r ! k = (if p \<le> k \<and> k < p + w then mem ! (q + (k - p)) else if q \<le> k \<and> k < q + w then mem ! (p + (k - q)) else mem ! k)" if "k < length mem" for k
  proof -
    obtain A B where AB: "(p \<le> k \<and> k < p + w) = A" "(q \<le> k \<and> k < q + w) = B" by blast
    have "p = q" if A B using assms(3) that AB by (auto simp: apart_def)
    then show ?thesis using r [OF that] m [OF that] unfolding AB by (cases A; cases B) simp_all
  qed
  ultimately show ?thesis using assms(1,2) by (simp add: swap_unit_def Let_def exchanged_def)
qed

lemma exchanged_append:
  assumes "exchanged w p q mem mem1" "exchanged m (p + w) (q + w) mem1 mem2" "apart (w + m) p q" "p + (w + m) \<le> length mem" "q + (w + m) \<le> length mem"
  shows "exchanged (w + m) p q mem mem2"
  unfolding exchanged_def
proof (intro conjI allI impI)
  show "length mem2 = length mem" using assms(1,2) by (simp add: exchanged_def)
  fix k assume k: "k < length mem"
  have l: "length mem1 = length mem" using assms(1) by (simp add: exchanged_def)
  have 1: "mem1 ! j = (if p \<le> j \<and> j < p + w then mem ! (q + (j - p)) else if q \<le> j \<and> j < q + w then mem ! (p + (j - q)) else mem ! j)" if "j < length mem" for j
    using assms(1) that unfolding exchanged_def by blast
  have 2: "mem2 ! k = (if p + w \<le> k \<and> k < p + w + m then mem1 ! (q + w + (k - (p + w))) else if q + w \<le> k \<and> k < q + w + m then mem1 ! (p + w + (k - (q + w))) else mem1 ! k)"
    using assms(2) k l unfolding exchanged_def by metis
  consider (p) "p + w \<le> k" "k < p + w + m" | (q) "\<not> (p + w \<le> k \<and> k < p + w + m)" "q + w \<le> k" "k < q + w + m"
    | (o) "\<not> (p + w \<le> k \<and> k < p + w + m)" "\<not> (q + w \<le> k \<and> k < q + w + m)" by blast
  then show "mem2 ! k = (if p \<le> k \<and> k < p + (w + m) then mem ! (q + (k - p)) else if q \<le> k \<and> k < q + (w + m) then mem ! (p + (k - q)) else mem ! k)"
  proof cases
    case p
    let ?j = "q + w + (k - (p + w))"
    have "?j < length mem" "?j = q + (k - p)" "\<not> (p \<le> ?j \<and> ?j < p + w)" "\<not> (q \<le> ?j \<and> ?j < q + w)" using p assms(3,5) by (auto simp: apart_def)
    then have "mem1 ! ?j = mem ! (q + (k - p))" using 1 [of ?j] by (simp only: if_False)
    then show ?thesis using 2 p by simp
  next
    case q
    let ?j = "p + w + (k - (q + w))"
    have "?j < length mem" "?j = p + (k - q)" "\<not> (p \<le> ?j \<and> ?j < p + w)" "\<not> (q \<le> ?j \<and> ?j < q + w)" using q assms(3,4) by (auto simp: apart_def)
    then have "mem1 ! ?j = mem ! (p + (k - q))" using 1 [of ?j] by (simp only: if_False)
    moreover have "\<not> (p \<le> k \<and> k < p + (w + m))" using q assms(3) by (auto simp: apart_def)
    ultimately show ?thesis using 2 q by auto
  next
    case o
    then have "mem2 ! k = mem1 ! k" using 2 by (simp only: if_False)
    moreover have "p \<le> k \<and> k < p + (w + m) \<longleftrightarrow> p \<le> k \<and> k < p + w" "q \<le> k \<and> k < q + (w + m) \<longleftrightarrow> q \<le> k \<and> k < q + w" using o by auto
    ultimately show ?thesis using 1 [OF k] by (simp only:)
  qed
qed

lemma swap_units_exchanged:
  assumes "unat i = Suc k" "p + Suc k * sizeof ty \<le> length mem" "q + Suc k * sizeof ty \<le> length mem" "apart (Suc k * sizeof ty) p q"
  shows "\<exists>mem'. swap_units ty i p q mem = Inr mem' \<and> exchanged (Suc k * sizeof ty) p q mem mem'"
  using assms
proof (induction k arbitrary: i p q mem)
  case 0
  then have "i = 1" by (metis One_nat_def unat_1 word_unat_eq_iff)
  then show ?case using swap_unit_exchanged [of p "sizeof ty" mem q] 0 by (subst swap_units.simps) auto
next
  case (Suc k)
  let ?w = "sizeof ty"
  have i: "unat (i - 1) = Suc k" using Suc.prems(1) by (metis Suc_eq_plus1 Suc_inject add_diff_cancel_right' unat_minus_one unat_0 nat.simps(3))
  then have pos: "i - 1 > 0" by (simp add: word_less_nat_alt)
  have a: "apart ?w p q" "apart (Suc k * ?w) (p + ?w) (q + ?w)" using Suc.prems(4) by (auto simp: apart_def)
  obtain mem1 where m1: "swap_unit ?w p q mem = Inr mem1" "exchanged ?w p q mem mem1" using swap_unit_exchanged [OF _ _ a(1), of mem] Suc.prems by auto
  then have l: "length mem1 = length mem" by (simp add: exchanged_def)
  obtain mem2 where m2: "swap_units ty (i - 1) (p + ?w) (q + ?w) mem1 = Inr mem2" "exchanged (Suc k * ?w) (p + ?w) (q + ?w) mem1 mem2"
    using Suc.IH [OF i _ _ a(2), of mem1] Suc.prems(2,3) l by auto
  have "exchanged (?w + Suc k * ?w) p q mem mem2" by (rule exchanged_append [OF m1(2) m2(2)]) (use Suc.prems in simp_all)
  then show ?case using m1(1) m2(1) pos by (subst swap_units.simps) simp
qed


lemma swapcode_exchanged:
  assumes "unat n mod sizeof ty = 0" "0 < unat n" "p + unat n \<le> length mem" "q + unat n \<le> length mem" "apart (unat n) p q"
  shows "\<exists>mem'. swapcode ty p q n mem = Inr mem' \<and> exchanged (unat n) p q mem mem'"
proof -
  obtain k where k: "unat n = sizeof ty * k" using assms(1) by auto
  have s: "unat (of_nat (sizeof ty) :: u64) = sizeof ty" by (cases ty) simp_all
  have "unat (n div of_nat (sizeof ty)) = k" using k s sizeof_pos [of ty] by (simp add: unat_div)
  moreover obtain k' where "k = Suc k'" using k assms(2) by (cases k) simp_all
  ultimately show ?thesis using swap_units_exchanged [of "n div of_nat (sizeof ty)" k' p ty mem q] assms(3-5) k
    by (simp add: swapcode_def mult.commute)
qed

text \<open>An array of elements of \<open>es\<close> bytes.\<close>

lemma concat_nth:
  assumes "\<forall>x \<in> set xs. length x = es" "k < length xs * es"
  shows "concat xs ! k = xs ! (k div es) ! (k mod es)"
  using assms
proof (induction xs arbitrary: k)
  case (Cons x xs)
  show ?case
  proof (cases "k < es")
    case False
    moreover have "0 < es" using Cons.prems False by (cases es) auto
    ultimately have "k div es = Suc ((k - es) div es)" "k mod es = (k - es) mod es" by (simp_all add: le_div_geq le_mod_geq)
    then show ?thesis using False Cons by (simp add: nth_append)
  qed (use Cons.prems in \<open>simp add: nth_append\<close>)
qed simp

lemma length_concat_es: "\<forall>x \<in> set xs. length x = es \<Longrightarrow> length (concat xs) = length xs * es"
  by (induction xs) auto

lemma exchanged_concat:
  assumes "\<forall>x \<in> set xs. length x = es" "0 < es" "i < length xs" "j < length xs" "exchanged es (i * es) (j * es) (concat xs) mem"
  shows "mem = concat (xs[i := xs ! j, j := xs ! i])"
proof (rule nth_equalityI)
  let ?ys = "xs[i := xs ! j, j := xs ! i]"
  have l: "length (concat xs) = length xs * es" by (rule length_concat_es [OF assms(1)])
  have ys: "\<forall>x \<in> set ?ys. length x = es" using assms(1,3,4) by (auto simp: in_set_conv_nth nth_list_update)
  show len: "length mem = length (concat ?ys)" using assms(5) l length_concat_es [OF ys] by (simp add: exchanged_def)
  fix k assume "k < length mem"
  then have k: "k < length xs * es" using assms(5) l by (simp add: exchanged_def)
  have range: "m * es \<le> k \<and> k < m * es + es \<longleftrightarrow> k div es = m" for m
  proof -
    have "m * es \<le> k \<longleftrightarrow> m \<le> k div es" "k < Suc m * es \<longleftrightarrow> k div es < Suc m"
      using assms(2) by (simp_all only: less_eq_div_iff_mult_less_eq div_less_iff_less_mult)
    then show ?thesis by auto
  qed
  have move: "concat xs ! (m * es + (k - k div es * es)) = xs ! m ! (k mod es)" if "m < length xs" for m
  proof -
    have r: "k - k div es * es = k mod es" "k mod es < es" using assms(2) by (simp_all add: minus_div_mult_eq_mod)
    have "m * es + es \<le> length xs * es" using that by (metis Suc_leI add.commute mult_Suc mult_le_mono1)
    then show ?thesis using concat_nth [OF assms(1), of "m * es + k mod es"] r assms(2) by simp
  qed
  have "mem ! k = (if k div es = i then concat xs ! (j * es + (k - i * es)) else if k div es = j then concat xs ! (i * es + (k - j * es)) else concat xs ! k)"
    using assms(5) k unfolding exchanged_def l range [symmetric] by blast
  also have "\<dots> = ?ys ! (k div es) ! (k mod es)"
    using move [OF assms(4)] move [OF assms(3)] nth_swap [OF assms(3,4)] concat_nth [OF assms(1) k] by auto
  also have "\<dots> = concat ?ys ! k" using concat_nth [OF ys, of k] k by simp
  finally show "mem ! k = concat ?ys ! k" .
qed

text \<open>
  C33: exchanging two elements byte by byte, in whatever units their size and the address of the array allow, is the exchange of
  the elements that the sorting routines are built on.
\<close>

theorem swap_elems_refines:
  assumes "\<forall>x \<in> set xs. length x = unat es" "0 < unat es" "i < length xs" "j < length xs"
  shows "swap_elems addr es (i * unat es) (j * unat es) (concat xs) = map_sum id concat (swap_at xs i j)"
proof -
  let ?n = "unat es" and ?p = "i * unat es" and ?q = "j * unat es"
  have l: "length (concat xs) = length xs * ?n" by (rule length_concat_es [OF assms(1)])
  have in_mem: "m * ?n + ?n \<le> length (concat xs)" if "m < length xs" for m
    unfolding l using that by (metis Suc_leI add.commute mult_Suc mult_le_mono1)
  have far: "m * ?n + ?n \<le> m' * ?n" if "m < m'" for m m'
    using that by (metis Suc_leI add.commute mult_Suc mult_le_mono1)
  have "apart ?n ?p ?q" using far [of i j] far [of j i] by (cases i j rule: linorder_cases) (auto simp: apart_def)
  note b = in_mem [OF assms(3)] in_mem [OF assms(4)] this
  have s: "unat (of_nat (sizeof ty) :: u64) = sizeof ty" for ty by (cases ty) simp_all
  have whole: "unat es mod sizeof ty = 0" if "SWAPINIT ty addr es \<le> 1" for ty
  proof -
    have "es mod of_nat (sizeof ty) = 0" using that by (auto simp: SWAPINIT_def split: if_splits)
    then show ?thesis using unat_mod [of es "of_nat (sizeof ty)"] s [of ty] by simp
  qed
  have one: "unat es = sizeof ty" if "SWAPINIT ty addr es = 0" for ty
    using that s [of ty] by (auto simp: SWAPINIT_def split: if_splits)
  have "\<exists>mem'. swap_elems addr es ?p ?q (concat xs) = Inr mem' \<and> exchanged ?n ?p ?q (concat xs) mem'"
    using swap_unit_exchanged [OF b] swapcode_exchanged [OF _ assms(2) b] one [of TLong] one [of TInt] whole [of TLong] whole [of TInt]
    by (auto simp: swap_elems_def swapfunc_def Let_def)
  then show ?thesis using exchanged_concat [OF assms] swap_at_eq [OF assms(3,4)] by auto
qed


theorem swap_elems_refines_witness: "swap_elems 1 2 0 4 [1, 2, 3, 4, 5, 6] = Inr [5, 6, 3, 4, 1, 2]"
  using swap_elems_refines [of "[[1, 2], [3, 4], [5, 6]]" 2 0 2 1] by (simp add: swap_at_def)

end
