(* ===== verification/LZ4_Decode.thy ===== *)
theory LZ4_Decode
  imports Prelude
begin

text \<open>
  What the LZ4 encoder and decoder of \<open>xnu/osfmk/vm/lz4.c\<close> share: buffers of bytes with the loads, stores and copies of
  \<open>lz4.h\<close>, which fault outside the buffer, and the LZ4 format itself, stated on lists of bytes without reference to
  the code: a stream is a list of sequences, each of some literals and a copy of earlier output, and ends with literals.
\<close>

section \<open>Buffers\<close>

text \<open>
  A pointer is an index into its buffer. Faults: an access outside the source or the destination buffer, a failed
  assertion, and \<open>__builtin_trap\<close>.
\<close>

datatype lz4_fault = Src_Access | Dst_Access | Assertion | Builtin_trap

definition put :: "u8 list \<Rightarrow> nat \<Rightarrow> u8 list \<Rightarrow> u8 list" where
  "put buf p bs = take p buf @ bs @ drop (p + length bs) buf"

definition get :: "u8 list \<Rightarrow> nat \<Rightarrow> nat \<Rightarrow> u8 list" where
  "get buf p n = take n (drop p buf)"

definition load_bytes :: "u8 list \<Rightarrow> nat \<Rightarrow> nat \<Rightarrow> lz4_fault + u8 list" where
  "load_bytes src s n = (if s + n \<le> length src then Inr (get src s n) else Inl Src_Access)"

definition store_bytes :: "u8 list \<Rightarrow> nat \<Rightarrow> u8 list \<Rightarrow> lz4_fault + u8 list" where
  "store_bytes dst d bs = (if d + length bs \<le> length dst then Inr (put dst d bs) else Inl Dst_Access)"

text \<open>Values of several bytes are stored with the low byte first.\<close>

primrec le_word :: "u8 list \<Rightarrow> 'a::len word" where
  "le_word [] = 0" |
  "le_word (b # bs) = ucast b OR push_bit 8 (le_word bs)"

primrec le_bytes :: "nat \<Rightarrow> 'a::len word \<Rightarrow> u8 list" where
  "le_bytes 0 w = []" |
  "le_bytes (Suc n) w = ucast w # le_bytes n (drop_bit 8 w)"

definition load1 :: "u8 list \<Rightarrow> nat \<Rightarrow> lz4_fault + u8" where
  "load1 src s = (if s < length src then Inr (src ! s) else Inl Src_Access)"

definition load2 :: "u8 list \<Rightarrow> nat \<Rightarrow> lz4_fault + u16" where
  "load2 src s = bindS (load_bytes src s 2) (\<lambda>bs. Inr (le_word bs))"

definition load4 :: "u8 list \<Rightarrow> nat \<Rightarrow> lz4_fault + u32" where
  "load4 src s = bindS (load_bytes src s 4) (\<lambda>bs. Inr (le_word bs))"

definition load8 :: "u8 list \<Rightarrow> nat \<Rightarrow> lz4_fault + u64" where
  "load8 src s = bindS (load_bytes src s 8) (\<lambda>bs. Inr (le_word bs))"

definition store1 :: "u8 list \<Rightarrow> nat \<Rightarrow> u8 \<Rightarrow> lz4_fault + u8 list" where
  "store1 dst d b = store_bytes dst d [b]"

definition store2 :: "u8 list \<Rightarrow> nat \<Rightarrow> u16 \<Rightarrow> lz4_fault + u8 list" where
  "store2 dst d w = store_bytes dst d (le_bytes 2 w)"

definition store8 :: "u8 list \<Rightarrow> nat \<Rightarrow> u64 \<Rightarrow> lz4_fault + u8 list" where
  "store8 dst d w = store_bytes dst d (le_bytes 8 w)"

text \<open>\<open>memcpy\<close> from the source to the destination, and the copies of a fixed size.\<close>

definition memcpy :: "u8 list \<Rightarrow> nat \<Rightarrow> u8 list \<Rightarrow> nat \<Rightarrow> nat \<Rightarrow> lz4_fault + u8 list" where
  "memcpy dst d src s n = bindS (load_bytes src s n) (\<lambda>bs. store_bytes dst d bs)"

definition copy16 :: "u8 list \<Rightarrow> nat \<Rightarrow> u8 list \<Rightarrow> nat \<Rightarrow> lz4_fault + u8 list" where
  "copy16 dst d src s = memcpy dst d src s 16"

definition copy32 :: "u8 list \<Rightarrow> nat \<Rightarrow> u8 list \<Rightarrow> nat \<Rightarrow> lz4_fault + u8 list" where
  "copy32 dst d src s = memcpy dst d src s 32"

subsection \<open>Facts about buffers\<close>

lemma length_put [simp]: "p + length bs \<le> length buf \<Longrightarrow> length (put buf p bs) = length buf"
  by (simp add: put_def)

lemma length_get [simp]: "p + n \<le> length buf \<Longrightarrow> length (get buf p n) = n"
  by (simp add: get_def)

lemma get_0 [simp]: "get buf p 0 = []"
  by (simp add: get_def)

lemma get_nth: "p + n \<le> length buf \<Longrightarrow> i < n \<Longrightarrow> get buf p n ! i = buf ! (p + i)"
  by (simp add: get_def)

lemma get_append: "get buf p (m + n) = get buf p m @ get buf (p + m) n"
  by (simp add: get_def take_add add.commute)

lemma take_get: "take p buf @ get buf p n = take (p + n) buf"
  by (simp add: get_def take_add)

lemma take_put [simp]: "p + length bs \<le> length buf \<Longrightarrow> take p (put buf p bs) = take p buf"
  by (simp add: put_def)

lemma take_put_all: "p + length bs \<le> length buf \<Longrightarrow> take (p + length bs) (put buf p bs) = take p buf @ bs"
  by (simp add: put_def)

lemma drop_put: "p + length bs \<le> length buf \<Longrightarrow> drop (p + length bs) (put buf p bs) = drop (p + length bs) buf"
  by (simp add: put_def)

lemma drop_put_le: "p + length bs \<le> e \<Longrightarrow> e \<le> length buf \<Longrightarrow> drop e (put buf p bs) = drop e buf"
  by (simp add: put_def)

lemma take_put_le: "e \<le> p \<Longrightarrow> p + length bs \<le> length buf \<Longrightarrow> take e (put buf p bs) = take e buf"
  by (simp add: put_def min_def)

lemma put_single: "p < length buf \<Longrightarrow> put buf p [b] = buf[p := b]"
  by (simp add: put_def upd_conv_take_nth_drop)

lemma length_le_bytes [simp]: "length (le_bytes n w) = n"
  by (induction n arbitrary: w) simp_all

lemma bit_le_word:
  "bit (le_word bs :: 'a::len word) n \<longleftrightarrow> n < LENGTH('a) \<and> n div 8 < length bs \<and> bit (bs ! (n div 8)) (n mod 8)"
proof (induction bs arbitrary: n)
  case (Cons b bs)
  show ?case
  proof (cases "n < 8")
    case True
    then show ?thesis by (auto simp: bit_or_iff bit_push_bit_iff bit_ucast_iff dest: bit_imp_le_length)
  next
    case False
    then obtain k where k: "n = k + 8" by (metis add.commute le_add_diff_inverse not_less)
    have "\<not> bit b n" using False by (auto dest: bit_imp_le_length)
    then show ?thesis using Cons.IH [of k]
      by (auto simp: bit_or_iff bit_push_bit_iff bit_ucast_iff k div_add_self2)
  qed
qed simp

lemma unat_le_word2: "unat (le_word [a, b] :: u16) = unat a + 256 * unat b"
proof -
  have "(le_word [a, b] :: u16) = ucast a + push_bit 8 (ucast b)"
    by (simp, rule disjunctive_add_eq_or [symmetric], rule bit_word_eqI)
      (auto simp: bit_and_iff bit_push_bit_iff bit_ucast_iff dest: bit_imp_le_length)
  moreover have "unat (push_bit 8 (ucast b) :: u16) = 256 * unat b"
    using unat_bound [of b] by (simp add: push_bit_eq_mult unat_word_ariths unat_ucast_up)
  moreover have "unat (ucast a :: u16) = unat a" by (simp add: unat_ucast_up)
  ultimately show ?thesis using unat_bound [of a] unat_bound [of b]
    by (simp add: unat_word_ariths)
qed

lemma le_bytes2: "le_bytes 2 (w :: u16) = [ucast w, ucast (drop_bit 8 w)]"
  by (simp add: numeral_2_eq_2)

lemma le_bytes2_value:
  assumes "n < 65536"
  shows "\<exists>a b. le_bytes 2 (of_nat n :: u16) = [a, b] \<and> unat a + 256 * unat b = n"
proof -
  let ?w = "of_nat n :: u16"
  have u: "unat ?w = n" using assms by (simp add: unat_of_nat)
  have "unat (ucast ?w :: u8) = n mod 256" by (simp add: unsigned_ucast_eq take_bit_eq_mod u)
  moreover have "unat (drop_bit 8 ?w) = n div 256" by (simp add: drop_bit_eq_div unat_div_distrib u)
  then have "unat (ucast (drop_bit 8 ?w) :: u8) = n div 256"
    using assms by (simp add: unsigned_ucast_eq take_bit_eq_mod)
  ultimately show ?thesis by (auto simp: le_bytes2)
qed

section \<open>The LZ4 format\<close>

text \<open>
  A copy of \<open>m\<close> bytes from \<open>dist\<close> bytes back in the output so far; it may overlap itself, so that a short distance
  repeats a pattern.
\<close>

primrec lz_copy :: "u8 list \<Rightarrow> nat \<Rightarrow> nat \<Rightarrow> u8 list" where
  "lz_copy out dist 0 = out" |
  "lz_copy out dist (Suc m) = lz_copy (out @ [out ! (length out - dist)]) dist m"

text \<open>
  A length is a nibble of the command byte; the nibble 15 is followed by bytes that are added to it, up to and including
  the first that is not 255. The format does not bound a length, while \<open>lz4_decode_extra\<close> has it in 32 bits: \<open>len_field\<close> takes it
  modulo \<open>2 ^ 32\<close>, which is the length of the format in every stream of at most \<open>2 ^ 24\<close> bytes.
\<close>

fun ext_length :: "nat \<Rightarrow> u8 list \<Rightarrow> (nat \<times> u8 list) option" where
  "ext_length n [] = None" |
  "ext_length n (b # bs) = (if b = 255 then ext_length (n + 255) bs else Some (n + unat b, bs))"

definition len_field :: "nat \<Rightarrow> nat \<Rightarrow> u8 list \<Rightarrow> (nat \<times> u8 list) option" where
  "len_field base nib bs =
     (if nib = 15 then map_option (\<lambda>(n, r). (n mod 2 ^ 32, r)) (ext_length (base + 15) bs) else Some (base + nib, bs))"

definition format_length :: "nat \<Rightarrow> nat \<Rightarrow> u8 list \<Rightarrow> (nat \<times> u8 list) option" where
  "format_length base nib bs = (if nib = 15 then ext_length (base + 15) bs else Some (base + nib, bs))"

lemma ext_length_bound: "ext_length n bs = Some (m, r) \<Longrightarrow> m \<le> n + 255 * length bs"
proof (induction bs arbitrary: n)
  case (Cons b bs)
  then show ?case using unat_bound [of b] by (auto split: if_splits dest: Cons.IH)
qed simp

lemma len_field_format:
  assumes "base \<le> 4" "length bs \<le> 2 ^ 24"
  shows "len_field base nib bs = format_length base nib bs"
proof (cases "ext_length (base + 15) bs")
  case (Some p)
  obtain n r where p: "p = (n, r)" by (cases p)
  have "n < 2 ^ 32" using ext_length_bound [OF Some [unfolded p]] assms by simp
  then show ?thesis using Some p by (simp add: len_field_def format_length_def)
qed (simp add: len_field_def format_length_def)

text \<open>
  One sequence of a stream: it is malformed, ends the output (the stream is at its end, or the output would exceed its
  capacity and is cut there), or leads to more output and the rest of the stream.
\<close>

datatype progress = Bad | Stop "u8 list" | Next "u8 list" "u8 list"

definition clip :: "nat \<Rightarrow> u8 list \<Rightarrow> u8 list \<Rightarrow> progress" where
  "clip cap out bs = (if cap < length out then Stop (take cap out) else Next out bs)"

definition spec_match :: "nat \<Rightarrow> u8 list \<Rightarrow> nat \<Rightarrow> u8 list \<Rightarrow> progress" where
  "spec_match cap out nib bs = (case bs of
     a # b # bs1 \<Rightarrow>
       (let dist = unat a + 256 * unat b in
        if dist = 0 \<or> length out < dist then Bad
        else case len_field 4 nib bs1 of
          None \<Rightarrow> Bad
        | Some (m, bs2) \<Rightarrow> clip cap (lz_copy out dist m) bs2)
   | _ \<Rightarrow> Bad)"

definition spec_step :: "nat \<Rightarrow> u8 list \<Rightarrow> u8 \<Rightarrow> u8 list \<Rightarrow> progress" where
  "spec_step cap out cmd bs = (case len_field 0 (unat cmd div 16) bs of
     None \<Rightarrow> Bad
   | Some (l, bs1) \<Rightarrow>
       if length bs1 < l then Bad
       else case clip cap (out @ take l bs1) (drop l bs1) of
         Next out1 bs2 \<Rightarrow> if bs2 = [] then Stop out1 else spec_match cap out1 (unat cmd mod 16) bs2
       | r \<Rightarrow> r)"

lemma ext_length_shorter: "ext_length n bs = Some (m, bs') \<Longrightarrow> length bs' < length bs"
  by (induction n bs rule: ext_length.induct) (auto split: if_splits)

lemma len_field_shorter: "len_field k n bs = Some (m, bs') \<Longrightarrow> length bs' \<le> length bs"
  by (auto simp: len_field_def dest: ext_length_shorter split: if_splits)

lemma spec_match_shorter: "spec_match cap out nib bs = Next out' bs' \<Longrightarrow> length bs' < length bs"
  by (auto simp: spec_match_def clip_def Let_def dest: len_field_shorter
      split: list.splits option.splits if_splits prod.splits)

lemma spec_step_shorter: "spec_step cap out cmd bs = Next out' bs' \<Longrightarrow> length bs' < Suc (length bs)"
  by (auto simp: spec_step_def clip_def split: option.splits if_splits prod.splits
      dest!: len_field_shorter spec_match_shorter)

function lz4_spec :: "nat \<Rightarrow> u8 list \<Rightarrow> u8 list \<Rightarrow> u8 list option" where
  "lz4_spec cap out [] = Some out" |
  "lz4_spec cap out (cmd # bs) = (case spec_step cap out cmd bs of
     Bad \<Rightarrow> None | Stop out' \<Rightarrow> Some out' | Next out' bs' \<Rightarrow> lz4_spec cap out' bs')"
  by pat_completeness auto
termination
  by (relation "measure (\<lambda>(cap, out, bs). length bs)") (auto dest: spec_step_shorter)

text \<open>The output of a stream into a buffer of \<open>cap\<close> bytes.\<close>

definition lz4_output :: "nat \<Rightarrow> u8 list \<Rightarrow> u8 list option" where
  "lz4_output cap bs = (if cap = 0 then Some [] else lz4_spec cap [] bs)"

lemma length_lz_copy [simp]: "length (lz_copy out d m) = length out + m"
  by (induction m arbitrary: out) simp_all

lemma lz_copy_prefix: "take (length out) (lz_copy out d m) = out"
proof (induction m arbitrary: out)
  case (Suc m)
  have "take (length out) (lz_copy (out @ [out ! (length out - d)]) d m) =
      take (length out) (take (Suc (length out)) (lz_copy (out @ [out ! (length out - d)]) d m))"
    by (simp add: min_def)
  also have "\<dots> = out" using Suc.IH [of "out @ [out ! (length out - d)]"] by simp
  finally show ?case by simp
qed simp

lemma lz_copy_add: "lz_copy out d (m + n) = lz_copy (lz_copy out d m) d n"
  by (induction m arbitrary: out) simp_all

lemma take_lz_copy: "n \<le> m \<Longrightarrow> take (length out + n) (lz_copy out d m) = lz_copy out d n"
  using lz_copy_prefix [of "lz_copy out d n" d "m - n"] lz_copy_add [of out d n "m - n"] by simp

section \<open>The decoder\<close>

text \<open>
  The bytes that extend a length. \<open>None\<close> is the jump to \<open>IN_FAIL\<close> at the end of the input; the sum is a 32-bit value.
\<close>

function lz4_decode_length :: "u8 list \<Rightarrow> nat \<Rightarrow> nat \<Rightarrow> u32 \<Rightarrow> lz4_fault + (nat \<times> u32) option" where
  "lz4_decode_length src src_end s len =
     (if src_end \<le> s then Inr None
      else bindS (load1 src s) (\<lambda>b.
        if b = 255 then lz4_decode_length src src_end (s + 1) (len + ucast b)
        else Inr (Some (s + 1, len + ucast b))))"
  by pat_completeness auto
termination by (relation "measure (\<lambda>(src, src_end, s, len). src_end - s)") auto

declare lz4_decode_length.simps [simp del]

definition lz4_decode_extra :: "u8 list \<Rightarrow> nat \<Rightarrow> nat \<Rightarrow> u32 \<Rightarrow> u32 \<Rightarrow> lz4_fault + (nat \<times> u32) option" where
  "lz4_decode_extra src src_end s len lim =
     (if len = lim then lz4_decode_length src src_end s len else Inr (Some (s, len)))"

text \<open>The byte by byte copy of a match, which may overlap its own output.\<close>

primrec copy_match :: "u8 list \<Rightarrow> nat \<Rightarrow> nat \<Rightarrow> nat \<Rightarrow> lz4_fault + u8 list" where
  "copy_match dst d ref 0 = Inr dst" |
  "copy_match dst d ref (Suc n) =
     (if ref < length dst \<and> d < length dst then copy_match (dst[d := dst ! ref]) (d + 1) (ref + 1) n
      else Inl Dst_Access)"

text \<open>How the body of the loop is left: to one of the labels, or to the next command.\<close>

datatype decode_exit = IN_FAIL "u8 list" | OUT_FULL "u8 list" nat nat | CONTINUE "u8 list" nat nat

definition lz4_decode_match ::
  "u8 list \<Rightarrow> nat \<Rightarrow> nat \<Rightarrow> u8 list \<Rightarrow> nat \<Rightarrow> nat \<Rightarrow> u32 \<Rightarrow> lz4_fault + decode_exit" where
  "lz4_decode_match dst d dst_end src s src_end matchLength =
     (if src_end - s < 2 then Inr (IN_FAIL dst)
      else bindS (load2 src s) (\<lambda>w. let matchDistance = ucast w :: u64 in
        if matchDistance = 0 then Inr (IN_FAIL dst)
        else if int d - uint matchDistance < 0 then Inr (IN_FAIL dst)
        else let ref = nat (int d - uint matchDistance) in
          bindS (lz4_decode_extra src src_end (s + 2) matchLength 19) (\<lambda>r. case r of
            None \<Rightarrow> Inr (IN_FAIL dst)
          | Some (s2, len) \<Rightarrow>
              if dst_end - d < unat len
              then bindS (copy_match dst d ref (dst_end - d)) (\<lambda>dst2. Inr (OUT_FULL dst2 (d + (dst_end - d)) s2))
              else bindS (copy_match dst d ref (unat len)) (\<lambda>dst2. Inr (CONTINUE dst2 (d + unat len) s2)))))"

definition lz4_decode_command ::
  "u8 list \<Rightarrow> nat \<Rightarrow> nat \<Rightarrow> u8 list \<Rightarrow> nat \<Rightarrow> nat \<Rightarrow> lz4_fault + decode_exit" where
  "lz4_decode_command dst d dst_end src s src_end =
     bindS (load1 src s) (\<lambda>cmd.
       let literalLength = ucast (drop_bit 4 cmd AND 15) :: u32;
           matchLength = 4 + ucast (cmd AND 15) :: u32 in
       bindS (lz4_decode_extra src src_end (s + 1) literalLength 15) (\<lambda>r. case r of
         None \<Rightarrow> Inr (IN_FAIL dst)
       | Some (s1, len) \<Rightarrow>
           if src_end - s1 < unat len then Inr (IN_FAIL dst)
           else if dst_end - d < unat len
           then bindS (memcpy dst d src s1 (dst_end - d)) (\<lambda>dst1. Inr (OUT_FULL dst1 (d + (dst_end - d)) s1))
           else bindS (memcpy dst d src s1 (unat len)) (\<lambda>dst1.
             if src_end \<le> s1 + unat len then Inr (OUT_FULL dst1 (d + unat len) (s1 + unat len))
             else lz4_decode_match dst1 (d + unat len) dst_end src (s1 + unat len) src_end matchLength)))"


lemma lz4_decode_length_ge: "lz4_decode_length src e s len = Inr (Some (s', len')) \<Longrightarrow> s < s'"
proof (induction src e s len rule: lz4_decode_length.induct)
  case (1 src e s len)
  then show ?case
    by (subst (asm) (2) lz4_decode_length.simps) (auto simp: bindS_eq_Inr_iff split: if_splits)
qed

lemma lz4_decode_extra_ge: "lz4_decode_extra src e s len lim = Inr (Some (s', len')) \<Longrightarrow> s \<le> s'"
  by (auto simp: lz4_decode_extra_def dest: lz4_decode_length_ge split: if_splits)

lemma case_some_pair_eq:
  "(case x of None \<Rightarrow> f | Some (a, b) \<Rightarrow> g a b) = y \<longleftrightarrow>
     (x = None \<and> f = y) \<or> (\<exists>a b. x = Some (a, b) \<and> g a b = y)"
  by (auto split: option.splits)

lemma lz4_decode_match_ge:
  "lz4_decode_match dst d de src s e m = Inr (CONTINUE dst' d' s') \<Longrightarrow> s < s'"
  by (auto simp: lz4_decode_match_def bindS_eq_Inr_iff Let_def case_some_pair_eq split: if_split_asm
      dest!: lz4_decode_extra_ge)

lemma lz4_decode_command_ge:
  "lz4_decode_command dst d de src s e = Inr (CONTINUE dst' d' s') \<Longrightarrow> s < s'"
  by (auto simp: lz4_decode_command_def bindS_eq_Inr_iff Let_def case_some_pair_eq split: if_split_asm
      dest!: lz4_decode_extra_ge lz4_decode_match_ge)

text \<open>
  The loop over the commands. The result is the returned value, the destination buffer, and what \<open>*dst_ptr\<close> and
  \<open>*src_ptr\<close> then are: after a failure the last good position.
\<close>

function lz4_decode_loop ::
  "u8 list \<Rightarrow> nat \<Rightarrow> nat \<Rightarrow> u8 list \<Rightarrow> nat \<Rightarrow> nat \<Rightarrow> lz4_fault + int \<times> u8 list \<times> nat \<times> nat" where
  "lz4_decode_loop dst d dst_end src s src_end =
     (if s < src_end
      then bindS (lz4_decode_command dst d dst_end src s src_end) (\<lambda>x. case x of
          IN_FAIL dst' \<Rightarrow> Inr (1, dst', d, s)
        | OUT_FULL dst' d' s' \<Rightarrow> Inr (0, dst', d', s')
        | CONTINUE dst' d' s' \<Rightarrow> lz4_decode_loop dst' d' dst_end src s' src_end)
      else Inr (0, dst, d, s))"
  by pat_completeness auto
termination
  by (relation "measure (\<lambda>(dst, d, dst_end, src, s, src_end). src_end - s)") (auto dest: lz4_decode_command_ge)

declare lz4_decode_loop.simps [simp del]

definition lz4_decode ::
  "u8 list \<Rightarrow> nat \<Rightarrow> nat \<Rightarrow> u8 list \<Rightarrow> nat \<Rightarrow> nat \<Rightarrow> lz4_fault + int \<times> u8 list \<times> nat \<times> nat" where
  "lz4_decode dst d dst_end src s src_end =
     (if dst_end \<le> d then Inr (0, dst, d, s) else lz4_decode_loop dst d dst_end src s src_end)"

text \<open>The number of bytes produced, zero on failure, and the buffer.\<close>

definition lz4raw_decode_buffer :: "u8 list \<Rightarrow> nat \<Rightarrow> u8 list \<Rightarrow> nat \<Rightarrow> lz4_fault + nat \<times> u8 list" where
  "lz4raw_decode_buffer dst dst_size src src_size =
     bindS (lz4_decode dst 0 dst_size src 0 src_size) (\<lambda>(rc, dst', d, s).
       if rc \<noteq> 0 then Inr (0, dst') else Inr (d, dst'))"

section \<open>The decoder follows the format\<close>

text \<open>A destination buffer in which the output so far has been written from the start.\<close>

definition filled :: "u8 list \<Rightarrow> u8 list \<Rightarrow> u8 list" where
  "filled dst out = out @ drop (length out) dst"

lemma length_filled [simp]: "length out \<le> length dst \<Longrightarrow> length (filled dst out) = length dst"
  by (simp add: filled_def)

lemma filled_nth: "i < length out \<Longrightarrow> filled dst out ! i = out ! i"
  by (simp add: filled_def nth_append)

lemma filled_Nil [simp]: "filled dst [] = dst"
  by (simp add: filled_def)

lemma filled_snoc: "length out < length dst \<Longrightarrow> (filled dst out)[length out := b] = filled dst (out @ [b])"
  by (simp add: filled_def list_update_append drop_update_swap flip: Cons_nth_drop_Suc)

lemma store_filled:
  "length out + length bs \<le> length dst \<Longrightarrow>
   store_bytes (filled dst out) (length out) bs = Inr (filled dst (out @ bs))"
  by (simp add: store_bytes_def put_def filled_def add.commute)

lemma memcpy_filled:
  "length out + n \<le> length dst \<Longrightarrow> s + n \<le> length src \<Longrightarrow>
   memcpy (filled dst out) (length out) src s n = Inr (filled dst (out @ get src s n))"
  by (simp add: memcpy_def load_bytes_def store_filled)

lemma copy_match_filled:
  assumes "0 < dist" "dist \<le> length out" "length out + n \<le> length dst"
  shows "copy_match (filled dst out) (length out) (length out - dist) n = Inr (filled dst (lz_copy out dist n))"
  using assms
proof (induction n arbitrary: out)
  case (Suc n)
  let ?out = "out @ [out ! (length out - dist)]"
  have "filled dst out ! (length out - dist) = out ! (length out - dist)"
    using Suc.prems by (intro filled_nth) simp
  moreover have "Suc (length out - dist) = length ?out - dist" using Suc.prems by simp
  ultimately show ?case using Suc.IH [of ?out] Suc.prems by (simp add: filled_snoc)
qed simp

lemma drop_take_cons: "s < e \<Longrightarrow> e \<le> length src \<Longrightarrow> drop s (take e src) = src ! s # drop (Suc s) (take e src)"
  using Cons_nth_drop_Suc [of s "take e src"] by simp

lemma lz4_decode_length_spec:
  assumes "e \<le> length src"
  shows "\<exists>r. lz4_decode_length src e s (of_nat n) = Inr r \<and>
    (case ext_length n (drop s (take e src)) of
       None \<Rightarrow> r = None
     | Some (k, bs) \<Rightarrow> \<exists>s'. r = Some (s', of_nat k) \<and> s < s' \<and> s' \<le> e \<and> bs = drop s' (take e src))"
proof (induction "e - s" arbitrary: s n)
  case 0
  then show ?case by (simp add: lz4_decode_length.simps [of src e s])
next
  case (Suc j)
  then have lt: "s < e" by simp
  then have ld: "load1 src s = Inr (src ! s)" using assms by (simp add: load1_def)
  have sum: "of_nat n + ucast (src ! s) = (of_nat (n + unat (src ! s)) :: u32)" by simp
  show ?case
  proof (cases "src ! s = 255")
    case True
    have "j = e - Suc s" using Suc.hyps(2) by simp
    note IH = Suc.hyps(1) [OF this, of "n + 255"]
    have code: "lz4_decode_length src e s (of_nat n) = lz4_decode_length src e (Suc s) (of_nat (n + 255))"
      using True lt by (subst lz4_decode_length.simps) (simp add: ld)
    have spec: "ext_length n (drop s (take e src)) = ext_length (n + 255) (drop (Suc s) (take e src))"
      using True by (simp add: drop_take_cons [OF lt assms])
    show ?thesis unfolding code spec using IH
      by (cases "ext_length (n + 255) (drop (Suc s) (take e src))") auto
  next
    case False
    then show ?thesis using lt sum
      by (auto simp: lz4_decode_length.simps [of src e s] ld drop_take_cons [OF lt assms])
  qed
qed

lemma lz4_decode_extra_spec:
  assumes "e \<le> length src" "s \<le> e" "nib \<le> 15" "base < 2 ^ 31"
  shows "\<exists>r. lz4_decode_extra src e s (of_nat (base + nib)) (of_nat (base + 15)) = Inr r \<and>
    (case len_field base nib (drop s (take e src)) of
       None \<Rightarrow> r = None
     | Some (k, bs) \<Rightarrow> \<exists>s' w. r = Some (s', w) \<and> unat w = k \<and> s \<le> s' \<and> s' \<le> e \<and> bs = drop s' (take e src))"
proof (cases "nib = 15")
  case True
  then show ?thesis using lz4_decode_length_spec [OF assms(1), of s "base + 15"]
    by (cases "ext_length (base + 15) (drop s (take e src))")
      (auto simp: lz4_decode_extra_def len_field_def unat_of_nat)
next
  case False
  have "base + nib < 2 ^ 32" "base + 15 < 2 ^ 32" using assms by simp_all
  then have "(of_nat (base + nib) :: u32) \<noteq> of_nat (base + 15)"
    using False by (metis add_left_cancel of_nat_u32_small)
  moreover have "unat (of_nat (base + nib) :: u32) = base + nib" using assms by (intro of_nat_u32_small) simp
  ultimately show ?thesis using False assms by (simp add: lz4_decode_extra_def len_field_def del: of_nat_add)
qed

text \<open>How an exit of the body of the loop corresponds to the progress of the format.\<close>

definition exit_ok :: "u8 list \<Rightarrow> nat \<Rightarrow> u8 list \<Rightarrow> nat \<Rightarrow> nat \<Rightarrow> progress \<Rightarrow> decode_exit \<Rightarrow> bool" where
  "exit_ok dst cap src s e p x = (case p of
     Bad \<Rightarrow> \<exists>out. x = IN_FAIL (filled dst out) \<and> length out \<le> cap
   | Stop out \<Rightarrow> length out \<le> cap \<and> (\<exists>s'\<le>e. x = OUT_FULL (filled dst out) (length out) s')
   | Next out bs \<Rightarrow> length out \<le> cap \<and>
       (\<exists>s'\<le>e. s < s' \<and> bs = drop s' (take e src) \<and> x = CONTINUE (filled dst out) (length out) s'))"

lemma copy_match_clip:
  assumes "0 < dist" "dist \<le> length out" "length out \<le> cap" "cap \<le> length dst" "s < s'" "s' \<le> e"
  shows "\<exists>x. (if cap - length out < m
       then bindS (copy_match (filled dst out) (length out) (length out - dist) (cap - length out))
         (\<lambda>dst2. Inr (OUT_FULL dst2 (length out + (cap - length out)) s'))
       else bindS (copy_match (filled dst out) (length out) (length out - dist) m)
         (\<lambda>dst2. Inr (CONTINUE dst2 (length out + m) s'))) = Inr x \<and>
     exit_ok dst cap src s e (clip cap (lz_copy out dist m) (drop s' (take e src))) x"
proof (cases "cap - length out < m")
  case True
  then have "take cap (lz_copy out dist m) = lz_copy out dist (cap - length out)"
    using take_lz_copy [of "cap - length out" m out dist] assms by simp
  then show ?thesis using True assms by (simp add: clip_def exit_ok_def copy_match_filled)
next
  case False
  then show ?thesis using assms by (simp add: clip_def exit_ok_def copy_match_filled)
qed

lemma lz4_decode_match_spec:
  assumes "e \<le> length src" "s < e" "nib \<le> 15" "length out \<le> cap" "cap \<le> length dst"
  shows "\<exists>x. lz4_decode_match (filled dst out) (length out) cap src s e (of_nat (4 + nib)) = Inr x \<and>
    exit_ok dst cap src s e (spec_match cap out nib (drop s (take e src))) x"
proof (cases "e - s < 2")
  case True
  then have "drop s (take e src) = [src ! s]" using assms(1,2) by (simp add: drop_take_cons)
  then show ?thesis using True assms by (auto simp: lz4_decode_match_def spec_match_def exit_ok_def)
next
  case False
  then have bs: "drop s (take e src) = src ! s # src ! Suc s # drop (s + 2) (take e src)"
    using assms(1,2) by (simp add: drop_take_cons)
  have ld: "load2 src s = Inr (le_word [src ! s, src ! Suc s])"
    using False assms(1,2) by (simp add: load2_def load_bytes_def get_def numeral_2_eq_2 take_Suc_conv_app_nth)
  define w where "w = (le_word [src ! s, src ! Suc s] :: u16)"
  define dist where "dist = unat (src ! s) + 256 * unat (src ! Suc s)"
  have w: "uint (ucast w :: u64) = int dist"
  proof -
    have "unat (ucast w :: u64) = unat w" by (rule unat_ucast_up) simp
    also have "\<dots> = dist" unfolding w_def dist_def by (rule unat_le_word2)
    finally have "int (unat (ucast w :: u64)) = int dist" by (rule arg_cong)
    then show ?thesis by simp
  qed
  then have w0: "(ucast w :: u64) = 0 \<longleftrightarrow> dist = 0"
    unfolding word_uint_eq_iff by (simp only: uint_0_eq of_nat_eq_0_iff)
  consider (bad) "dist = 0 \<or> length out < dist" | (good) "0 < dist" "dist \<le> length out" by linarith
  then show ?thesis
  proof cases
    case bad
    then have "lz4_decode_match (filled dst out) (length out) cap src s e (of_nat (4 + nib)) = Inr (IN_FAIL (filled dst out))"
      unfolding lz4_decode_match_def ld bindS_simps Let_def w_def [symmetric] w using w0 False by auto
    moreover have "spec_match cap out nib (drop s (take e src)) = Bad"
      using bad unfolding spec_match_def bs Let_def list.case dist_def [symmetric] by auto
    ultimately show ?thesis using assms(4) by (auto simp: exit_ok_def)
  next
    case good
    have ref: "nat (int (length out) - int dist) = length out - dist" by simp
    have le: "s + 2 \<le> e" using False assms(2) by simp
    obtain r where r: "lz4_decode_extra src e (s + 2) (of_nat (4 + nib)) (of_nat (4 + 15)) = Inr r"
      "case len_field 4 nib (drop (s + 2) (take e src)) of
       None \<Rightarrow> r = None
     | Some (k, bs) \<Rightarrow> \<exists>s' w. r = Some (s', w) \<and> unat w = k \<and> s + 2 \<le> s' \<and> s' \<le> e \<and> bs = drop s' (take e src)"
      using lz4_decode_extra_spec [OF assms(1) le assms(3), of 4] by auto
    have code: "lz4_decode_match (filled dst out) (length out) cap src s e (of_nat (4 + nib)) =
        (case r of None \<Rightarrow> Inr (IN_FAIL (filled dst out)) | Some (s2, len) \<Rightarrow>
          if cap - length out < unat len
          then bindS (copy_match (filled dst out) (length out) (length out - dist) (cap - length out))
            (\<lambda>dst2. Inr (OUT_FULL dst2 (length out + (cap - length out)) s2))
          else bindS (copy_match (filled dst out) (length out) (length out - dist) (unat len))
            (\<lambda>dst2. Inr (CONTINUE dst2 (length out + unat len) s2)))"
      unfolding lz4_decode_match_def ld bindS_simps Let_def w_def [symmetric] w ref
      using good False r(1) w0 by simp
    have spec: "spec_match cap out nib (drop s (take e src)) =
        (case len_field 4 nib (drop (s + 2) (take e src)) of None \<Rightarrow> Bad
         | Some (m, bs2) \<Rightarrow> clip cap (lz_copy out dist m) bs2)"
      using good unfolding spec_match_def bs Let_def list.case dist_def [symmetric] by simp
    show ?thesis
    proof (cases "len_field 4 nib (drop (s + 2) (take e src))")
      case None
      then show ?thesis using r(2) assms(4) by (auto simp: code spec exit_ok_def simp del: of_nat_add)
    next
      case (Some kb)
      then obtain s' len where *: "kb = (unat len, drop s' (take e src))" "r = Some (s', len)" "s < s'" "s' \<le> e"
        using r(2) by (cases kb) auto
      show ?thesis unfolding code spec Some * option.case prod.case
        by (rule copy_match_clip [OF good assms(4,5) *(3,4)])
    qed
  qed
qed

lemma nibbles: "unat (ucast (drop_bit 4 cmd AND 15) :: u32) = unat cmd div 16" (is ?hi)
  "unat (ucast (cmd AND 15) :: u32) = unat cmd mod 16" (is ?lo) for cmd :: u8
proof -
  have "cmd AND 15 = take_bit 4 cmd" "drop_bit 4 cmd AND 15 = take_bit 4 (drop_bit 4 cmd)"
    by (simp_all add: take_bit_eq_mask mask_eq_exp_minus_1)
  moreover have "take_bit 4 (drop_bit 4 cmd) = drop_bit 4 cmd"
    by (rule bit_word_eqI) (auto simp: bit_take_bit_iff bit_drop_bit_eq dest: bit_imp_le_length)
  ultimately show ?hi ?lo
    by (simp_all add: unat_ucast_up unsigned_take_bit_eq take_bit_eq_mod unsigned_drop_bit_eq drop_bit_eq_div unat_div_distrib unat_mod_distrib)
qed

lemma word_eq_of_nat: "unat w = n \<Longrightarrow> w = of_nat n"
  by auto

lemma lz4_decode_command_spec:
  assumes "e \<le> length src" "s < e" "length out \<le> cap" "cap \<le> length dst"
  shows "\<exists>x. lz4_decode_command (filled dst out) (length out) cap src s e = Inr x \<and>
    exit_ok dst cap src s e (spec_step cap out (src ! s) (drop (Suc s) (take e src))) x"
proof -
  let ?cmd = "src ! s" let ?l = "unat ?cmd div 16" let ?m = "unat ?cmd mod 16"
  have ld: "load1 src s = Inr ?cmd" using assms by (simp add: load1_def)
  have l: "(ucast (drop_bit 4 ?cmd AND 15) :: u32) = of_nat (0 + ?l)" 
    by (rule word_eq_of_nat) (simp only: nibbles(1) add_0)
  have "(ucast (?cmd AND 15) :: u32) = of_nat ?m"
    by (rule word_eq_of_nat) (simp only: nibbles(2))
  then have m: "4 + ucast (?cmd AND 15) = (of_nat (4 + ?m) :: u32)" by simp
  have "?l \<le> 15" using unat_bound [of ?cmd] by simp
  then obtain r where r: "lz4_decode_extra src e (s + 1) (of_nat (0 + ?l)) (of_nat (0 + 15)) = Inr r"
      "case len_field 0 ?l (drop (s + 1) (take e src)) of
       None \<Rightarrow> r = None
     | Some (k, bs) \<Rightarrow> \<exists>s' w. r = Some (s', w) \<and> unat w = k \<and> s + 1 \<le> s' \<and> s' \<le> e \<and> bs = drop s' (take e src)"
    using lz4_decode_extra_spec [of e src "s + 1" ?l 0] assms(1,2) by auto
  have r1: "lz4_decode_extra src e (s + 1) (of_nat (0 + ?l)) 15 = Inr r" using r(1) by simp
  have code: "lz4_decode_command (filled dst out) (length out) cap src s e = (case r of
         None \<Rightarrow> Inr (IN_FAIL (filled dst out))
       | Some (s1, len) \<Rightarrow>
           if e - s1 < unat len then Inr (IN_FAIL (filled dst out))
           else if cap - length out < unat len
           then bindS (memcpy (filled dst out) (length out) src s1 (cap - length out))
             (\<lambda>dst1. Inr (OUT_FULL dst1 (length out + (cap - length out)) s1))
           else bindS (memcpy (filled dst out) (length out) src s1 (unat len)) (\<lambda>dst1.
             if e \<le> s1 + unat len then Inr (OUT_FULL dst1 (length out + unat len) (s1 + unat len))
             else lz4_decode_match dst1 (length out + unat len) cap src (s1 + unat len) e (of_nat (4 + ?m))))"
    unfolding lz4_decode_command_def ld Let_def l m bindS_simps r1 by (rule refl)
  show ?thesis
  proof (cases r)
    case None
    then show ?thesis using r(2) assms(3)
      by (auto simp: code spec_step_def exit_ok_def split: option.split_asm)
  next
    case (Some sl)
    then obtain s1 w where s1: "r = Some (s1, w)" "Suc s \<le> s1" "s1 \<le> e"
      "len_field 0 ?l (drop (Suc s) (take e src)) = Some (unat w, drop s1 (take e src))"
      using r(2) by (cases "len_field 0 ?l (drop (s + 1) (take e src))") auto
    let ?out = "out @ get src s1 (unat w)"
    have len: "length (drop s1 (take e src)) = e - s1" using assms by simp
    show ?thesis
    proof (cases "e - s1 < unat w")
      case True
      then show ?thesis using assms(3) s1 len by (auto simp: code spec_step_def exit_ok_def)
    next
      case fits: False
      then have out: "out @ take (unat w) (drop s1 (take e src)) = ?out" 
        using s1(3) assms(1) by (simp add: get_def drop_take min_def)
      have lw: "length (get src s1 (unat w)) = unat w"
        using fits s1(3) assms(1) by (intro length_get) linarith
      have spec: "spec_step cap out ?cmd (drop (Suc s) (take e src)) =
          (case clip cap ?out (drop (s1 + unat w) (take e src)) of
             Next out1 bs2 \<Rightarrow> if bs2 = [] then Stop out1 else spec_match cap out1 ?m bs2 | r \<Rightarrow> r)"
        using fits s1(3) assms(1) by (simp add: spec_step_def s1(4) out add.commute)
      consider (cut) "cap - length out < unat w" | (last) "unat w \<le> cap - length out" "e \<le> s1 + unat w"
        | (more) "unat w \<le> cap - length out" "s1 + unat w < e" by linarith
      then show ?thesis
      proof cases
        case cut
        then have t: "take cap ?out = out @ get src s1 (cap - length out)"
          using assms(3) by (simp add: get_def min_def)
        moreover have "length (get src s1 (cap - length out)) = cap - length out"
          using cut fits s1(3) assms(1) by (intro length_get) linarith
        ultimately show ?thesis
          using cut fits assms s1 lw by (auto simp: code spec clip_def exit_ok_def memcpy_filled)
      next
        case last
        then show ?thesis
          using fits assms s1 lw by (auto simp: code spec clip_def exit_ok_def memcpy_filled)
      next
        case more
        then have "\<exists>x. lz4_decode_match (filled dst ?out) (length ?out) cap src (s1 + unat w) e (of_nat (4 + ?m)) = Inr x \<and>
            exit_ok dst cap src (s1 + unat w) e (spec_match cap ?out ?m (drop (s1 + unat w) (take e src))) x"
          using assms lw by (intro lz4_decode_match_spec) auto
        then obtain x where x: "lz4_decode_match (filled dst ?out) (length ?out) cap src (s1 + unat w) e (of_nat (4 + ?m)) = Inr x"
          "exit_ok dst cap src (s1 + unat w) e (spec_match cap ?out ?m (drop (s1 + unat w) (take e src))) x" by blast
        have "exit_ok dst cap src s e (spec_match cap ?out ?m (drop (s1 + unat w) (take e src))) x"
          using x(2) s1(2) by (auto simp: exit_ok_def split: progress.splits) 
        moreover have "\<not> cap < length out + unat w" using more(1) assms(3) by linarith
        ultimately show ?thesis
          using x(1) more fits assms s1 lw by (simp add: code spec clip_def memcpy_filled del: of_nat_add)
      qed
    qed
  qed
qed

lemma lz4_decode_loop_spec:
  assumes "e \<le> length src" "s \<le> e" "length out \<le> cap" "cap \<le> length dst"
  shows "\<exists>rc out' d s'. lz4_decode_loop (filled dst out) (length out) cap src s e = Inr (rc, filled dst out', d, s') \<and>
    length out' \<le> cap \<and> s' \<le> e \<and> d \<le> cap \<and>
    (case lz4_spec cap out (drop s (take e src)) of
       None \<Rightarrow> rc = 1
     | Some res \<Rightarrow> rc = 0 \<and> out' = res \<and> d = length res)"
  using assms(2,3)
proof (induction "e - s" arbitrary: s out rule: less_induct)
  case less
  show ?case
  proof (cases "s < e")
    case True
    obtain x where x: "lz4_decode_command (filled dst out) (length out) cap src s e = Inr x"
      "exit_ok dst cap src s e (spec_step cap out (src ! s) (drop (Suc s) (take e src))) x"
      using lz4_decode_command_spec [OF assms(1) True less.prems(2) assms(4)] by blast
    note simps = lz4_decode_loop.simps [of "filled dst out" "length out" cap src s e] drop_take_cons [OF True assms(1)]
    show ?thesis
    proof (cases "spec_step cap out (src ! s) (drop (Suc s) (take e src))")
      case Bad
      then show ?thesis using x True less.prems(2) by (auto simp: simps exit_ok_def)
    next
      case (Stop res)
      then show ?thesis using x True by (auto simp: simps exit_ok_def)
    next
      case (Next res bs)
      then obtain s' where s': "s < s'" "s' \<le> e" "bs = drop s' (take e src)" "length res \<le> cap"
        "x = CONTINUE (filled dst res) (length res) s'"
        using x(2) by (auto simp: exit_ok_def)
      then have "e - s' < e - s" using True by simp
      from less.hyps [OF this s'(2,4)] show ?thesis using True x(1) Next s' by (simp add: simps)
    qed
  next
    case False
    then show ?thesis using less.prems by (simp add: lz4_decode_loop.simps)
  qed
qed

lemma lz4raw_decode_buffer_spec:
  assumes "dst_size \<le> length dst" "src_size \<le> length src"
  shows "\<exists>n out. lz4raw_decode_buffer dst dst_size src src_size = Inr (n, out @ drop (length out) dst) \<and>
    length out \<le> dst_size \<and>
    (case lz4_output dst_size (take src_size src) of
       None \<Rightarrow> n = 0
     | Some res \<Rightarrow> out = res \<and> n = length res)"
proof (cases "dst_size = 0")
  case True
  then show ?thesis by (simp add: lz4raw_decode_buffer_def lz4_decode_def lz4_output_def)
next
  case False
  then show ?thesis using lz4_decode_loop_spec [of src_size src 0 "[]" dst_size dst] assms
    by (auto simp: lz4raw_decode_buffer_def lz4_decode_def lz4_output_def filled_def split: option.split_asm)
qed

text \<open>
  C35: for every input, well-formed or not, \<open>lz4raw_decode_buffer\<close> reads only the given source bytes and writes only the
  given destination bytes. It returns what the format defines: the number of bytes of the output, cut at the size of the
  destination, with these bytes at the start of the destination and the rest of it untouched; or zero when the stream is
  malformed before that point. In particular no byte of the old contents of the destination gets into the output. Lengths are
  taken at 32 bits, as the code does, which makes no difference for a source of at most \<open>2 ^ 24\<close> bytes.
\<close>

theorem lz4_decode_refines_format:
  assumes "dst_size \<le> length dst" "src_size \<le> length src"
  shows "\<exists>n out. lz4raw_decode_buffer dst dst_size src src_size = Inr (n, out @ drop (length out) dst) \<and>
    length out \<le> dst_size \<and>
    (case lz4_output dst_size (take src_size src) of
       None \<Rightarrow> n = 0
     | Some res \<Rightarrow> out = res \<and> n = length res)"
  using assms by (rule lz4raw_decode_buffer_spec)

theorem lz4_decode_refines_format_witness:
  "lz4_output 8 [0x11, 7, 1, 0] = Some [7, 7, 7, 7, 7, 7] \<and>
   lz4raw_decode_buffer (replicate 8 9) 8 [0x11, 7, 1, 0] 4 = Inr (6, [7, 7, 7, 7, 7, 7, 9, 9])"
proof -
  have "lz4_output 8 [0x11, 7, 1, 0] = Some [7, 7, 7, 7, 7, 7]" by code_simp
  then show ?thesis using lz4_decode_refines_format [of 8 "replicate 8 9" 4 "[0x11, 7, 1, 0]"]
    by (auto simp: numeral_eq_Suc)
qed

section \<open>Well-formed streams\<close>

text \<open>How a length is written: 15 or more takes further bytes. A sequence is the command byte, the literals and the match.\<close>

definition enc_len :: "nat \<Rightarrow> u8 list" where
  "enc_len n = replicate (n div 255) 255 @ [of_nat (n mod 255)]"

definition len_bytes :: "nat \<Rightarrow> u8 list" where
  "len_bytes n = (if 15 \<le> n then enc_len (n - 15) else [])"

definition seq_bytes :: "u8 list \<Rightarrow> nat \<Rightarrow> nat \<Rightarrow> u8 list" where
  "seq_bytes l dist m =
     of_nat (16 * min (length l) 15 + min (m - 4) 15) # len_bytes (length l) @ l @ le_bytes 2 (of_nat dist :: u16) @ len_bytes (m - 4)"

definition last_bytes :: "u8 list \<Rightarrow> u8 list" where
  "last_bytes l = of_nat (16 * min (length l) 15) # len_bytes (length l) @ l"

text \<open>\<open>partial_stream bs out\<close>: the bytes \<open>bs\<close> are sequences with matches that together stand for \<open>out\<close>.\<close>

inductive partial_stream :: "u8 list \<Rightarrow> u8 list \<Rightarrow> bool" where
  empty: "partial_stream [] []" |
  snoc: "partial_stream bs out \<Longrightarrow> 0 < dist \<Longrightarrow> dist < 65536 \<Longrightarrow> dist \<le> length out + length l \<Longrightarrow>
    4 \<le> m \<Longrightarrow> m < 2 ^ 32 \<Longrightarrow> length l < 2 ^ 32 \<Longrightarrow>
    partial_stream (bs @ seq_bytes l dist m) (lz_copy (out @ l) dist m)"

lemma ext_length_replicate: "ext_length n (replicate k 255 @ bs) = ext_length (n + 255 * k) bs"
  by (induction k arbitrary: n) (simp_all add: algebra_simps)

lemma ext_length_enc: "ext_length base (enc_len n @ bs) = Some (base + n, bs)"
proof -
  have u: "unat (of_nat (n mod 255) :: u8) = n mod 255" by (simp add: unat_of_nat)
  moreover have "n mod 255 < 255" "unat (255 :: u8) = 255" by simp_all
  ultimately have "(of_nat (n mod 255) :: u8) \<noteq> 255" by (metis less_irrefl)
  then show ?thesis using u by (simp add: enc_len_def ext_length_replicate)
qed

lemma len_field_bytes:
  assumes "base + n < 2 ^ 32"
  shows "len_field base (min n 15) (len_bytes n @ bs) = Some (base + n, bs)"
  using assms by (cases "15 \<le> n") (simp_all add: len_field_def len_bytes_def ext_length_enc min_def)

lemma cmd_nibbles:
  assumes "a \<le> 15" "b \<le> 15"
  shows "unat (of_nat (16 * a + b) :: u8) div 16 = a" "unat (of_nat (16 * a + b) :: u8) mod 16 = b"
proof -
  have "unat (of_nat (16 * a + b) :: u8) = 16 * a + b" using assms by (simp add: unat_of_nat del: of_nat_add)
  then show "unat (of_nat (16 * a + b) :: u8) div 16 = a" "unat (of_nat (16 * a + b) :: u8) mod 16 = b"
    using assms by (simp_all del: of_nat_add of_nat_mult)
qed

lemma spec_match_bytes:
  assumes "0 < dist" "dist < 65536" "dist \<le> length out" "4 \<le> m" "m < 2 ^ 32"
  shows "spec_match cap out (min (m - 4) 15) (le_bytes 2 (of_nat dist :: u16) @ len_bytes (m - 4) @ bs) =
    clip cap (lz_copy out dist m) bs"
proof -
  obtain a b where ab: "le_bytes 2 (of_nat dist :: u16) = [a, b]" "unat a + 256 * unat b = dist"
    using le_bytes2_value [OF assms(2)] by blast
  have "len_field 4 (min (m - 4) 15) (len_bytes (m - 4) @ bs) = Some (4 + (m - 4), bs)"
    using assms by (intro len_field_bytes) simp
  then show ?thesis using assms(1,3,4) by (simp add: spec_match_def ab(1) Let_def) (use assms ab(2) in auto)
qed

lemma spec_step_bytes:
  assumes "0 < dist" "dist < 65536" "dist \<le> length out + length l" "4 \<le> m" "m < 2 ^ 32" "length l < 2 ^ 32"
    "length out \<le> cap"
  shows "lz4_spec cap out (seq_bytes l dist m @ bs) =
    (if cap < length out + length l + m then Some (take cap (lz_copy (out @ l) dist m))
     else lz4_spec cap (lz_copy (out @ l) dist m) bs)"
proof -
  let ?cmd = "of_nat (16 * min (length l) 15 + min (m - 4) 15) :: u8"
  have nib: "unat ?cmd div 16 = min (length l) 15" "unat ?cmd mod 16 = min (m - 4) 15"
    by (rule cmd_nibbles; simp)+
  have ne: "le_bytes 2 (of_nat dist :: u16) \<noteq> []" by (simp add: le_bytes2)
  have step: "spec_step cap out ?cmd (len_bytes (length l) @ l @ le_bytes 2 (of_nat dist :: u16) @ len_bytes (m - 4) @ bs) =
      (if cap < length out + length l then Stop (take cap (out @ l)) else clip cap (lz_copy (out @ l) dist m) bs)"
    using spec_match_bytes [of dist "out @ l" m cap bs] assms ne
    by (simp add: spec_step_def nib len_field_bytes clip_def del: of_nat_add of_nat_mult)
  have pre: "take cap (lz_copy (out @ l) dist m) = take cap (out @ l)" if "cap < length out + length l"
  proof -
    have "take cap (lz_copy (out @ l) dist m) = take cap (take (length (out @ l)) (lz_copy (out @ l) dist m))"
      using that by (simp add: min_def)
    then show ?thesis by (simp only: lz_copy_prefix)
  qed
  show ?thesis
    by (simp add: seq_bytes_def step pre clip_def del: of_nat_add of_nat_mult take_append)
qed

theorem partial_stream_spec:
  assumes "partial_stream bs out"
  shows "lz4_spec cap [] (bs @ rest) = (if cap < length out then Some (take cap out) else lz4_spec cap out rest)"
  using assms
proof (induction arbitrary: rest)
  case (snoc bs out dist l m)
  show ?case
  proof (cases "cap < length out")
    case True
    have "take cap (lz_copy (out @ l) dist m) = take cap (take (length (out @ l)) (lz_copy (out @ l) dist m))"
      using True by (simp add: min_def)
    also have "\<dots> = take cap out" unfolding lz_copy_prefix using True by simp
    finally show ?thesis using True snoc.IH by simp
  next
    case False
    then show ?thesis using snoc by (simp add: spec_step_bytes)
  qed
qed simp

lemma last_bytes_spec:
  assumes "length out \<le> cap" "length l < 2 ^ 32"
  shows "lz4_spec cap out (last_bytes l) = Some (take cap (out @ l))"
proof -
  let ?cmd = "of_nat (16 * min (length l) 15) :: u8"
  have "unat ?cmd div 16 = min (length l) 15" using cmd_nibbles(1) [of "min (length l) 15" 0] by simp
  moreover have "len_field 0 (min (length l) 15) (len_bytes (length l) @ l) = Some (length l, l)"
    using len_field_bytes [of 0 "length l" l] assms by simp
  ultimately have "spec_step cap out ?cmd (len_bytes (length l) @ l) = Stop (take cap (out @ l))"
    by (simp add: spec_step_def clip_def)
  then show ?thesis by (simp add: last_bytes_def)
qed

text \<open>A complete stream is decoded into what it stands for, cut at the capacity of the destination.\<close>

lemma stream_output:
  assumes "partial_stream bs out" "length l < 2 ^ 32"
  shows "lz4_output cap (bs @ last_bytes l) = Some (take cap (out @ l))"
  using assms by (simp add: lz4_output_def partial_stream_spec last_bytes_spec)

lemma length_len_bytes: "length (len_bytes n) = (if 15 \<le> n then (n - 15) div 255 + 1 else 0)"
  by (simp add: len_bytes_def enc_len_def)

text \<open>A copy that repeats the data: the bytes of \<open>data\<close> from \<open>p\<close> on agree with those \<open>dist\<close> bytes before.\<close>

lemma lz_copy_agrees:
  assumes "dist \<le> p" "p + m \<le> length data" "\<And>i. i < m \<Longrightarrow> data ! (p + i - dist) = data ! (p + i)"
    "0 < dist"
  shows "lz_copy (take p data) dist m = take (p + m) data"
  using assms
proof (induction m arbitrary: p)
  case (Suc m)
  have "take p data @ [take p data ! (p - dist)] = take (Suc p) data"
    using Suc.prems(1,2,4) Suc.prems(3) [of 0] by (simp add: take_Suc_conv_app_nth min_def)
  moreover have "data ! (Suc p + i - dist) = data ! (Suc p + i)" if "i < m" for i
    using Suc.prems(3) [of "Suc i"] that by simp
  ultimately show ?case using Suc.IH [of "Suc p"] Suc.prems by (simp add: min_def)
qed simp

end
