(* ===== verification/LZ4_Encode.thy ===== *)
theory LZ4_Encode
  imports LZ4_Decode
begin

text \<open>
  The LZ4 encoder of \<open>xnu/osfmk/vm/lz4.c\<close>: the search for matches through a hash table, their extension in both directions,
  and the output of sequences by wide stores that run past the bytes they mean to write. \<open>LZ4_EARLY_ABORT\<close> is off, as in the
  source; the width \<open>N\<close> of the search (\<open>LZ4_MATCH_SEARCH_LOOP_SIZE\<close>: 32 on x86-64, 8 elsewhere) is a parameter.
\<close>

section \<open>Matching bytes\<close>

text \<open>\<open>__builtin_ctz\<close>, for an argument that is not zero.\<close>

definition ctz :: "'a::len word \<Rightarrow> nat" where
  "ctz x = length (takeWhile (\<lambda>i. \<not> bit x i) [0..<LENGTH('a)])"

definition lz4_nmatch4 :: "u8 list \<Rightarrow> nat \<Rightarrow> nat \<Rightarrow> lz4_fault + nat" where
  "lz4_nmatch4 src a b = bindS (load4 src a) (\<lambda>x. bindS (load4 src b) (\<lambda>y.
     Inr (if x XOR y = 0 then 4 else ctz (x XOR y) div 8)))"

definition lz4_nmatch8 :: "u8 list \<Rightarrow> nat \<Rightarrow> nat \<Rightarrow> lz4_fault + nat" where
  "lz4_nmatch8 src a b = bindS (load8 src a) (\<lambda>x. bindS (load8 src b) (\<lambda>y.
     Inr (if x XOR y = 0 then 8 else ctz (x XOR y) div 8)))"

definition lz4_nmatch16 :: "u8 list \<Rightarrow> nat \<Rightarrow> nat \<Rightarrow> lz4_fault + nat" where
  "lz4_nmatch16 src a b = bindS (lz4_nmatch8 src a b) (\<lambda>n.
     if n = 8 then bindS (lz4_nmatch8 src (a + 8) (b + 8)) (\<lambda>k. Inr (8 + k)) else Inr n)"

definition lz4_nmatch32 :: "u8 list \<Rightarrow> nat \<Rightarrow> nat \<Rightarrow> lz4_fault + nat" where
  "lz4_nmatch32 src a b = bindS (lz4_nmatch16 src a b) (\<lambda>n.
     if n = 16 then bindS (lz4_nmatch16 src (a + 16) (b + 16)) (\<lambda>k. Inr (16 + k)) else Inr n)"

definition lz4_nmatch64 :: "u8 list \<Rightarrow> nat \<Rightarrow> nat \<Rightarrow> lz4_fault + nat" where
  "lz4_nmatch64 src a b = bindS (lz4_nmatch32 src a b) (\<lambda>n.
     if n = 32 then bindS (lz4_nmatch32 src (a + 32) (b + 32)) (\<lambda>k. Inr (32 + k)) else Inr n)"

definition lz4_nmatch :: "nat \<Rightarrow> u8 list \<Rightarrow> nat \<Rightarrow> nat \<Rightarrow> lz4_fault + nat" where
  "lz4_nmatch N src a b =
     (if N = 4 then lz4_nmatch4 src a b
      else if N = 8 then lz4_nmatch8 src a b
      else if N = 16 then lz4_nmatch16 src a b
      else if N = 32 then lz4_nmatch32 src a b
      else if N = 64 then lz4_nmatch64 src a b
      else Inl Builtin_trap)"

text \<open>The reference: the length of the longest agreement of two lists.\<close>

fun agree :: "u8 list \<Rightarrow> u8 list \<Rightarrow> nat" where
  "agree (x # xs) (y # ys) = (if x = y then Suc (agree xs ys) else 0)" |
  "agree _ _ = 0"

lemma agree_le: "agree xs ys \<le> length xs" "agree xs ys \<le> length ys"
  by (induction xs ys rule: agree.induct) auto

lemma agree_nth: "i < agree xs ys \<Longrightarrow> xs ! i = ys ! i"
  by (induction xs ys arbitrary: i rule: agree.induct) (auto simp: nth_Cons split: if_splits nat.splits)

lemma agree_max: "agree xs ys < length xs \<Longrightarrow> agree xs ys < length ys \<Longrightarrow> xs ! agree xs ys \<noteq> ys ! agree xs ys"
  by (induction xs ys rule: agree.induct) auto

lemma agree_unique:
  assumes "n \<le> length xs" "n \<le> length ys" "\<And>i. i < n \<Longrightarrow> xs ! i = ys ! i"
    "n < length xs \<Longrightarrow> n < length ys \<Longrightarrow> xs ! n \<noteq> ys ! n"
  shows "agree xs ys = n"
proof (rule linorder_cases [of "agree xs ys" n])
  assume "agree xs ys < n"
  then show ?thesis using assms agree_max [of xs ys] by fastforce
next
  assume "n < agree xs ys"
  then show ?thesis using assms(4) agree_nth [of n xs ys] agree_le [of xs ys] by force
qed

lemma agree_append:
  "length xs = length ys \<Longrightarrow>
   agree (xs @ xs') (ys @ ys') = (if agree xs ys = length xs then length xs + agree xs' ys' else agree xs ys)"
  by (induction xs ys rule: list_induct2) auto

lemma agree_eq: "length xs = length ys \<Longrightarrow> agree xs ys = length xs \<longleftrightarrow> xs = ys"
  by (induction xs ys rule: list_induct2) auto

lemma ctz_bits:
  assumes "(x :: 'a::len word) \<noteq> 0"
  shows "bit x (ctz x)" "\<And>i. i < ctz x \<Longrightarrow> \<not> bit x i" "ctz x < LENGTH('a)"
proof -
  let ?l = "[0..<LENGTH('a)]" let ?P = "\<lambda>i. \<not> bit x i"
  obtain k where "bit x k" using assms by (metis bit_eq_iff bit_0_eq bot_apply bot_bool_def)
  then have k: "k \<in> set ?l" "\<not> ?P k" by (auto dest: bit_imp_le_length)
  then have "takeWhile ?P ?l \<noteq> ?l" by (metis takeWhile_eq_all_conv)
  then have lt: "ctz x < length ?l" unfolding ctz_def
    by (metis length_takeWhile_le le_neq_implies_less takeWhile_eq_take take_all order_refl)
  then show "ctz x < LENGTH('a)" by simp
  show "bit x (ctz x)" using nth_length_takeWhile [of ?P ?l] lt by (simp add: ctz_def)
  show "\<not> bit x i" if "i < ctz x" for i
    using set_takeWhileD [of "takeWhile ?P ?l ! i" ?P ?l] that takeWhile_nth [of i ?P ?l] nth_mem [of i "takeWhile ?P ?l"] lt
    by (simp add: ctz_def)
qed

lemma ctz_agree:
  assumes "length xs = length ys" "8 * length xs = LENGTH('a::len)"
  shows "(if (le_word xs XOR le_word ys :: 'a word) = 0 then length xs else ctz (le_word xs XOR le_word ys :: 'a word) div 8) =
    agree xs ys"
proof -
  let ?x = "le_word xs XOR le_word ys :: 'a word"
  have b: "bit ?x i \<longleftrightarrow> i < LENGTH('a) \<and> bit (xs ! (i div 8)) (i mod 8) \<noteq> bit (ys ! (i div 8)) (i mod 8)" for i
    using assms by (auto simp: bit_xor_iff bit_le_word)
  have eqb: "xs ! j = ys ! j" if "\<And>i. 8 * j \<le> i \<Longrightarrow> i < 8 * j + 8 \<Longrightarrow> \<not> bit ?x i" "j < length xs" for j
  proof (rule bit_word_eqI)
    fix n assume "n < LENGTH(8)"
    then show "bit (xs ! j) n = bit (ys ! j) n" using that(1) [of "8 * j + n"] that(2) assms by (auto simp: b)
  qed
  show ?thesis
  proof (cases "?x = 0")
    case True
    then have "xs = ys" using assms eqb by (intro nth_equalityI) auto
    then show ?thesis using agree_eq [of xs ys] by simp
  next
    case False
    let ?k = "ctz ?x div 8"
    note c = ctz_bits [OF False]
    have k: "?k < length xs" using c(3) assms by simp
    have "agree xs ys = ?k"
    proof (rule agree_unique)
      show "xs ! ?k \<noteq> ys ! ?k" using c(1) by (auto simp: b)
      show "xs ! i = ys ! i" if "i < ?k" for i using eqb [of i] that k c(2) by simp
    qed (use k assms in simp_all)
    then show ?thesis using False by simp
  qed
qed

lemma lz4_nmatch4_spec:
  assumes "a + 4 \<le> length src" "b + 4 \<le> length src"
  shows "lz4_nmatch4 src a b = Inr (agree (get src a 4) (get src b 4))"
  using ctz_agree [of "get src a 4" "get src b 4", where 'a = 32] assms
  by (simp add: lz4_nmatch4_def load4_def load_bytes_def split: if_splits)

lemma lz4_nmatch8_spec:
  assumes "a + 8 \<le> length src" "b + 8 \<le> length src"
  shows "lz4_nmatch8 src a b = Inr (agree (get src a 8) (get src b 8))"
  using ctz_agree [of "get src a 8" "get src b 8", where 'a = 64] assms
  by (simp add: lz4_nmatch8_def load8_def load_bytes_def split: if_splits)

lemma agree_get_double:
  assumes "a + (n + n) \<le> length src" "b + (n + n) \<le> length src"
  shows "agree (get src a (n + n)) (get src b (n + n)) =
    (if agree (get src a n) (get src b n) = n then n + agree (get src (a + n) n) (get src (b + n) n)
     else agree (get src a n) (get src b n))"
  using assms by (simp add: get_append agree_append)

lemma lz4_nmatch16_spec:
  assumes "a + 16 \<le> length src" "b + 16 \<le> length src"
  shows "lz4_nmatch16 src a b = Inr (agree (get src a 16) (get src b 16))"
  using agree_get_double [of a 8 src b] assms by (simp add: lz4_nmatch16_def lz4_nmatch8_spec)

lemma lz4_nmatch32_spec:
  assumes "a + 32 \<le> length src" "b + 32 \<le> length src"
  shows "lz4_nmatch32 src a b = Inr (agree (get src a 32) (get src b 32))"
  using agree_get_double [of a 16 src b] assms by (simp add: lz4_nmatch32_def lz4_nmatch16_spec)

lemma lz4_nmatch64_spec:
  assumes "a + 64 \<le> length src" "b + 64 \<le> length src"
  shows "lz4_nmatch64 src a b = Inr (agree (get src a 64) (get src b 64))"
  using agree_get_double [of a 32 src b] assms by (simp add: lz4_nmatch64_def lz4_nmatch32_spec)

definition search_width :: "nat \<Rightarrow> bool" where
  "search_width N = (N \<in> {4, 8, 16, 32, 64})"

lemma lz4_nmatch_spec:
  assumes "search_width N" "a + N \<le> length src" "b + N \<le> length src"
  shows "lz4_nmatch N src a b = Inr (agree (get src a N) (get src b N))"
  using assms
  by (auto simp: search_width_def lz4_nmatch_def lz4_nmatch4_spec lz4_nmatch8_spec lz4_nmatch16_spec
      lz4_nmatch32_spec lz4_nmatch64_spec)

lemma lz4_nmatch_width: "lz4_nmatch N src a b = Inr n \<Longrightarrow> search_width N"
  by (auto simp: lz4_nmatch_def search_width_def split: if_splits)

lemma search_width_pos: "search_width N \<Longrightarrow> 0 < N \<and> N \<le> 64"
  by (auto simp: search_width_def)

section \<open>The encoder\<close>

record lz4_hash_entry =
  hash_offset :: u32
  hash_word :: u32

abbreviation (input) LZ4_GOFAST_SAFETY_MARGIN :: int where "LZ4_GOFAST_SAFETY_MARGIN \<equiv> 128"

definition lz4_hash :: "u32 \<Rightarrow> nat" where
  "lz4_hash x = unat (drop_bit (32 - 10) (x * 2654435761))"

definition lz4_fill16 :: "u8 list \<Rightarrow> nat \<Rightarrow> lz4_fault + u8 list" where
  "lz4_fill16 dst d = bindS (store8 dst d (- 1)) (\<lambda>dst1. store8 dst1 (d + 8) (- 1))"

text \<open>The buffer and the pointer after the length.\<close>

function lz4_store_length :: "u8 list \<Rightarrow> nat \<Rightarrow> u32 \<Rightarrow> lz4_fault + u8 list \<times> nat" where
  "lz4_store_length dst d L =
     (if 17 * 255 \<le> L
      then bindS (lz4_fill16 dst d) (\<lambda>dst1. lz4_store_length dst1 (d + 16) (L - 16 * 255))
      else bindS (lz4_fill16 dst d) (\<lambda>dst1.
        bindS (store1 dst1 (d + unat (L div 255)) (ucast (L mod 255))) (\<lambda>dst2.
          Inr (dst2, d + unat (L div 255) + 1))))"
  by pat_completeness auto
termination
  by (relation "measure (\<lambda>(dst, d, L). unat L)") (auto simp: word_le_nat_alt unat_sub)

declare lz4_store_length.simps [simp del]

definition clamp :: "u32 \<Rightarrow> u32 \<Rightarrow> u32" where
  "clamp x m = (if m < x then m else x)"

function copy_literal_loop :: "u8 list \<Rightarrow> nat \<Rightarrow> u8 list \<Rightarrow> nat \<Rightarrow> nat \<Rightarrow> lz4_fault + u8 list" where
  "copy_literal_loop dst d src s end =
     (if d < end then bindS (copy32 dst d src s) (\<lambda>dst1. copy_literal_loop dst1 (d + 32) src (s + 32) end)
      else Inr dst)"
  by pat_completeness auto
termination
  by (relation "measure (\<lambda>(dst, d, src, s, end). end - d)") auto

declare copy_literal_loop.simps [simp del]

definition copy_literal :: "u8 list \<Rightarrow> nat \<Rightarrow> u8 list \<Rightarrow> nat \<Rightarrow> u32 \<Rightarrow> lz4_fault + u8 list \<times> nat" where
  "copy_literal dst d src s L = bindS (copy16 dst d src s) (\<lambda>dst1.
     bindS (copy_literal_loop dst1 (d + 16) src (s + 16) (d + unat L)) (\<lambda>dst2. Inr (dst2, d + unat L)))"

text \<open>The bytes after a length of 15 or more.\<close>

definition lz4_store_extra :: "u8 list \<Rightarrow> nat \<Rightarrow> u32 \<Rightarrow> lz4_fault + u8 list \<times> nat" where
  "lz4_store_extra dst d L = (if 15 \<le> L then lz4_store_length dst d (L - 15) else Inr (dst, d))"

text \<open>The buffer, and the pointer after the sequence or \<open>NULL\<close>.\<close>

definition lz4_emit_match ::
  "u32 \<Rightarrow> u32 \<Rightarrow> u32 \<Rightarrow> u8 list \<Rightarrow> nat \<Rightarrow> int \<Rightarrow> u8 list \<Rightarrow> nat \<Rightarrow> lz4_fault + u8 list \<times> nat option" where
  "lz4_emit_match L M0 D dst d end src s =
     (if \<not> 4 \<le> M0 then Inl Assertion
      else let M = M0 - 4 in
      if \<not> D \<le> 0xFFFF then Inl Assertion
      else bindS (store1 dst d (ucast (push_bit 4 (clamp L 15) OR clamp M 15))) (\<lambda>dst1.
        bindS (lz4_store_extra dst1 (d + 1) L) (\<lambda>(dst2, d2).
          if 15 \<le> L \<and> end \<le> int (d2 + unat L) then Inr (dst2, None)
          else bindS (copy_literal dst2 d2 src s L) (\<lambda>(dst3, d3).
            bindS (store2 dst3 d3 (ucast D)) (\<lambda>dst4.
              bindS (lz4_store_extra dst4 (d3 + 2) M) (\<lambda>(dst5, d5). Inr (dst5, Some d5)))))))"

text \<open>
  The search for the next match: four positions a turn, whose table entries are all read before any is replaced.
  \<open>src_begin\<close> is the position the offsets in the table count from. The result is the table and, when there is a
  match, its position and its distance.
\<close>

definition hash_hit :: "u32 \<Rightarrow> lz4_hash_entry \<Rightarrow> int \<Rightarrow> bool" where
  "hash_hit w e dist = (w = hash_word e \<and> dist < 0x10000 \<and> 0 < dist)"

definition search_turn ::
  "u8 list \<Rightarrow> nat \<Rightarrow> nat \<Rightarrow> lz4_hash_entry list \<Rightarrow> lz4_fault + lz4_hash_entry list \<times> (nat \<times> int) option" where
  "search_turn src src_begin b table =
     bindS (load4 src b) (\<lambda>w0.
     bindS (load4 src (b + 1)) (\<lambda>w1.
     bindS (load4 src (b + 2)) (\<lambda>w2.
     bindS (load4 src (b + 3)) (\<lambda>w3.
     let pos = of_nat (b - src_begin) :: u32;
         e0 = table ! lz4_hash w0; e1 = table ! lz4_hash w1; e2 = table ! lz4_hash w2; e3 = table ! lz4_hash w3;
         table' = table
           [lz4_hash w0 := \<lparr>hash_offset = pos, hash_word = w0\<rparr>,
            lz4_hash w1 := \<lparr>hash_offset = pos + 1, hash_word = w1\<rparr>,
            lz4_hash w2 := \<lparr>hash_offset = pos + 2, hash_word = w2\<rparr>,
            lz4_hash w3 := \<lparr>hash_offset = pos + 3, hash_word = w3\<rparr>];
         d0 = int b - (int src_begin + uint (hash_offset e0));
         d1 = int b + 1 - (int src_begin + uint (hash_offset e1));
         d2 = int b + 2 - (int src_begin + uint (hash_offset e2));
         d3 = int b + 3 - (int src_begin + uint (hash_offset e3)) in
     Inr (table',
       if hash_hit w0 e0 d0 then Some (b, d0)
       else if hash_hit w1 e1 d1 then Some (b + 1, d1)
       else if hash_hit w2 e2 d2 then Some (b + 2, d2)
       else if hash_hit w3 e3 d3 then Some (b + 3, d3)
       else None)))))"

function lz4_search ::
  "u8 list \<Rightarrow> nat \<Rightarrow> int \<Rightarrow> nat \<Rightarrow> lz4_hash_entry list \<Rightarrow>
   lz4_fault + lz4_hash_entry list \<times> (nat \<times> int) option" where
  "lz4_search src src_begin src_end b table =
     (if int b < src_end
      then bindS (search_turn src src_begin b table) (\<lambda>(table', hit).
        if hit = None then lz4_search src src_begin src_end (b + 4) table' else Inr (table', hit))
      else Inr (table, None))"
  by pat_completeness auto
termination
  by (relation "measure (\<lambda>(src, src_begin, src_end, b, table). nat (src_end - int b))") auto

declare lz4_search.simps [simp del]

text \<open>The end of the match, moved forward by blocks of \<open>N\<close> bytes while they agree.\<close>

function expand_forward :: "nat \<Rightarrow> u8 list \<Rightarrow> int \<Rightarrow> nat \<Rightarrow> nat \<Rightarrow> lz4_fault + nat" where
  "expand_forward N src src_end ref_end match_end =
     (if int match_end < src_end
      then bindS (lz4_nmatch N src ref_end match_end) (\<lambda>n.
        if n < N then Inr (match_end + n) else expand_forward N src src_end (ref_end + N) (match_end + N))
      else Inr match_end)"
  by pat_completeness auto
termination
  by (relation "measure (\<lambda>(N, src, src_end, ref_end, match_end). nat (src_end - int match_end))")
    (auto dest!: lz4_nmatch_width search_width_pos)

declare expand_forward.simps [simp del]

text \<open>The begin of the match, moved backward byte by byte.\<close>

fun expand_backward :: "u8 list \<Rightarrow> nat \<Rightarrow> nat \<Rightarrow> nat \<Rightarrow> lz4_fault + nat" where
  "expand_backward src match_begin_min ref_begin match_begin =
     (if match_begin_min < match_begin
      then (if ref_begin = 0 then Inl Src_Access
        else bindS (load1 src (ref_begin - 1)) (\<lambda>x. bindS (load1 src (match_begin - 1)) (\<lambda>y.
          if x = y then expand_backward src match_begin_min (ref_begin - 1) (match_begin - 1) else Inr match_begin)))
      else Inr match_begin)"

declare expand_backward.simps [simp del]

text \<open>
  The literals that end the block. \<open>src_end + LZ4_GOFAST_SAFETY_MARGIN\<close> is the end of the block. The result is the
  buffer, and the new values of \<open>*dst_ptr\<close> and \<open>*src_ptr\<close>.
\<close>

definition emit_final_literals ::
  "u8 list \<Rightarrow> nat \<Rightarrow> int \<Rightarrow> u8 list \<Rightarrow> nat \<Rightarrow> int \<Rightarrow> lz4_fault + u8 list \<times> nat \<times> nat" where
  "emit_final_literals dst d end src s src_end =
     (let src_remaining = nat (src_end + LZ4_GOFAST_SAFETY_MARGIN - int s) in
      if src_remaining < 15
      then bindS (store1 dst d (of_nat (src_remaining * 16))) (\<lambda>dst1.
        bindS (memcpy dst1 (d + 1) src s 16) (\<lambda>dst2.
          Inr (dst2, d + 1 + src_remaining, s + src_remaining)))
      else bindS (store1 dst d 0xf0) (\<lambda>dst1.
        bindS (lz4_store_length dst1 (d + 1) (of_nat (src_remaining - 15))) (\<lambda>(dst2, d2).
          if end \<le> int (d2 + src_remaining) then Inr (dst2, d, s)
          else bindS (memcpy dst2 d2 src s src_remaining) (\<lambda>dst3.
            Inr (dst3, d2 + src_remaining, s + src_remaining)))))"

text \<open>The match found by the search, extended in both directions: where it begins and where it ends.\<close>

definition expand_match :: "nat \<Rightarrow> u8 list \<Rightarrow> nat \<Rightarrow> int \<Rightarrow> nat \<Rightarrow> nat \<Rightarrow> nat \<Rightarrow> lz4_fault + nat \<times> nat" where
  "expand_match N src src_begin src_end s b dist =
     bindS (expand_forward N src src_end (b + 4 - dist) (b + 4)) (\<lambda>match_end.
     bindS (expand_backward src (if src_begin + dist < s then s else src_begin + dist) (b - dist) b) (\<lambda>match_begin.
       Inr (match_begin, match_end)))"

lemma search_turn_ge: "search_turn src sb b t = Inr (t', Some (b', d)) \<Longrightarrow> b \<le> b'"
  by (auto simp: search_turn_def bindS_eq_Inr_iff Let_def split: if_split_asm)

lemma lz4_search_ge:
  "lz4_search src sb se b t = Inr (t', Some (b', d)) \<Longrightarrow> b \<le> b' \<and> int b < se"
proof (induction src sb se b t rule: lz4_search.induct)
  case (1 src sb se b t)
  from "1.prems" have lt: "int b < se" by (subst (asm) lz4_search.simps) (auto split: if_split_asm)
  obtain t1 hit where turn: "search_turn src sb b t = Inr (t1, hit)"
    using "1.prems" lt by (subst (asm) lz4_search.simps) (auto simp: bindS_eq_Inr_iff)
  show ?case
  proof (cases hit)
    case None
    then have "lz4_search src sb se (b + 4) t1 = Inr (t', Some (b', d))"
      using "1.prems" lt turn by (subst (asm) lz4_search.simps) simp
    then show ?thesis using "1.IH" [OF lt turn refl None] lt by simp
  next
    case (Some x)
    then show ?thesis using "1.prems" lt turn search_turn_ge
      by (subst (asm) lz4_search.simps) auto
  qed
qed

lemma expand_forward_ge: "expand_forward N src se r e = Inr e' \<Longrightarrow> e \<le> e'"
proof (induction N src se r e rule: expand_forward.induct)
  case (1 N src se r e)
  then show ?case
    by (subst (asm) (2) expand_forward.simps)
      (fastforce simp: bindS_eq_Inr_iff split: if_split_asm)
qed

lemma expand_match_ge: "expand_match N src sb se s b d = Inr (mb, me) \<Longrightarrow> b + 4 \<le> me"
  by (auto simp: expand_match_def bindS_eq_Inr_iff dest: expand_forward_ge)

text \<open>The loop of \<open>lz4_encode_2gb\<close>; the result is the buffer, \<open>*dst_ptr\<close> and \<open>*src_ptr\<close>.\<close>

function lz4_encode_loop ::
  "nat \<Rightarrow> u8 list \<Rightarrow> nat \<Rightarrow> int \<Rightarrow> bool \<Rightarrow> int \<Rightarrow> u8 list \<Rightarrow> nat \<Rightarrow> nat \<Rightarrow> lz4_hash_entry list \<Rightarrow>
   lz4_fault + u8 list \<times> nat \<times> nat" where
  "lz4_encode_loop N src src_begin src_end skip_final_literals end dst d s table =
     (if int d < end
      then bindS (lz4_search src src_begin src_end s table) (\<lambda>(table', hit). case hit of
          None \<Rightarrow> if skip_final_literals then Inr (dst, d, s) else emit_final_literals dst d end src s src_end
        | Some (b, dist) \<Rightarrow>
            bindS (expand_match N src src_begin src_end s b (nat dist)) (\<lambda>(match_begin, match_end).
            bindS (lz4_emit_match (of_nat (match_begin - s)) (of_nat (match_end - match_begin)) (of_int dist)
                dst d end src s) (\<lambda>(dst', r). case r of
              None \<Rightarrow> Inr (dst', d, s)
            | Some d' \<Rightarrow>
                lz4_encode_loop N src src_begin src_end skip_final_literals end dst' d' match_end table')))
      else Inr (dst, d, s))"
  by pat_completeness auto
termination
  by (relation "measure (\<lambda>(N, src, src_begin, src_end, skip, end, dst, d, s, table). nat (src_end - int s))")
    (auto dest!: lz4_search_ge expand_match_ge)

declare lz4_encode_loop.simps [simp del]

definition lz4_encode_2gb ::
  "nat \<Rightarrow> u8 list \<Rightarrow> nat \<Rightarrow> int \<Rightarrow> u8 list \<Rightarrow> nat \<Rightarrow> nat \<Rightarrow> nat \<Rightarrow> lz4_hash_entry list \<Rightarrow> bool \<Rightarrow>
   lz4_fault + u8 list \<times> nat \<times> nat" where
  "lz4_encode_2gb N dst d dst_size src s src_begin src_size table skip_final_literals =
     lz4_encode_loop N src src_begin (int s + int src_size - LZ4_GOFAST_SAFETY_MARGIN) skip_final_literals
       (int d + dst_size - LZ4_GOFAST_SAFETY_MARGIN) dst d s table"

definition HASH_FILL :: lz4_hash_entry where
  "HASH_FILL = \<lparr>hash_offset = 0x80000000, hash_word = 0\<rparr>"

abbreviation (input) LZ4_COMPRESS_HASH_ENTRIES :: nat where "LZ4_COMPRESS_HASH_ENTRIES \<equiv> 1024"
abbreviation (input) BLOCK_SIZE :: nat where "BLOCK_SIZE \<equiv> 0x7ffff000"

text \<open>
  The loop over the blocks: the number of bytes produced, or zero, and the buffer. The size that remains of the destination
  is an integer: what the code would compute if a block had used more than it was given.
\<close>

function encode_blocks ::
  "nat \<Rightarrow> u8 list \<Rightarrow> nat \<Rightarrow> int \<Rightarrow> u8 list \<Rightarrow> nat \<Rightarrow> nat \<Rightarrow> lz4_fault + nat \<times> u8 list" where
  "encode_blocks N dst d dst_size src s src_size =
     (if 0 < src_size
      then let src_to_encode = (if BLOCK_SIZE < src_size then BLOCK_SIZE else src_size) in
        bindS (lz4_encode_2gb N dst d dst_size src s s src_to_encode (replicate LZ4_COMPRESS_HASH_ENTRIES HASH_FILL)
            (src_to_encode < src_size)) (\<lambda>(dst', d', s').
          let dst_used = int d' - int d; src_used = s' - s in
          if src_to_encode = src_size \<and> src_used < src_to_encode then Inr (0, dst')
          else if src_to_encode < src_size \<and> 2 ^ 16 \<le> src_to_encode - src_used then Inr (0, dst')
          else encode_blocks N dst' d' (dst_size - dst_used) src s' (src_size - src_used))
      else Inr (d, dst))"
  by pat_completeness auto
termination
  by (relation "measure (\<lambda>(N, dst, d, dst_size, src, s, src_size). src_size)") (auto split: if_splits)

declare encode_blocks.simps [simp del]

definition lz4raw_encode_buffer :: "nat \<Rightarrow> u8 list \<Rightarrow> nat \<Rightarrow> u8 list \<Rightarrow> nat \<Rightarrow> lz4_fault + nat \<times> u8 list" where
  "lz4raw_encode_buffer N dst dst_size src src_size = encode_blocks N dst 0 (int dst_size) src 0 src_size"

section \<open>What is written\<close>

lemma store_bytes_eq:
  "store_bytes dst d bs = Inr dst' \<longleftrightarrow> d + length bs \<le> length dst \<and> dst' = put dst d bs"
  by (auto simp: store_bytes_def)

lemma load_bytes_eq: "load_bytes src s n = Inr bs \<longleftrightarrow> s + n \<le> length src \<and> bs = get src s n"
  by (auto simp: load_bytes_def)

lemma memcpy_eq:
  "memcpy dst d src s n = Inr dst' \<longleftrightarrow> s + n \<le> length src \<and> d + n \<le> length dst \<and> dst' = put dst d (get src s n)"
  by (auto simp: memcpy_def bindS_eq_Inr_iff load_bytes_eq store_bytes_eq)

lemma put_put:
  "d + length xs + length ys \<le> length buf \<Longrightarrow> put (put buf d xs) (d + length xs) ys = put buf d (xs @ ys)"
  by (simp add: put_def ac_simps)

lemma le_bytes_max: "8 * n \<le> LENGTH('a::len) \<Longrightarrow> le_bytes n (drop_bit (LENGTH('a) - 8 * n) (- 1 :: 'a word)) = replicate n 255"
proof (induction n)
  case (Suc n)
  let ?k = "LENGTH('a) - 8 * Suc n"
  have "(ucast (drop_bit ?k (- 1 :: 'a word)) :: u8) = 255"
  proof (rule bit_word_eqI)
    fix i assume "i < LENGTH(8)"
    then have i: "i < 8" by simp
    then have "bit (255 :: u8) i" by (auto simp: less_Suc_eq numeral_eq_Suc)
    then show "bit (ucast (drop_bit ?k (- 1 :: 'a word)) :: u8) i = bit (255 :: u8) i"
      using Suc.prems i by (simp add: bit_ucast_iff bit_drop_bit_eq bit_mask_iff)
  qed
  moreover have "drop_bit 8 (drop_bit ?k (- 1 :: 'a word)) = drop_bit (LENGTH('a) - 8 * n) (- 1)"
  proof -
    have "8 + ?k = LENGTH('a) - 8 * n" using Suc.prems by simp
    then show ?thesis by (simp only: drop_bit_drop_bit)
  qed
  ultimately show ?case using Suc by simp
qed simp

lemma lz4_fill16_eq:
  "lz4_fill16 dst d = Inr dst' \<longleftrightarrow> d + 16 \<le> length dst \<and> dst' = put dst d (replicate 16 255)"
proof -
  have b: "le_bytes 8 (- 1 :: u64) = replicate 8 255" using le_bytes_max [of 8, where 'a = 64] by simp
  have r: "replicate 8 (255 :: u8) @ replicate 8 255 = replicate 16 255" by (simp flip: replicate_add)
  have "lz4_fill16 dst d = Inr dst' \<longleftrightarrow> d + 16 \<le> length dst \<and> dst' = put (put dst d (replicate 8 255)) (d + 8) (replicate 8 255)"
    unfolding lz4_fill16_def store8_def b bindS_eq_Inr_iff store_bytes_eq by auto
  also have "\<dots> \<longleftrightarrow> d + 16 \<le> length dst \<and> dst' = put dst d (replicate 16 255)"
    using put_put [of d "replicate 8 255" "replicate 8 255" dst] unfolding r by auto
  finally show ?thesis .
qed

lemma take_put_prefix:
  assumes "k \<le> length bs" "d + length bs \<le> length dst"
  shows "take (d + k) (put dst d bs) = take d dst @ take k bs"
  using assms by (simp add: put_def)

text \<open>A length is written as the format has it.\<close>

lemma enc_len_step: "4080 \<le> n \<Longrightarrow> enc_len n = replicate 16 255 @ enc_len (n - 4080)"
proof -
  assume "4080 \<le> n"
  then obtain k where k: "n = k + 16 * 255" using le_Suc_ex [of 4080 n] by (auto simp: add.commute)
  have "n div 255 = 16 + k div 255" unfolding k by (rule div_mult_self1) simp
  moreover have "n mod 255 = k mod 255" unfolding k by (rule mod_mult_self1)
  ultimately show ?thesis by (simp add: enc_len_def k replicate_add)
qed

lemma length_enc_len: "length (enc_len n) = n div 255 + 1"
  by (simp add: enc_len_def)

lemma u32_ge_iff: "17 * 255 \<le> (L :: u32) \<longleftrightarrow> 4335 \<le> unat L"
  by (simp add: word_le_nat_alt)

lemma u32_sub_4080: "4335 \<le> unat (L :: u32) \<Longrightarrow> unat (L - 16 * 255) = unat L - 4080"
  by (simp add: unat_sub word_le_nat_alt)

lemma lz4_store_length_room:
  "d + unat L div 255 + 17 \<le> length dst \<Longrightarrow> \<exists>r. lz4_store_length dst d L = Inr r"
proof (induction dst d L rule: lz4_store_length.induct)
  case (1 dst d L)
  let ?dst = "put dst d (replicate 16 255)"
  have fill: "lz4_fill16 dst d = Inr ?dst" using "1.prems" by (simp add: lz4_fill16_eq)
  have len: "length ?dst = length dst" using "1.prems" by simp
  show ?case
  proof (cases "17 * 255 \<le> L")
    case True
    then have "4335 \<le> unat L" by (simp only: u32_ge_iff)
    then have "d + 16 + unat (L - 16 * 255) div 255 + 17 \<le> length ?dst"
      unfolding u32_sub_4080 [OF \<open>4335 \<le> unat L\<close>] len using "1.prems" by linarith
    then show ?thesis using "1.IH" [OF True fill] True by (simp add: lz4_store_length.simps [of dst] fill)
  next
    case False
    have "d + unat (L div 255) + 1 \<le> length ?dst" unfolding len using "1.prems" by (simp add: unat_div_distrib)
    then show ?thesis using False by (simp add: lz4_store_length.simps [of dst] fill store1_def store_bytes_def)
  qed
qed

lemma lz4_store_length_writes:
  "lz4_store_length dst d L = Inr (dst', d') \<Longrightarrow>
   length dst' = length dst \<and> d' = d + length (enc_len (unat L)) \<and> d' \<le> length dst \<and>
   take d' dst' = take d dst @ enc_len (unat L)"
proof (induction dst d L rule: lz4_store_length.induct)
  case (1 dst d L)
  let ?dst = "put dst d (replicate 16 255)"
  show ?case
  proof (cases "17 * 255 \<le> L")
    case True
    then have ge: "4335 \<le> unat L" by (simp only: u32_ge_iff)
    have fill: "lz4_fill16 dst d = Inr ?dst" and room: "d + 16 \<le> length dst"
      and rec: "lz4_store_length ?dst (d + 16) (L - 16 * 255) = Inr (dst', d')"
      using "1.prems" True by (auto simp: lz4_store_length.simps [of dst] bindS_eq_Inr_iff lz4_fill16_eq)
    have "enc_len (unat L) = replicate 16 255 @ enc_len (unat (L - 16 * 255))"
      unfolding u32_sub_4080 [OF ge] using ge by (intro enc_len_step) simp
    moreover have "take (d + 16) ?dst = take d dst @ replicate 16 255"
      using take_put_all [of d "replicate 16 255" dst] room by simp
    ultimately show ?thesis using "1.IH" [OF True fill rec] room by auto
  next
    case False
    then have lt: "unat L < 4335" by (simp only: u32_ge_iff not_le)
    have room: "d + 16 \<le> length dst" "d + unat (L div 255) + 1 \<le> length ?dst"
      and dst': "dst' = put ?dst (d + unat (L div 255)) [ucast (L mod 255)]" "d' = d + unat (L div 255) + 1"
      using "1.prems" False
      by (auto simp: lz4_store_length.simps [of dst] bindS_eq_Inr_iff lz4_fill16_eq store1_def store_bytes_eq)
    have q: "unat (L div 255) = unat L div 255" "unat L div 255 \<le> 16" using lt by (simp_all add: unat_div_distrib)
    have "unat (L mod 255) = unat L mod 255" by (simp add: unat_mod_distrib)
    then have "(ucast (L mod 255) :: u8) = of_nat (unat L mod 255)" by (metis of_nat_unat)
    then have "enc_len (unat L) = replicate (unat L div 255) 255 @ [ucast (L mod 255)]" by (simp add: enc_len_def)
    moreover have "take d' dst' = take (d + unat L div 255) ?dst @ [ucast (L mod 255)]"
      unfolding dst' q(1) using room q by (simp add: put_def)
    moreover have "take (d + unat L div 255) ?dst = take d dst @ replicate (unat L div 255) 255"
      using take_put_prefix [of "unat L div 255" "replicate 16 255" d dst] room q by simp
    ultimately show ?thesis using room q dst' by simp
  qed
qed

text \<open>The literals are copied, and bytes after them that later output replaces.\<close>

lemma copy_literal_loop_writes:
  "copy_literal_loop dst d src s e = Inr dst' \<Longrightarrow>
   length dst' = length dst \<and> take d dst' = take d dst \<and>
   (d < e \<longrightarrow> s + (e - d) \<le> length src \<and> e \<le> length dst \<and> take e dst' = take d dst @ get src s (e - d))"
proof (induction dst d src s e rule: copy_literal_loop.induct)
  case (1 dst d src s e)
  show ?case
  proof (cases "d < e")
    case True
    let ?dst = "put dst d (get src s 32)"
    have room: "s + 32 \<le> length src" "d + 32 \<le> length dst" and cp: "copy32 dst d src s = Inr ?dst"
      and rec: "copy_literal_loop ?dst (d + 32) src (s + 32) e = Inr dst'"
      using "1.prems" True by (auto simp: copy_literal_loop.simps [of dst] copy32_def bindS_eq_Inr_iff memcpy_eq)
    note IH = "1.IH" [OF True cp rec]
    have t: "take (d + 32) ?dst = take d dst @ get src s 32"
      using take_put_all [of d "get src s 32" dst] room by simp
    have l: "length dst' = length dst" using IH room by simp
    have "take d dst' = take d (take (d + 32) dst')" by (simp add: min_def)
    also have "\<dots> = take d (take d dst @ get src s 32)" using IH t by simp
    finally have d: "take d dst' = take d dst" using room by simp
    show ?thesis
    proof (cases "d + 32 < e")
      case more: True
      have "get src s (e - d) = get src s 32 @ get src (s + 32) (e - (d + 32))"
        using get_append [of src s 32 "e - (d + 32)"] more by simp
      then show ?thesis using IH more t d l by auto
    next
      case False
      have "take e dst' = take e (take (d + 32) dst')" using False by (simp add: min_def)
      also have "\<dots> = take e (take d dst @ get src s 32)" using IH t by simp
      also have "\<dots> = take d dst @ get src s (e - d)" using True False room by (simp add: get_def min_def)
      finally show ?thesis using True False room d l by simp
    qed
  next
    case False
    then show ?thesis using "1.prems" by (simp add: copy_literal_loop.simps)
  qed
qed

lemma copy_literal_loop_room:
  "e + 31 \<le> length dst \<Longrightarrow> s + (e - d) + 31 \<le> length src \<Longrightarrow> \<exists>dst'. copy_literal_loop dst d src s e = Inr dst'"
proof (induction dst d src s e rule: copy_literal_loop.induct)
  case (1 dst d src s e)
  show ?case
  proof (cases "d < e")
    case True
    have cp: "copy32 dst d src s = Inr (put dst d (get src s 32))"
      using "1.prems" True by (simp add: copy32_def memcpy_eq)
    have "length (put dst d (get src s 32)) = length dst" using "1.prems" True by simp
    moreover have "s + 32 + (e - (d + 32)) + 31 \<le> length src \<or> e \<le> d + 32" using "1.prems" True by linarith
    ultimately show ?thesis
      using "1.IH" [OF True cp] "1.prems" True
      by (cases "e \<le> d + 32") (auto simp: copy_literal_loop.simps [of dst] copy_literal_loop.simps [of "put _ _ _"] cp)
  next
    case False
    then show ?thesis by (simp add: copy_literal_loop.simps)
  qed
qed

lemma copy_literal_writes:
  assumes "copy_literal dst d src s L = Inr (dst', d')"
  shows "length dst' = length dst" "d' = d + unat L" "d' \<le> length dst" "s + unat L \<le> length src"
    "take d' dst' = take d dst @ get src s (unat L)"
proof -
  let ?dst = "put dst d (get src s 16)"
  have room: "s + 16 \<le> length src" "d + 16 \<le> length dst" and d': "d' = d + unat L"
    and lp: "copy_literal_loop ?dst (d + 16) src (s + 16) (d + unat L) = Inr dst'"
    using assms by (auto simp: copy_literal_def copy16_def bindS_eq_Inr_iff memcpy_eq)
  note w = copy_literal_loop_writes [OF lp]
  have t: "take (d + 16) ?dst = take d dst @ get src s 16"
    using take_put_all [of d "get src s 16" dst] room by simp
  show "length dst' = length dst" "d' = d + unat L" using w room d' by simp_all
  show "d' \<le> length dst" "s + unat L \<le> length src" using w room d' by (cases "16 < unat L"; simp)+
  show "take d' dst' = take d dst @ get src s (unat L)"
  proof (cases "16 < unat L")
    case True
    have "get src s (unat L) = get src s 16 @ get src (s + 16) (unat L - 16)"
      using get_append [of src s 16 "unat L - 16"] True by simp
    then show ?thesis using w True t d' by simp
  next
    case False
    then have "take d' dst' = take d' (take (d + 16) dst')" by (simp add: d' min_def)
    also have "\<dots> = take d' (take d dst @ get src s 16)" using w t by simp
    finally show ?thesis using False room by (simp add: d' get_def min_def)
  qed
qed

lemma copy_literal_room:
  assumes "d + unat L + 31 \<le> length dst" "s + unat L + 31 \<le> length src"
  shows "\<exists>dst'. copy_literal dst d src s L = Inr (dst', d + unat L)"
proof -
  have "copy16 dst d src s = Inr (put dst d (get src s 16))" using assms by (simp add: copy16_def memcpy_eq)
  moreover have "\<exists>dst'. copy_literal_loop (put dst d (get src s 16)) (d + 16) src (s + 16) (d + unat L) = Inr dst'"
    using assms copy_literal_loop_room [of "d + unat L" "put dst d (get src s 16)" "s + 16" "d + 16" src]
    by (cases "unat L \<le> 16") (auto simp: copy_literal_loop.simps [of "put _ _ _"])
  ultimately show ?thesis by (auto simp: copy_literal_def)
qed

lemma u32_15: "15 \<le> (L :: u32) \<longleftrightarrow> 15 \<le> unat L" "15 \<le> unat L \<Longrightarrow> unat (L - 15) = unat L - 15"
  by (simp_all add: word_le_nat_alt unat_sub)

lemma lz4_store_extra_writes:
  assumes "lz4_store_extra dst d L = Inr (dst', d')" "d \<le> length dst"
  shows "length dst' = length dst" "d' = d + length (len_bytes (unat L))" "d' \<le> length dst"
    "take d' dst' = take d dst @ len_bytes (unat L)"
proof -
  have "length dst' = length dst \<and> d' = d + length (len_bytes (unat L)) \<and> d' \<le> length dst \<and>
      take d' dst' = take d dst @ len_bytes (unat L)"
  proof (cases "15 \<le> L")
    case True
    then show ?thesis using assms lz4_store_length_writes [of dst d "L - 15" dst' d']
      by (auto simp: lz4_store_extra_def len_bytes_def u32_15)
  next
    case False
    then show ?thesis using assms by (auto simp: lz4_store_extra_def len_bytes_def u32_15)
  qed
  then show "length dst' = length dst" "d' = d + length (len_bytes (unat L))" "d' \<le> length dst"
    "take d' dst' = take d dst @ len_bytes (unat L)" by auto
qed

lemma lz4_store_extra_room:
  assumes "15 \<le> unat L \<Longrightarrow> d + (unat L - 15) div 255 + 17 \<le> length dst"
  shows "\<exists>r. lz4_store_extra dst d L = Inr r"
  using assms lz4_store_length_room [of d "L - 15" dst] by (cases "15 \<le> L") (auto simp: lz4_store_extra_def u32_15)

lemma unat_clamp: "unat (clamp x 15) = min (unat x) 15"
  by (auto simp: clamp_def word_less_nat_alt min_def)

lemma cmd_byte: "(ucast (push_bit 4 (clamp L 15) OR clamp M 15) :: u8) = of_nat (16 * min (unat L) 15 + min (unat M) 15)"
proof -
  let ?a = "min (unat L) 15" and ?b = "min (unat M) 15"
  have a: "clamp L 15 = of_nat ?a" and b: "clamp M 15 = of_nat ?b"
    by (rule word_eq_of_nat, rule unat_clamp)+
  have small: "\<not> bit (of_nat ?b :: u32) i" if "4 \<le> i" for i
  proof -
    have "take_bit 4 ?b = ?b" by (simp add: take_bit_nat_eq_self_iff)
    then have "(of_nat ?b :: u32) = take_bit 4 (of_nat ?b)" by (metis of_nat_take_bit take_bit_of_nat)
    then show ?thesis using that by (metis bit_take_bit_iff not_le)
  qed
  have "push_bit 4 (of_nat ?a :: u32) OR of_nat ?b = push_bit 4 (of_nat ?a) + of_nat ?b"
    by (rule disjunctive_add_eq_or [symmetric], rule bit_word_eqI)
      (use small in \<open>auto simp: bit_and_iff bit_push_bit_iff\<close>)
  also have "\<dots> = of_nat (16 * ?a + ?b)" by (simp add: push_bit_eq_mult)
  finally have "ucast (push_bit 4 (clamp L 15) OR clamp M 15) = (ucast (of_nat (16 * ?a + ?b) :: u32) :: u8)"
    unfolding a b by (rule arg_cong)
  also have "\<dots> = of_nat (16 * ?a + ?b)"
    by (rule word_eq_of_nat) (simp add: unsigned_ucast_eq unat_of_nat take_bit_eq_mod del: of_nat_add of_nat_mult)
  finally show ?thesis .
qed

lemma store1_writes:
  assumes "store1 dst d b = Inr dst'"
  shows "length dst' = length dst" "d < length dst" "take (d + 1) dst' = take d dst @ [b]"
  using assms take_put_all [of d "[b]" dst] by (auto simp: store1_def store_bytes_eq)

lemma store2_writes:
  assumes "store2 dst d w = Inr dst'"
  shows "length dst' = length dst" "d + 2 \<le> length dst" "take (d + 2) dst' = take d dst @ le_bytes 2 w"
  using assms take_put_all [of d "le_bytes 2 w" dst] by (auto simp: store2_def store_bytes_eq)

lemma take_prefix_eq: "take d' xs = take d ys @ zs \<Longrightarrow> d \<le> d' \<Longrightarrow> d \<le> length ys \<Longrightarrow> take d xs = take d ys"
proof -
  assume "take d' xs = take d ys @ zs" "d \<le> d'" "d \<le> length ys"
  then have "take d (take d' xs) = take d ys" by simp
  then show ?thesis using \<open>d \<le> d'\<close> by (simp add: min_def)
qed

lemma lz4_emit_match_writes:
  assumes "lz4_emit_match L M D dst d end src s = Inr (dst', r)"
  shows "4 \<le> unat M" "unat D < 65536" "length dst' = length dst" "take d dst' = take d dst"
    "r = Some d' \<Longrightarrow> d' \<le> length dst \<and> s + unat L \<le> length src \<and>
       take d' dst' = take d dst @ seq_bytes (get src s (unat L)) (unat D) (unat M)"
proof -
  show M: "4 \<le> unat M" and D: "unat D < 65536"
    using assms by (auto simp: lz4_emit_match_def Let_def word_le_nat_alt split: if_split_asm)
  have m4: "unat (M - 4) = unat M - 4" using M by (simp add: unat_sub word_le_nat_alt)
  let ?cmd = "ucast (push_bit 4 (clamp L 15) OR clamp (M - 4) 15) :: u8"
  obtain dst1 dst2 d2 where st: "store1 dst d ?cmd = Inr dst1" "lz4_store_extra dst1 (d + 1) L = Inr (dst2, d2)"
    and rest: "(if 15 \<le> L \<and> end \<le> int (d2 + unat L) then Inr (dst2, None)
          else bindS (copy_literal dst2 d2 src s L) (\<lambda>(dst3, d3).
            bindS (store2 dst3 d3 (ucast D)) (\<lambda>dst4.
              bindS (lz4_store_extra dst4 (d3 + 2) (M - 4)) (\<lambda>(dst5, d5). Inr (dst5, Some d5))))) = Inr (dst', r)"
    using assms M D by (auto simp: lz4_emit_match_def Let_def word_le_nat_alt bindS_eq_Inr_iff)
  note w1 = store1_writes [OF st(1)]
  note w2 = lz4_store_extra_writes [OF st(2)]
  have t2: "take d2 dst2 = take d dst @ ?cmd # len_bytes (unat L)" "length dst2 = length dst" "d2 \<le> length dst" "d < d2"
    using w1 w2 by simp_all
  have "length dst' = length dst \<and> take d dst' = take d dst \<and>
    (r = Some d' \<longrightarrow> d' \<le> length dst \<and> s + unat L \<le> length src \<and>
       take d' dst' = take d dst @ seq_bytes (get src s (unat L)) (unat D) (unat M))"
  proof (cases "15 \<le> L \<and> end \<le> int (d2 + unat L)")
    case True
    then show ?thesis using rest t2 w1(2) take_prefix_eq [of d2 dst2 d dst] by auto
  next
    case False
    then obtain dst3 d3 dst4 d5 where st3: "copy_literal dst2 d2 src s L = Inr (dst3, d3)"
      "store2 dst3 d3 (ucast D) = Inr dst4" "lz4_store_extra dst4 (d3 + 2) (M - 4) = Inr (dst', d5)" "r = Some d5"
      using rest by (auto simp: bindS_eq_Inr_iff)
    note w3 = copy_literal_writes [OF st3(1)]
    note w4 = store2_writes [OF st3(2)]
    note w5 = lz4_store_extra_writes [OF st3(3)]
    have "ucast D = (of_nat (unat D) :: u16)" by simp
    moreover have "length (get src s (unat L)) = unat L" using w3 by (intro length_get) simp
    ultimately have "take d5 dst' = take d dst @ seq_bytes (get src s (unat L)) (unat D) (unat M)"
      using w3 w4 w5 t2 by (simp add: seq_bytes_def cmd_byte m4)
    moreover have "d \<le> d5" using w3 w4 w5 t2 by simp
    ultimately show ?thesis using w1(2) w3 w4 w5 t2 st3(4) take_prefix_eq [of d5 dst' d dst] by auto
  qed
  then show "length dst' = length dst" "take d dst' = take d dst"
    "r = Some d' \<Longrightarrow> d' \<le> length dst \<and> s + unat L \<le> length src \<and>
       take d' dst' = take d dst @ seq_bytes (get src s (unat L)) (unat D) (unat M)" by simp_all
qed

lemma lz4_emit_match_room:
  assumes "4 \<le> unat M" "unat D < 65536" "d < length dst" "s + unat L + 31 \<le> length src"
    "15 \<le> unat L \<Longrightarrow> d + 1 + (unat L - 15) div 255 + 17 \<le> length dst"
    and d2: "d2 = d + 1 + length (len_bytes (unat L))"
    and room: "\<not> (15 \<le> L \<and> end \<le> int (d2 + unat L)) \<Longrightarrow>
      d2 + unat L + 31 \<le> length dst \<and> d2 + unat L + 2 + (unat M - 19) div 255 + 17 \<le> length dst"
  shows "\<exists>dst'. lz4_emit_match L M D dst d end src s =
    Inr (dst', if 15 \<le> L \<and> end \<le> int (d2 + unat L) then None else Some (d2 + unat L + 2 + length (len_bytes (unat M - 4))))"
proof -
  let ?cmd = "ucast (push_bit 4 (clamp L 15) OR clamp (M - 4) 15) :: u8"
  have m4: "unat (M - 4) = unat M - 4" using assms(1) by (simp add: unat_sub word_le_nat_alt)
  obtain dst1 where s1: "store1 dst d ?cmd = Inr dst1" using assms(3) by (simp add: store1_def store_bytes_def)
  note w1 = store1_writes [OF s1]
  obtain dst2 d2' where s2: "lz4_store_extra dst1 (d + 1) L = Inr (dst2, d2')"
    using lz4_store_extra_room [of L "d + 1" dst1] assms(5) w1 by auto
  note w2 = lz4_store_extra_writes [OF s2]
  have d2': "d2' = d2" "length dst2 = length dst" using w1 w2 d2 by simp_all
  have eq: "lz4_emit_match L M D dst d end src s =
      (if 15 \<le> L \<and> end \<le> int (d2 + unat L) then Inr (dst2, None)
       else bindS (copy_literal dst2 d2 src s L) (\<lambda>(dst3, d3).
         bindS (store2 dst3 d3 (ucast D)) (\<lambda>dst4.
           bindS (lz4_store_extra dst4 (d3 + 2) (M - 4)) (\<lambda>(dst5, d5). Inr (dst5, Some d5)))))"
  proof -
    have "4 \<le> M" "D \<le> 0xFFFF" using assms(1,2) by (simp_all add: word_le_nat_alt)
    then show ?thesis by (simp only: lz4_emit_match_def Let_def s1 s2 d2' bindS_simps prod.case not_True_eq_False if_False)
  qed
  show ?thesis
  proof (cases "15 \<le> L \<and> end \<le> int (d2 + unat L)")
    case False
    obtain dst3 where s3: "copy_literal dst2 d2 src s L = Inr (dst3, d2 + unat L)"
      using copy_literal_room [of d2 L dst2 s src] room [OF False] assms(4) d2' by auto
    note w3 = copy_literal_writes [OF s3]
    obtain dst4 where s4: "store2 dst3 (d2 + unat L) (ucast D) = Inr dst4"
      using room [OF False] w3 d2' by (simp add: store2_def store_bytes_def)
    note w4 = store2_writes [OF s4]
    obtain dst5 d5 where s5: "lz4_store_extra dst4 (d2 + unat L + 2) (M - 4) = Inr (dst5, d5)"
      using lz4_store_extra_room [of "M - 4" "d2 + unat L + 2" dst4] room [OF False] w3 w4 d2' by (auto simp: m4)
    have "d5 = d2 + unat L + 2 + length (len_bytes (unat M - 4))"
      using lz4_store_extra_writes(2) [OF s5] w4 m4 by simp
    then have "lz4_emit_match L M D dst d end src s = Inr (dst5, Some (d2 + unat L + 2 + length (len_bytes (unat M - 4))))"
      using False by (simp only: eq s3 s4 s5 bindS_simps prod.case if_False)
    then show ?thesis using False by auto
  qed (use eq in simp)
qed

end
