(* ===== verification/LZ4_Roundtrip.thy ===== *)
theory LZ4_Roundtrip
  imports LZ4_Encode
begin

text \<open>
  The correctness of the LZ4 encoder: the hash table stays well-formed and leads to true matches only, what is written is a stream
  of the format that stands for the source, the decoder reads it back, and the buffers are not left, for small sources or given enough room.
  The cases in which the code does leave its buffers are shown too.
\<close>

section \<open>The matches found\<close>

text \<open>
  An entry of the table is unused, or has the offset of an earlier position of the block and the word read there.
\<close>

definition entry_ok :: "u8 list \<Rightarrow> nat \<Rightarrow> nat \<Rightarrow> lz4_hash_entry \<Rightarrow> bool" where
  "entry_ok src sb n e \<longleftrightarrow> hash_offset e = 0x80000000 \<or>
     unat (hash_offset e) < n \<and> load4 src (sb + unat (hash_offset e)) = Inr (hash_word e)"

definition table_ok :: "u8 list \<Rightarrow> nat \<Rightarrow> nat \<Rightarrow> lz4_hash_entry list \<Rightarrow> bool" where
  "table_ok src sb n t \<longleftrightarrow> length t = 1024 \<and> (\<forall>e\<in>set t. entry_ok src sb n e)"

lemma lz4_hash_less: "lz4_hash w < 1024"
proof -
  have "unat (drop_bit 22 (w * 2654435761)) = unat (w * 2654435761) div 2 ^ 22"
    by (simp add: drop_bit_eq_div unat_div_distrib)
  moreover have "unat (w * 2654435761) < 2 ^ 32" using unat_bound [of "w * 2654435761"] by simp
  ultimately show ?thesis by (simp add: lz4_hash_def)
qed

lemma table_ok_initial: "table_ok src sb 0 (replicate 1024 HASH_FILL)"
  by (simp add: table_ok_def entry_ok_def HASH_FILL_def)

lemma entry_ok_mono: "entry_ok src sb n e \<Longrightarrow> n \<le> m \<Longrightarrow> entry_ok src sb m e"
  by (auto simp: entry_ok_def)

lemma table_ok_mono: "table_ok src sb n t \<Longrightarrow> n \<le> m \<Longrightarrow> table_ok src sb m t"
  by (auto simp: table_ok_def intro: entry_ok_mono)

lemma table_ok_update:
  "table_ok src sb n t \<Longrightarrow> entry_ok src sb n e \<Longrightarrow> table_ok src sb n (t[i := e])"
  using set_update_subset_insert [of t i e] by (auto simp: table_ok_def)

lemma table_ok_nth: "table_ok src sb n t \<Longrightarrow> entry_ok src sb n (t ! lz4_hash w)"
  by (simp add: table_ok_def lz4_hash_less)

lemma le_word_inj:
  assumes "length xs = length ys" "8 * length xs = LENGTH('a::len)"
  shows "(le_word xs :: 'a word) = le_word ys \<longleftrightarrow> xs = ys"
  using ctz_agree [OF assms] agree_eq [OF assms(1)] by auto

lemma load4_eq: "load4 src a = Inr w \<longleftrightarrow> a + 4 \<le> length src \<and> w = le_word (get src a 4)"
  by (auto simp: load4_def bindS_eq_Inr_iff load_bytes_eq)

text \<open>A true match at \<open>b\<close>, for the offsets that count from \<open>sb\<close>.\<close>

definition match_at :: "u8 list \<Rightarrow> nat \<Rightarrow> nat \<Rightarrow> int \<Rightarrow> bool" where
  "match_at src sb b dist \<longleftrightarrow> 0 < dist \<and> dist < 65536 \<and> sb + nat dist \<le> b \<and> get src (b - nat dist) 4 = get src b 4"

lemma hash_hit_match:
  assumes "entry_ok src sb n e" "load4 src b = Inr w" "int b - int sb < 2 ^ 31"
    and hit: "hash_hit w e dist" and dist: "dist = int b - (int sb + uint (hash_offset e))"
  shows "match_at src sb b dist"
proof -
  have "hash_offset e \<noteq> 0x80000000" using assms by (auto simp: hash_hit_def)
  then have "load4 src (sb + unat (hash_offset e)) = Inr w" using assms(1) hit by (simp add: entry_ok_def hash_hit_def)
  moreover have "sb + unat (hash_offset e) = b - nat dist" "sb + nat dist \<le> b"
  proof -
    obtain k where k: "unat (hash_offset e) = k" "uint (hash_offset e) = int k" by auto
    show "sb + unat (hash_offset e) = b - nat dist" "sb + nat dist \<le> b"
      using hit unfolding dist hash_hit_def k by linarith+
  qed
  ultimately show ?thesis using assms(2) hit le_word_inj [of "get src (b - nat dist) 4" "get src b 4", where 'a = 32]
    by (auto simp: match_at_def load4_eq hash_hit_def)
qed

lemma entry_ok_new:
  assumes "load4 src (b + i) = Inr w" "sb \<le> b" "i < 4" "b + 4 - sb \<le> 2 ^ 31"
  shows "entry_ok src sb (b + 4 - sb) \<lparr>hash_offset = of_nat (b - sb) + of_nat i, hash_word = w\<rparr>"
proof -
  obtain p where p: "b = sb + p" using assms(2) le_Suc_ex by blast
  have "unat (of_nat (p + i) :: u32) = p + i" using assms p by (intro of_nat_u32_small) simp
  then show ?thesis using assms p by (simp add: entry_ok_def add.assoc)
qed

lemma search_turn_sound:
  assumes "table_ok src sb (b - sb) t" "sb \<le> b" "b + 4 - sb \<le> 2 ^ 31" "b + 7 \<le> length src"
  shows "\<exists>t' hit. search_turn src sb b t = Inr (t', hit) \<and> table_ok src sb (b + 4 - sb) t' \<and>
    (\<forall>b' dist. hit = Some (b', dist) \<longrightarrow> b \<le> b' \<and> b' \<le> b + 3 \<and> match_at src sb b' dist)"
proof -
  obtain w0 w1 w2 w3 where w: "load4 src b = Inr w0" "load4 src (b + 1) = Inr w1" "load4 src (b + 2) = Inr w2"
    "load4 src (b + 3) = Inr w3"
    using assms(4) by (auto simp: load4_eq)
  let ?pos = "of_nat (b - sb) :: u32"
  have e: "entry_ok src sb (b + 4 - sb) \<lparr>hash_offset = ?pos, hash_word = w0\<rparr>"
    "entry_ok src sb (b + 4 - sb) \<lparr>hash_offset = ?pos + 1, hash_word = w1\<rparr>"
    "entry_ok src sb (b + 4 - sb) \<lparr>hash_offset = ?pos + 2, hash_word = w2\<rparr>"
    "entry_ok src sb (b + 4 - sb) \<lparr>hash_offset = ?pos + 3, hash_word = w3\<rparr>"
    using entry_ok_new [of src b 0 w0 sb] entry_ok_new [of src b 1 w1 sb] entry_ok_new [of src b 2 w2 sb]
      entry_ok_new [of src b 3 w3 sb] w assms by simp_all
  have t: "table_ok src sb (b + 4 - sb) t" using assms(1) by (rule table_ok_mono) simp
  have hit: "match_at src sb (b + i) (int b + int i - (int sb + uint (hash_offset (t ! lz4_hash w))))"
    if "hash_hit w (t ! lz4_hash w) (int b + int i - (int sb + uint (hash_offset (t ! lz4_hash w))))"
      "load4 src (b + i) = Inr w" "i < 4" for w i
    using hash_hit_match [OF table_ok_nth [OF assms(1), of w] that(2) _ that(1)] that(3) assms(3) by simp
  show ?thesis
    using hit [of w0 0] hit [of w1 1] hit [of w2 2] hit [of w3 3] w
    by (auto simp: search_turn_def Let_def intro!: table_ok_update t e)
qed

lemma lz4_search_sound:
  assumes "table_ok src sb (b - sb) t" "sb \<le> b" "se + 6 \<le> int (length src)" "se + 3 \<le> int sb + 2 ^ 31"
  shows "\<exists>t' hit. lz4_search src sb se b t = Inr (t', hit) \<and>
    (\<forall>b' dist. hit = Some (b', dist) \<longrightarrow>
      b \<le> b' \<and> int b' < se + 3 \<and> match_at src sb b' dist \<and> table_ok src sb (b' + 4 - sb) t')"
  using assms
proof (induction src sb se b t rule: lz4_search.induct)
  case (1 src sb se b t)
  show ?case
  proof (cases "int b < se")
    case True
    have bound: "b + 4 - sb \<le> 2 ^ 31" "b + 7 \<le> length src" using "1.prems"(3,4) True by simp_all
    obtain t1 hit where turn: "search_turn src sb b t = Inr (t1, hit)" "table_ok src sb (b + 4 - sb) t1"
      "\<forall>b' dist. hit = Some (b', dist) \<longrightarrow> b \<le> b' \<and> b' \<le> b + 3 \<and> match_at src sb b' dist"
      using search_turn_sound [OF "1.prems"(1,2) bound] by blast
    show ?thesis
    proof (cases hit)
      case None
      have eq: "lz4_search src sb se b t = lz4_search src sb se (b + 4) t1"
        using True turn(1) None by (simp add: lz4_search.simps [of _ _ _ b])
      show ?thesis unfolding eq using "1.IH" [OF True turn(1) refl None] "1.prems" turn(2) by fastforce
    next
      case (Some x)
      obtain b' dist where x: "x = (b', dist)" by (cases x)
      have eq: "lz4_search src sb se b t = Inr (t1, Some (b', dist))"
        using True turn(1) Some x by (simp add: lz4_search.simps [of _ _ _ b])
      have "b \<le> b'" "b' \<le> b + 3" "match_at src sb b' dist" using turn(3) Some x by auto
      moreover have "table_ok src sb (b' + 4 - sb) t1"
        using turn(2) by (rule table_ok_mono) (use \<open>b \<le> b'\<close> in simp)
      ultimately show ?thesis unfolding eq using True by auto
    qed
  next
    case False
    then show ?thesis by (simp add: lz4_search.simps)
  qed
qed

text \<open>The bytes at \<open>dist\<close> before them, for the positions from \<open>lo\<close> up to \<open>hi\<close>.\<close>

definition repeats :: "u8 list \<Rightarrow> nat \<Rightarrow> nat \<Rightarrow> nat \<Rightarrow> bool" where
  "repeats src dist lo hi \<longleftrightarrow> (\<forall>i. lo \<le> i \<and> i < hi \<longrightarrow> src ! (i - dist) = src ! i)"

lemma repeats_extend:
  assumes "repeats src dist lo hi" "dist \<le> hi" "hi + n \<le> length src" "k \<le> agree (get src (hi - dist) n) (get src hi n)"
  shows "repeats src dist lo (hi + k)"
  unfolding repeats_def
proof (intro allI impI)
  fix i assume i: "lo \<le> i \<and> i < hi + k"
  show "src ! (i - dist) = src ! i"
  proof (cases "i < hi")
    case False
    then obtain j where j: "i = hi + j" using le_Suc_ex by (metis not_less)
    have "k \<le> n" using assms(4) agree_le [of "get src (hi - dist) n" "get src hi n"] assms(3) by simp
    then show ?thesis
      using agree_nth [of j "get src (hi - dist) n" "get src hi n"] i j assms by (simp add: get_nth)
  qed (use assms(1) i in \<open>simp add: repeats_def\<close>)
qed

lemma expand_forward_sound:
  assumes "search_width N" "se + int N \<le> int (length src)" "dist \<le> e" "repeats src dist lo e"
  shows "\<exists>e'. expand_forward N src se (e - dist) e = Inr e' \<and> e \<le> e' \<and> repeats src dist lo e' \<and>
    int e' \<le> max (int e) (se + int N - 1)"
  using assms
proof (induction N src se "e - dist" e rule: expand_forward.induct)
  case (1 N src se e)
  show ?case
  proof (cases "int e < se")
    case True
    let ?n = "agree (get src (e - dist) N) (get src e N)"
    have room: "e + N \<le> length src" using True "1.prems" by linarith
    then have nm: "lz4_nmatch N src (e - dist) e = Inr ?n" using "1.prems" by (intro lz4_nmatch_spec) auto
    have le: "?n \<le> N" using agree_le(2) [of "get src (e - dist) N" "get src e N"] room by simp
    have rep: "repeats src dist lo (e + ?n)" using "1.prems" room by (intro repeats_extend) auto
    show ?thesis
    proof (cases "?n < N")
      case lt: True
      then show ?thesis using True rep by (simp add: expand_forward.simps [of N src se "e - dist" e] nm)
    next
      case False
      then have n: "?n = N" using le by simp
      have eq: "e - dist + N = e + N - dist" using "1.prems" by simp
      then have "\<exists>e'. expand_forward N src se (e + N - dist) (e + N) = Inr e' \<and> e + N \<le> e' \<and> repeats src dist lo e' \<and>
          int e' \<le> max (int (e + N)) (se + int N - 1)"
        using "1.hyps" [OF True nm False] "1.prems" rep n by simp
      then show ?thesis using True n eq by (auto simp: expand_forward.simps [of N src se "e - dist" e] nm)
    qed
  next
    case False
    then show ?thesis using "1.prems" by (simp add: expand_forward.simps)
  qed
qed

lemma expand_backward_sound:
  assumes "dist \<le> lo" "b \<le> length src" "repeats src dist b hi" "0 < dist" "lo \<le> b"
  shows "\<exists>b'. expand_backward src lo (b - dist) b = Inr b' \<and> lo \<le> b' \<and> b' \<le> b \<and> repeats src dist b' hi"
  using assms
proof (induction b)
  case (Suc b)
  show ?case
  proof (cases "lo < Suc b")
    case True
    have ne: "Suc b - dist \<noteq> 0" and pred: "Suc b - dist - 1 = b - dist" using Suc.prems True by simp_all
    have ld: "load1 src (b - dist) = Inr (src ! (b - dist))" "load1 src b = Inr (src ! b)"
      using Suc.prems by (simp_all add: load1_def)
    have eq: "expand_backward src lo (Suc b - dist) (Suc b) =
        (if src ! (b - dist) = src ! b then expand_backward src lo (b - dist) b else Inr (Suc b))"
      using True ne ld by (subst expand_backward.simps) (simp add: pred)
    show ?thesis
    proof (cases "src ! (b - dist) = src ! b")
      case same: True
      then have "repeats src dist b hi" using Suc.prems(3) unfolding repeats_def by (metis Suc_leI le_neq_implies_less)
      then show ?thesis using Suc.IH Suc.prems True same eq by fastforce
    next
      case False
      then show ?thesis using eq Suc.prems by auto
    qed
  next
    case False
    then show ?thesis using Suc.prems by (simp add: expand_backward.simps)
  qed
qed (simp add: expand_backward.simps)

lemma match_repeats:
  assumes "match_at src sb b dist" "b + 4 \<le> length src"
  shows "repeats src (nat dist) b (b + 4)"
  unfolding repeats_def
proof (intro allI impI)
  fix i assume i: "b \<le> i \<and> i < b + 4"
  then obtain j where j: "i = b + j" "j < 4" by (metis add_less_cancel_left le_Suc_ex)
  have "get src (b - nat dist) 4 ! j = get src b 4 ! j" using assms by (simp add: match_at_def)
  then show "src ! (i - nat dist) = src ! i" using assms j by (simp add: get_nth match_at_def)
qed

lemma expand_match_sound:
  assumes "match_at src sb b dist" "search_width N" "s \<le> b" "int b < se + 3" "se + 64 \<le> int (length src)"
  shows "\<exists>mb me. expand_match N src sb se s b (nat dist) = Inr (mb, me) \<and> s \<le> mb \<and> mb \<le> b \<and> b + 4 \<le> me \<and>
    int me \<le> se + 63 \<and> sb + nat dist \<le> mb \<and> repeats src (nat dist) mb me"
proof -
  let ?d = "nat dist"
  have N: "0 < N" "N \<le> 64" using search_width_pos [OF assms(2)] by simp_all
  have m: "0 < ?d" "sb + ?d \<le> b" using assms(1) by (simp_all add: match_at_def)
  have b4: "b + 4 \<le> length src" using assms(4,5) by linarith
  obtain me where me: "expand_forward N src se (b + 4 - ?d) (b + 4) = Inr me" "b + 4 \<le> me" "repeats src ?d b me"
      "int me \<le> max (int (b + 4)) (se + int N - 1)"
    using expand_forward_sound [of N se src ?d "b + 4" b] match_repeats [OF assms(1) b4] m assms N by auto
  define lo where "lo = (if sb + ?d < s then s else sb + ?d)"
  have lo: "?d \<le> lo" "lo \<le> b" "s \<le> lo" "sb + ?d \<le> lo" using m assms(3) by (simp_all add: lo_def)
  obtain mb where mb: "expand_backward src lo (b - ?d) b = Inr mb" "lo \<le> mb" "mb \<le> b" "repeats src ?d mb me"
    using expand_backward_sound [of ?d lo b src me] lo m b4 me(3) by auto
  have "int me \<le> se + 63" using me(4) N assms(4) by simp
  then show ?thesis using me mb lo by (simp add: expand_match_def lo_def [symmetric])
qed

section \<open>The output stands for the input\<close>

text \<open>A whole stream, ended by literals.\<close>

definition complete_stream :: "u8 list \<Rightarrow> u8 list \<Rightarrow> bool" where
  "complete_stream bs data \<longleftrightarrow> (\<exists>ps out l. bs = ps @ last_bytes l \<and> partial_stream ps out \<and> data = out @ l \<and> length l < 2 ^ 32)"

lemma complete_stream_output: "complete_stream bs data \<Longrightarrow> lz4_output cap bs = Some (take cap data)"
  by (auto simp: complete_stream_def stream_output)

lemma emit_final_literals_writes:
  assumes "emit_final_literals dst d end src s se = Inr (dst', d', s')" "se + 128 = int be" "s \<le> be" "be - s < 2 ^ 32"
  shows "length dst' = length dst \<and> (d' = d \<and> s' = s \<and> take d dst' = take d dst \<or>
    s' = be \<and> be \<le> length src \<and> d' \<le> length dst \<and> take d' dst' = take d dst @ last_bytes (get src s (be - s)))"
proof -
  define n where "n = be - s"
  have n: "nat (se + 128 - int s) = n" "s + n = be" using assms(2,3) by (simp_all add: n_def)
  show ?thesis
  proof (cases "n < 15")
    case True
    obtain dst1 where dst1: "store1 dst d (of_nat (n * 16)) = Inr dst1" "memcpy dst1 (d + 1) src s 16 = Inr dst'"
      and r: "d' = d + 1 + n" "s' = s + n"
      using assms(1) True by (auto simp: emit_final_literals_def n Let_def bindS_eq_Inr_iff)
    note w1 = store1_writes [OF dst1(1)]
    have w2: "s + 16 \<le> length src" "d + 1 + 16 \<le> length dst1" "dst' = put dst1 (d + 1) (get src s 16)"
      using dst1(2) by (simp_all add: memcpy_eq)
    have "take d' dst' = take (d + 1) dst1 @ take n (get src s 16)"
      unfolding r w2(3) using w2 True by (intro take_put_prefix) simp_all
    moreover have "take n (get src s 16) = get src s n" using True by (simp add: get_def)
    moreover have "last_bytes (get src s n) = of_nat (n * 16) # get src s n"
      using True w2(1) by (simp add: last_bytes_def len_bytes_def mult.commute)
    ultimately show ?thesis using w1 w2 r n True by (simp add: n_def [symmetric])
  next
    case False
    obtain dst1 dst2 d2 where st: "store1 dst d 0xf0 = Inr dst1" "lz4_store_length dst1 (d + 1) (of_nat (n - 15)) = Inr (dst2, d2)"
      and rest: "(if end \<le> int (d2 + n) then Inr (dst2, d, s)
          else bindS (memcpy dst2 d2 src s n) (\<lambda>dst3. Inr (dst3, d2 + n, s + n))) = Inr (dst', d', s')"
      using assms(1) False by (auto simp: emit_final_literals_def n Let_def bindS_eq_Inr_iff)
    note w1 = store1_writes [OF st(1)]
    have "unat (of_nat (n - 15) :: u32) = n - 15" using assms(4) by (intro of_nat_u32_small) (simp add: n_def)
    then have w2: "length dst2 = length dst" "d2 = d + 1 + length (len_bytes n)" "d2 \<le> length dst"
        "take d2 dst2 = take d dst @ 0xf0 # len_bytes n"
      using lz4_store_length_writes [OF st(2)] w1 False by (auto simp: len_bytes_def)
    show ?thesis
    proof (cases "end \<le> int (d2 + n)")
      case True
      then show ?thesis using rest w1(2) w2 take_prefix_eq [of d2 dst2 d dst] by auto
    next
      case False
      then have w3: "s + n \<le> length src" "d2 + n \<le> length dst2" "dst' = put dst2 d2 (get src s n)" "d' = d2 + n" "s' = s + n"
        using rest by (auto simp: bindS_eq_Inr_iff memcpy_eq)
      have "take d' dst' = take d2 dst2 @ get src s n"
        unfolding w3(3,4) using take_put_all [of d2 "get src s n" dst2] w3(1,2) by simp
      moreover have "last_bytes (get src s n) = 0xf0 # len_bytes n @ get src s n"
        using w3(1) \<open>\<not> n < 15\<close> by (simp add: last_bytes_def min_def)
      ultimately show ?thesis using w2 w3 n by (simp add: n_def [symmetric])
    qed
  qed
qed

lemma partial_stream_match:
  assumes "partial_stream bs (take s src)" "match_at src sb b dist" "s \<le> mb" "mb \<le> me" "4 \<le> me - mb" "me \<le> length src"
    "nat dist \<le> mb" "repeats src (nat dist) mb me" "me - s < 2 ^ 32"
  shows "partial_stream (bs @ seq_bytes (get src s (mb - s)) (nat dist) (me - mb)) (take me src)"
proof -
  have "get src s (mb - s) = drop s (take mb src)" using assms(3) by (simp add: get_def drop_take)
  then have mb: "take s src @ get src s (mb - s) = take mb src" using take_get [of s src "mb - s"] assms(3) by simp
  have l: "length (get src s (mb - s)) = mb - s" using assms by (intro length_get) simp
  have "lz_copy (take mb src) (nat dist) (me - mb) = take (mb + (me - mb)) src"
    using assms(2,4,6,7,8) by (intro lz_copy_agrees) (auto simp: repeats_def match_at_def)
  moreover have "partial_stream (bs @ seq_bytes (get src s (mb - s)) (nat dist) (me - mb))
      (lz_copy (take s src @ get src s (mb - s)) (nat dist) (me - mb))"
    using assms l by (intro partial_stream.snoc) (auto simp: match_at_def)
  ultimately show ?thesis using assms(4) by (simp add: mb)
qed

text \<open>What holds at the head of the loop: the block ends at \<open>be\<close>, and the table knows the positions before \<open>s\<close>.\<close>

definition encode_inv :: "u8 list \<Rightarrow> nat \<Rightarrow> nat \<Rightarrow> nat \<Rightarrow> lz4_hash_entry list \<Rightarrow> bool" where
  "encode_inv src sb be s t \<longleftrightarrow>
     table_ok src sb (s - sb) t \<and> sb \<le> s \<and> s < be \<and> be \<le> length src \<and> be \<le> sb + 0x7ffff000"

lemma encode_turn:
  assumes "encode_inv src sb be s t" "search_width N" "se + 128 = int be"
  obtains (none) t' where "lz4_search src sb se s t = Inr (t', None)"
  | (hit) t' b dist mb me where "lz4_search src sb se s t = Inr (t', Some (b, dist))"
      "expand_match N src sb se s b (nat dist) = Inr (mb, me)"
      "match_at src sb b dist" "s \<le> mb" "mb \<le> b" "b + 4 \<le> me" "int b < se + 3" "int me \<le> se + 63"
      "nat dist \<le> mb" "repeats src (nat dist) mb me" "encode_inv src sb be me t'"
proof -
  have inv: "table_ok src sb (s - sb) t" "sb \<le> s" "be \<le> length src" "be \<le> sb + 0x7ffff000"
    using assms(1) by (simp_all add: encode_inv_def)
  have b1: "se + 6 \<le> int (length src)" and b2: "se + 3 \<le> int sb + 2 ^ 31" using inv(3,4) assms(3) by simp_all
  obtain t' h where h: "lz4_search src sb se s t = Inr (t', h)"
    "\<forall>b' dist. h = Some (b', dist) \<longrightarrow> s \<le> b' \<and> int b' < se + 3 \<and> match_at src sb b' dist \<and> table_ok src sb (b' + 4 - sb) t'"
    using lz4_search_sound [OF inv(1,2) b1 b2] by blast
  show thesis
  proof (cases h)
    case None
    then show ?thesis using h(1) none by simp
  next
    case (Some x)
    then obtain b dist where x: "h = Some (b, dist)" by (cases x) auto
    then have m: "s \<le> b" "int b < se + 3" "match_at src sb b dist" "table_ok src sb (b + 4 - sb) t'" using h(2) by auto
    obtain mb me where e: "expand_match N src sb se s b (nat dist) = Inr (mb, me)" "s \<le> mb" "mb \<le> b" "b + 4 \<le> me"
        "int me \<le> se + 63" "sb + nat dist \<le> mb" "repeats src (nat dist) mb me"
      using expand_match_sound [OF m(3) assms(2) m(1,2)] inv(3) assms(3) by auto
    have "table_ok src sb (me - sb) t'" using m(4) by (rule table_ok_mono) (use e(4) in simp)
    then have "encode_inv src sb be me t'" using inv e m assms(3) by (simp add: encode_inv_def)
    with h(1) x e m show ?thesis by (intro hit [of t' b dist mb me]) simp_all
  qed
qed

lemma unat_match_args:
  assumes "match_at src sb b dist" "me - s < 2 ^ 32" "s \<le> mb" "mb \<le> me"
  shows "unat (of_nat (mb - s) :: u32) = mb - s" "unat (of_nat (me - mb) :: u32) = me - mb"
    "unat (of_int dist :: u32) = nat dist"
proof -
  show "unat (of_nat (mb - s) :: u32) = mb - s" "unat (of_nat (me - mb) :: u32) = me - mb"
    using assms(2-4) by (intro of_nat_u32_small; simp)+
  have "of_int dist = (of_nat (nat dist) :: u32)" using assms(1) by (simp add: match_at_def)
  then show "unat (of_int dist :: u32) = nat dist"
    using assms(1) by (simp only:) (rule of_nat_u32_small, simp add: match_at_def nat_less_iff)
qed

lemma lz4_encode_loop_sound:
  assumes "encode_inv src sb be s t" "search_width N" "se + 128 = int be"
    "partial_stream (take d dst) (take s src)" "d \<le> length dst"
    "lz4_encode_loop N src sb se skip end dst d s t = Inr (dst', d', s')"
  shows "length dst' = length dst \<and> d' \<le> length dst \<and>
    (s \<le> s' \<and> s' < be \<and> partial_stream (take d' dst') (take s' src) \<or>
     \<not> skip \<and> s' = be \<and> complete_stream (take d' dst') (take be src))"
  using assms
proof (induction N src sb se skip "end" dst d s t rule: lz4_encode_loop.induct)
  case (1 N src sb se skip "end" dst d s t)
  note loop = "1.prems"(6)
  have inv: "s < be" "be \<le> length src" "be - s < 2 ^ 32" using "1.prems"(1) by (auto simp: encode_inv_def)
  show ?case
  proof (cases "int d < end")
    case True
    show ?thesis
    proof (cases rule: encode_turn [OF "1.prems"(1-3), case_names none hit])
      case (none t')
      show ?thesis
      proof (cases skip)
        case skip: True
        then show ?thesis using loop True none "1.prems" inv by (auto simp: lz4_encode_loop.simps [of N])
      next
        case False
        then have "emit_final_literals dst d end src s se = Inr (dst', d', s')"
          using loop True none by (simp add: lz4_encode_loop.simps [of N])
        note w = emit_final_literals_writes [OF this "1.prems"(3)]
        have "take be src = take s src @ get src s (be - s)" using take_get [of s src "be - s"] inv by simp
        moreover have "length (get src s (be - s)) < 2 ^ 32" using inv by simp
        ultimately have "complete_stream (take d dst @ last_bytes (get src s (be - s))) (take be src)"
          using "1.prems"(4) unfolding complete_stream_def by blast
        then show ?thesis using w inv "1.prems"(4,5) False by auto
      qed
    next
      case (hit t' b dist mb me)
      have le: "mb \<le> me" "me - s < 2 ^ 32" "4 \<le> me - mb" "me \<le> length src"
        using hit "1.prems"(3) inv by simp_all
      note u = unat_match_args [OF hit(3) le(2) hit(4) le(1)]
      let ?emit = "lz4_emit_match (of_nat (mb - s)) (of_nat (me - mb)) (of_int dist) dst d end src s"
      obtain dst1 r where emit: "?emit = Inr (dst1, r)"
        and rest: "(case r of None \<Rightarrow> Inr (dst1, d, s) | Some d1 \<Rightarrow> lz4_encode_loop N src sb se skip end dst1 d1 me t') =
          Inr (dst', d', s')"
        using loop True hit(1,2) by (auto simp: lz4_encode_loop.simps [of N _ _ _ _ _ dst] bindS_eq_Inr_iff)
      note w = lz4_emit_match_writes [OF emit, unfolded u]
      show ?thesis
      proof (cases r)
        case None
        then show ?thesis using rest w(3,4) "1.prems"(4,5) inv by auto
      next
        case (Some d1)
        note w5 = w(5) [OF Some]
        have "partial_stream (take d1 dst1) (take me src)"
          using partial_stream_match [OF "1.prems"(4) hit(3,4) le(1,3,4) hit(9,10) le(2)] w5 by simp
        then show ?thesis
          using "1.IH" [OF True hit(1) refl refl refl hit(2) refl emit refl Some hit(11) "1.prems"(2,3)] w(3) w5 rest Some hit(4,5,6)
          by auto
      qed
    qed
  next
    case False
    then show ?thesis using loop "1.prems" inv by (auto simp: lz4_encode_loop.simps [of N])
  qed
qed

lemma encode_blocks_sound:
  assumes "search_width N" "s + n \<le> length src" "d \<le> length dst"
    "if n = 0 then d = 0 \<or> complete_stream (take d dst) (take s src) else partial_stream (take d dst) (take s src)"
    "encode_blocks N dst d ds src s n = Inr (k, dst')"
  shows "length dst' = length dst \<and> k \<le> length dst \<and> (0 < k \<longrightarrow> complete_stream (take k dst') (take (s + n) src))"
  using assms
proof (induction N dst d ds src s n rule: encode_blocks.induct)
  case (1 N dst d ds src s n)
  show ?case
  proof (cases "0 < n")
    case True
    define m where "m = (if 0x7ffff000 < n then 0x7ffff000 else n)"
    have m: "0 < m" "m \<le> n" "m \<le> 0x7ffff000" using True by (auto simp: m_def)
    let ?t = "replicate 1024 HASH_FILL"
    obtain dst1 d1 s1 where blk: "lz4_encode_2gb N dst d ds src s s m ?t (m < n) = Inr (dst1, d1, s1)"
      and rest: "(if m = n \<and> s1 - s < m then Inr (0, dst1)
          else if m < n \<and> 2 ^ 16 \<le> m - (s1 - s) then Inr (0, dst1)
          else encode_blocks N dst1 d1 (ds - (int d1 - int d)) src s1 (n - (s1 - s))) = Inr (k, dst')"
      using "1.prems"(5) True by (auto simp: encode_blocks.simps [of N dst] m_def [symmetric] bindS_eq_Inr_iff Let_def)
    have inv: "encode_inv src s (s + m) s ?t"
      using m "1.prems"(2) table_ok_initial [of src s] by (simp add: encode_inv_def)
    have w: "length dst1 = length dst \<and> d1 \<le> length dst \<and>
      (s \<le> s1 \<and> s1 < s + m \<and> partial_stream (take d1 dst1) (take s1 src) \<or>
       \<not> m < n \<and> s1 = s + m \<and> complete_stream (take d1 dst1) (take (s + m) src))"
      using "1.prems"(1,3,4) True blk
      by (intro lz4_encode_loop_sound [OF inv]) (auto simp: lz4_encode_2gb_def)
    show ?thesis
    proof (cases "m = n \<and> s1 - s < m \<or> m < n \<and> 2 ^ 16 \<le> m - (s1 - s)")
      case True
      then show ?thesis using rest w by (auto split: if_splits)
    next
      case False
      then have rec: "encode_blocks N dst1 d1 (ds - (int d1 - int d)) src s1 (n - (s1 - s)) = Inr (k, dst')"
        using rest by (auto split: if_splits)
      have le: "s \<le> s1" "s1 - s \<le> n" using w m by auto
      have st: "if n - (s1 - s) = 0 then d1 = 0 \<or> complete_stream (take d1 dst1) (take s1 src)
          else partial_stream (take d1 dst1) (take s1 src)"
        using w m False by auto
      have rest: "s1 + (n - (s1 - s)) = s + n" using le by simp
      have "length dst' = length dst1 \<and> k \<le> length dst1 \<and>
          (0 < k \<longrightarrow> complete_stream (take k dst') (take (s1 + (n - (s1 - s))) src))"
        using False w rest "1.prems"(1,2) st rec
        by (intro "1.IH" [OF True m_def blk refl refl refl refl]) auto
      then show ?thesis unfolding rest using w by metis
    qed
  next
    case False
    then show ?thesis using "1.prems" by (auto simp: encode_blocks.simps [of N])
  qed
qed

lemma lz4raw_roundtrip:
  assumes "search_width N" "src_size \<le> length src"
    and enc: "lz4raw_encode_buffer N dst dst_size src src_size = Inr (n, cbuf)" "0 < n"
    and "out_size \<le> length out"
  shows "n \<le> length cbuf \<and> length cbuf = length dst \<and> lz4raw_decode_buffer out out_size cbuf n =
    Inr (min out_size src_size, take (min out_size src_size) src @ drop (min out_size src_size) out)"
proof -
  have "if src_size = 0 then (0::nat) = 0 \<or> complete_stream (take 0 dst) (take 0 src) else partial_stream (take 0 dst) (take 0 src)"
    by (simp add: partial_stream.empty)
  with assms(1,2) enc have w: "length cbuf = length dst" "n \<le> length dst" "complete_stream (take n cbuf) (take src_size src)"
    using encode_blocks_sound [of N 0 src_size src 0 dst "int dst_size" n cbuf] by (auto simp: lz4raw_encode_buffer_def)
  have "lz4_output out_size (take n cbuf) = Some (take out_size (take src_size src))"
    using w(3) by (rule complete_stream_output)
  then show ?thesis using w lz4raw_decode_buffer_spec [OF assms(5), of n cbuf] assms(2) by (auto simp: min_def)
qed

section \<open>The encoder stays within its buffers\<close>

text \<open>
  What the loop needs of the room in a destination of \<open>n\<close> bytes when it writes a sequence of \<open>L\<close> literals and a match of \<open>M\<close> bytes at \<open>d\<close>,
  or the \<open>L\<close> final literals. \<open>fits\<close> is the test the code makes after the length of the literals.
\<close>

definition fits :: "int \<Rightarrow> nat \<Rightarrow> nat \<Rightarrow> bool" where
  "fits end d L \<longleftrightarrow> int (d + 1 + length (len_bytes L) + L) < end"

definition seq_end :: "nat \<Rightarrow> nat \<Rightarrow> nat \<Rightarrow> nat" where
  "seq_end d L M = d + 1 + length (len_bytes L) + L + 2 + length (len_bytes (M - 4))"

definition seq_room :: "nat \<Rightarrow> int \<Rightarrow> nat \<Rightarrow> nat \<Rightarrow> nat \<Rightarrow> bool" where
  "seq_room n end d L M \<longleftrightarrow> d < n \<and> (15 \<le> L \<longrightarrow> d + 1 + (L - 15) div 255 + 17 \<le> n) \<and>
     (L < 15 \<or> fits end d L \<longrightarrow>
       d + 1 + length (len_bytes L) + L + 31 \<le> n \<and> d + 1 + length (len_bytes L) + L + 2 + (M - 19) div 255 + 17 \<le> n)"

definition final_room :: "nat \<Rightarrow> int \<Rightarrow> nat \<Rightarrow> nat \<Rightarrow> bool" where
  "final_room n end d L \<longleftrightarrow> d < n \<and> d + 1 + (L - 15) div 255 + 17 \<le> n \<and>
     (fits end d L \<longrightarrow> d + 1 + length (len_bytes L) + L \<le> n)"

lemma if_not_P_swap: "(if \<not> P then a else b) = (if P then b else a)"
  by simp

lemma lz4_emit_match_fits:
  assumes "match_at src sb b dist" "s \<le> mb" "mb + 4 \<le> me" "me - s < 2 ^ 32" "mb + 31 \<le> length src"
    "seq_room (length dst) end d (mb - s) (me - mb)"
  shows "\<exists>dst'. lz4_emit_match (of_nat (mb - s)) (of_nat (me - mb)) (of_int dist) dst d end src s =
    Inr (dst', if mb - s < 15 \<or> fits end d (mb - s) then Some (seq_end d (mb - s) (me - mb)) else None)"
proof -
  have "mb \<le> me" using assms(3) by simp
  note u = unat_match_args [OF assms(1,4,2) this]
  let ?L = "mb - s" let ?d2 = "d + 1 + length (len_bytes ?L)"
  have check: "15 \<le> (of_nat ?L :: u32) \<and> end \<le> int (?d2 + ?L) \<longleftrightarrow> \<not> (?L < 15 \<or> fits end d ?L)"
    unfolding u32_15 u fits_def by linarith
  have "\<exists>dst'. lz4_emit_match (of_nat ?L) (of_nat (me - mb)) (of_int dist) dst d end src s =
      Inr (dst', if 15 \<le> (of_nat ?L :: u32) \<and> end \<le> int (d + 1 + length (len_bytes (unat (of_nat ?L :: u32))) + unat (of_nat ?L :: u32)) then None
        else Some (d + 1 + length (len_bytes (unat (of_nat ?L :: u32))) + unat (of_nat ?L :: u32) + 2 + length (len_bytes (unat (of_nat (me - mb) :: u32) - 4))))"
  proof (rule lz4_emit_match_room [OF _ _ _ _ _ refl])
    show "4 \<le> unat (of_nat (me - mb) :: u32)" unfolding u using assms(3) by simp
    show "unat (of_int dist :: u32) < 65536" unfolding u using assms(1) by (simp add: match_at_def nat_less_iff)
    show "d < length dst" using assms(6) by (simp add: seq_room_def)
    show "s + unat (of_nat ?L :: u32) + 31 \<le> length src" unfolding u using assms(2,5) by simp
    show "d + 1 + (unat (of_nat ?L :: u32) - 15) div 255 + 17 \<le> length dst" if "15 \<le> unat (of_nat ?L :: u32)"
      using that assms(6) unfolding u seq_room_def by blast
  next
    assume "\<not> (15 \<le> (of_nat ?L :: u32) \<and> end \<le> int (d + 1 + length (len_bytes (unat (of_nat ?L :: u32))) + unat (of_nat ?L :: u32)))"
    then have "?L < 15 \<or> fits end d ?L" unfolding u check by simp
    then show "d + 1 + length (len_bytes (unat (of_nat ?L :: u32))) + unat (of_nat ?L :: u32) + 31 \<le> length dst \<and>
        d + 1 + length (len_bytes (unat (of_nat ?L :: u32))) + unat (of_nat ?L :: u32) + 2 +
          (unat (of_nat (me - mb) :: u32) - 19) div 255 + 17 \<le> length dst"
      unfolding u using assms(6) unfolding seq_room_def by blast
  qed
  then show ?thesis unfolding u check seq_end_def if_not_P_swap .
qed

lemma emit_final_literals_fits:
  assumes "se + 128 = int be" "s + 15 \<le> be" "be \<le> length src" "be - s < 2 ^ 32" "final_room (length dst) end d (be - s)"
  shows "\<exists>dst' d'. emit_final_literals dst d end src s se = Inr (dst', d', if fits end d (be - s) then be else s)"
proof -
  define n where "n = be - s"
  have n: "nat (se + 128 - int s) = n" "s + n = be" "15 \<le> n" using assms(1,2) by (simp_all add: n_def)
  have u: "unat (of_nat (n - 15) :: u32) = n - 15" using assms(4) by (intro of_nat_u32_small) (simp add: n_def)
  have room: "d < length dst" "d + 1 + (n - 15) div 255 + 17 \<le> length dst"
    "fits end d n \<Longrightarrow> d + 1 + length (len_bytes n) + n \<le> length dst"
    using assms(5) by (simp_all add: final_room_def n_def)
  obtain dst1 where s1: "store1 dst d 0xf0 = Inr dst1" using room by (simp add: store1_def store_bytes_def)
  note w1 = store1_writes [OF s1]
  obtain dst2 d2 where s2: "lz4_store_length dst1 (d + 1) (of_nat (n - 15)) = Inr (dst2, d2)"
    using lz4_store_length_room [of "d + 1" "of_nat (n - 15)" dst1] room w1 u by auto
  have w2: "d2 = d + 1 + length (len_bytes n)" "length dst2 = length dst"
    using lz4_store_length_writes [OF s2] w1 n u by (auto simp: len_bytes_def)
  have check: "end \<le> int (d2 + n) \<longleftrightarrow> \<not> fits end d n" unfolding w2 fits_def by linarith
  have "emit_final_literals dst d end src s se =
      (if \<not> fits end d n then Inr (dst2, d, s)
       else bindS (memcpy dst2 d2 src s n) (\<lambda>dst3. Inr (dst3, d2 + n, s + n)))"
  proof -
    have "\<not> n < 15" using n(3) by simp
    then show ?thesis by (simp only: emit_final_literals_def Let_def n(1) s1 s2 bindS_simps prod.case check if_False)
  qed
  moreover have "\<exists>dst3. memcpy dst2 d2 src s n = Inr dst3" if "fits end d n"
    using room(3) [OF that] w2 n assms(3) by (simp add: memcpy_eq)
  ultimately show ?thesis using n by (auto simp: n_def [symmetric])
qed

text \<open>
  The loop returns if some relation \<open>R\<close> between the positions in the two buffers gives the room and is kept by every sequence. If \<open>R\<close>
  also says that all the literals fit (\<open>full\<close>), then the block is encoded to its end.
\<close>

lemma lz4_encode_loop_returns:
  assumes seq: "\<And>d s mb me. R d s \<Longrightarrow> int d < end \<Longrightarrow> sb \<le> s \<Longrightarrow> s \<le> mb \<Longrightarrow> mb + 4 \<le> me \<Longrightarrow> me + 65 \<le> be \<Longrightarrow>
      seq_room n end d (mb - s) (me - mb) \<and> (mb - s < 15 \<or> fits end d (mb - s) \<longrightarrow> R (seq_end d (mb - s) (me - mb)) me)"
    and final: "\<And>d s. R d s \<Longrightarrow> int d < end \<Longrightarrow> sb \<le> s \<Longrightarrow> s + 15 \<le> be \<Longrightarrow> final_room n end d (be - s)"
    and full: "\<And>d s L. full \<Longrightarrow> R d s \<Longrightarrow> sb \<le> s \<Longrightarrow> s + L \<le> be \<Longrightarrow> int d < end \<and> fits end d L"
    and "encode_inv src sb be s t" "search_width N" "se + 128 = int be" "R d s" "length dst = n" "s + 15 \<le> be"
  shows "\<exists>dst' d' s'. lz4_encode_loop N src sb se skip end dst d s t = Inr (dst', d', s') \<and> (full \<longrightarrow> \<not> skip \<longrightarrow> s' = be)"
  using assms(4-9)
proof (induction "be - s" arbitrary: s t d dst rule: less_induct)
  case less
  have inv: "sb \<le> s" "s < be" "be \<le> length src" "be - s < 2 ^ 32" using less.prems(1) by (auto simp: encode_inv_def)
  note simps = lz4_encode_loop.simps [of N src sb se skip "end" dst d s t]
  show ?case
  proof (cases "int d < end")
    case True
    show ?thesis
    proof (cases rule: encode_turn [OF less.prems(1-3), case_names none hit])
      case (none t')
      have "\<exists>dst' d'. emit_final_literals dst d end src s se = Inr (dst', d', if fits end d (be - s) then be else s)"
        using final [OF less.prems(4) True inv(1) less.prems(6)] less.prems(5)
        by (intro emit_final_literals_fits less.prems inv) simp
      moreover have "fits end d (be - s)" if full using full [OF that less.prems(4) inv(1)] inv(2) by simp
      ultimately show ?thesis using True none by (auto simp: simps split: if_splits)
    next
      case (hit t' b dist mb me)
      have le: "mb + 4 \<le> me" "me + 65 \<le> be" "mb + 31 \<le> length src" "me - s < 2 ^ 32"
        using hit less.prems(3) inv by simp_all
      note sr = seq [OF less.prems(4) True inv(1) hit(4) le(1,2)]
      obtain dst1 where emit: "lz4_emit_match (of_nat (mb - s)) (of_nat (me - mb)) (of_int dist) dst d end src s =
          Inr (dst1, if mb - s < 15 \<or> fits end d (mb - s) then Some (seq_end d (mb - s) (me - mb)) else None)"
        using lz4_emit_match_fits [OF hit(3,4) le(1,4,3)] sr less.prems(5) by blast
      note w = lz4_emit_match_writes(3) [OF emit]
      show ?thesis
      proof (cases "mb - s < 15 \<or> fits end d (mb - s)")
        case fit: True
        have eq: "lz4_encode_loop N src sb se skip end dst d s t =
            lz4_encode_loop N src sb se skip end dst1 (seq_end d (mb - s) (me - mb)) me t'"
          using True fit hit(1,2) emit by (simp add: simps)
        have "be - me < be - s" using le hit(4) by simp
        then show ?thesis unfolding eq
          using sr fit le less.prems w by (intro less.hyps hit(11)) auto
      next
        case False
        moreover have "fits end d (mb - s)" if full using full [OF that less.prems(4) inv(1), of "mb - s"] le hit(4) by simp
        ultimately show ?thesis using True hit(1,2) emit by (auto simp: simps)
      qed
    qed
  next
    case False
    moreover have "int d < end" if full using full [OF that less.prems(4) inv(1), of 0] inv(2) by simp
    ultimately show ?thesis by (auto simp: simps)
  qed
qed

lemma length_len_bytes_le: "length (len_bytes n) \<le> n div 255 + 1" "15 \<le> n \<Longrightarrow> length (len_bytes n) = (n - 15) div 255 + 1"
  by (auto simp: length_len_bytes intro: div_le_mono)

text \<open>A small block: the safety margin takes what the code writes past its limit.\<close>

lemma lz4_encode_loop_small:
  assumes "encode_inv src sb be s t" "search_width N" "se + 128 = int be" "end + 128 \<le> int (length dst)" "s + 15 \<le> be"
    "be - sb \<le> 24563"
  shows "\<exists>r. lz4_encode_loop N src sb se skip end dst d s t = Inr r"
proof -
  have "\<exists>dst' d' s'. lz4_encode_loop N src sb se skip end dst d s t = Inr (dst', d', s') \<and> (False \<longrightarrow> \<not> skip \<longrightarrow> s' = be)"
  proof (rule lz4_encode_loop_returns [where R = "\<lambda>d s. True" and n = "length dst"])
    fix d s mb me assume d: "int d < end" and le: "sb \<le> s" "s \<le> mb" "mb + 4 \<le> me" "me + 65 \<le> be"
    define L where "L = mb - s" define M where "M = me - mb"
    have LM: "L + M \<le> 24498" using le assms(6) by (simp add: L_def M_def)
    have L: "(L - 15) div 255 \<le> 96" "(M - 19) div 255 \<le> 95" using LM by simp_all
    have "seq_room (length dst) end d L M"
      using d assms(4) L LM unfolding seq_room_def fits_def
      by (cases "15 \<le> L") (auto simp: length_len_bytes)
    then show "seq_room (length dst) end d (mb - s) (me - mb) \<and> (mb - s < 15 \<or> fits end d (mb - s) \<longrightarrow> True)"
      by (simp add: L_def M_def)
  next
    fix d s assume d: "int d < end" and le: "sb \<le> s" "s + 15 \<le> be"
    define L where "L = be - s"
    have "(L - 15) div 255 \<le> 96" using le assms(6) by (simp add: L_def)
    then have "final_room (length dst) end d L"
      using d assms(4) unfolding final_room_def fits_def by (auto simp: length_len_bytes)
    then show "final_room (length dst) end d (be - s)" by (simp add: L_def)
  qed (use assms in auto)
  then show ?thesis by blast
qed

lemma div_sum_le: "a div 255 + b div 255 \<le> (a + b) div (255 :: nat)"
proof -
  have "255 * (a div 255 + b div 255) \<le> a + b" by simp
  then show ?thesis by (simp add: less_eq_div_iff_mult_less_eq mult.commute)
qed

lemma seq_growth:
  assumes "4 \<le> M"
  shows "3 + length (len_bytes L) + length (len_bytes (M - 4)) \<le> M + L div 255"
proof -
  have "length (len_bytes L) \<le> L div 255 + 1" by (rule length_len_bytes_le)
  moreover have "length (len_bytes (M - 4)) + 4 \<le> M" using assms by (auto simp: length_len_bytes)
  ultimately show ?thesis by linarith
qed

text \<open>A destination that is large enough: sequences do not need more than their share of it.\<close>

lemma lz4_encode_loop_large:
  assumes "encode_inv src sb be sb t" "search_width N" "se + 128 = int be" "sb + 15 \<le> be"
    "d0 + (be - sb) + (be - sb) div 255 + 150 \<le> length dst"
    "int (d0 + (be - sb) + (be - sb) div 255 + 3) \<le> end"
  shows "\<exists>dst' d'. lz4_encode_loop N src sb se False end dst d0 sb t = Inr (dst', d', be)"
proof -
  let ?R = "\<lambda>d s. d \<le> d0 + (s - sb) + (s - sb) div 255"
  have sum: "d + L + L div 255 \<le> d0 + (be - sb) + (be - sb) div 255"
    if "?R d s" "sb \<le> s" "s + L \<le> be" for d s L
  proof -
    have "(s - sb) div 255 + L div 255 \<le> (s - sb + L) div 255" by (rule div_sum_le)
    also have "\<dots> \<le> (be - sb) div 255" by (rule div_le_mono) (use that in simp)
    finally show ?thesis using that by linarith
  qed
  have lb: "d + 1 + length (len_bytes L) + L \<le> d0 + (be - sb) + (be - sb) div 255 + 2"
    if "?R d s" "sb \<le> s" "s + L \<le> be" for d s L
    using sum [OF that] length_len_bytes_le(1) [of L] by linarith
  have "\<exists>dst' d' s'. lz4_encode_loop N src sb se False end dst d0 sb t = Inr (dst', d', s') \<and> (True \<longrightarrow> \<not> False \<longrightarrow> s' = be)"
  proof (rule lz4_encode_loop_returns [where R = ?R and n = "length dst"])
    fix d s mb me assume d: "?R d s" and le: "sb \<le> s" "s \<le> mb" "mb + 4 \<le> me" "me + 65 \<le> be"
    define L where "L = mb - s" define M where "M = me - mb"
    have sl: "s + L \<le> be" "s + (L + M) \<le> be" "4 \<le> M" "me = s + (L + M)" using le by (simp_all add: L_def M_def)
    have "(M - 19) div 255 \<le> M div 255" "(L - 15) div 255 \<le> L div 255" by (simp_all add: div_le_mono)
    moreover note lb [OF d le(1) sl(1)] sum [OF d le(1) sl(1)] sum [OF d le(1) sl(2)]
      div_sum_le [of L M] length_len_bytes_le(1) [of L] assms(5)
    ultimately have room: "seq_room (length dst) end d L M"
      unfolding seq_room_def by (intro conjI impI; linarith)
    have "(s - sb) div 255 + L div 255 \<le> (s - sb + L) div 255" by (rule div_sum_le)
    also have "\<dots> \<le> (me - sb) div 255" by (rule div_le_mono) (use sl le in simp)
    finally have "?R (seq_end d L M) me"
      using d sl(4) le(1) seq_growth [OF sl(3), of L] unfolding seq_end_def by linarith
    with room show "seq_room (length dst) end d (mb - s) (me - mb) \<and>
        (mb - s < 15 \<or> fits end d (mb - s) \<longrightarrow> ?R (seq_end d (mb - s) (me - mb)) me)"
      unfolding L_def M_def by blast
  next
    fix d s assume d: "?R d s" and le: "sb \<le> s" "s + 15 \<le> be"
    have sl: "s + (be - s) \<le> be" using le by simp
    have "(be - s - 15) div 255 \<le> (be - s) div 255" by (simp add: div_le_mono)
    then show "final_room (length dst) end d (be - s)"
      using lb [OF d le(1) sl] sum [OF d le(1) sl] assms(5)
      unfolding final_room_def by (intro conjI impI; linarith)
  next
    fix d s L assume d: "?R d s" and le: "sb \<le> s" "s + L \<le> be"
    then show "int d < end \<and> fits end d L" using lb [OF d le] assms(6) unfolding fits_def by linarith
  qed (use assms in auto)
  then show ?thesis by blast
qed

lemma encode_blocks_single:
  assumes "lz4_encode_2gb N dst d ds src s s n (replicate 1024 HASH_FILL) False = Inr (dst1, d1, s1)"
    "0 < n" "n \<le> 0x7ffff000" "s1 \<le> s + n"
  shows "encode_blocks N dst d ds src s n = (if s1 - s < n then Inr (0, dst1) else Inr (d1, dst1))"
proof (cases "s1 - s < n")
  case True
  then show ?thesis using assms by (simp add: encode_blocks.simps [of N dst] not_less [symmetric])
next
  case False
  then have "s1 - s = n" using assms by simp
  then show ?thesis
    using assms by (simp add: encode_blocks.simps [of N dst] encode_blocks.simps [of N dst1] not_less [symmetric])
qed

lemma encode_inv_initial:
  "s < be \<Longrightarrow> be \<le> length src \<Longrightarrow> be \<le> s + 0x7ffff000 \<Longrightarrow> encode_inv src s be s (replicate 1024 HASH_FILL)"
  using table_ok_initial [of src s] by (simp add: encode_inv_def)

lemma lz4raw_encode_buffer_small:
  assumes "search_width N" "src_size \<le> length src" "15 \<le> src_size" "src_size \<le> 24563"
  shows "\<exists>n dst'. lz4raw_encode_buffer N dst (length dst) src src_size = Inr (n, dst') \<and>
    n \<le> length dst \<and> length dst' = length dst"
proof -
  let ?t = "replicate 1024 HASH_FILL"
  have inv: "encode_inv src 0 src_size 0 ?t" using assms by (intro encode_inv_initial) auto
  obtain dst1 d1 s1 where r: "lz4_encode_2gb N dst 0 (int (length dst)) src 0 0 src_size ?t False = Inr (dst1, d1, s1)"
    using lz4_encode_loop_small [OF inv assms(1), of "int src_size - 128" "int (length dst) - 128" dst False 0] assms
    by (auto simp: lz4_encode_2gb_def)
  have "length dst1 = length dst \<and> d1 \<le> length dst \<and> s1 \<le> src_size"
    using lz4_encode_loop_sound [OF inv assms(1), of "int src_size - 128" 0 dst False "int (length dst) - 128" dst1 d1 s1] r
    by (auto simp: lz4_encode_2gb_def partial_stream.empty)
  then show ?thesis using encode_blocks_single [OF r] assms by (simp add: lz4raw_encode_buffer_def)
qed
lemma lz4raw_encode_buffer_large:
  assumes "search_width N" "src_size \<le> length src" "15 \<le> src_size" "src_size \<le> 0x7ffff000"
    "src_size + src_size div 255 + 150 \<le> length dst"
  shows "\<exists>n dst'. lz4raw_encode_buffer N dst (length dst) src src_size = Inr (n, dst') \<and> 0 < n \<and> n \<le> length dst"
proof -
  let ?t = "replicate 1024 HASH_FILL"
  have inv: "encode_inv src 0 src_size 0 ?t" using assms by (intro encode_inv_initial) auto
  obtain dst1 d1 where r: "lz4_encode_2gb N dst 0 (int (length dst)) src 0 0 src_size ?t False = Inr (dst1, d1, src_size)"
    using lz4_encode_loop_large [OF inv assms(1), of "int src_size - 128" 0 dst "int (length dst) - 128"] assms
    by (auto simp: lz4_encode_2gb_def)
  have "length dst1 = length dst \<and> d1 \<le> length dst \<and> complete_stream (take d1 dst1) (take src_size src)"
    using lz4_encode_loop_sound [OF inv assms(1), of "int src_size - 128" 0 dst False "int (length dst) - 128" dst1 d1 src_size] r
    by (auto simp: lz4_encode_2gb_def partial_stream.empty)
  moreover from this have "0 < d1" by (cases d1) (auto simp: complete_stream_def last_bytes_def)
  ultimately show ?thesis using encode_blocks_single [OF r] assms by (simp add: lz4raw_encode_buffer_def)
qed

text \<open>
  C36: for a source of 15 to 24563 bytes, which pages of 4096 and of 16384 bytes are, \<open>lz4raw_encode_buffer\<close> reads only the source and writes
  only the destination, whatever its size: the safety margin of 128 bytes takes every wide store.
\<close>

theorem lz4_encode_safe:
  assumes "search_width N" "src_size \<le> length src" "15 \<le> src_size" "src_size \<le> 24563"
  shows "\<exists>n dst'. lz4raw_encode_buffer N dst (length dst) src src_size = Inr (n, dst') \<and>
    n \<le> length dst \<and> length dst' = length dst"
  using assms by (rule lz4raw_encode_buffer_small)

theorem lz4_encode_safe_witness:
  "\<exists>n dst'. lz4raw_encode_buffer 32 (replicate 4096 0) 4096 (replicate 4096 7) 4096 = Inr (n, dst') \<and> n \<le> 4096"
  using lz4_encode_safe [of 32 4096 "replicate 4096 7" "replicate 4096 0"] by (auto simp: search_width_def)

text \<open>
  C37: an encoder given enough room succeeds. For every source of 15 bytes up to a whole block, a destination of 150 bytes more
  than the source and one byte for each 255 is never overrun, and a stream is produced.
\<close>

theorem lz4_encode_succeeds:
  assumes "search_width N" "src_size \<le> length src" "15 \<le> src_size" "src_size \<le> 0x7ffff000"
    "src_size + src_size div 255 + 150 \<le> length dst"
  shows "\<exists>n dst'. lz4raw_encode_buffer N dst (length dst) src src_size = Inr (n, dst') \<and> 0 < n \<and> n \<le> length dst"
  using assms by (rule lz4raw_encode_buffer_large)

theorem lz4_encode_succeeds_witness:
  "\<exists>n dst'. lz4raw_encode_buffer 8 (replicate 400 0) 400 (replicate 200 7) 200 = Inr (n, dst') \<and> 0 < n \<and> n \<le> 400"
  using lz4_encode_succeeds [of 8 200 "replicate 200 7" "replicate 400 0"] by (auto simp: search_width_def)

section \<open>Where the encoder leaves its buffers\<close>

lemma lz4_store_length_fault: "lz4_store_length dst d L = Inl f \<Longrightarrow> f = Dst_Access"
proof (induction dst d L rule: lz4_store_length.induct)
  case (1 dst d L)
  have fill: "lz4_fill16 dst d = Inl g \<Longrightarrow> g = Dst_Access" for g
    by (auto simp: lz4_fill16_def store8_def store_bytes_def bindS_eq_Inl_iff split: if_splits)
  show ?case
  proof (cases "17 * 255 \<le> L")
    case True
    then show ?thesis using "1.prems" "1.IH" [OF True] fill by (auto simp: lz4_store_length.simps [of dst] bindS_eq_Inl_iff)
  next
    case False
    then show ?thesis using "1.prems" fill
      by (auto simp: lz4_store_length.simps [of dst] bindS_eq_Inl_iff store1_def store_bytes_def split: if_splits)
  qed
qed

lemma lz4_store_length_overrun:
  assumes "length dst \<le> d + unat L div 255"
  shows "lz4_store_length dst d L = Inl Dst_Access"
proof (cases "lz4_store_length dst d L")
  case (Inl f)
  then show ?thesis using lz4_store_length_fault by simp
next
  case (Inr r)
  then show ?thesis using lz4_store_length_writes [of dst d L "fst r" "snd r"] assms by (simp add: length_enc_len)
qed

lemma get_replicate: "p + k \<le> n \<Longrightarrow> get (replicate n x) p k = replicate k x"
  by (simp add: get_def min_def)

lemma le_word_zeros: "le_word (replicate k 0) = 0"
  by (induction k) simp_all

lemma load4_zeros: "p + 4 \<le> n \<Longrightarrow> load4 (replicate n 0) p = Inr 0"
  by (simp add: load4_eq get_replicate le_word_zeros)

lemma search_zeros:
  assumes "136 \<le> n"
  shows "\<exists>t'. lz4_search (replicate n 0) 0 (int n - 128) 0 (replicate 1024 HASH_FILL) = Inr (t', Some (4, 1))"
proof -
  let ?t = "replicate 1024 HASH_FILL"
  have h: "lz4_hash 0 = 0" by (simp add: lz4_hash_def)
  have turn1: "search_turn (replicate n 0) 0 0 ?t = Inr (?t[0 := \<lparr>hash_offset = 3, hash_word = 0\<rparr>], None)"
    using assms unfolding search_turn_def
    by (simp add: load4_zeros h hash_hit_def HASH_FILL_def Let_def)
  have turn2: "\<exists>t'. search_turn (replicate n 0) 0 4 (?t[0 := \<lparr>hash_offset = 3, hash_word = 0\<rparr>]) = Inr (t', Some (4, 1))"
    using assms unfolding search_turn_def by (simp add: load4_zeros h hash_hit_def Let_def)
  show ?thesis
    using assms turn1 turn2
    by (auto simp: lz4_search.simps [of _ _ _ 0] lz4_search.simps [of _ _ _ 4])
qed

lemma agree_refl: "agree xs xs = length xs"
  by (induction xs) simp_all

lemma expand_forward_zeros:
  assumes "search_width N" "se + 64 \<le> int n" "r \<le> e"
  shows "\<exists>e'. expand_forward N (replicate n 0) se r e = Inr e' \<and> se \<le> int e' \<and> e \<le> e'"
  using assms
proof (induction N "replicate n (0 :: u8)" se r e rule: expand_forward.induct)
  case (1 N se r e)
  show ?case
  proof (cases "int e < se")
    case True
    have "N \<le> 64" using search_width_pos [OF "1.prems"(1)] by simp
    then have "e + N \<le> n" "r + N \<le> n" using True "1.prems" by linarith+
    then have nm: "lz4_nmatch N (replicate n 0) r e = Inr N"
      using "1.prems"(1) by (simp add: lz4_nmatch_spec get_replicate agree_refl)
    then show ?thesis using "1.hyps" [OF True nm] "1.prems" True
      by (auto simp: expand_forward.simps [of N _ se r e])
  next
    case False
    then show ?thesis by (simp add: expand_forward.simps)
  qed
qed

text \<open>
  C39: the comment above \<open>lz4_store_length\<close> promises that it accesses a constant number of bytes above the end of the destination and returns
  zero on failure, but the code ignores the end. Encoding 40000 or more zero bytes into a destination of 150 bytes therefore writes past
  the destination instead of failing.
\<close>

theorem lz4_encode_overruns:
  assumes "search_width N" "40000 \<le> n" "n \<le> 0x7ffff000" "length dst = 150"
  shows "lz4raw_encode_buffer N dst (length dst) (replicate n 0) n = Inl Dst_Access"
proof -
  let ?src = "replicate n (0 :: u8)" let ?t = "replicate 1024 HASH_FILL" let ?se = "int n - 128"
  obtain t' where s: "lz4_search ?src 0 ?se 0 ?t = Inr (t', Some (4, 1))" using search_zeros [of n] assms(2) by auto
  have inv: "encode_inv ?src 0 n 0 ?t" using assms by (intro encode_inv_initial) auto
  have se: "?se + 128 = int n" by simp
  obtain mb me where e: "expand_match N ?src 0 ?se 0 4 (nat 1) = Inr (mb, me)" "mb \<le> 4" "match_at ?src 0 4 1" "int me \<le> ?se + 63"
  proof (cases rule: encode_turn [OF inv assms(1) se, case_names none hit])
    case (hit t2 b dist mb me)
    then have "b = 4" "dist = 1" using s by simp_all
    then show ?thesis using hit that [of mb me] by simp
  qed (use s in simp)
  have me: "n - 128 \<le> me"
    using expand_forward_zeros [of N ?se n 7 8] assms e(1) by (auto simp: expand_match_def bindS_eq_Inr_iff)
  define M where "M = me - mb"
  have M: "39868 \<le> M" "M < 2 ^ 32" "mb \<le> me" "me < 2 ^ 32" using me e(2,4) assms by (simp_all add: M_def)
  have u: "unat (of_nat mb :: u32) = mb" "unat (of_nat M :: u32) = M" using M e(2) by (auto intro: of_nat_u32_small)
  have "lz4_emit_match (of_nat mb) (of_nat M) 1 dst 0 22 ?src 0 = Inl Dst_Access"
  proof -
    have small: "\<not> 15 \<le> (of_nat mb :: u32)" using e(2) by (simp add: u32_15 u)
    have m4: "unat (of_nat M - 4 :: u32) = M - 4" using M u by (simp add: unat_sub word_le_nat_alt)
    have g: "4 \<le> (of_nat M :: u32)" "(1 :: u32) \<le> 0xFFFF" "15 \<le> (of_nat M - 4 :: u32)"
      using M by (simp_all add: word_le_nat_alt u m4)
    let ?cmd = "ucast (push_bit 4 (clamp (of_nat mb) 15) OR clamp (of_nat M - 4) 15) :: u8"
    obtain dst1 where s1: "store1 dst 0 ?cmd = Inr dst1" using assms(4) by (simp add: store1_def store_bytes_def)
    note w1 = store1_writes [OF s1]
    obtain dst3 where s3: "copy_literal dst1 1 ?src 0 (of_nat mb) = Inr (dst3, 1 + mb)"
      using copy_literal_room [of 1 "of_nat mb" dst1 0 ?src] w1 assms e(2) by (auto simp: u)
    note w3 = copy_literal_writes [OF s3]
    obtain dst4 where s4: "store2 dst3 (1 + mb) (ucast (1 :: u32)) = Inr dst4"
      using w1 w3 assms(4) e(2) by (simp add: store2_def store_bytes_def)
    note w4 = store2_writes [OF s4]
    have "unat (of_nat M - 4 - 15 :: u32) = M - 19" using M u m4 by (simp add: unat_sub word_le_nat_alt)
    then have s5: "lz4_store_length dst4 (1 + mb + 2) (of_nat M - 4 - 15) = Inl Dst_Access"
      using M w1 w3 w4 assms(4) by (intro lz4_store_length_overrun) simp
    show ?thesis
      using g small
      by (simp only: lz4_emit_match_def Let_def lz4_store_extra_def s1 s3 s4 s5 bindS_simps prod.case add_0
          not_True_eq_False if_False if_True simp_thms)
  qed
  then have "lz4_encode_2gb N dst 0 (int (length dst)) ?src 0 0 n ?t False = Inl Dst_Access"
    using s e(1) assms(4) by (simp add: lz4_encode_2gb_def lz4_encode_loop.simps [of N] M_def)
  then show ?thesis using assms(2,3)
    by (simp add: lz4raw_encode_buffer_def encode_blocks.simps not_less [symmetric])
qed


theorem lz4_encode_overruns_witness:
  "lz4raw_encode_buffer 32 (replicate 150 0) 150 (replicate 40000 0) 40000 = Inl Dst_Access"
  using lz4_encode_overruns [of 32 40000 "replicate 150 0"] by (simp add: search_width_def)

text \<open>A source of less than 15 bytes is copied by a load of 16 bytes, which reads past its end.\<close>

lemma lz4_encode_short_overread:
  assumes "0 < length src" "length src < 15" "128 < length dst"
  shows "lz4raw_encode_buffer N dst (length dst) src (length src) = Inl Src_Access"
proof -
  have "lz4_search src 0 (int (length src) - 128) 0 t = Inr (t, None)" for t using assms by (simp add: lz4_search.simps)
  moreover have "emit_final_literals dst 0 e src 0 (int (length src) - 128) = Inl Src_Access" for e
    using assms by (simp add: emit_final_literals_def store1_def store_bytes_def memcpy_def load_bytes_def)
  ultimately have "lz4_encode_2gb N dst 0 (int (length dst)) src 0 0 (length src) t False = Inl Src_Access" for t
    using assms by (simp add: lz4_encode_2gb_def lz4_encode_loop.simps)
  then show ?thesis using assms(1,2) by (simp add: lz4raw_encode_buffer_def encode_blocks.simps not_less [symmetric])
qed

section \<open>Round trip\<close>

text \<open>
  C34: what \<open>lz4raw_encode_buffer\<close> produces, \<open>lz4raw_decode_buffer\<close> reads back. If the encoder returns a count other than zero,
  decoding that many bytes of its output into any buffer gives the source bytes, cut at the size of the buffer, and
  touches nothing after them. This holds for every input (more than one block of two gigabytes included), every size of the destination
  and each width of the search.
\<close>

theorem lz4_roundtrip:
  assumes "search_width N" "src_size \<le> length src"
    and enc: "lz4raw_encode_buffer N dst dst_size src src_size = Inr (n, cbuf)" "0 < n"
    and "out_size \<le> length out"
  shows "n \<le> length cbuf \<and> length cbuf = length dst \<and> lz4raw_decode_buffer out out_size cbuf n =
    Inr (min out_size src_size, take (min out_size src_size) src @ drop (min out_size src_size) out)"
  using assms by (rule lz4raw_roundtrip)

theorem lz4_roundtrip_witness:
  "\<exists>n cbuf. lz4raw_encode_buffer 8 (replicate 400 0) 400 (replicate 200 7) 200 = Inr (n, cbuf) \<and> 0 < n \<and>
    lz4raw_decode_buffer (replicate 200 0) 200 cbuf n = Inr (200, replicate 200 7)"
proof -
  obtain n cbuf where enc: "lz4raw_encode_buffer 8 (replicate 400 0) 400 (replicate 200 7) 200 = Inr (n, cbuf)" "0 < n"
    using lz4raw_encode_buffer_large [of 8 200 "replicate 200 7" "replicate 400 0"] by (auto simp: search_width_def)
  from lz4_roundtrip [of 8 200 "replicate 200 7" "replicate 400 0" 400 n cbuf 200 "replicate 200 0"] enc
  show ?thesis by (auto simp: search_width_def)
qed

text \<open>
  C38: the well-formedness of the state of the encoder is kept: each entry of the hash table is unused or has the word that stands at its offset. The
  search from a well-formed state faults on no input. When it finds a match, the match extended in both directions
  begins after the data already encoded, ends before the end of the block, repeats the bytes at its distance, has a length of at least four and a
  distance the format can express; and the table is well-formed for the data after the match.
\<close>

theorem lz4_matches_sound:
  assumes "encode_inv src sb be s table" "search_width N"
  shows "\<exists>table' hit. lz4_search src sb (int be - 128) s table = Inr (table', hit) \<and>
    (\<forall>b dist. hit = Some (b, dist) \<longrightarrow> 0 < dist \<and> dist < 65536 \<and>
      (\<exists>mb me. expand_match N src sb (int be - 128) s b (nat dist) = Inr (mb, me) \<and>
        s \<le> mb \<and> mb + 4 \<le> me \<and> me < be \<and> nat dist \<le> mb \<and> repeats src (nat dist) mb me \<and>
        encode_inv src sb be me table'))"
proof (cases rule: encode_turn [OF assms, of "int be - 128", case_names eq none hit])
  case (hit t' b dist mb me)
  then have "mb + 4 \<le> me" "me < be" "0 < dist" "dist < 65536" by (simp_all add: match_at_def)
  with hit show ?thesis by auto
qed auto

theorem lz4_matches_sound_witness:
  "encode_inv (replicate 200 7) 0 200 0 (replicate 1024 HASH_FILL) \<and>
   (\<exists>table' hit. lz4_search (replicate 200 7) 0 (int 200 - 128) 0 (replicate 1024 HASH_FILL) = Inr (table', hit))"
proof -
  have inv: "encode_inv (replicate 200 7) 0 200 0 (replicate 1024 HASH_FILL)" by (rule encode_inv_initial) simp_all
  from lz4_matches_sound [OF this, of 8] show ?thesis using inv by (auto simp: search_width_def)
qed

end
