(* ===== verification/Spec2Isabelle.thy ===== *)
theory Spec2Isabelle
  imports BPF_Filter CF_BinaryHeap Bitarray Strto UTF8 OSKextVersion CF_BitVector Dispatch_Semaphore Dispatch_Group_Inv
    In_Cksum_Packets Libc_Sort LZ4_Roundtrip
begin

text \<open>
  \<^bold>\<open>Verified models of parts of the Darwin sources kept in this repository.\<close>

  The repository collects the C sources of the Darwin kernel and of the libraries above it: \<open>xnu\<close> (the
  kernel), \<open>Libc\<close>, \<open>libmalloc\<close>, \<open>libdispatch\<close>, Core Foundation (under \<open>runloop\<close>), \<open>dyld\<close> and \<open>objc4\<close>, with
  some Objective-C applications and notes. The parts below are self-contained pieces of those sources, chosen
  because what they compute can be stated exactly: an interpreter with its validator, containers, codecs and
  parsers, checksums, sorting, and the synchronisation objects that threads share. They do not call each other; what they share are
  the C integer types and the idioms of the language, which \<open>Prelude\<close> holds, and for the synchronisation
  objects the executions by many threads, which \<open>Interleaving\<close> holds.

  \<^bold>\<open>How code is modelled.\<close> A C function is a HOL function of the same name, without leading underscores; a
  \<open>struct\<close> is a \<open>record\<close>, an \<open>enum\<close> a \<open>datatype\<close>, an unsigned integer of \<open>w\<close> bits a \<open>w word\<close> wherever wrap-around
  can matter. A loop is a recursive function with a termination proof; no model uses fuel, so every model is a
  total function. A read or write outside an object, a division by zero, an undefined shift, a failed assertion
  and a halt are values (\<open>None\<close>, or \<open>Inl\<close> with the fault), so that a theorem that gives the result of a function
  also says that none of them happens. The bit arrays of \<open>libmalloc\<close> are the exception: their memory has no end in the
  model, and that words past the allocated ones neither matter nor change is a theorem. Code the sources only
  call (allocators, comparison callbacks, the white-space class of a locale) is an argument, with what is relied on as
  hypotheses.

  \<^bold>\<open>\<open>BPF_Filter\<close>\<close>: the packet filter of \<open>xnu/bsd/net/bpf_filter.c\<close>. The readers of contiguous packets and of
  chains of mbufs (\<open>m_xword\<close>, \<open>m_xhalf\<close>, \<open>m_xbyte\<close>), the interpreter \<open>bpf_filter\<close> on a 32-bit accumulator and index
  register, and the program validator \<open>bpf_validate\<close>. A validated program runs to a result on every packet without a fault, unless
  it shifts by a constant of 32 or more or by the register X; and the result does not depend on how the packet is cut
  into mbufs, as long as none is empty, all but the last have three bytes and the offsets of indirect loads do not wrap
  around. Three defects are proved: wide shifts pass the validator, \<open>m_xhalf\<close> reads past an empty mbuf, and an indirect
  load reads at the wrapped offset in a chain while it fails in a contiguous buffer.

  \<^bold>\<open>\<open>CF_BinaryHeap\<close>\<close>: \<open>CFBinaryHeap.c\<close>. The array heap with its retain, release and compare callbacks. Every heap
  reached through the interface is a priority queue over the multiset of its values (the locale \<open>prio_queue\<close> is
  that contract, interpreted on the heap), \<open>CFBinaryHeapGetValues\<close> sorts, and retains and releases balance.
  \<open>__CFBinaryHeapEqual\<close> is proved to answer the wrong way round.

  \<^bold>\<open>\<open>Bitarray\<close>\<close>: \<open>libmalloc/src/bitarray.c\<close>. The array of bits with up to four levels of summaries. All operations
  refine a set of indices (locale \<open>index_set\<close>) and keep to the words allocated, and zapping several bits at once is
  zapping the first one repeatedly. Two defects are proved: with a count of zero the small arrays still zap a bit, and
  zapping the first set bit of an array of one bit ends in the fatal error on an invalid level.

  \<^bold>\<open>\<open>Strto\<close>\<close>: the \<open>strtol\<close> family of \<open>Libc/stdlib/FreeBSD\<close> and \<open>Libc/locale/FreeBSD\<close>, on byte and wide strings, and
  \<open>strtonum\<close>. Value, end pointer and \<open>errno\<close> are those of the subject sequence of the C standard, for every base;
  decimal output reads back; the wide-character functions differ exactly on a \<open>0x\<close> without digits.

  \<^bold>\<open>\<open>UTF8\<close>\<close>: the UTF-8 codec of \<open>Libc/locale/FreeBSD/utf8.c\<close>, character by character with a restartable state and on
  whole strings. It accepts exactly the encodings of the Unicode scalar values, asks for more exactly on their
  proper prefixes, may be fed in pieces, converts strings back and forth and stays within the destination. The manual
  page \<open>utf8.5\<close> describes a wider encoding, of up to six octets.

  \<^bold>\<open>\<open>OSKextVersion\<close>\<close>: kernel extension versions of \<open>xnu/libkern/OSKextVersion.c\<close>. The parser never leaves the
  string; what it accepts is given field by field, and compared with the grammar of the documented format: all of that
  is accepted with its meaning, and three extensions of it are. Versions compare as their fields do; the writer fits
  its buffer and what it writes reads back.

  \<^bold>\<open>\<open>CF_BitVector\<close>\<close>: \<open>CFBitVector.c\<close>. Bits packed into bytes refine a list of bits under every operation; the
  contract between the mapping routine and its mappers is the locale \<open>bitwise_mapper\<close>, interpreted on the three
  mappers that write. Two defects are proved: copying out an unaligned range, and equality after shrinking.

  \<^bold>\<open>\<open>Dispatch_Semaphore\<close>\<close>: semaphores of \<open>libdispatch/src/semaphore.c\<close>. The state has the shared words and where
  each thread stands in its call; a step is one atomic access of one thread, and a schedule is a list of steps, so
  the theorems are about every interleaving. Waits never take more permits than there are, no wake-up is lost,
  and the calls in progress end within a number of steps that depends on the number of threads only. The locale
  \<open>interleaved\<close> gives the rules that lead from steps to schedules; it is interpreted on semaphores and on groups.

  \<^bold>\<open>\<open>Dispatch_Group\<close>, \<open>Dispatch_Group_Inv\<close>\<close>: groups of the same file. The first has the state word with generation,
  value and flags, the operations, and the step of a thread by cases; the second the invariants. The value counts
  enters and leaves with exact crash conditions; a group holds a reference to itself while a thread works on it, when
  leaves are called for enters that have returned (a leave that comes between the subtraction of an enter and its
  reference releases too early, which is exhibited);
  when the group is empty and nothing can move, no wait sleeps and every notification has been submitted; a wait
  that succeeds has seen the group empty. A notification that is submitted while the group is in use is exhibited.

  \<^bold>\<open>\<open>In_Cksum\<close>, \<open>In_Cksum_Packets\<close>\<close>: the Internet checksum of \<open>xnu/bsd/netinet\<close> and \<open>netinet6\<close>. The first has the loops of
  \<open>cpu_in_cksum_gen.c\<close> on 64-bit and on 32-bit accumulators, for a range of a chain of mbufs at any alignment; the locale
  \<open>mbuf_sum\<close> is what the loop over the chain needs of the sum of one mbuf, interpreted on both widths. The result is the
  one's complement sum of the bytes. The second has the checksums of segments with their pseudo headers, of IP headers,
  and the adjustment of a sum computed by hardware: a stored checksum verifies however the packet is cut, the change of
  any byte is noticed, and the short cuts agree with the general routine. The sums that lose a carry (\<open>in6_pseudo\<close>,
  \<open>in_pseudo64\<close>), a check that panics on short segments, an adjustment that goes by addresses instead of
  positions and takes no account of an odd offset, and a read past the end for an empty range are exhibited.

  \<^bold>\<open>\<open>Libc_Sort\<close>\<close>: \<open>qsort\<close>, \<open>heapsort\<close> and \<open>bsearch\<close> of \<open>Libc/stdlib/FreeBSD\<close>, on arrays of elements with a comparison function and the
  answers of \<open>malloc\<close> as parameters. For every comparison function \<open>qsort\<close> stays in the array, ends and permutes; for one that orders
  the elements both routines sort, and \<open>bsearch\<close> then finds what is there. The exchange of elements in units of words or bytes refines the
  exchange on elements. That \<open>qsort\<close> can leave an array unsorted when memory is short is shown on 24 numbers. Elements have at least one byte; the
  test of \<open>heapsort\<close> for a size of zero is modelled.

  \<^bold>\<open>\<open>LZ4_Decode\<close>, \<open>LZ4_Encode\<close>, \<open>LZ4_Roundtrip\<close>\<close>: the LZ4 codec of the VM compressor, \<open>xnu/osfmk/vm/lz4.c\<close>, with every load and store
  checked against its buffer. The first theory has the format on lists of bytes, and the decoder, which on every input stays in
  its buffers and produces what the format defines or fails; the second has the encoder, with its hash table and its wide
  stores; the third shows that what the encoder writes decodes to the source, that its matches are true repetitions, and
  within which sizes it keeps to its buffers. Two defects are proved: \<open>lz4_store_length\<close> ignores the end of the destination, and
  a source of fewer than 15 bytes is read past its end. The configuration is the one without assembly and without
  early abort; the width of the search is a parameter, and lengths have 32 bits as in the code.

  \<^bold>\<open>Not modelled.\<close> Drivers, file systems, virtual memory (but for the LZ4 codec of its compressor) and the protocols of \<open>xnu\<close>, the loader \<open>dyld\<close> and the
  Objective-C runtime \<open>objc4\<close> act on hardware, the machine's memory layout or the Objective-C object model, which
  none of these models represents. The Objective-C and C++ projects (\<open>AFNetworking\<close>, \<open>SDWebImage\<close>, \<open>GNUstep\<close>,
  \<open>STL-main\<close> and the samples) are written in languages with no model here. Of the modelled files, the runtime
  class registration and the description strings of Core Foundation and \<open>libdispatch\<close>, and the tests, are left
  out. The models of semaphores and groups are sequentially consistent: the memory orders of the atomic accesses
  are not represented, and the kernel's semaphore and its waiting on an address are as documented.
\<close>

end
